(* ===== verification/Go_Crypto.thy ===== *)
theory Go_Crypto
  imports Go_Prelude
begin

text \<open>
  The hashing and big-integer library code that the Chord node and the MapReduce worker
  compute with: \<^verbatim>\<open>crypto/sha1\<close> (the function itself, checked against a published
  test vector), \<^verbatim>\<open>big.Int.SetBytes\<close>, \<^verbatim>\<open>big.Int.Bytes\<close> and
  \<^verbatim>\<open>big.Int.Exp\<close>, and \<^verbatim>\<open>hash/fnv\<close>'s 32-bit FNV-1a. 32-bit registers are
  integers with the reduction modulo \<open>2 ^ 32\<close> written out, so that the simplifier
  evaluates digests of concrete names inside the kernel.
\<close>

unbundle bit_operations_syntax

definition byte_values :: "string \<Rightarrow> int list" where
  "byte_values s = map (\<lambda>c. of_char c) s"

section \<open>SHA-1\<close>

definition rotl32 :: "nat \<Rightarrow> int \<Rightarrow> int" where
  "rotl32 n x = (x * 2 ^ n) mod 4294967296 + x div 2 ^ (32 - n)"

definition add32 :: "int \<Rightarrow> int \<Rightarrow> int" where
  "add32 a b = (a + b) mod 4294967296"

fun be_bytes :: "nat \<Rightarrow> int \<Rightarrow> int list" where
  "be_bytes 0 n = []"
| "be_bytes (Suc k) n = be_bytes k (n div 256) @ [n mod 256]"

fun be_words :: "int list \<Rightarrow> int list" where
  "be_words (a # b # c # d # bs) = (((a * 256 + b) * 256 + c) * 256 + d) # be_words bs"
| "be_words _ = []"

definition sha1_pad :: "int list \<Rightarrow> int list" where
  "sha1_pad bs =
     bs @ 128 # replicate ((119 - length bs mod 64) mod 64) 0 @ be_bytes 8 (8 * int (length bs))"

function chunks16 :: "int list \<Rightarrow> int list list" where
  "chunks16 ws = (if ws = [] then [] else take 16 ws # chunks16 (drop 16 ws))"
  by pat_completeness auto
termination
  by (relation "measure length") auto

declare chunks16.simps [simp del]

datatype sha_phase = Ch | Par1 | Maj | Par2

fun sha1_f :: "sha_phase \<Rightarrow> int \<Rightarrow> int \<Rightarrow> int \<Rightarrow> int" where
  "sha1_f Ch b c d = (b AND c) OR ((4294967295 - b) AND d)"
| "sha1_f Par1 b c d = b XOR c XOR d"
| "sha1_f Maj b c d = (b AND c) OR (b AND d) OR (c AND d)"
| "sha1_f Par2 b c d = b XOR c XOR d"

fun sha1_k :: "sha_phase \<Rightarrow> int" where
  "sha1_k Ch = 0x5A827999"
| "sha1_k Par1 = 0x6ED9EBA1"
| "sha1_k Maj = 0x8F1BBCDC"
| "sha1_k Par2 = 0xCA62C1D6"

type_synonym sha_regs = "int \<times> int \<times> int \<times> int \<times> int"

text \<open>The message schedule is kept as the window of the next sixteen words.\<close>

fun sha1_rounds :: "sha_phase list \<Rightarrow> int list \<Rightarrow> sha_regs \<Rightarrow> sha_regs" where
  "sha1_rounds [] ws s = s"
| "sha1_rounds (p # ps) ws (a, b, c, d, e) =
     sha1_rounds ps (tl ws @ [rotl32 1 (ws ! 13 XOR ws ! 8 XOR ws ! 2 XOR ws ! 0)])
       ((rotl32 5 a + sha1_f p b c d + e + sha1_k p + ws ! 0) mod 4294967296, a, rotl32 30 b, c, d)"

definition sha1_phases :: "sha_phase list" where
  "sha1_phases = replicate 20 Ch @ replicate 20 Par1 @ replicate 20 Maj @ replicate 20 Par2"

fun sha1_block :: "sha_regs \<Rightarrow> int list \<Rightarrow> sha_regs" where
  "sha1_block (a, b, c, d, e) ws =
     (case sha1_rounds sha1_phases ws (a, b, c, d, e) of
        (a', b', c', d', e') \<Rightarrow> (add32 a a', add32 b b', add32 c c', add32 d d', add32 e e'))"

definition sha1_sum :: "int list \<Rightarrow> int list" where
  "sha1_sum bs =
     (case foldl sha1_block (0x67452301, 0xEFCDAB89, 0x98BADCFE, 0x10325476, 0xC3D2E1F0)
             (chunks16 (be_words (sha1_pad bs))) of
        (a, b, c, d, e) \<Rightarrow> be_bytes 4 a @ be_bytes 4 b @ be_bytes 4 c @ be_bytes 4 d @ be_bytes 4 e)"

section \<open>Big integers\<close>

definition big_SetBytes :: "int list \<Rightarrow> int" where
  "big_SetBytes bs = foldl (\<lambda>a b. a * 256 + b) 0 bs"

text \<open>\<open>Bytes\<close> is the big-endian text of the absolute value without leading zeros.\<close>

function big_Bytes_nonneg :: "int \<Rightarrow> int list" where
  "big_Bytes_nonneg n = (if n \<le> 0 then [] else big_Bytes_nonneg (n div 256) @ [n mod 256])"
  by pat_completeness auto
termination
  by (relation "measure nat") auto

declare big_Bytes_nonneg.simps [simp del]

definition big_Bytes :: "int \<Rightarrow> int list" where
  "big_Bytes n = big_Bytes_nonneg \<bar>n\<bar>"

text \<open>\<open>Exp(2, y, nil)\<close>: a non-positive exponent gives 1.\<close>

definition big_Exp2 :: "int \<Rightarrow> int" where
  "big_Exp2 y = (if y \<le> 0 then 1 else 2 ^ nat y)"

section \<open>FNV-1a\<close>

definition fnv32a_step :: "int \<Rightarrow> int \<Rightarrow> int" where
  "fnv32a_step h b = ((h XOR b) * 16777619) mod 4294967296"

definition fnv32a :: "int list \<Rightarrow> int" where
  "fnv32a bs = foldl fnv32a_step 2166136261 bs"

section \<open>Laws\<close>

text \<open>Equations that let the simplifier run the digest on a concrete input.\<close>

lemma chunks16_eval [go_simps]:
  "chunks16 [] = []"
  "chunks16 (w # ws) = take 16 (w # ws) # chunks16 (drop 16 (w # ws))"
  by (simp_all add: chunks16.simps)

lemma replicate_numeral_eval: "replicate (numeral n) x = x # replicate (pred_numeral n) x"
  by (simp add: numeral_eq_Suc)

lemma be_bytes_numeral_eval:
  "be_bytes (numeral k) n = be_bytes (pred_numeral k) (n div 256) @ [n mod 256]"
  by (simp add: numeral_eq_Suc)

lemmas sha1_eval =
  sha1_sum_def sha1_pad_def sha1_phases_def rotl32_def add32_def byte_values_def
  chunks16_eval replicate_numeral_eval be_bytes_numeral_eval big_SetBytes_def

lemma sha1_test_vector:
  "big_SetBytes (sha1_sum (byte_values ''abc'')) = 0xa9993e364706816aba3e25717850c26c9cd0d89d"
  by (simp add: sha1_eval)

lemma be_bytes_length [simp]: "length (be_bytes k n) = k"
  by (induction k arbitrary: n) auto

lemma sha1_sum_length: "length (sha1_sum bs) = 20"
  by (simp add: sha1_sum_def split: prod.split)

lemma big_SetBytes_Nil [simp]: "big_SetBytes [] = 0"
  by (simp add: big_SetBytes_def)

lemma big_SetBytes_snoc [simp]: "big_SetBytes (bs @ [b]) = big_SetBytes bs * 256 + b"
  by (simp add: big_SetBytes_def)

lemma big_SetBytes_Bytes:
  assumes "0 \<le> n"
  shows "big_SetBytes (big_Bytes n) = n"
proof -
  have "0 \<le> n \<Longrightarrow> big_SetBytes (big_Bytes_nonneg n) = n"
  proof (induction n rule: big_Bytes_nonneg.induct)
    case (1 n)
    then show ?case
      by (cases "n \<le> 0") (auto simp: big_Bytes_nonneg.simps [of n] big_Bytes_nonneg.simps [of 0])
  qed
  with assms show ?thesis by (simp add: big_Bytes_def)
qed

lemma fnv32a_bounds: "0 \<le> fnv32a bs \<and> fnv32a bs < 4294967296"
  by (cases bs rule: rev_cases) (simp_all add: fnv32a_def fnv32a_step_def)

end
