(* ===== verification/Chord_Ring.thy ===== *)
theory Chord_Ring
  imports Go_Crypto
begin

text \<open>
  The identifier ring of the Chord node (\<^verbatim>\<open>Lab2/Node\<close>): the ring size, the hash of
  names, the interval test \<open>between\<close> and the finger targets. The locale
  \<open>ring_interval\<close> is what the routing and the stabilisation rely on: an interval
  test that agrees with clockwise distance. \<open>between\<close> is proved to be one.
\<close>

section \<open>Definitions\<close>

definition fingerTableSize :: nat where
  "fingerTableSize = 6"

definition ring_m :: nat where
  "ring_m = 6"

definition hashMod :: int where
  "hashMod = 2 ^ ring_m"

definition strHash :: "string \<Rightarrow> int" where
  "strHash elt = big_SetBytes (sha1_sum (byte_values elt))"

definition between :: "int \<Rightarrow> int \<Rightarrow> int \<Rightarrow> bool \<Rightarrow> bool" where
  "between start elt stop inclusive =
     (if stop > start then (start < elt \<and> elt < stop) \<or> (inclusive \<and> elt = stop)
      else start < elt \<or> elt < stop \<or> (inclusive \<and> elt = stop))"

text \<open>\<open>h := strHash(x); h.Mod(h, hashMod)\<close>, as every caller of \<open>strHash\<close> continues.\<close>

definition ring_id :: "string \<Rightarrow> int" where
  "ring_id s = strHash s mod hashMod"

text \<open>
  The target of finger \<open>k\<close> of a node: \<^verbatim>\<open>(n + 2^(k-1)) mod 2^m\<close>.
\<close>

definition fingerEntry_id :: "int \<Rightarrow> nat \<Rightarrow> int" where
  "fingerEntry_id identifier k = (identifier + big_Exp2 (int k - 1)) mod hashMod"

section \<open>Clockwise distance\<close>

text \<open>
  The distance travelled clockwise from \<open>a\<close> to reach \<open>b\<close>; a full turn where they
  coincide, since an interval from a point to itself is the whole ring.
\<close>

definition cw :: "int \<Rightarrow> int \<Rightarrow> int \<Rightarrow> int" where
  "cw N a b = (if a = b then N else (b - a) mod N)"

definition on_ring :: "int \<Rightarrow> int \<Rightarrow> bool" where
  "on_ring N x \<longleftrightarrow> 0 \<le> x \<and> x < N"

lemma mod_ring_diff:
  assumes "on_ring N a" and "on_ring N b"
  shows "(b - a) mod N = (if a \<le> b then b - a else b - a + N)"
proof (cases "a \<le> b")
  case True
  with assms show ?thesis by (simp add: on_ring_def)
next
  case False
  with assms have "(b - a + N) mod N = b - a + N"
    by (intro mod_pos_pos_trivial) (auto simp: on_ring_def)
  with False show ?thesis by simp
qed

lemma cw_unfold:
  "on_ring N a \<Longrightarrow> on_ring N b \<Longrightarrow> cw N a b = (if a < b then b - a else b - a + N)"
  by (auto simp: cw_def mod_ring_diff)

lemma cw_bounds: "on_ring N a \<Longrightarrow> on_ring N b \<Longrightarrow> 0 < cw N a b \<and> cw N a b \<le> N"
  by (simp add: cw_unfold) (auto simp: on_ring_def)

text \<open>
  The contract of an interval test on a ring of \<open>N\<close> identifiers, and what its clients
  derive from it: the point that stops a search, the progress of a hop, ownership.
\<close>

locale ring_interval =
  fixes N :: int
    and btw :: "int \<Rightarrow> int \<Rightarrow> int \<Rightarrow> bool \<Rightarrow> bool"
  assumes btw_cw: "on_ring N s \<Longrightarrow> on_ring N x \<Longrightarrow> on_ring N t \<Longrightarrow>
    btw s x t incl \<longleftrightarrow> cw N s x < cw N s t \<or> (incl \<and> x = t)"
begin

lemma btw_open_closed:
  "on_ring N s \<Longrightarrow> on_ring N x \<Longrightarrow> on_ring N t \<Longrightarrow>
    btw s x t True \<longleftrightarrow> btw s x t False \<or> x = t"
  by (auto simp: btw_cw)

text \<open>Outside \<open>(s, t]\<close> means that \<open>t\<close> comes before \<open>k\<close> on the way from \<open>s\<close>.\<close>

lemma not_btw_swap:
  "on_ring N s \<Longrightarrow> on_ring N k \<Longrightarrow> on_ring N t \<Longrightarrow> \<not> btw s k t True \<Longrightarrow> btw s t k False"
  by (simp add: btw_cw cw_unfold) (auto simp: on_ring_def split: if_splits)

text \<open>A hop into the open interval \<open>(s, k)\<close> brings the search strictly closer to \<open>k\<close>.\<close>

lemma btw_closer:
  "on_ring N s \<Longrightarrow> on_ring N x \<Longrightarrow> on_ring N k \<Longrightarrow> btw s x k False \<Longrightarrow> cw N x k < cw N s k"
  by (simp add: btw_cw cw_unfold) (auto simp: on_ring_def split: if_splits)

text \<open>
  If \<open>k\<close> lies in \<open>(s, t]\<close> and no point of the ring lies strictly between \<open>s\<close> and
  \<open>t\<close>, then \<open>t\<close> is the first point at or after \<open>k\<close>.
\<close>

lemma btw_first:
  assumes "on_ring N s" "on_ring N k" "on_ring N t" "on_ring N b"
    and "btw s k t True" and "\<not> btw s b t False"
  shows "(t - k) mod N \<le> (b - k) mod N"
  using assms
  by (simp add: btw_cw cw_unfold mod_ring_diff) (auto simp: on_ring_def split: if_splits)

text \<open>Splitting an interval at an inner point.\<close>

lemma btw_split:
  assumes "on_ring N s" "on_ring N x" "on_ring N t" "on_ring N b"
    and "btw s x t False"
  shows "btw s b t False \<longleftrightarrow> btw s b x False \<or> b = x \<or> btw x b t False"
  using assms
  by (simp add: btw_cw cw_unfold) (auto simp: on_ring_def split: if_splits)

end

section \<open>The code's interval test meets the contract\<close>

lemma hashMod_eq: "hashMod = 64"
  by (simp add: hashMod_def ring_m_def)

interpretation chord: ring_interval hashMod between
  by unfold_locales (auto simp: between_def cw_unfold on_ring_def)

lemma ring_id_on_ring [simp, intro]: "on_ring hashMod (ring_id s)"
  by (simp add: on_ring_def ring_id_def hashMod_eq)

lemma mod_on_ring [simp, intro]: "on_ring hashMod (x mod hashMod)"
  by (simp add: on_ring_def hashMod_eq)

text \<open>
  C25: on the identifiers the program uses (reduced modulo \<open>2 ^ 6\<close>), \<open>between\<close> decides
  membership in the clockwise interval from \<open>start\<close> to \<open>stop\<close>: an element is inside
  exactly when it is met strictly before \<open>stop\<close> on the way from \<open>start\<close> (or is
  \<open>stop\<close> itself, with \<open>inclusive\<close>), with the interval from a point to itself read as
  the whole ring.
\<close>

theorem between_clockwise:
  "between (a mod hashMod) (x mod hashMod) (b mod hashMod) incl \<longleftrightarrow>
     cw hashMod (a mod hashMod) (x mod hashMod) < cw hashMod (a mod hashMod) (b mod hashMod)
     \<or> incl \<and> x mod hashMod = b mod hashMod"
  by (intro chord.btw_cw mod_on_ring)

end
