(* ===== verification/Go_Disk.thy ===== *)
theory Go_Disk
  imports Go_Prelude
begin

text \<open>
  The file system as the programs see it through \<^verbatim>\<open>os\<close> and \<^verbatim>\<open>ioutil\<close>: plain
  files by path, the directories that exist, and for each path the fault the operating
  system answers with (permission, I/O error). A path is the string the code builds;
  \<open>..\<close> and links are not resolved. The locale \<open>file_store\<close> states what the
  storage code relies on; the disk is proved to provide it.
\<close>

section \<open>Definitions\<close>

datatype diskfault = NoFault | OpenFails | ReadFails | WriteFails

record Disk =
  dfiles :: "(string \<times> bytes) list"
  ddirs :: "string list"
  dfault :: "string \<Rightarrow> diskfault"

definition dirname :: "string \<Rightarrow> string" where
  "dirname p = join_with CHR ''/'' (butlast (split_on CHR ''/'' p))"

definition basename :: "string \<Rightarrow> string" where
  "basename p = last (split_on CHR ''/'' p)"

definition os_Exists :: "Disk \<Rightarrow> string \<Rightarrow> bool" where
  "os_Exists d p \<longleftrightarrow> map_of (dfiles d) p \<noteq> None \<or> p \<in> set (ddirs d)"

definition os_Open :: "Disk \<Rightarrow> string \<Rightarrow> bool" where
  "os_Open d p \<longleftrightarrow> map_of (dfiles d) p \<noteq> None \<and> dfault d p \<noteq> OpenFails"

text \<open>\<open>ReadAll\<close> of a handle that \<open>Open\<close> returned (\<open>None\<close>: the read fails).\<close>

definition ReadAll :: "Disk \<Rightarrow> string \<Rightarrow> bytes option" where
  "ReadAll d p = (if dfault d p = ReadFails then None else map_of (dfiles d) p)"

definition os_Create :: "Disk \<Rightarrow> string \<Rightarrow> bool \<times> Disk" where
  "os_Create d p =
     (if dirname p \<in> set (ddirs d) \<and> p \<notin> set (ddirs d) \<and> dfault d p \<noteq> OpenFails
      then (True, d\<lparr>dfiles := AList.update p [] (dfiles d)\<rparr>) else (False, d))"

text \<open>\<open>Write\<close> of the whole content to a handle that \<open>Create\<close> just returned.\<close>

definition file_Write :: "Disk \<Rightarrow> string \<Rightarrow> bytes \<Rightarrow> bool \<times> Disk" where
  "file_Write d p c =
     (if dfault d p = WriteFails then (False, d)
      else (True, d\<lparr>dfiles := AList.update p c (dfiles d)\<rparr>))"

definition os_Remove :: "Disk \<Rightarrow> string \<Rightarrow> bool \<times> Disk" where
  "os_Remove d p =
     (if os_Open d p then (True, d\<lparr>dfiles := AList.delete p (dfiles d)\<rparr>) else (False, d))"

definition os_Mkdir :: "Disk \<Rightarrow> string \<Rightarrow> bool \<times> Disk" where
  "os_Mkdir d p =
     (if dirname p \<in> set (ddirs d) \<and> \<not> os_Exists d p \<and> dfault d p \<noteq> OpenFails
      then (True, d\<lparr>ddirs := p # ddirs d\<rparr>) else (False, d))"

text \<open>The directory itself and its ancestors, shortest first.\<close>

fun dir_prefixes :: "string list \<Rightarrow> string list \<Rightarrow> string list" where
  "dir_prefixes done [] = []"
| "dir_prefixes done (p # ps) = join_with CHR ''/'' (done @ [p]) # dir_prefixes (done @ [p]) ps"

definition os_MkdirAll :: "Disk \<Rightarrow> string \<Rightarrow> bool \<times> Disk" where
  "os_MkdirAll d p =
     (if list_ex (\<lambda>q. map_of (dfiles d) q \<noteq> None \<or> dfault d q = OpenFails)
           (dir_prefixes [] (split_on CHR ''/'' p))
      then (False, d)
      else (True, d\<lparr>ddirs := dir_prefixes [] (split_on CHR ''/'' p) @ ddirs d\<rparr>))"

text \<open>The plain files of a directory, by name, as \<open>ioutil.ReadDir\<close> sorts them.\<close>

definition ReadDir :: "Disk \<Rightarrow> string \<Rightarrow> string list option" where
  "ReadDir d dir =
     (if dir \<in> set (ddirs d)
      then Some (sort (map basename (filter (\<lambda>p. dirname p = dir) (map fst (dfiles d)))))
      else None)"

text \<open>
  \<open>Create\<close> and \<open>Write\<close> with both errors reported, and \<open>Open\<close> and \<open>ReadAll\<close>,
  as the storage code sequences them.
\<close>

definition write_file :: "Disk \<Rightarrow> string \<Rightarrow> bytes \<Rightarrow> bool \<times> Disk" where
  "write_file d p c = (case os_Create d p of (ok, d1) \<Rightarrow> if ok then file_Write d1 p c else (False, d1))"

definition read_file :: "Disk \<Rightarrow> string \<Rightarrow> bytes option" where
  "read_file d p = (if os_Open d p then ReadAll d p else None)"

section \<open>Laws\<close>

lemmas disk_defs = os_Open_def ReadAll_def os_Create_def file_Write_def os_Remove_def
  write_file_def read_file_def

lemma write_file_ok_iff:
  "fst (write_file d p c) \<longleftrightarrow>
     dirname p \<in> set (ddirs d) \<and> p \<notin> set (ddirs d) \<and> dfault d p \<noteq> OpenFails \<and> dfault d p \<noteq> WriteFails"
  by (auto simp: write_file_def os_Create_def file_Write_def split: if_splits)

lemma write_file_frame [simp]:
  "ddirs (snd (write_file d p c)) = ddirs d" "dfault (snd (write_file d p c)) = dfault d"
  by (auto simp: write_file_def os_Create_def file_Write_def split: if_splits)

lemma os_Remove_frame [simp]:
  "ddirs (snd (os_Remove d p)) = ddirs d" "dfault (snd (os_Remove d p)) = dfault d"
  by (auto simp: os_Remove_def)

lemma map_of_dfiles_write_other:
  "q \<noteq> p \<Longrightarrow> map_of (dfiles (snd (write_file d p c))) q = map_of (dfiles d) q"
  by (auto simp: write_file_def os_Create_def file_Write_def update_conv')

lemma map_of_dfiles_write_same:
  "fst (write_file d p c) \<Longrightarrow> map_of (dfiles (snd (write_file d p c))) p = Some c"
  by (auto simp: write_file_def os_Create_def file_Write_def update_conv' split: if_splits)

lemma map_of_dfiles_remove:
  "map_of (dfiles (snd (os_Remove d p))) q = (if q = p \<and> os_Open d p then None else map_of (dfiles d) q)"
  by (auto simp: os_Remove_def delete_conv')

text \<open>What a client of the disk may rely on.\<close>

locale file_store =
  fixes rd :: "'d \<Rightarrow> string \<Rightarrow> bytes option"
    and wr :: "'d \<Rightarrow> string \<Rightarrow> bytes \<Rightarrow> bool \<times> 'd"
    and rm :: "'d \<Rightarrow> string \<Rightarrow> bool \<times> 'd"
    and readable :: "'d \<Rightarrow> string \<Rightarrow> bool"
  assumes wr_readable: "readable (snd (wr d p c)) q = readable d q"
    and rm_readable: "readable (snd (rm d p)) q = readable d q"
    and rd_wr_same: "fst (wr d p c) \<Longrightarrow> readable d p \<Longrightarrow> rd (snd (wr d p c)) p = Some c"
    and rd_wr_other: "q \<noteq> p \<Longrightarrow> rd (snd (wr d p c)) q = rd d q"
    and rd_rm_same: "fst (rm d p) \<Longrightarrow> rd (snd (rm d p)) p = None"
    and rd_rm_other: "q \<noteq> p \<Longrightarrow> rd (snd (rm d p)) q = rd d q"
begin

text \<open>
  Content survives later writes and removals of other paths: the fact that makes a stored
  file readable when it is asked for later.
\<close>

lemma rd_wr_list: "p \<notin> fst ` set qs \<Longrightarrow> rd (foldl (\<lambda>e (q, c). snd (wr e q c)) d qs) p = rd d p"
  by (induction qs arbitrary: d) (auto simp: rd_wr_other)

lemma rd_rm_list: "p \<notin> set qs \<Longrightarrow> rd (foldl (\<lambda>e q. snd (rm e q)) d qs) p = rd d p"
  by (induction qs arbitrary: d) (auto simp: rd_rm_other)

lemma stored_then_read:
  assumes "fst (wr d p c)" and "readable d p" and "p \<notin> set qs"
  shows "rd (foldl (\<lambda>e q. snd (rm e q)) (snd (wr d p c)) qs) p = Some c"
  using assms by (simp add: rd_rm_list rd_wr_same)

end

definition disk_readable :: "Disk \<Rightarrow> string \<Rightarrow> bool" where
  "disk_readable d p \<longleftrightarrow> dfault d p \<noteq> OpenFails \<and> dfault d p \<noteq> ReadFails"

interpretation disk: file_store read_file write_file os_Remove disk_readable
proof
  show "disk_readable (snd (write_file d p c)) q = disk_readable d q" for d p c q
    by (simp add: disk_readable_def)
  show "disk_readable (snd (os_Remove d p)) q = disk_readable d q" for d p q
    by (simp add: disk_readable_def)
  show "fst (write_file d p c) \<Longrightarrow> disk_readable d p \<Longrightarrow> read_file (snd (write_file d p c)) p = Some c"
    for d p c
    by (simp add: read_file_def os_Open_def ReadAll_def disk_readable_def map_of_dfiles_write_same)
  show "q \<noteq> p \<Longrightarrow> read_file (snd (write_file d p c)) q = read_file d q" for q p d c
    by (simp add: read_file_def os_Open_def ReadAll_def map_of_dfiles_write_other)
  show "fst (os_Remove d p) \<Longrightarrow> read_file (snd (os_Remove d p)) p = None" for d p
    by (auto simp: read_file_def os_Open_def ReadAll_def os_Remove_def delete_conv' split: if_splits)
  show "q \<noteq> p \<Longrightarrow> read_file (snd (os_Remove d p)) q = read_file d q" for q p d
    by (simp add: read_file_def os_Open_def ReadAll_def map_of_dfiles_remove)
qed

lemma basename_append: "CHR ''/'' \<notin> set b \<Longrightarrow> basename (a @ CHR ''/'' # b) = b"
  by (simp add: basename_def split_on_append split_on_no_sep)

lemma dirname_append: "CHR ''/'' \<notin> set b \<Longrightarrow> dirname (a @ CHR ''/'' # b) = a"
  by (simp add: dirname_def split_on_append split_on_no_sep join_split_on)

lemma dirname_basename: "CHR ''/'' \<in> set p \<Longrightarrow> dirname p @ CHR ''/'' # basename p = p"
proof -
  assume "CHR ''/'' \<in> set p"
  then obtain a b where p: "p = a @ CHR ''/'' # b" and b: "CHR ''/'' \<notin> set b"
    by (metis split_list_last)
  with b show ?thesis by (simp add: basename_append dirname_append)
qed

end
