(* ===== verification/Chord_Node.thy ===== *)
theory Chord_Node
  imports Chord_Ring Go_Disk
begin

text \<open>
  One Chord node (\<^verbatim>\<open>Lab2/Node/node.go\<close>, the storage handlers of
  \<^verbatim>\<open>stabilizing.go\<close> and the argument check of \<^verbatim>\<open>tools.go\<close>): its state, its
  creation, the buckets and the files behind them. A Go map with \<^verbatim>\<open>*big.Int\<close> keys
  compares keys by pointer, so a key is a pair of a pointer and the value it points to and a
  bucket is an association list over such pairs; the fresh pointers that decoding an RPC
  argument allocates come from the process's allocation counter. Where Go ranges over a map,
  the order is the runtime's choice: the functions that depend on it take the order as an
  argument.
\<close>

section \<open>State\<close>

type_synonym NodeAddress = string
type_synonym BigKey = "nat \<times> int"
type_synonym Bucket_map = "(BigKey \<times> string) list"
type_synonym range_order = "Bucket_map \<Rightarrow> Bucket_map"

record fingerEntry =
  fe_Id :: "int list"
  fe_Address :: NodeAddress

record Node =
  Name :: string
  Identifier :: int
  Address :: NodeAddress
  FingerTable :: "fingerEntry list"
  node_next :: nat
  Predecessor :: NodeAddress
  Successors :: "NodeAddress list"
  PrivateKey :: nat
  PublicKey :: nat
  EncryptFlag :: bool
  Bucket :: Bucket_map
  Backup :: Bucket_map

text \<open>The process that runs a node: the node, its disk and its allocation counter.\<close>

record NodeProc = Node +
  disk :: Disk
  heap :: nat

record FileRPC =
  file_Id :: int
  file_Name :: string
  file_Content :: bytes

record Arguments =
  arg_Address :: NodeAddress
  arg_Port :: int
  JoinAddress :: NodeAddress
  JoinPort :: int
  Stabilize :: int
  FixFingers :: int
  CheckPred :: int
  arg_Successors :: int
  ClientName :: string

section \<open>Command line\<close>

definition is_hex :: "char \<Rightarrow> bool" where
  "is_hex c = (c \<in> set ''0123456789abcdefABCDEF'')"

text \<open>
  \<open>regexp.MatchString("[0-9a-fA-F]*", s)\<close> looks for the pattern anywhere in the string:
  some substring, the empty one included, has only hexadecimal digits.
\<close>

definition match_hex_star :: "string \<Rightarrow> bool" where
  "match_hex_star s =
     list_ex (\<lambda>i. list_ex (\<lambda>l. list_all is_hex (take l (drop i s))) [0..<Suc (length s)])
       [0..<Suc (length s)]"

definition CheckArgsValid :: "(string \<Rightarrow> bool) \<Rightarrow> Arguments \<Rightarrow> int" where
  "CheckArgsValid ParseIP args =
     (if \<not> ParseIP (arg_Address args) \<and> arg_Address args \<noteq> ''localhost'' then -1
      else if arg_Port args < 1024 \<or> arg_Port args > 65535 then -1
      else if Stabilize args < 1 \<or> Stabilize args > 60000 then -1
      else if FixFingers args < 1 \<or> FixFingers args > 60000 then -1
      else if CheckPred args < 1 \<or> CheckPred args > 60000 then -1
      else if arg_Successors args < 1 \<or> arg_Successors args > 32 then -1
      else if ClientName args \<noteq> ''Default'' \<and> \<not> match_hex_star (ClientName args) then -1
      else if JoinAddress args \<noteq> ''Unspecified'' then
        (if ParseIP (JoinAddress args) \<or> JoinAddress args = ''localhost'' then
           (if JoinPort args < 1024 \<or> JoinPort args > 65535 then -1 else 0)
         else -1)
      else 1)"

section \<open>Creating a node\<close>

text \<open>
  What \<open>NewNode\<close> asks its environment for: the address the operating system reports,
  the public address a web service reports, the key pair a generator draws (\<open>None\<close>: it
  fails), and the PEM encoding of keys.
\<close>

record NodeEnv =
  env_local :: string
  env_ip2 :: string
  env_key :: "nat option"
  pem_private :: "nat \<Rightarrow> bytes"
  pem_public :: "nat \<Rightarrow> bytes"
  pem_parse :: "bytes \<Rightarrow> nat option"

definition node_folder :: "string \<Rightarrow> string" where
  "node_folder nm = ''../files/'' @ nm"

definition storage_dir :: "string \<Rightarrow> string" where
  "storage_dir nm = ''../files/'' @ nm @ ''/chord_storage''"

definition storage_path :: "string \<Rightarrow> string \<Rightarrow> string" where
  "storage_path nm f = ''../files/'' @ nm @ ''/chord_storage/'' @ f"

definition download_path :: "string \<Rightarrow> string \<Rightarrow> string" where
  "download_path nm f = ''../files/'' @ nm @ ''/file_download/'' @ f"

definition upload_path :: "string \<Rightarrow> string \<Rightarrow> string" where
  "upload_path nm f = ''../files/'' @ nm @ ''/file_upload/'' @ f"

definition new_big :: "NodeProc \<Rightarrow> int \<Rightarrow> BigKey \<times> NodeProc" where
  "new_big p v = ((heap p, v), p\<lparr>heap := Suc (heap p)\<rparr>)"

definition initFingerTable :: "NodeProc \<Rightarrow> NodeProc" where
  "initFingerTable p =
     p\<lparr>FingerTable :=
        \<lparr>fe_Id = big_Bytes (Identifier p), fe_Address = Address p\<rparr> #
        map (\<lambda>i. \<lparr>fe_Id = big_Bytes ((Identifier p + big_Exp2 (int i - 1)) mod hashMod),
                   fe_Address = Address p\<rparr>) [1..<fingerTableSize + 1]\<rparr>"

definition initSuccessors :: "NodeProc \<Rightarrow> NodeProc" where
  "initSuccessors p = p\<lparr>Successors := replicate (length (Successors p)) ''''\<rparr>"

text \<open>\<open>generateRSAKey\<close>; \<open>None\<close> where the code panics.\<close>

definition generateRSAKey :: "NodeEnv \<Rightarrow> NodeProc \<Rightarrow> NodeProc option" where
  "generateRSAKey env p =
     (case env_key env of
        None \<Rightarrow> None
      | Some key \<Rightarrow>
          let p1 = p\<lparr>PrivateKey := key, PublicKey := key\<rparr>;
              priv = node_folder (Name p) @ ''/private.pem'';
              pub = node_folder (Name p) @ ''/public.pem''
          in (case os_Create (disk p1) priv of
                (False, _) \<Rightarrow> None
              | (True, d1) \<Rightarrow>
                  let d2 = snd (file_Write d1 priv (pem_private env key))
                  in (case os_Create d2 pub of
                        (False, _) \<Rightarrow> None
                      | (True, d3) \<Rightarrow> Some (p1\<lparr>disk := snd (file_Write d3 pub (pem_public env key))\<rparr>))))"

text \<open>The bucket entries for the files that a previous run left in \<open>chord_storage\<close>.\<close>

definition register_file :: "NodeProc \<Rightarrow> string \<Rightarrow> NodeProc" where
  "register_file p fileName =
     (case new_big p (strHash fileName mod hashMod) of
        (k, p1) \<Rightarrow> p1\<lparr>Bucket := AList.update k fileName (Bucket p1)\<rparr>)"

definition subfolders :: "Disk \<Rightarrow> string \<Rightarrow> Disk" where
  "subfolders d nm =
     foldl (\<lambda>e sub. if os_Exists e (node_folder nm @ sub) then e
                     else snd (os_Mkdir e (node_folder nm @ sub)))
       d [''/file_upload'', ''/file_download'', ''/chord_storage'']"

definition NewNode :: "NodeEnv \<Rightarrow> Arguments \<Rightarrow> Disk \<Rightarrow> NodeProc option" where
  "NewNode env args d =
     (let localAddress =
            (if arg_Address args = ''localhost'' \<or> arg_Address args = ''127.0.0.1'' then arg_Address args
             else if arg_Address args = ''0.0.0.0'' then env_ip2 env
             else env_local env);
          addr = localAddress @ '':'' @ Itoa_int (arg_Port args);
          nm = (if ClientName args = ''Default'' then addr else ClientName args);
          p0 = \<lparr>Name = nm, Identifier = strHash nm mod hashMod, Address = addr,
                FingerTable = replicate (fingerTableSize + 1) \<lparr>fe_Id = [], fe_Address = ''''\<rparr>,
                node_next = 0, Predecessor = '''',
                Successors = replicate (nat (arg_Successors args)) '''',
                PrivateKey = 0, PublicKey = 0, EncryptFlag = True, Bucket = [], Backup = [],
                disk = d, heap = 0\<rparr>;
          p1 = initSuccessors (initFingerTable p0)
      in if \<not> os_Exists d (node_folder nm) then
           (case os_MkdirAll d (node_folder nm) of
              (False, d1) \<Rightarrow> generateRSAKey env (p1\<lparr>disk := d1\<rparr>)
            | (True, d1) \<Rightarrow> generateRSAKey env (p1\<lparr>disk := subfolders d1 nm\<rparr>))
         else
           let files = (case ReadDir d (storage_dir nm) of None \<Rightarrow> [] | Some fs \<Rightarrow> fs);
               p2 = foldl register_file p1 files;
               keyfile = node_folder nm @ ''/private.pem''
           in (if \<not> os_Open d keyfile then None
               else case pem_parse env (case ReadAll d keyfile of None \<Rightarrow> [] | Some b \<Rightarrow> b) of
                      None \<Rightarrow> None
                    | Some key \<Rightarrow> Some (p2\<lparr>PrivateKey := key, PublicKey := key\<rparr>)))"

section \<open>Predecessor, successors\<close>

definition createChord :: "NodeProc \<Rightarrow> NodeProc" where
  "createChord p =
     p\<lparr>Predecessor := '''', Successors := map (\<lambda>_. Address p) (Successors p)\<rparr>"

definition setPredecessor :: "NodeProc \<Rightarrow> NodeAddress \<Rightarrow> bool \<times> NodeProc" where
  "setPredecessor p a = (True, p\<lparr>Predecessor := a\<rparr>)"

definition SetPredecessorRPC :: "NodeProc \<Rightarrow> NodeAddress \<Rightarrow> (string + bool) \<times> NodeProc" where
  "SetPredecessorRPC p a =
     (case setPredecessor p a of
        (ok, p1) \<Rightarrow> (if ok then Inr ok else Inl ''set predecessor failed'', p1))"

definition getName :: "NodeProc \<Rightarrow> string" where
  "getName p = Name p"

definition GetNameRPC :: "NodeProc \<Rightarrow> string" where
  "GetNameRPC p = getName p"

definition getSuccessorList :: "NodeProc \<Rightarrow> NodeAddress list" where
  "getSuccessorList p = Successors p"

definition GetSuccessorListRPC :: "NodeProc \<Rightarrow> NodeAddress list" where
  "GetSuccessorListRPC p = getSuccessorList p"

definition getPredecessor :: "NodeProc \<Rightarrow> NodeAddress" where
  "getPredecessor p = Predecessor p"

definition GetPredecessorRPC :: "NodeProc \<Rightarrow> string + NodeAddress" where
  "GetPredecessorRPC p =
     (if getPredecessor p = '''' then Inl ''predecessor is empty'' else Inr (getPredecessor p))"

section \<open>Stored files\<close>

definition has_key :: "Bucket_map \<Rightarrow> int \<Rightarrow> bool" where
  "has_key b i = list_ex (\<lambda>(k, _). snd k = i) b"

definition storeChordFile :: "NodeProc \<Rightarrow> FileRPC \<Rightarrow> bool \<Rightarrow> bool \<times> NodeProc" where
  "storeChordFile p f backup =
     (case new_big p (file_Id f mod hashMod) of (k, p0) \<Rightarrow>
        if backup \<and> has_key (Backup p) (snd k) then (False, p0)
        else if \<not> backup \<and> has_key (Bucket p) (snd k) then (False, p0)
        else
          let p1 = (if backup then p0\<lparr>Backup := AList.update k (file_Name f) (Backup p0)\<rparr>
                    else p0\<lparr>Bucket := AList.update k (file_Name f) (Bucket p0)\<rparr>)
          in (case write_file (disk p1) (storage_path (Name p1) (file_Name f)) (file_Content f) of
                (ok, d) \<Rightarrow> (ok, p1\<lparr>disk := d\<rparr>)))"

definition storeLocalFile :: "NodeProc \<Rightarrow> FileRPC \<Rightarrow> bool \<times> NodeProc" where
  "storeLocalFile p f =
     (case write_file (disk p) (download_path (Name p) (file_Name f)) (file_Content f) of
        (ok, d) \<Rightarrow> (ok, p\<lparr>disk := d\<rparr>))"

text \<open>
  \<open>StoreFileRPC\<close> answers with \<open>Success\<close>, \<open>Err\<close> and \<open>Backup\<close>; the handler sees
  the zero value of \<open>Backup\<close>, since the reply is not sent with the request.
\<close>

record StoreFileRPCReply =
  sf_Success :: bool
  sf_Err :: "string option"
  sf_Backup :: bool

definition StoreFileRPC :: "NodeProc \<Rightarrow> FileRPC \<Rightarrow> StoreFileRPCReply \<times> NodeProc" where
  "StoreFileRPC p f =
     (case storeChordFile p f False of
        (ok, p1) \<Rightarrow>
          (\<lparr>sf_Success = ok, sf_Err = (if \<not> ok then Some ''store file failed'' else None),
            sf_Backup = False\<rparr>, p1))"

definition CheckFileExistRPC :: "NodeProc \<Rightarrow> string \<Rightarrow> bool" where
  "CheckFileExistRPC p fileName = list_ex (\<lambda>(_, v). v = fileName) (Bucket p)"

definition GetFileRPC :: "range_order \<Rightarrow> NodeProc \<Rightarrow> FileRPC \<Rightarrow> string + FileRPC" where
  "GetFileRPC ord p f =
     (let i = file_Id f mod hashMod in
      case find (\<lambda>(k, _). snd k = i) (ord (Bucket p)) of
        None \<Rightarrow> Inl ''file not found''
      | Some (_, fileName) \<Rightarrow>
          let path = storage_path (Name p) fileName in
          if \<not> os_Open (disk p) path then Inl ''open failed''
          else (case ReadAll (disk p) path of
                  None \<Rightarrow> Inl ''read failed''
                | Some c \<Rightarrow> Inr \<lparr>file_Id = i, file_Name = fileName, file_Content = c\<rparr>))"

definition encryptFile :: "(nat \<Rightarrow> bytes \<Rightarrow> bytes option) \<Rightarrow> NodeProc \<Rightarrow> bytes \<Rightarrow> bytes" where
  "encryptFile EncryptPKCS1v15 p content =
     (case EncryptPKCS1v15 (PublicKey p) content of None \<Rightarrow> [] | Some c \<Rightarrow> c)"

definition decryptFile :: "(nat \<Rightarrow> bytes \<Rightarrow> bytes option) \<Rightarrow> NodeProc \<Rightarrow> bytes \<Rightarrow> bytes" where
  "decryptFile DecryptPKCS1v15 p content =
     (case DecryptPKCS1v15 (PrivateKey p) content of None \<Rightarrow> [] | Some c \<Rightarrow> c)"

section \<open>Backups and clean-up\<close>

definition deleteSuccessorBackup :: "NodeProc \<Rightarrow> bool \<times> NodeProc" where
  "deleteSuccessorBackup p =
     (True, p\<lparr>Backup := foldl (\<lambda>b (k, _). AList.delete k b) (Backup p) (Backup p)\<rparr>)"

definition DeleteSuccessorBackupRPC :: "NodeProc \<Rightarrow> bool \<times> NodeProc" where
  "DeleteSuccessorBackupRPC p = deleteSuccessorBackup p"

text \<open>Both write errors are only printed, and the answer is always \<open>true\<close>.\<close>

definition successorStoreFile :: "NodeProc \<Rightarrow> FileRPC \<Rightarrow> bool \<times> NodeProc" where
  "successorStoreFile p f =
     (case new_big p (file_Id f mod hashMod) of (k, p0) \<Rightarrow>
        let p1 = p0\<lparr>Backup := AList.update k (file_Name f) (Backup p0)\<rparr>
        in (True, p1\<lparr>disk := snd (write_file (disk p1) (storage_path (Name p1) (file_Name f)) (file_Content f))\<rparr>))"

definition SuccessorStoreFileRPC :: "NodeProc \<Rightarrow> FileRPC \<Rightarrow> (bool \<times> string option) \<times> NodeProc" where
  "SuccessorStoreFileRPC p f =
     (case successorStoreFile p f of
        (ok, p1) \<Rightarrow> ((ok, if \<not> ok then Some ''store file failed'' else None), p1))"

definition clean_one :: "NodeProc \<Rightarrow> string \<Rightarrow> NodeProc" where
  "clean_one p fileName =
     (let key = strHash fileName mod hashMod in
      if \<not> has_key (Bucket p) key \<and> \<not> has_key (Backup p) key
      then p\<lparr>disk := snd (os_Remove (disk p) (storage_path (Name p) fileName))\<rparr> else p)"

definition cleanRedundantFile :: "NodeProc \<Rightarrow> NodeProc" where
  "cleanRedundantFile p =
     foldl clean_one p
       (case ReadDir (disk p) (storage_dir (Name p)) of None \<Rightarrow> [] | Some files \<Rightarrow> files)"

text \<open>The part of \<open>checkPredecessor\<close> that takes over the files of a dead predecessor.\<close>

definition takeOverBackup :: "NodeProc \<Rightarrow> NodeProc" where
  "takeOverBackup p =
     p\<lparr>Predecessor := '''',
       Bucket := foldl (\<lambda>b (k, v). if v \<noteq> '''' then AList.update k v b else b) (Bucket p) (Backup p)\<rparr>"

section \<open>Finger targets\<close>

definition node_fingerEntry :: "NodeProc \<Rightarrow> nat \<Rightarrow> int" where
  "node_fingerEntry p k = fingerEntry_id (Identifier p) k"

end
