(* ===== verification/Chord_Store.thy ===== *)
theory Chord_Store
  imports Chord_Node
begin

text \<open>
  What the storage of one Chord node promises: the well-formedness of a node's state and its
  preservation, the buckets as put-if-absent dictionaries (the locale \<open>put_store\<close>,
  interpreted on the bucket and on the backup), storing and fetching a file, and the
  clean-up of files that neither bucket names.
\<close>

section \<open>Well-formed node state\<close>

definition keys_ok :: "nat \<Rightarrow> Bucket_map \<Rightarrow> bool" where
  "keys_ok h b \<longleftrightarrow> distinct (map fst b) \<and> (\<forall>((q, i), v) \<in> set b. q < h \<and> on_ring hashMod i)"

definition wf_proc :: "NodeProc \<Rightarrow> bool" where
  "wf_proc p \<longleftrightarrow>
     Identifier p = ring_id (Name p) \<and>
     length (FingerTable p) = fingerTableSize + 1 \<and>
     Successors p \<noteq> [] \<and> node_next p \<le> fingerTableSize \<and>
     keys_ok (heap p) (Bucket p) \<and> keys_ok (heap p) (Backup p)"

lemma keys_ok_Nil [simp]: "keys_ok h []"
  by (simp add: keys_ok_def)

lemma keys_ok_mono: "keys_ok h b \<Longrightarrow> h \<le> h' \<Longrightarrow> keys_ok h' b"
  by (fastforce simp: keys_ok_def)

lemma keys_ok_fresh: "keys_ok h b \<Longrightarrow> (h, i) \<notin> fst ` set b"
  by (fastforce simp: keys_ok_def)

lemma keys_ok_update:
  assumes "keys_ok h b" and "q < h" and "on_ring hashMod i"
  shows "keys_ok h (AList.update (q, i) v b)"
proof -
  have "set (AList.update (q, i) v b) \<subseteq> insert ((q, i), v) (set b)"
    by (induction b) auto
  moreover have "distinct (map fst (AList.update (q, i) v b))"
    using assms by (simp add: keys_ok_def distinct_update)
  ultimately show ?thesis
    using assms unfolding keys_ok_def by blast
qed

lemma keys_ok_insert:
  "keys_ok h b \<Longrightarrow> keys_ok (Suc h) (AList.update (h, i mod hashMod) v b)"
  by (rule keys_ok_update) (auto intro: keys_ok_mono)

lemma storeChordFile_wf:
  "wf_proc p \<Longrightarrow> wf_proc (snd (storeChordFile p f bk))"
  by (auto simp: wf_proc_def storeChordFile_def new_big_def Let_def
      intro: keys_ok_insert keys_ok_mono split: prod.splits if_splits)

lemma successorStoreFile_wf:
  "wf_proc p \<Longrightarrow> wf_proc (snd (successorStoreFile p f))"
  by (auto simp: wf_proc_def successorStoreFile_def new_big_def Let_def
      intro: keys_ok_insert keys_ok_mono)

lemma delete_all_keys:
  "set (foldl (\<lambda>b (k, _). AList.delete k b) b ks) = {e \<in> set b. fst e \<notin> fst ` set ks}"
proof (induction ks arbitrary: b)
  case Nil
  then show ?case by simp
next
  case (Cons e ks)
  obtain k v where "e = (k, v)" by (cases e)
  then show ?case
    using Cons.IH [of "AList.delete k b"] by (auto simp: AList.delete_eq)
qed

lemma deleteSuccessorBackup_eq: "deleteSuccessorBackup p = (True, p\<lparr>Backup := []\<rparr>)"
proof -
  have "set (foldl (\<lambda>b (k, _). AList.delete k b) (Backup p) (Backup p)) = {}"
    by (auto simp: delete_all_keys)
  then show ?thesis by (simp add: deleteSuccessorBackup_def)
qed

lemma deleteSuccessorBackup_wf: "wf_proc p \<Longrightarrow> wf_proc (snd (deleteSuccessorBackup p))"
  by (simp add: deleteSuccessorBackup_eq wf_proc_def)

lemma keys_ok_merge:
  "keys_ok h b \<Longrightarrow> \<forall>((q, i), v) \<in> set ks. q < h \<and> on_ring hashMod i \<Longrightarrow>
    keys_ok h (foldl (\<lambda>b (k, v). if v \<noteq> '''' then AList.update k v b else b) b ks)"
proof (induction ks arbitrary: b)
  case Nil
  then show ?case by simp
next
  case (Cons e ks)
  obtain q i v where e: "e = ((q, i), v)" by (cases e) auto
  have "keys_ok h (if v \<noteq> '''' then AList.update (q, i) v b else b)"
    using Cons.prems e by (simp add: keys_ok_update)
  from Cons.IH [OF this] Cons.prems(2) show ?case by (simp only: e foldl.simps prod.case) auto
qed

lemma takeOverBackup_wf: "wf_proc p \<Longrightarrow> wf_proc (takeOverBackup p)"
  by (auto simp: wf_proc_def takeOverBackup_def keys_ok_def [of _ "Backup p"] intro!: keys_ok_merge)

lemma clean_one_frame [simp]:
  "Name (clean_one p f) = Name p" "Bucket (clean_one p f) = Bucket p"
  "Backup (clean_one p f) = Backup p" "wf_proc (clean_one p f) = wf_proc p"
  "Successors (clean_one p f) = Successors p" "Predecessor (clean_one p f) = Predecessor p"
  "Address (clean_one p f) = Address p" "Identifier (clean_one p f) = Identifier p"
  by (auto simp: clean_one_def Let_def wf_proc_def)

lemma foldl_clean_frame [simp]:
  "Name (foldl clean_one p fs) = Name p" "Bucket (foldl clean_one p fs) = Bucket p"
  "Backup (foldl clean_one p fs) = Backup p" "wf_proc (foldl clean_one p fs) = wf_proc p"
  "Successors (foldl clean_one p fs) = Successors p" "Predecessor (foldl clean_one p fs) = Predecessor p"
  "Address (foldl clean_one p fs) = Address p" "Identifier (foldl clean_one p fs) = Identifier p"
  by (induction fs arbitrary: p) auto

lemma cleanRedundantFile_frame [simp]:
  "Name (cleanRedundantFile p) = Name p" "Bucket (cleanRedundantFile p) = Bucket p"
  "Backup (cleanRedundantFile p) = Backup p" "wf_proc (cleanRedundantFile p) = wf_proc p"
  "Successors (cleanRedundantFile p) = Successors p" "Predecessor (cleanRedundantFile p) = Predecessor p"
  "Address (cleanRedundantFile p) = Address p" "Identifier (cleanRedundantFile p) = Identifier p"
  by (simp_all add: cleanRedundantFile_def)

section \<open>Buckets as put-if-absent dictionaries\<close>

definition bucket_lookup :: "Bucket_map \<Rightarrow> int \<Rightarrow> string option" where
  "bucket_lookup b i = map_option snd (find (\<lambda>(k, _). snd k = i) b)"

definition unique_ids :: "Bucket_map \<Rightarrow> bool" where
  "unique_ids b \<longleftrightarrow> distinct (map (snd \<circ> fst) b)"

lemma has_key_lookup: "has_key b i \<longleftrightarrow> bucket_lookup b i \<noteq> None"
  by (induction b) (auto simp: has_key_def bucket_lookup_def)

lemma has_key_set: "has_key b i \<longleftrightarrow> i \<in> (snd \<circ> fst) ` set b"
  by (force simp: has_key_def list_ex_iff)

lemma bucket_lookup_snoc:
  "bucket_lookup (b @ [((q, j), v)]) i =
     (case bucket_lookup b i of None \<Rightarrow> if j = i then Some v else None | Some w \<Rightarrow> Some w)"
  by (auto simp: bucket_lookup_def find_append split: option.splits)

text \<open>
  The contract of a store that keeps the first file offered under an identifier, and what
  holds of it after any series of offers.
\<close>

locale put_store =
  fixes inv :: "'s \<Rightarrow> bool"
    and lookup :: "'s \<Rightarrow> int \<Rightarrow> string option"
    and put :: "'s \<Rightarrow> 'f \<Rightarrow> 's"
    and key :: "'f \<Rightarrow> int"
    and val :: "'f \<Rightarrow> string"
  assumes inv_put: "inv s \<Longrightarrow> inv (put s f)"
    and lookup_put: "inv s \<Longrightarrow> lookup (put s f) i =
      (if lookup s i = None \<and> key f = i then Some (val f) else lookup s i)"
begin

lemma inv_puts: "inv s \<Longrightarrow> inv (foldl put s fs)"
  by (induction fs arbitrary: s) (auto intro: inv_put)

lemma lookup_puts:
  "inv s \<Longrightarrow> lookup (foldl put s fs) i =
     (case lookup s i of Some n \<Rightarrow> Some n | None \<Rightarrow> map_option val (find (\<lambda>f. key f = i) fs))"
  by (induction fs arbitrary: s) (auto simp: inv_put lookup_put split: option.splits)

end

lemma storeChordFile_bucket:
  assumes "wf_proc p"
  shows "bucket_lookup (Bucket (snd (storeChordFile p f False))) i =
    (if bucket_lookup (Bucket p) i = None \<and> file_Id f mod hashMod = i then Some (file_Name f)
     else bucket_lookup (Bucket p) i)"
  using assms keys_ok_fresh [of "heap p" "Bucket p" "file_Id f mod hashMod"]
  by (auto simp: wf_proc_def storeChordFile_def new_big_def Let_def has_key_lookup update_fresh
      bucket_lookup_snoc split: prod.splits option.splits if_splits)

lemma storeChordFile_backup:
  assumes "wf_proc p"
  shows "bucket_lookup (Backup (snd (storeChordFile p f True))) i =
    (if bucket_lookup (Backup p) i = None \<and> file_Id f mod hashMod = i then Some (file_Name f)
     else bucket_lookup (Backup p) i)"
  using assms keys_ok_fresh [of "heap p" "Backup p" "file_Id f mod hashMod"]
  by (auto simp: wf_proc_def storeChordFile_def new_big_def Let_def has_key_lookup update_fresh
      bucket_lookup_snoc split: prod.splits option.splits if_splits)

interpretation bucket_store: put_store wf_proc "\<lambda>p. bucket_lookup (Bucket p)"
  "\<lambda>p f. snd (storeChordFile p f False)" "\<lambda>f. file_Id f mod hashMod" file_Name
  by unfold_locales (simp_all add: storeChordFile_wf storeChordFile_bucket)

interpretation backup_store: put_store wf_proc "\<lambda>p. bucket_lookup (Backup p)"
  "\<lambda>p f. snd (storeChordFile p f True)" "\<lambda>f. file_Id f mod hashMod" file_Name
  by unfold_locales (simp_all add: storeChordFile_wf storeChordFile_backup)

section \<open>Storing and fetching\<close>

text \<open>A legal order of a range over a map visits every entry exactly once.\<close>

definition range_perm :: "range_order \<Rightarrow> bool" where
  "range_perm ord \<longleftrightarrow> (\<forall>b. mset (ord b) = mset b)"

lemma range_perm_set: "range_perm ord \<Longrightarrow> set (ord b) = set b"
  by (auto simp: range_perm_def dest!: spec [of _ b] mset_eq_set)

lemma range_perm_id [simp]: "range_perm (\<lambda>b. b)" "range_perm rev"
  by (simp_all add: range_perm_def)

lemma find_key_perm:
  assumes "range_perm ord" and "(k, v) \<in> set b"
    and "\<And>k' v'. (k', v') \<in> set b \<Longrightarrow> snd k' = snd k \<Longrightarrow> (k', v') = (k, v)"
  shows "find (\<lambda>(k', _). snd k' = snd k) (ord b) = Some (k, v)"
proof (rule find_unique)
  show "(k, v) \<in> set (ord b)" using assms(1,2) by (simp add: range_perm_set)
  show "case (k, v) of (k', _) \<Rightarrow> snd k' = snd k" by simp
  show "x = (k, v)" if "x \<in> set (ord b)" and "case x of (k', _) \<Rightarrow> snd k' = snd k" for x
  proof (cases x)
    case (Pair k' v')
    with that assms(1) have "(k', v') \<in> set b" and "snd k' = snd k"
      by (auto simp: range_perm_set)
    then have "(k', v') = (k, v)" by (rule assms(3))
    with Pair show ?thesis by simp
  qed
qed

lemma storeChordFile_stored:
  assumes "wf_proc p" and "\<not> has_key (Bucket p) (file_Id f mod hashMod)"
  shows "Bucket (snd (storeChordFile p f False)) =
      Bucket p @ [((heap p, file_Id f mod hashMod), file_Name f)]"
    and "disk (snd (storeChordFile p f False)) =
      snd (write_file (disk p) (storage_path (Name p) (file_Name f)) (file_Content f))"
    and "fst (storeChordFile p f False) =
      fst (write_file (disk p) (storage_path (Name p) (file_Name f)) (file_Content f))"
  using assms keys_ok_fresh [of "heap p" "Bucket p" "file_Id f mod hashMod"]
  by (auto simp: wf_proc_def storeChordFile_def new_big_def Let_def update_fresh split: prod.splits)

lemma storeChordFile_refused:
  "has_key (Bucket p) (file_Id f mod hashMod) \<Longrightarrow>
    storeChordFile p f False = (False, p\<lparr>heap := Suc (heap p)\<rparr>)"
  by (simp add: storeChordFile_def new_big_def)

lemma storeChordFile_frame [simp]:
  "Name (snd (storeChordFile p f bk)) = Name p"
  "Identifier (snd (storeChordFile p f bk)) = Identifier p"
  "Address (snd (storeChordFile p f bk)) = Address p"
  "Successors (snd (storeChordFile p f bk)) = Successors p"
  "Predecessor (snd (storeChordFile p f bk)) = Predecessor p"
  "FingerTable (snd (storeChordFile p f bk)) = FingerTable p"
  by (auto simp: storeChordFile_def new_big_def Let_def split: prod.splits)

lemma GetFileRPC_unique:
  assumes "range_perm ord" and "((q, i), v) \<in> set (Bucket p)"
    and "\<And>k' v'. (k', v') \<in> set (Bucket p) \<Longrightarrow> snd k' = i \<Longrightarrow> (k', v') = ((q, i), v)"
    and "file_Id g mod hashMod = i"
    and "read_file (disk p) (storage_path (Name p) v) = Some c"
  shows "GetFileRPC ord p g = Inr \<lparr>file_Id = i, file_Name = v, file_Content = c\<rparr>"
proof -
  have "find (\<lambda>(k', _). snd k' = i) (ord (Bucket p)) = Some ((q, i), v)"
    using find_key_perm [OF assms(1,2)] assms(3) by simp
  with assms(4,5) show ?thesis
    by (auto simp: GetFileRPC_def read_file_def Let_def split: if_splits)
qed

text \<open>
  A file that a node accepted is what the node answers with later, under any order in
  which the runtime ranges over the bucket: after a successful \<open>storeChordFile\<close>, a
  \<open>GetFileRPC\<close> for the same ring identifier returns the stored name and content.
\<close>

theorem store_then_get:
  assumes "wf_proc p" and "range_perm ord" and "storeChordFile p f False = (True, p')"
    and "disk_readable (disk p) (storage_path (Name p) (file_Name f))"
    and "file_Id g mod hashMod = file_Id f mod hashMod"
  shows "GetFileRPC ord p' g =
    Inr \<lparr>file_Id = file_Id f mod hashMod, file_Name = file_Name f, file_Content = file_Content f\<rparr>"
proof -
  from assms(3) have new: "\<not> has_key (Bucket p) (file_Id f mod hashMod)"
    using storeChordFile_refused [of p f] by auto
  from assms(3) have p': "p' = snd (storeChordFile p f False)" and ok: "fst (storeChordFile p f False)"
    by simp_all
  note st = storeChordFile_stored [OF assms(1) new, folded p']
  have "read_file (disk p') (storage_path (Name p') (file_Name f)) = Some (file_Content f)"
    using ok assms(4) st by (simp add: p' disk.rd_wr_same storeChordFile_stored(3) [OF assms(1) new])
  moreover have "(k', v') = ((heap p, file_Id f mod hashMod), file_Name f)"
    if "(k', v') \<in> set (Bucket p')" and "snd k' = file_Id f mod hashMod" for k' v'
    using that new unfolding st(1) by (force simp: has_key_set)
  moreover have "((heap p, file_Id f mod hashMod), file_Name f) \<in> set (Bucket p')"
    by (simp add: st(1))
  ultimately show ?thesis
    using GetFileRPC_unique [OF assms(2) _ _ assms(5)] by blast
qed

text \<open>
  Over any series of stores the bucket behaves as a dictionary in which the first file
  offered under a ring identifier wins: what was there stays, otherwise the first file of the
  series with that identifier is the one the bucket names.
\<close>

theorem bucket_first_wins:
  assumes "wf_proc p"
  shows "bucket_lookup (Bucket (foldl (\<lambda>p f. snd (storeChordFile p f False)) p fs)) i =
    (case bucket_lookup (Bucket p) i of
       Some n \<Rightarrow> Some n
     | None \<Rightarrow> map_option file_Name (find (\<lambda>f. file_Id f mod hashMod = i) fs))"
  using bucket_store.lookup_puts [OF assms] .

text \<open>
  A store that fails because the file cannot be created leaves its bucket entry behind:
  the node then claims the identifier, answers every \<open>GetFileRPC\<close> for it with an error,
  and refuses every further file with that identifier.
\<close>

theorem failed_store_blocks_id:
  assumes "wf_proc p" and "range_perm ord"
    and "\<not> has_key (Bucket p) (file_Id f mod hashMod)"
    and "map_of (dfiles (disk p)) (storage_path (Name p) (file_Name f)) = None"
    and "\<not> fst (os_Create (disk p) (storage_path (Name p) (file_Name f)))"
    and "storeChordFile p f False = (ok, p')"
  shows "\<not> ok \<and> has_key (Bucket p') (file_Id f mod hashMod)
    \<and> GetFileRPC ord p' f = Inl ''open failed''
    \<and> (\<forall>g. file_Id g mod hashMod = file_Id f mod hashMod \<longrightarrow> \<not> fst (storeChordFile p' g False))"
proof -
  have p': "p' = snd (storeChordFile p f False)" and ok: "ok = fst (storeChordFile p f False)"
    using assms(6) by simp_all
  note st = storeChordFile_stored [OF assms(1,3), folded p' ok]
  have w: "write_file (disk p) (storage_path (Name p) (file_Name f)) (file_Content f) = (False, disk p)"
    using assms(5) by (auto simp: write_file_def os_Create_def split: if_splits)
  have key: "has_key (Bucket p') (file_Id f mod hashMod)"
    by (simp add: st(1) has_key_set)
  have "find (\<lambda>(k', _). snd k' = file_Id f mod hashMod) (ord (Bucket p')) =
      Some ((heap p, file_Id f mod hashMod), file_Name f)"
    using find_key_perm [OF assms(2), of "(heap p, file_Id f mod hashMod)" "file_Name f" "Bucket p'"]
      assms(3) unfolding st(1) by (force simp: has_key_set)
  then have "GetFileRPC ord p' f = Inl ''open failed''"
    using w st(2) assms(4) by (simp add: GetFileRPC_def Let_def os_Open_def p')
  moreover have "\<not> fst (storeChordFile p' g False)" if "file_Id g mod hashMod = file_Id f mod hashMod" for g
    using key that by (simp add: storeChordFile_refused)
  ultimately show ?thesis
    using key st(3) w by auto
qed

section \<open>Clean-up\<close>

lemma storage_path_dir: "storage_path nm f = storage_dir nm @ CHR ''/'' # f"
  by (simp add: storage_path_def storage_dir_def)

lemma storage_path_inj [simp]: "storage_path nm f = storage_path nm g \<longleftrightarrow> f = g"
  by (simp add: storage_path_def)

lemma clean_one_read:
  "read_file (disk (clean_one p g)) q =
     (if q = storage_path (Name p) g \<and> \<not> has_key (Bucket p) (ring_id g) \<and> \<not> has_key (Backup p) (ring_id g)
      then None else read_file (disk p) q)"
proof (cases "os_Open (disk p) (storage_path (Name p) g)")
  case True
  then have "fst (os_Remove (disk p) (storage_path (Name p) g))"
    by (simp add: os_Remove_def)
  then show ?thesis
    by (auto simp: clean_one_def Let_def ring_id_def disk.rd_rm_same disk.rd_rm_other)
next
  case False
  then show ?thesis
    by (auto simp: clean_one_def Let_def ring_id_def os_Remove_def read_file_def)
qed

lemma foldl_clean_read:
  "read_file (disk (foldl clean_one p gs)) q =
     (if \<exists>g \<in> set gs. q = storage_path (Name p) g \<and> \<not> has_key (Bucket p) (ring_id g) \<and>
           \<not> has_key (Backup p) (ring_id g)
      then None else read_file (disk p) q)"
  by (induction gs arbitrary: p) (auto simp: clean_one_read)

lemma ReadDir_storage:
  assumes "storage_dir nm \<in> set (ddirs d)" and "CHR ''/'' \<notin> set f"
    and "map_of (dfiles d) (storage_path nm f) \<noteq> None"
  shows "\<exists>fs. ReadDir d (storage_dir nm) = Some fs \<and> f \<in> set fs"
proof -
  have "storage_path nm f \<in> fst ` set (dfiles d)"
    using assms(3) by (simp add: map_of_eq_None_iff)
  then have "f \<in> basename ` {p \<in> fst ` set (dfiles d). dirname p = storage_dir nm}"
    using assms(2) by (force simp: storage_path_dir basename_append dirname_append)
  then show ?thesis
    using assms(1) by (simp add: ReadDir_def image_iff)
qed

text \<open>
  \<open>cleanRedundantFile\<close> removes exactly the unreferenced files of the node's storage
  directory: afterwards a file is readable there if and only if it was readable before and
  its ring identifier is in the bucket or in the backup. Files elsewhere are not touched.
\<close>

theorem cleanRedundantFile_exact:
  assumes "storage_dir (Name p) \<in> set (ddirs (disk p))" and "CHR ''/'' \<notin> set f"
  shows "read_file (disk (cleanRedundantFile p)) (storage_path (Name p) f) =
      (if has_key (Bucket p) (ring_id f) \<or> has_key (Backup p) (ring_id f)
       then read_file (disk p) (storage_path (Name p) f) else None)
    \<and> (dirname q \<noteq> storage_dir (Name p) \<longrightarrow> read_file (disk (cleanRedundantFile p)) q = read_file (disk p) q)"
proof (intro conjI impI)
  show "read_file (disk (cleanRedundantFile p)) (storage_path (Name p) f) =
      (if has_key (Bucket p) (ring_id f) \<or> has_key (Backup p) (ring_id f)
       then read_file (disk p) (storage_path (Name p) f) else None)"
  proof (cases "map_of (dfiles (disk p)) (storage_path (Name p) f) = None")
    case True
    then have "read_file (disk p) (storage_path (Name p) f) = None"
      by (simp add: read_file_def os_Open_def)
    then show ?thesis by (simp add: cleanRedundantFile_def foldl_clean_read)
  next
    case False
    then obtain fs where "ReadDir (disk p) (storage_dir (Name p)) = Some fs" and "f \<in> set fs"
      using ReadDir_storage assms by blast
    then show ?thesis by (auto simp: cleanRedundantFile_def foldl_clean_read)
  qed
next
  assume q: "dirname q \<noteq> storage_dir (Name p)"
  have "q \<noteq> storage_path (Name p) g" if "ReadDir (disk p) (storage_dir (Name p)) = Some fs" "g \<in> set fs" for fs g
  proof -
    from that obtain r where "dirname r = storage_dir (Name p)" and "g = basename r"
      by (auto simp: ReadDir_def split: if_splits)
    then have "CHR ''/'' \<notin> set g"
      using split_on_parts [OF last_in_set] by (simp add: basename_def)
    with q show ?thesis by (auto simp: storage_path_dir dirname_append)
  qed
  then show "read_file (disk (cleanRedundantFile p)) q = read_file (disk p) q"
    by (cases "ReadDir (disk p) (storage_dir (Name p))")
      (auto simp: cleanRedundantFile_def foldl_clean_read)
qed

end
