(* ===== verification/Chord_Routing.thy ===== *)
theory Chord_Routing
  imports Chord_Store
begin

text \<open>
  Lookup on the Chord ring (\<^verbatim>\<open>Lab2/Node/routing.go\<close> and \<open>ChordCall\<close>,
  \<open>clientLookUp\<close> of \<^verbatim>\<open>tools.go\<close>). The network is the map from the address a
  process listens on to the process; a call to an address where nobody listens, or that is
  not of the form \<^verbatim>\<open>ip:port\<close>, is an error. \<open>FindSuccessorRPC\<close> forwards a request
  from node to node, so its recursion is bounded by fuel (\<open>None\<close>: no answer yet); the main
  theorem shows that on a ring with correct successors 64 hops are enough and the answer is
  the owner of the key, whatever the finger tables hold.
\<close>

section \<open>Calls between nodes\<close>

type_synonym World = "NodeAddress \<Rightarrow> NodeProc option"

datatype callErr = BadAddress NodeAddress | DialError | CallError string

definition ChordDial :: "World \<Rightarrow> NodeAddress \<Rightarrow> callErr + NodeProc" where
  "ChordDial w targetNode =
     (case split_on CHR '':'' targetNode of
        [ip, port] \<Rightarrow> (case w (ip @ '':'' @ port) of None \<Rightarrow> Inl DialError | Some p \<Rightarrow> Inr p)
      | _ \<Rightarrow> Inl (BadAddress targetNode))"

text \<open>\<open>ChordCall\<close>: dial, run the handler on the remote node, close.\<close>

definition ChordCall :: "World \<Rightarrow> NodeAddress \<Rightarrow> (NodeProc \<Rightarrow> callErr + 'r) \<Rightarrow> callErr + 'r" where
  "ChordCall w targetNode handler =
     (case ChordDial w targetNode of Inl e \<Rightarrow> Inl e | Inr p \<Rightarrow> handler p)"

definition call_GetName :: "World \<Rightarrow> NodeAddress \<Rightarrow> callErr + string" where
  "call_GetName w a = ChordCall w a (\<lambda>p. Inr (GetNameRPC p))"

section \<open>Routing\<close>

record FindSuccessorRPCReply =
  Found :: bool
  SuccessorAddress :: NodeAddress

text \<open>The scan of \<open>closePrecedingNode\<close>, over the fingers from the last to the first.\<close>

fun scan_fingers :: "World \<Rightarrow> int \<Rightarrow> int \<Rightarrow> fingerEntry list \<Rightarrow> NodeAddress option" where
  "scan_fingers w ident requestID [] = None"
| "scan_fingers w ident requestID (e # es) =
     (case call_GetName w (fe_Address e) of
        Inl _ \<Rightarrow> scan_fingers w ident requestID es
      | Inr nm \<Rightarrow>
          if between ident (strHash nm mod hashMod) requestID False then Some (fe_Address e)
          else scan_fingers w ident requestID es)"

text \<open>\<open>None\<close> is the panic of \<open>node.Successors[0]\<close> on an empty list.\<close>

definition closePrecedingNode :: "World \<Rightarrow> NodeProc \<Rightarrow> int \<Rightarrow> NodeAddress option" where
  "closePrecedingNode w p requestID =
     (case scan_fingers w (Identifier p) requestID (rev (tl (FingerTable p))) of
        Some a \<Rightarrow> Some a
      | None \<Rightarrow> (case Successors p of [] \<Rightarrow> None | s # _ \<Rightarrow> Some s))"

definition find_error :: "NodeAddress \<Rightarrow> FindSuccessorRPCReply" where
  "find_error a = \<lparr>Found = False, SuccessorAddress = ''Error in findSuccessorRPC at '' @ a\<rparr>"

fun FindSuccessorRPC :: "nat \<Rightarrow> World \<Rightarrow> NodeProc \<Rightarrow> int \<Rightarrow> (callErr + FindSuccessorRPCReply) option" where
  "FindSuccessorRPC 0 w p requestID = None"
| "FindSuccessorRPC (Suc fuel) w p requestID =
     (case Successors p of
        [] \<Rightarrow> Some (Inl (CallError ''panic''))
      | s0 # _ \<Rightarrow>
          (case call_GetName w s0 of
             Inl _ \<Rightarrow> Some (Inr (find_error s0))
           | Inr nm \<Rightarrow>
               let successorId = strHash nm mod hashMod; rid = requestID mod hashMod in
               if between (Identifier p) rid successorId True
               then Some (Inr \<lparr>Found = True, SuccessorAddress = s0\<rparr>)
               else
                 (case closePrecedingNode w p rid of
                    None \<Rightarrow> Some (Inl (CallError ''panic''))
                  | Some sa \<Rightarrow>
                      (case ChordDial w sa of
                         Inl _ \<Rightarrow> Some (Inr (find_error sa))
                       | Inr q \<Rightarrow>
                           (case FindSuccessorRPC fuel w q rid of
                              None \<Rightarrow> None
                            | Some (Inl _) \<Rightarrow> Some (Inr (find_error sa))
                            | Some (Inr r) \<Rightarrow>
                                Some (Inr \<lparr>Found = True, SuccessorAddress = SuccessorAddress r\<rparr>))))))"

text \<open>
  One call of the loop of \<open>find\<close>: a failed call leaves the zero reply. The loop runs at
  most ten times; the outer \<open>None\<close> is a forwarded request that has not returned.
\<close>

definition find_call :: "nat \<Rightarrow> World \<Rightarrow> NodeAddress \<Rightarrow> int \<Rightarrow> FindSuccessorRPCReply option" where
  "find_call fuel w nextNode i =
     (case ChordDial w nextNode of
        Inl _ \<Rightarrow> Some \<lparr>Found = False, SuccessorAddress = ''''\<rparr>
      | Inr q \<Rightarrow>
          (case FindSuccessorRPC fuel w q i of
             None \<Rightarrow> None
           | Some (Inl _) \<Rightarrow> Some \<lparr>Found = False, SuccessorAddress = ''''\<rparr>
           | Some (Inr r) \<Rightarrow> Some r))"

fun find_loop :: "nat \<Rightarrow> nat \<Rightarrow> World \<Rightarrow> NodeAddress \<Rightarrow> int \<Rightarrow> NodeAddress option" where
  "find_loop fuel 0 w nextNode i = Some ''-1''"
| "find_loop fuel (Suc n) w nextNode i =
     (case find_call fuel w nextNode i of
        None \<Rightarrow> None
      | Some r \<Rightarrow> if Found r then Some (SuccessorAddress r)
                  else find_loop fuel n w (SuccessorAddress r) i)"

definition chord_find :: "nat \<Rightarrow> World \<Rightarrow> int \<Rightarrow> NodeAddress \<Rightarrow> NodeAddress option" where
  "chord_find fuel w i startNode = find_loop fuel 10 w startNode (i mod hashMod)"

definition clientLookUp :: "nat \<Rightarrow> World \<Rightarrow> string \<Rightarrow> NodeProc \<Rightarrow> (string + NodeAddress) option" where
  "clientLookUp fuel w key p =
     (case chord_find fuel w (strHash key) (Address p) of
        None \<Rightarrow> None
      | Some addr \<Rightarrow>
          Some (if addr = ''-1'' then Inl ''cannot find the store position of the key'' else Inr addr))"

section \<open>Dialling\<close>

definition good_addr :: "NodeAddress \<Rightarrow> bool" where
  "good_addr a \<longleftrightarrow> length (split_on CHR '':'' a) = 2"

lemma ChordDial_eq:
  "ChordDial w a =
     (if good_addr a then (case w a of None \<Rightarrow> Inl DialError | Some p \<Rightarrow> Inr p) else Inl (BadAddress a))"
proof (cases "good_addr a")
  case True
  then obtain x y where s: "split_on CHR '':'' a = [x, y]"
    by (auto simp: good_addr_def numeral_2_eq_2 length_Suc_conv)
  then have "x @ '':'' @ y = a"
    using join_split_on [of "CHR '':''" a] by simp
  with s True show ?thesis by (simp add: ChordDial_def)
next
  case False
  then show ?thesis
    by (auto simp: ChordDial_def good_addr_def numeral_2_eq_2 split: list.splits)
qed

lemma ChordDial_live [simp]: "good_addr a \<Longrightarrow> w a = Some p \<Longrightarrow> ChordDial w a = Inr p"
  by (simp add: ChordDial_eq)

lemma ChordDial_Inr: "ChordDial w a = Inr p \<longleftrightarrow> good_addr a \<and> w a = Some p"
  by (auto simp: ChordDial_eq split: option.splits if_splits)

lemma call_GetName_Inr: "call_GetName w a = Inr nm \<longleftrightarrow> (\<exists>p. good_addr a \<and> w a = Some p \<and> Name p = nm)"
  by (auto simp: call_GetName_def ChordCall_def GetNameRPC_def getName_def ChordDial_Inr split: sum.splits)

lemma call_GetName_live [simp]: "good_addr a \<Longrightarrow> w a = Some p \<Longrightarrow> call_GetName w a = Inr (Name p)"
  by (simp add: call_GetName_Inr)

lemma good_addr_not_minus1: "good_addr a \<Longrightarrow> a \<noteq> ''-1''"
  by (auto simp: good_addr_def)

section \<open>The ring a lookup relies on\<close>

text \<open>
  Every live node is well formed, listens where it says, and its first successor is live
  with no live node strictly between the two.
\<close>

definition next_on_ring :: "World \<Rightarrow> NodeProc \<Rightarrow> NodeAddress \<Rightarrow> bool" where
  "next_on_ring w p s \<longleftrightarrow>
     (\<exists>q. w s = Some q \<and>
        (\<forall>b r. w b = Some r \<longrightarrow> \<not> between (Identifier p) (Identifier r) (Identifier q) False))"

definition world_wf :: "World \<Rightarrow> bool" where
  "world_wf w \<longleftrightarrow> (\<forall>a p. w a = Some p \<longrightarrow> good_addr a \<and> Address p = a \<and> wf_proc p)"

definition ring_ok :: "World \<Rightarrow> bool" where
  "ring_ok w \<longleftrightarrow> world_wf w \<and> (\<forall>a p. w a = Some p \<longrightarrow> next_on_ring w p (hd (Successors p)))"

text \<open>The owner of an identifier: the first live node at or after it, clockwise.\<close>

definition owns :: "World \<Rightarrow> NodeAddress \<Rightarrow> int \<Rightarrow> bool" where
  "owns w a k \<longleftrightarrow>
     (\<exists>q. w a = Some q \<and>
        (\<forall>b r. w b = Some r \<longrightarrow> (Identifier q - k) mod hashMod \<le> (Identifier r - k) mod hashMod))"

lemma wf_Identifier_on_ring: "wf_proc p \<Longrightarrow> on_ring hashMod (Identifier p)"
  by (simp add: wf_proc_def)

lemma world_wfD:
  assumes "world_wf w" and "w a = Some p"
  shows "good_addr a" "Address p = a" "wf_proc p" "on_ring hashMod (Identifier p)"
    "strHash (Name p) mod hashMod = Identifier p" "Successors p \<noteq> []"
  using assms by (auto simp: world_wf_def wf_proc_def ring_id_def)

lemma ring_ok_next:
  assumes "ring_ok w" and "w a = Some p"
  obtains q where "w (hd (Successors p)) = Some q"
    and "\<And>b r. w b = Some r \<Longrightarrow> \<not> between (Identifier p) (Identifier r) (Identifier q) False"
  using assms unfolding ring_ok_def next_on_ring_def by metis

lemma scan_fingers_Some:
  "scan_fingers w i k es = Some a \<Longrightarrow> \<exists>p. good_addr a \<and> w a = Some p \<and> between i (ring_id (Name p)) k False"
  by (induction es) (auto simp: call_GetName_Inr ring_id_def split: sum.splits if_splits)

text \<open>The next hop is a live node strictly between the current node and the key.\<close>

lemma closePrecedingNode_progress:
  assumes w: "ring_ok w" and p: "w a = Some p" and k: "on_ring hashMod k"
    and q: "w (hd (Successors p)) = Some q"
    and out: "\<not> between (Identifier p) k (Identifier q) True"
  shows "\<exists>b r. closePrecedingNode w p k = Some b \<and> w b = Some r \<and> between (Identifier p) (Identifier r) k False"
proof -
  have ww: "world_wf w" using w by (simp add: ring_ok_def)
  note wp = world_wfD [OF ww p] and wq = world_wfD [OF ww q]
  show ?thesis
  proof (cases "scan_fingers w (Identifier p) k (rev (tl (FingerTable p)))")
    case None
    have "between (Identifier p) (Identifier q) k False"
      using chord.not_btw_swap [OF wp(4) k wq(4) out] .
    with None q wp(6) show ?thesis
      by (auto simp: closePrecedingNode_def neq_Nil_conv)
  next
    case (Some b)
    then obtain r where "w b = Some r" and "between (Identifier p) (ring_id (Name r)) k False"
      using scan_fingers_Some by blast
    with Some world_wfD [OF ww] show ?thesis
      by (auto simp: closePrecedingNode_def ring_id_def)
  qed
qed

lemma successor_owns:
  assumes w: "ring_ok w" and p: "w a = Some p" and k: "on_ring hashMod k"
    and q: "w (hd (Successors p)) = Some q"
    and inside: "between (Identifier p) k (Identifier q) True"
  shows "owns w (hd (Successors p)) k"
proof -
  have ww: "world_wf w" using w by (simp add: ring_ok_def)
  have "(Identifier q - k) mod hashMod \<le> (Identifier r - k) mod hashMod" if r: "w b = Some r" for b r
  proof (rule chord.btw_first [OF _ k _ _ inside])
    show "\<not> between (Identifier p) (Identifier r) (Identifier q) False"
      using ring_ok_next [OF w p] q r by (metis option.inject)
  qed (use world_wfD(4) [OF ww] p q r in blast)+
  with q show ?thesis by (auto simp: owns_def)
qed

lemma FindSuccessorRPC_reaches_owner:
  assumes "ring_ok w" and "w a = Some p" and "nat (cw hashMod (Identifier p) (k mod hashMod)) \<le> fuel"
  shows "\<exists>s. FindSuccessorRPC fuel w p k = Some (Inr \<lparr>Found = True, SuccessorAddress = s\<rparr>)
    \<and> owns w s (k mod hashMod)"
  using assms(2,3)
proof (induction fuel arbitrary: a p k)
  case 0
  have ww: "world_wf w" using assms(1) by (simp add: ring_ok_def)
  have "0 < cw hashMod (Identifier p) (k mod hashMod)"
    using cw_bounds [OF world_wfD(4) [OF ww 0(1)] mod_on_ring] by blast
  with 0 show ?case by simp
next
  case (Suc fuel)
  let ?k = "k mod hashMod"
  have ww: "world_wf w" using assms(1) by (simp add: ring_ok_def)
  note wp = world_wfD [OF ww Suc.prems(1)]
  obtain q where q: "w (hd (Successors p)) = Some q"
    using ring_ok_next [OF assms(1) Suc.prems(1)] by blast
  note wq = world_wfD [OF ww q]
  obtain s0 ss where s0: "Successors p = s0 # ss" using wp(6) by (cases "Successors p") auto
  show ?case
  proof (cases "between (Identifier p) ?k (Identifier q) True")
    case True
    with successor_owns [OF assms(1) Suc.prems(1) mod_on_ring q] s0 q wq show ?thesis by simp
  next
    case False
    obtain b r where b: "closePrecedingNode w p ?k = Some b" "w b = Some r"
      and btw: "between (Identifier p) (Identifier r) ?k False"
      using closePrecedingNode_progress [OF assms(1) Suc.prems(1) mod_on_ring q False] by blast
    have "cw hashMod (Identifier r) ?k < cw hashMod (Identifier p) ?k"
      by (rule chord.btw_closer [OF wp(4) world_wfD(4) [OF ww b(2)] mod_on_ring btw])
    moreover have "0 < cw hashMod (Identifier r) ?k"
      using cw_bounds [OF world_wfD(4) [OF ww b(2)] mod_on_ring] by blast
    ultimately have "nat (cw hashMod (Identifier r) (?k mod hashMod)) \<le> fuel"
      using Suc.prems(2) by simp
    from Suc.IH [OF b(2) this] obtain s where
      "FindSuccessorRPC fuel w r ?k = Some (Inr \<lparr>Found = True, SuccessorAddress = s\<rparr>)"
      and "owns w s ?k" by auto
    with b False s0 q wq world_wfD(1) [OF ww b(2)] show ?thesis by simp
  qed
qed

text \<open>More fuel never changes an answer.\<close>

lemma FindSuccessorRPC_mono:
  "FindSuccessorRPC fuel w p k = Some r \<Longrightarrow> fuel \<le> fuel' \<Longrightarrow> FindSuccessorRPC fuel' w p k = Some r"
proof (induction fuel arbitrary: fuel' p k r)
  case 0
  then show ?case by simp
next
  case (Suc fuel)
  then obtain n where n: "fuel' = Suc n" "fuel \<le> n" by (cases fuel') auto
  from Suc.prems(1) show ?case
    by (auto simp: n Let_def Suc.IH [OF _ n(2)] split: list.splits sum.splits if_splits option.splits)
qed

text \<open>
  C3: on a ring whose first successors are correct, \<open>FindSuccessorRPC\<close> at any live node
  returns, reports success, and names the owner of the requested identifier. Each hop gets
  strictly closer to the key, so a fuel of the clockwise distance (at most 64) is enough.
  The fingers may be stale or dead: they only have to be skipped.
\<close>

theorem FindSuccessorRPC_owner:
  assumes "ring_ok w" and "w a = Some p" and "nat (cw hashMod (Identifier p) (k mod hashMod)) \<le> fuel"
  shows "\<exists>s. FindSuccessorRPC fuel w p k = Some (Inr \<lparr>Found = True, SuccessorAddress = s\<rparr>)
    \<and> owns w s (k mod hashMod)"
  by (rule FindSuccessorRPC_reaches_owner [OF assms])

lemma fuel_64:
  "world_wf w \<Longrightarrow> w a = Some p \<Longrightarrow> 64 \<le> fuel \<Longrightarrow> nat (cw hashMod (Identifier p) (k mod hashMod)) \<le> fuel"
  using cw_bounds [OF world_wfD(4) mod_on_ring, of w a p k] by (auto simp: hashMod_eq nat_le_iff)

lemma clientLookUp_finds_owner:
  assumes "ring_ok w" and "w (Address p) = Some p" and "64 \<le> fuel"
  shows "\<exists>s. clientLookUp fuel w key p = Some (Inr s) \<and> owns w s (ring_id key)"
proof -
  have ww: "world_wf w" using assms(1) by (simp add: ring_ok_def)
  obtain s where s: "FindSuccessorRPC fuel w p (ring_id key) = Some (Inr \<lparr>Found = True, SuccessorAddress = s\<rparr>)"
    and o: "owns w s (ring_id key)"
    using FindSuccessorRPC_reaches_owner [OF assms(1,2) fuel_64 [OF ww assms(2,3)], of "ring_id key"]
    by (auto simp: ring_id_def)
  from o have "s \<noteq> ''-1''"
    using world_wfD(1) [OF ww] good_addr_not_minus1 by (auto simp: owns_def)
  with s o world_wfD(1) [OF ww assms(2)] assms(2) show ?thesis
    by (simp add: clientLookUp_def chord_find_def eval_nat_numeral find_call_def ring_id_def)
qed

text \<open>
  \<open>clientLookUp\<close> at a live node of a correct ring returns the address of the node
  that owns the ring identifier of the key, in one round of the ten that \<open>find\<close> allows.
\<close>

theorem clientLookUp_owner:
  assumes "ring_ok w" and "w (Address p) = Some p" and "64 \<le> fuel"
  shows "\<exists>s. clientLookUp fuel w key p = Some (Inr s) \<and> owns w s (ring_id key)"
  by (rule clientLookUp_finds_owner [OF assms])

text \<open>
  A failure behind the first hop is reported as a success. When a node forwards a request
  to a live node whose own first successor cannot be reached, the reply says \<open>Found\<close> and
  carries the error text as the successor's address.
\<close>

theorem forwarded_error_reported_found:
  assumes "Successors p = s # ss" and "call_GetName w s = Inr nm"
    and "\<not> between (Identifier p) (k mod hashMod) (ring_id nm) True"
    and "closePrecedingNode w p (k mod hashMod) = Some b" and "ChordDial w b = Inr q"
    and "Successors q = t # ts" and "ChordDial w t = Inl e"
  shows "FindSuccessorRPC (Suc (Suc fuel)) w p k =
    Some (Inr \<lparr>Found = True, SuccessorAddress = ''Error in findSuccessorRPC at '' @ t\<rparr>)"
proof -
  have "call_GetName w t = Inl e"
    using assms(7) by (simp add: call_GetName_def ChordCall_def)
  with assms show ?thesis
    by (simp add: ring_id_def find_error_def)
qed

end
