(* ===== verification/Chord_Stabilize.thy ===== *)
theory Chord_Stabilize
  imports Chord_Routing
begin

text \<open>
  The periodic tasks and the joining of a Chord node (\<^verbatim>\<open>Lab2/Node/stabilizing.go\<close>,
  \<open>joinChord\<close> of \<^verbatim>\<open>node.go\<close>) as functions on the network: a task runs at the
  node that listens on \<open>self\<close>, its remote calls read and change other nodes, and each task
  is one step (calls are synchronous; the interleaving of two tasks is the order of their
  steps). An index out of range panics, and a panic ends the process: the network loses it.
\<close>

section \<open>Remote calls that change the remote node\<close>

text \<open>
  The reply of \<open>StoreFileRPC\<close> carries an \<open>error\<close> value. A non-nil one is encoded as an
  object, which the client cannot decode into the interface type: the call itself fails.
\<close>

definition call_StoreFile :: "World \<Rightarrow> NodeAddress \<Rightarrow> FileRPC \<Rightarrow> (callErr + StoreFileRPCReply) \<times> World" where
  "call_StoreFile w a f =
     (case ChordDial w a of
        Inl e \<Rightarrow> (Inl e, w)
      | Inr q \<Rightarrow>
          (case StoreFileRPC q f of
             (r, q') \<Rightarrow> (if sf_Err r \<noteq> None then Inl (CallError ''reading body'') else Inr r, w(a \<mapsto> q'))))"

definition call_SuccessorStoreFile :: "World \<Rightarrow> NodeAddress \<Rightarrow> FileRPC \<Rightarrow> (callErr + bool) \<times> World" where
  "call_SuccessorStoreFile w a f =
     (case ChordDial w a of
        Inl e \<Rightarrow> (Inl e, w)
      | Inr q \<Rightarrow>
          (case SuccessorStoreFileRPC q f of
             ((ok, err), q') \<Rightarrow>
               (if err \<noteq> None then Inl (CallError ''reading body'') else Inr ok, w(a \<mapsto> q'))))"

definition call_DeleteBackup :: "World \<Rightarrow> NodeAddress \<Rightarrow> (callErr + bool) \<times> World" where
  "call_DeleteBackup w a =
     (case ChordDial w a of
        Inl e \<Rightarrow> (Inl e, w)
      | Inr q \<Rightarrow> (case DeleteSuccessorBackupRPC q of (ok, q') \<Rightarrow> (Inr ok, w(a \<mapsto> q'))))"

definition call_GetPredecessor :: "World \<Rightarrow> NodeAddress \<Rightarrow> callErr + NodeAddress" where
  "call_GetPredecessor w a =
     ChordCall w a (\<lambda>p. case GetPredecessorRPC p of Inl e \<Rightarrow> Inl (CallError e) | Inr b \<Rightarrow> Inr b)"

definition call_GetSuccessorList :: "World \<Rightarrow> NodeAddress \<Rightarrow> callErr + NodeAddress list" where
  "call_GetSuccessorList w a = ChordCall w a (\<lambda>p. Inr (GetSuccessorListRPC p))"

section \<open>Notification\<close>

definition notify :: "World \<Rightarrow> NodeAddress \<Rightarrow> NodeAddress \<Rightarrow> bool \<times> World" where
  "notify w self addr =
     (case w self of
        None \<Rightarrow> (False, w)
      | Some p \<Rightarrow>
          if Predecessor p \<noteq> '''' then
            (case call_GetName w (Predecessor p) of
               Inl _ \<Rightarrow> (False, w)
             | Inr predName \<Rightarrow>
                 (case call_GetName w addr of
                    Inl _ \<Rightarrow> (False, w)
                  | Inr addrName \<Rightarrow>
                      if between (strHash predName mod hashMod) (strHash addrName mod hashMod) (Identifier p) False
                      then (True, w(self \<mapsto> p\<lparr>Predecessor := addr\<rparr>)) else (False, w)))
          else (True, w(self \<mapsto> p\<lparr>Predecessor := addr\<rparr>)))"

text \<open>Whether a stored file belongs to the new predecessor rather than to this node.\<close>

definition should_move :: "int \<Rightarrow> int \<Rightarrow> int \<Rightarrow> bool" where
  "should_move fileId addressId identifier \<longleftrightarrow>
     between fileId addressId identifier True \<and> fileId \<noteq> identifier \<or> fileId = addressId"

definition local_content :: "NodeProc \<Rightarrow> string \<Rightarrow> bytes" where
  "local_content p fileName =
     (let path = storage_path (Name p) fileName in
      if os_Open (disk p) path then (case ReadAll (disk p) path of None \<Rightarrow> [] | Some c \<Rightarrow> c) else [])"

definition drop_local :: "NodeProc \<Rightarrow> BigKey \<Rightarrow> string \<Rightarrow> NodeProc" where
  "drop_local p k fileName =
     p\<lparr>Bucket := AList.delete k (Bucket p),
       disk := snd (os_Remove (disk p) (storage_path (Name p) fileName))\<rparr>"

definition move_one :: "NodeAddress \<Rightarrow> NodeAddress \<Rightarrow> int \<Rightarrow> World \<Rightarrow> BigKey \<times> string \<Rightarrow> World" where
  "move_one self addr addressId w kv =
     (case kv of (k, fileName) \<Rightarrow>
        (case w self of
           None \<Rightarrow> w
         | Some p \<Rightarrow>
             if should_move (snd k) addressId (Identifier p) then
               let w1 = snd (call_StoreFile w addr
                               \<lparr>file_Id = snd k, file_Name = fileName, file_Content = local_content p fileName\<rparr>)
               in (case w1 self of None \<Rightarrow> w1 | Some p1 \<Rightarrow> w1(self \<mapsto> drop_local p1 k fileName))
             else w))"

definition moveFiles :: "range_order \<Rightarrow> World \<Rightarrow> NodeAddress \<Rightarrow> NodeAddress \<Rightarrow> World" where
  "moveFiles ord w self addr =
     (case w self of
        None \<Rightarrow> w
      | Some p \<Rightarrow>
          (case call_GetName w addr of
             Inl _ \<Rightarrow> w
           | Inr nm \<Rightarrow> foldl (move_one self addr (strHash nm mod hashMod)) w (ord (Bucket p))))"

text \<open>\<open>node.Successors[0]\<close> on an empty list ends the remote process; the caller sees an error.\<close>

definition NotifyRPC :: "range_order \<Rightarrow> World \<Rightarrow> NodeAddress \<Rightarrow> NodeAddress \<Rightarrow> (callErr + bool) \<times> World" where
  "NotifyRPC ord w self addr =
     (case w self of
        None \<Rightarrow> (Inl DialError, w)
      | Some p \<Rightarrow>
          (case Successors p of
             [] \<Rightarrow> (Inl (CallError ''panic''), w(self := None))
           | s0 # _ \<Rightarrow>
               let w1 = (if s0 \<noteq> Address p then moveFiles ord w self addr else w)
               in (case notify w1 self addr of (ok, w2) \<Rightarrow> (Inr ok, w2))))"

definition call_Notify :: "range_order \<Rightarrow> World \<Rightarrow> NodeAddress \<Rightarrow> NodeAddress \<Rightarrow> (callErr + bool) \<times> World" where
  "call_Notify ord w target addr =
     (case ChordDial w target of Inl e \<Rightarrow> (Inl e, w) | Inr _ \<Rightarrow> NotifyRPC ord w target addr)"

section \<open>Joining\<close>

datatype taskResult = TaskOk | TaskErr callErr | TaskPanic

definition crash :: "World \<Rightarrow> NodeAddress \<Rightarrow> taskResult \<times> World" where
  "crash w self = (TaskPanic, w(self := None))"

text \<open>The outer \<open>None\<close>: the forwarded request has not returned within the fuel.\<close>

definition joinChord :: "nat \<Rightarrow> range_order \<Rightarrow> World \<Rightarrow> NodeAddress \<Rightarrow> NodeAddress \<Rightarrow> (taskResult \<times> World) option" where
  "joinChord fuel ord w self joinNode =
     (case w self of
        None \<Rightarrow> Some (TaskErr DialError, w)
      | Some p \<Rightarrow>
          let p1 = p\<lparr>Predecessor := ''''\<rparr>; w1 = w(self \<mapsto> p1);
              answer = (case ChordDial w1 joinNode of
                          Inl e \<Rightarrow> Some (Inl e)
                        | Inr q \<Rightarrow> FindSuccessorRPC fuel w1 q (Identifier p1))
          in (case answer of
                None \<Rightarrow> None
              | Some r \<Rightarrow>
                  if Successors p1 = [] then Some (crash w1 self)
                  else
                    let s = (case r of Inl _ \<Rightarrow> '''' | Inr rep \<Rightarrow> SuccessorAddress rep);
                        w2 = w1(self \<mapsto> p1\<lparr>Successors := (Successors p1)[0 := s]\<rparr>)
                    in (case r of
                          Inl e \<Rightarrow> Some (TaskErr e, w2)
                        | Inr _ \<Rightarrow>
                            (case call_Notify ord w2 s (Address p1) of
                               (Inl e, w3) \<Rightarrow> Some (TaskErr e, w3)
                             | (Inr _, w3) \<Rightarrow> Some (TaskOk, w3)))))"

section \<open>Stabilisation\<close>

text \<open>
  \<open>node.Successors[i+1] = successors[i]\<close> for all but the last entry of the received list;
  \<open>None\<close> where the index leaves the node's own list.
\<close>

fun copy_successors :: "NodeAddress list \<Rightarrow> nat \<Rightarrow> NodeAddress list \<Rightarrow> NodeAddress list option" where
  "copy_successors own i [] = Some own"
| "copy_successors own i (x # xs) =
     (if i + 1 < length own then copy_successors (own[i + 1 := x]) (i + 1) xs else None)"

text \<open>The new successor list of the first part of \<open>stablize\<close> (\<open>None\<close>: it panics).\<close>

definition refresh_successors :: "World \<Rightarrow> NodeProc \<Rightarrow> NodeAddress list option" where
  "refresh_successors w p =
     (case Successors p of
        [] \<Rightarrow> None
      | s0 # rest \<Rightarrow>
          (case call_GetSuccessorList w s0 of
             Inr successors \<Rightarrow> copy_successors (Successors p) 0 (butlast successors)
           | Inl _ \<Rightarrow> if s0 = '''' then Some (Address p # rest) else Some (rest @ [''''])))"

text \<open>The second part: adopt the successor's predecessor if it lies in between.\<close>

definition adopt_predecessor :: "World \<Rightarrow> NodeProc \<Rightarrow> callErr + NodeAddress list" where
  "adopt_predecessor w p =
     (case call_GetPredecessor w (hd (Successors p)) of
        Inl _ \<Rightarrow> Inr (Successors p)
      | Inr predecessorAddr \<Rightarrow>
          (case call_GetName w (hd (Successors p)) of
             Inl e \<Rightarrow> Inl e
           | Inr successorName \<Rightarrow>
               (case call_GetName w predecessorAddr of
                  Inl e \<Rightarrow> Inl e
                | Inr predecessorName \<Rightarrow>
                    if predecessorAddr \<noteq> '''' \<and>
                       between (strHash (Name p) mod hashMod) (strHash predecessorName mod hashMod)
                         (strHash successorName mod hashMod) False
                    then Inr ((Successors p)[0 := predecessorAddr]) else Inr (Successors p))))"

text \<open>The copy loop: it stops at the first value that repeats the one before.\<close>

fun copy_backup :: "NodeProc \<Rightarrow> NodeAddress \<Rightarrow> string \<Rightarrow> World \<Rightarrow> Bucket_map \<Rightarrow> callErr option \<times> World" where
  "copy_backup p s0 lastValue w [] = (None, w)"
| "copy_backup p s0 lastValue w ((k, v) # es) =
     (if v = lastValue then (None, w)
      else if v \<noteq> '''' then
        (let path = storage_path (Name p) v in
         if \<not> os_Open (disk p) path then (Some (CallError ''open failed''), w)
         else (case ReadAll (disk p) path of
                 None \<Rightarrow> (Some (CallError ''read failed''), w)
               | Some c \<Rightarrow>
                   copy_backup p s0 v
                     (snd (call_SuccessorStoreFile w s0 \<lparr>file_Id = snd k, file_Name = v, file_Content = c\<rparr>)) es))
      else copy_backup p s0 lastValue w es)"

text \<open>The third part: notify the successor, then replace its backup by this node's bucket.\<close>

definition push_backup :: "range_order \<Rightarrow> World \<Rightarrow> NodeAddress \<Rightarrow> taskResult \<times> World" where
  "push_backup ord w self =
     (case w self of
        None \<Rightarrow> (TaskPanic, w)
      | Some p \<Rightarrow>
          let s0 = hd (Successors p) in
          (case call_DeleteBackup w s0 of
             (Inl e, w1) \<Rightarrow> (TaskErr e, w1)
           | (Inr _, w1) \<Rightarrow>
               if s0 = Address p then (TaskOk, w1)
               else
                 (case w1 self of
                    None \<Rightarrow> (TaskPanic, w1)
                  | Some p1 \<Rightarrow>
                      (case copy_backup p1 s0 '''' w1 (ord (Bucket p1)) of
                         (Some e, w2) \<Rightarrow> (TaskErr e, w2)
                       | (None, w2) \<Rightarrow>
                           (case w2 self of
                              None \<Rightarrow> (TaskPanic, w2)
                            | Some p2 \<Rightarrow> (TaskOk, w2(self \<mapsto> cleanRedundantFile p2)))))))"

definition stablize :: "range_order \<Rightarrow> World \<Rightarrow> NodeAddress \<Rightarrow> taskResult \<times> World" where
  "stablize ord w self =
     (case w self of
        None \<Rightarrow> (TaskErr DialError, w)
      | Some p \<Rightarrow>
          (case refresh_successors w p of
             None \<Rightarrow> crash w self
           | Some ss \<Rightarrow>
               let p1 = p\<lparr>Successors := ss\<rparr>; w1 = w(self \<mapsto> p1) in
               (case adopt_predecessor w1 p1 of
                  Inl e \<Rightarrow> (TaskErr e, w1)
                | Inr ss2 \<Rightarrow>
                    let p2 = p1\<lparr>Successors := ss2\<rparr>; w2 = w1(self \<mapsto> p2);
                        w3 = snd (call_Notify ord w2 (hd ss2) (Address p2))
                    in push_backup ord w3 self)))"

section \<open>Failure of the predecessor\<close>

definition NAT :: "string \<Rightarrow> string \<Rightarrow> string" where
  "NAT localAddress addr =
     (let a1 = (if addr = localAddress then ''localhost'' else addr);
          a2 = (if addr = ''172.31.21.112'' then ''54.145.27.145'' else a1);
          a3 = (if addr = ''192.168.31.236'' then ''95.80.36.91'' else a2);
          a4 = (if addr = ''192.168.31.153'' then ''95.80.36.91'' else a3);
          a5 = (if addr = ''192.168.254.89'' then ''50.93.222.140'' else a4)
      in (if addr = ''172.31.82.96'' then ''18.233.168.46'' else a5))"

definition checkPredecessor :: "string \<Rightarrow> World \<Rightarrow> NodeAddress \<Rightarrow> taskResult \<times> World" where
  "checkPredecessor localAddress w self =
     (case w self of
        None \<Rightarrow> (TaskErr DialError, w)
      | Some p \<Rightarrow>
          if Predecessor p \<noteq> '''' then
            (case split_on CHR '':'' (Predecessor p) of
               ip # port # _ \<Rightarrow>
                 (case w (NAT localAddress ip @ '':'' @ port) of
                    Some _ \<Rightarrow> (TaskOk, w)
                  | None \<Rightarrow> (TaskOk, w(self \<mapsto> takeOverBackup p)))
             | _ \<Rightarrow> crash w self)
          else (TaskOk, w))"

section \<open>Fingers\<close>

definition set_finger :: "NodeProc \<Rightarrow> nat \<Rightarrow> int \<Rightarrow> NodeAddress \<Rightarrow> NodeProc" where
  "set_finger p i target a =
     p\<lparr>FingerTable := (FingerTable p)[i := \<lparr>fe_Id = big_Bytes target, fe_Address = a\<rparr>]\<rparr>"

text \<open>
  The closing loop of \<open>fixFingers\<close>: the next fingers that the found successor also covers.
  It starts from \<open>node.next\<close> after the increment of the loop head.
\<close>

function extend_fingers :: "World \<Rightarrow> NodeProc \<Rightarrow> NodeAddress \<Rightarrow> nat \<Rightarrow> callErr option \<times> NodeProc" where
  "extend_fingers w p a i =
     (if i > fingerTableSize then (None, p\<lparr>node_next := 0\<rparr>)
      else
        (case call_GetName w a of
           Inl e \<Rightarrow> (Some e, p\<lparr>node_next := i\<rparr>)
         | Inr nm \<Rightarrow>
             if between (Identifier p) (node_fingerEntry p i) (strHash nm mod hashMod) False \<and> a \<noteq> ''''
             then extend_fingers w
                    (if fe_Address (FingerTable p ! i) \<noteq> a then set_finger p i (node_fingerEntry p i) a else p)
                    a (Suc i)
             else (None, p\<lparr>node_next := i - 1\<rparr>)))"
  by pat_completeness auto
termination
  by (relation "measure (\<lambda>(w, p, a, i). Suc fingerTableSize - i)") auto

declare extend_fingers.simps [simp del]

definition fixFingers :: "nat \<Rightarrow> World \<Rightarrow> NodeAddress \<Rightarrow> (taskResult \<times> World) option" where
  "fixFingers fuel w self =
     (case w self of
        None \<Rightarrow> Some (TaskErr DialError, w)
      | Some p \<Rightarrow>
          let i = (if node_next p + 1 > fingerTableSize then 1 else node_next p + 1);
              p1 = p\<lparr>node_next := i\<rparr>; w1 = w(self \<mapsto> p1);
              target = node_fingerEntry p1 i
          in (case (case ChordDial w1 (Address p1) of
                      Inl e \<Rightarrow> Some (Inl e)
                    | Inr q \<Rightarrow> FindSuccessorRPC fuel w1 q target) of
                None \<Rightarrow> None
              | Some (Inl e) \<Rightarrow> Some (TaskErr e, w1)
              | Some (Inr result) \<Rightarrow>
                  let a = SuccessorAddress result in
                  (case call_GetName w1 a of
                     Inl e \<Rightarrow> Some (TaskErr e, w1)
                   | Inr _ \<Rightarrow>
                       if i < length (FingerTable p1) then
                         let old = fe_Address (FingerTable p1 ! i);
                             p2 = set_finger p1 i target (if old \<noteq> a \<and> a \<noteq> '''' then a else old)
                         in (case extend_fingers (w1(self \<mapsto> p2)) p2 a (Suc i) of
                               (Some e, p3) \<Rightarrow> Some (TaskErr e, w1(self \<mapsto> p3))
                             | (None, p3) \<Rightarrow> Some (TaskOk, w1(self \<mapsto> p3)))
                       else Some (crash w1 self))))"

end
