(* ===== verification/Chord_Stable.thy ===== *)
theory Chord_Stable
  imports Chord_Stabilize
begin

text \<open>
  What the periodic tasks keep: no task renames a node, moves its first successor away from
  the right one, or breaks its well-formedness (\<open>keeps\<close>), so a correct ring stays
  correct under any interleaving of tasks and every lookup on it is answered by the owner.
  Then the fate of files: which files a new predecessor receives, what the fingers hold
  after \<open>fixFingers\<close>, and what happens between nodes with successor lists of different
  lengths.
\<close>

section \<open>Framing\<close>

definition pred_ok :: "NodeProc \<Rightarrow> bool" where
  "pred_ok p \<longleftrightarrow> Predecessor p = '''' \<or> good_addr (Predecessor p)"

definition same_core :: "NodeProc \<Rightarrow> NodeProc \<Rightarrow> bool" where
  "same_core p q \<longleftrightarrow>
     Name q = Name p \<and> Identifier q = Identifier p \<and> Address q = Address p \<and>
     hd (Successors q) = hd (Successors p) \<and> length (Successors q) = length (Successors p) \<and>
     (wf_proc p \<longrightarrow> wf_proc q) \<and> (pred_ok p \<longrightarrow> pred_ok q)"

definition keeps :: "World \<Rightarrow> World \<Rightarrow> bool" where
  "keeps w w' \<longleftrightarrow>
     (\<forall>a. (w a = None \<longrightarrow> w' a = None) \<and> (\<forall>p. w a = Some p \<longrightarrow> (\<exists>q. w' a = Some q \<and> same_core p q)))"

lemma same_core_refl [simp]: "same_core p p"
  by (simp add: same_core_def)

lemma same_core_trans: "same_core p q \<Longrightarrow> same_core q r \<Longrightarrow> same_core p r"
  by (simp add: same_core_def)

lemma keeps_refl [simp]: "keeps w w"
  by (simp add: keeps_def)

lemma keeps_trans: "keeps u v \<Longrightarrow> keeps v w \<Longrightarrow> keeps u w"
  unfolding keeps_def by (metis same_core_trans)

lemma keeps_upd: "w a = Some p \<Longrightarrow> same_core p q \<Longrightarrow> keeps w (w(a \<mapsto> q))"
  by (auto simp: keeps_def)

lemma keeps_Some: "keeps w w' \<Longrightarrow> w a = Some p \<Longrightarrow> \<exists>q. w' a = Some q \<and> same_core p q"
  by (auto simp: keeps_def)

lemma keeps_back: "keeps w w' \<Longrightarrow> w' a = Some q \<Longrightarrow> \<exists>p. w a = Some p \<and> same_core p q"
  unfolding keeps_def by (metis not_None_eq option.inject)

lemma same_core_store: "same_core p (snd (storeChordFile p f bk))"
  by (auto simp: same_core_def pred_ok_def intro: storeChordFile_wf)

lemma same_core_successorStore: "same_core p (snd (successorStoreFile p f))"
  using successorStoreFile_wf [of p f]
  by (auto simp: same_core_def pred_ok_def successorStoreFile_def new_big_def Let_def)

lemma same_core_pred: "good_addr x \<Longrightarrow> same_core p (p\<lparr>Predecessor := x\<rparr>)"
  by (auto simp: same_core_def wf_proc_def pred_ok_def)

lemma set_delete_subset: "x \<in> set (AList.delete k b) \<Longrightarrow> x \<in> set b"
  by (simp add: AList.delete_eq)

lemma keys_ok_delete: "keys_ok h b \<Longrightarrow> keys_ok h (AList.delete k b)"
  using distinct_delete [of b k] by (auto simp: keys_ok_def dest: set_delete_subset)

lemma same_core_drop: "same_core p (drop_local p k f)"
  by (auto simp: same_core_def drop_local_def wf_proc_def pred_ok_def intro: keys_ok_delete)

lemma same_core_delete_backup: "same_core p (p\<lparr>Backup := []\<rparr>)"
  by (auto simp: same_core_def wf_proc_def pred_ok_def)

lemma same_core_takeOver: "same_core p (takeOverBackup p)"
  using takeOverBackup_wf [of p] by (auto simp: same_core_def pred_ok_def takeOverBackup_def)

lemma same_core_clean: "same_core p (cleanRedundantFile p)"
  by (simp add: same_core_def pred_ok_def)

lemma call_StoreFile_keeps: "keeps w (snd (call_StoreFile w a f))"
  using same_core_store
  by (auto simp: call_StoreFile_def StoreFileRPC_def ChordDial_Inr split: sum.splits prod.splits
      intro!: keeps_upd) (metis snd_conv)

lemma call_SuccessorStoreFile_keeps: "keeps w (snd (call_SuccessorStoreFile w a f))"
  using same_core_successorStore
  by (auto simp: call_SuccessorStoreFile_def SuccessorStoreFileRPC_def ChordDial_Inr
      split: sum.splits prod.splits intro!: keeps_upd) (metis snd_conv)

lemma call_DeleteBackup_keeps: "keeps w (snd (call_DeleteBackup w a))"
  by (auto simp: call_DeleteBackup_def DeleteSuccessorBackupRPC_def deleteSuccessorBackup_eq ChordDial_Inr
      split: sum.splits intro!: keeps_upd same_core_delete_backup)

lemma notify_keeps: "good_addr a \<Longrightarrow> keeps w (snd (notify w self a))"
  by (auto simp: notify_def split: option.splits sum.splits intro!: keeps_upd same_core_pred)

lemma move_one_keeps: "keeps w (move_one self a i w kv)"
proof (cases "w self")
  case None
  then show ?thesis by (simp add: move_one_def split: prod.split)
next
  case (Some p)
  obtain k f where kv: "kv = (k, f)" by (cases kv)
  let ?w1 = "snd (call_StoreFile w a \<lparr>file_Id = snd k, file_Name = f, file_Content = local_content p f\<rparr>)"
  have k1: "keeps w ?w1" by (rule call_StoreFile_keeps)
  then obtain p1 where p1: "?w1 self = Some p1" using keeps_Some Some by blast
  have "keeps w (?w1(self \<mapsto> drop_local p1 k f))"
    by (rule keeps_trans [OF k1], rule keeps_upd, rule p1, rule same_core_drop)
  with Some p1 show ?thesis by (simp add: move_one_def kv Let_def)
qed

lemma foldl_move_keeps: "keeps w (foldl (move_one self a i) w es)"
  by (induction es arbitrary: w) (auto intro: keeps_trans move_one_keeps)

lemma moveFiles_keeps: "keeps w (moveFiles ord w self a)"
  by (auto simp: moveFiles_def foldl_move_keeps split: option.splits sum.splits)

lemma NotifyRPC_keeps:
  assumes "world_wf w" and "good_addr a"
  shows "keeps w (snd (NotifyRPC ord w self a))"
proof (cases "w self")
  case None
  then show ?thesis by (simp add: NotifyRPC_def)
next
  case (Some p)
  then obtain s0 ss where s: "Successors p = s0 # ss"
    using world_wfD(6) [OF assms(1)] by (cases "Successors p") auto
  show ?thesis
    using keeps_trans [OF moveFiles_keeps notify_keeps [OF assms(2)]] notify_keeps [OF assms(2)]
    by (auto simp: NotifyRPC_def Some s Let_def split: prod.splits) (metis snd_conv)+
qed

lemma call_Notify_keeps: "world_wf w \<Longrightarrow> good_addr a \<Longrightarrow> keeps w (snd (call_Notify ord w t a))"
  by (auto simp: call_Notify_def NotifyRPC_keeps split: sum.splits)

lemma copy_backup_keeps: "keeps w (snd (copy_backup p s0 l w es))"
proof (induction es arbitrary: l w)
  case Nil
  then show ?case by simp
next
  case (Cons e es)
  have "keeps w (snd (copy_backup p s0 l' (snd (call_SuccessorStoreFile w s0 f)) es))" for l' f
    using call_SuccessorStoreFile_keeps Cons.IH by (rule keeps_trans)
  with Cons.IH show ?case
    by (cases e) (simp add: Let_def split: option.split)
qed

lemma push_backup_keeps: "keeps w (snd (push_backup ord w self))"
proof (cases "w self")
  case None
  then show ?thesis by (simp add: push_backup_def)
next
  case (Some p)
  let ?s = "hd (Successors p)"
  obtain r w1 where d: "call_DeleteBackup w ?s = (r, w1)" by fastforce
  then have k1: "keeps w w1" using call_DeleteBackup_keeps by (metis snd_conv)
  then obtain p1 where p1: "w1 self = Some p1" using keeps_Some Some by blast
  obtain e w2 where c: "copy_backup p1 ?s '''' w1 (ord (Bucket p1)) = (e, w2)" by fastforce
  then have k2: "keeps w w2" using k1 copy_backup_keeps keeps_trans by (metis snd_conv)
  then obtain p2 where p2: "w2 self = Some p2" using keeps_Some Some by blast
  have "keeps w (w2(self \<mapsto> cleanRedundantFile p2))"
    by (rule keeps_trans [OF k2], rule keeps_upd, rule p2, rule same_core_clean)
  with Some d p1 c p2 k1 k2 show ?thesis
    by (simp add: push_backup_def Let_def split: sum.split option.split)
qed

section \<open>A correct ring stays correct\<close>

lemma keeps_ring_ok:
  assumes "ring_ok w" and k: "keeps w w'"
  shows "ring_ok w'"
proof -
  have ww: "world_wf w" using assms(1) by (simp add: ring_ok_def)
  have "world_wf w'"
    using ww keeps_back [OF k] unfolding world_wf_def same_core_def by metis
  moreover have "next_on_ring w' q (hd (Successors q))" if q: "w' a = Some q" for a q
  proof -
    obtain p where p: "w a = Some p" and pq: "same_core p q" using keeps_back [OF k q] by blast
    obtain t where t: "w (hd (Successors p)) = Some t"
      and nb: "\<And>b r. w b = Some r \<Longrightarrow> \<not> between (Identifier p) (Identifier r) (Identifier t) False"
      using ring_ok_next [OF assms(1) p] by blast
    obtain t' where t': "w' (hd (Successors p)) = Some t'" and tt: "same_core t t'"
      using keeps_Some [OF k t] by blast
    have "\<not> between (Identifier q) (Identifier r) (Identifier t') False" if r: "w' b = Some r" for b r
      using keeps_back [OF k r] nb pq tt by (auto simp: same_core_def)
    with t' pq show ?thesis by (auto simp: next_on_ring_def same_core_def)
  qed
  ultimately show ?thesis by (simp add: ring_ok_def)
qed

lemma copy_successors_frame:
  "copy_successors own i xs = Some ss \<Longrightarrow> own \<noteq> [] \<Longrightarrow> hd ss = hd own \<and> length ss = length own"
proof (induction own i xs rule: copy_successors.induct)
  case (2 own i x xs)
  then show ?case by (cases own) (auto split: if_splits)
qed auto

lemma copy_successors_total:
  "i + length xs < length own \<Longrightarrow> \<exists>ss. copy_successors own i xs = Some ss"
  by (induction own i xs rule: copy_successors.induct) auto

lemma copy_successors_panic:
  "length own \<le> i + length xs \<Longrightarrow> i < length own \<Longrightarrow> copy_successors own i xs = None"
  by (induction own i xs rule: copy_successors.induct) auto

lemma wf_set_Successors:
  "wf_proc p \<Longrightarrow> ss \<noteq> [] \<Longrightarrow> wf_proc (p\<lparr>Successors := ss\<rparr>)"
  by (simp add: wf_proc_def)

lemma refresh_frame:
  assumes "ring_ok w" and "w a = Some p" and "refresh_successors w p = Some ss"
  shows "same_core p (p\<lparr>Successors := ss\<rparr>)"
proof -
  have ww: "world_wf w" using assms(1) by (simp add: ring_ok_def)
  obtain q where q: "w (hd (Successors p)) = Some q"
    using ring_ok_next [OF assms(1,2)] by blast
  obtain s0 rest where s: "Successors p = s0 # rest"
    using world_wfD(6) [OF ww assms(2)] by (cases "Successors p") auto
  have "call_GetSuccessorList w s0 = Inr (Successors q)"
    using q s world_wfD(1) [OF ww q]
    by (simp add: call_GetSuccessorList_def ChordCall_def GetSuccessorListRPC_def getSuccessorList_def)
  then have "copy_successors (Successors p) 0 (butlast (Successors q)) = Some ss"
    using assms(3) by (simp add: refresh_successors_def s)
  from copy_successors_frame [OF this] show ?thesis
    using s by (auto simp: same_core_def pred_ok_def intro!: wf_set_Successors)
qed

text \<open>On a correct ring nobody live sits between a node and its successor to be adopted.\<close>

lemma adopt_predecessor_stable:
  assumes "ring_ok w" and "w a = Some p" and "adopt_predecessor w p = Inr ss"
  shows "ss = Successors p"
proof -
  have ww: "world_wf w" using assms(1) by (simp add: ring_ok_def)
  obtain q where q: "w (hd (Successors p)) = Some q"
    and nb: "\<And>b r. w b = Some r \<Longrightarrow> \<not> between (Identifier p) (Identifier r) (Identifier q) False"
    using ring_ok_next [OF assms(1,2)] by blast
  have nb': "\<not> between (Identifier p) (strHash nm mod hashMod) (Identifier q) False"
    if name: "call_GetName w x = Inr nm" for x nm
  proof -
    obtain r where r: "w x = Some r" and nm: "Name r = nm"
      using name by (auto simp: call_GetName_Inr)
    show ?thesis using nb [OF r] world_wfD(5) [OF ww r] nm by simp
  qed
  have nq: "call_GetName w (hd (Successors p)) = Inr (Name q)"
    using q world_wfD(1) [OF ww q] by simp
  show ?thesis
  proof (cases "call_GetPredecessor w (hd (Successors p))")
    case (Inl e)
    with assms(3) show ?thesis by (simp add: adopt_predecessor_def)
  next
    case (Inr x)
    then obtain nm where nm: "call_GetName w x = Inr nm"
      using assms(3) nq by (cases "call_GetName w x") (simp_all add: adopt_predecessor_def)
    from assms(3) Inr nq nm nb' [OF nm] show ?thesis
      by (simp add: adopt_predecessor_def world_wfD(5) [OF ww q] world_wfD(5) [OF ww assms(2)])
  qed
qed

lemma stablize_keeps:
  assumes "ring_ok w" and "fst (stablize ord w a) \<noteq> TaskPanic"
  shows "keeps w (snd (stablize ord w a))"
proof (cases "w a")
  case None
  then show ?thesis by (simp add: stablize_def)
next
  case (Some p)
  obtain ss where ss: "refresh_successors w p = Some ss"
    using assms(2) Some by (cases "refresh_successors w p") (simp_all add: stablize_def crash_def)
  let ?p1 = "p\<lparr>Successors := ss\<rparr>"
  let ?w1 = "w(a \<mapsto> ?p1)"
  have k1: "keeps w ?w1"
    by (rule keeps_upd, rule Some, rule refresh_frame [OF assms(1) Some ss])
  have r1: "ring_ok ?w1" by (rule keeps_ring_ok [OF assms(1) k1])
  show ?thesis
  proof (cases "adopt_predecessor ?w1 ?p1")
    case (Inl e)
    with Some ss k1 show ?thesis by (simp add: stablize_def)
  next
    case (Inr ss2)
    then have eq: "ss2 = ss" using adopt_predecessor_stable [OF r1, of a ?p1 ss2] by simp
    have "world_wf ?w1" using r1 by (simp add: ring_ok_def)
    moreover have "good_addr (Address p)"
      using world_wfD(1,2) [of w a p] assms(1) Some by (simp add: ring_ok_def)
    ultimately have "keeps w (snd (push_backup ord (snd (call_Notify ord ?w1 (hd ss) (Address p))) a))"
      by (rule keeps_trans [OF keeps_trans [OF k1 call_Notify_keeps] push_backup_keeps])
    with Some ss Inr eq show ?thesis by (simp add: stablize_def Let_def)
  qed
qed

lemma checkPredecessor_keeps:
  "world_wf w \<Longrightarrow> fst (checkPredecessor la w a) \<noteq> TaskPanic \<Longrightarrow> keeps w (snd (checkPredecessor la w a))"
  by (auto simp: checkPredecessor_def crash_def split: option.splits list.splits
      intro!: keeps_upd same_core_takeOver)

lemma extend_fingers_core:
  "1 \<le> i \<Longrightarrow> length (FingerTable p) = fingerTableSize + 1 \<Longrightarrow> node_next p \<le> fingerTableSize \<Longrightarrow>
    same_core p (snd (extend_fingers w p a i))"
proof (induction w p a i rule: extend_fingers.induct)
  case (1 w p a i)
  let ?p = "if fe_Address (FingerTable p ! i) \<noteq> a then set_finger p i (node_fingerEntry p i) a else p"
  have c: "same_core p ?p" "length (FingerTable ?p) = fingerTableSize + 1" "node_next ?p \<le> fingerTableSize"
    using "1.prems" by (simp_all add: same_core_def set_finger_def wf_proc_def pred_ok_def)
  have e: "same_core p (p\<lparr>node_next := j\<rparr>)" if "j \<le> fingerTableSize" for j
    using that by (simp add: same_core_def wf_proc_def pred_ok_def)
  show ?case
  proof (cases "i > fingerTableSize")
    case True
    with e [of 0] show ?thesis by (simp add: extend_fingers.simps [of w p a i])
  next
    case False
    show ?thesis
    proof (cases "call_GetName w a")
      case (Inl err)
      with False e [of i] show ?thesis by (simp add: extend_fingers.simps [of w p a i])
    next
      case (Inr nm)
      show ?thesis
      proof (cases "between (Identifier p) (node_fingerEntry p i) (strHash nm mod hashMod) False \<and> a \<noteq> ''''")
        case True
        then have "same_core ?p (snd (extend_fingers w ?p a (Suc i)))"
          using "1.IH" [OF False Inr True] c by simp
        with c(1) have "same_core p (snd (extend_fingers w ?p a (Suc i)))"
          by (rule same_core_trans)
        with False Inr True show ?thesis by (simp add: extend_fingers.simps [of w p a i])
      next
        case no: False
        with False Inr e [of "i - 1"] show ?thesis by (auto simp: extend_fingers.simps [of w p a i])
      qed
    qed
  qed
qed

lemma fixFingers_keeps:
  assumes "ring_ok w" and "fixFingers fuel w a = Some (r, w')"
  shows "keeps w w' \<and> r \<noteq> TaskPanic"
proof (cases "w a")
  case None
  with assms(2) show ?thesis by (auto simp: fixFingers_def)
next
  case (Some p)
  have ww: "world_wf w" using assms(1) by (simp add: ring_ok_def)
  have len: "length (FingerTable p) = fingerTableSize + 1"
    using world_wfD(3) [OF ww Some] by (simp add: wf_proc_def)
  let ?i = "if node_next p + 1 > fingerTableSize then 1 else node_next p + 1"
  let ?p1 = "p\<lparr>node_next := ?i\<rparr>"
  let ?w1 = "w(a \<mapsto> ?p1)"
  have i: "?i \<le> fingerTableSize" "1 \<le> ?i" by (simp_all add: fingerTableSize_def)
  then have c1: "same_core p ?p1" by (simp add: same_core_def wf_proc_def pred_ok_def)
  have c2: "same_core p (set_finger ?p1 ?i t b)" for t b
    using c1 by (simp add: same_core_def set_finger_def wf_proc_def pred_ok_def)
  have c3: "same_core p (snd (extend_fingers v (set_finger ?p1 ?i t b) c (Suc ?i)))" for v t b c
    by (rule same_core_trans [OF c2 extend_fingers_core]) (use len i in \<open>simp_all add: set_finger_def\<close>)
  have k1: "keeps w ?w1" by (rule keeps_upd, rule Some, rule c1)
  have k3: "keeps w (?w1(a \<mapsto> snd (extend_fingers v (set_finger ?p1 ?i t b) c (Suc ?i))))" for v t b c
    unfolding fun_upd_upd by (rule keeps_upd, rule Some, rule c3)
  have in_range: "?i < length (FingerTable ?p1)" using i len by simp
  note ft = assms(2) [unfolded fixFingers_def Some option.case Let_def]
  show ?thesis
    using ft k1 k3 in_range
    by (auto simp del: fun_upd_upd fun_upd_apply split: option.splits sum.splits prod.splits)
      (metis snd_conv)+
qed

section \<open>Interleavings of the periodic tasks\<close>

text \<open>
  The moves of a running network between joins and failures: any node runs any of its
  periodic tasks (the three goroutines of \<open>main\<close>), and any client stores a file anywhere.
\<close>

inductive chord_step :: "World \<Rightarrow> World \<Rightarrow> bool" where
  step_stablize: "range_perm ord \<Longrightarrow> stablize ord w a = (r, w') \<Longrightarrow> chord_step w w'"
| step_checkPredecessor: "checkPredecessor la w a = (r, w') \<Longrightarrow> chord_step w w'"
| step_fixFingers: "fixFingers fuel w a = Some (r, w') \<Longrightarrow> chord_step w w'"
| step_store: "call_StoreFile w a f = (r, w') \<Longrightarrow> chord_step w w'"

definition chord_inv :: "nat \<Rightarrow> World \<Rightarrow> bool" where
  "chord_inv n w \<longleftrightarrow> ring_ok w \<and>
     (\<forall>a p. w a = Some p \<longrightarrow> length (Successors p) = n \<and> pred_ok p)"

lemma keeps_chord_inv:
  assumes "chord_inv n w" and k: "keeps w w'"
  shows "chord_inv n w'"
proof -
  have "ring_ok w'" by (rule keeps_ring_ok [OF _ k]) (use assms(1) in \<open>simp add: chord_inv_def\<close>)
  moreover have "length (Successors q) = n \<and> pred_ok q" if "w' a = Some q" for a q
    using keeps_back [OF k that] assms(1) by (auto simp: chord_inv_def same_core_def)
  ultimately show ?thesis by (simp add: chord_inv_def)
qed

text \<open>Lists of the same length: \<open>successors[i]\<close> fits for all but the last entry.\<close>

lemma refresh_uniform:
  assumes "chord_inv n w" and "w a = Some p"
  shows "\<exists>ss. refresh_successors w p = Some ss"
proof -
  have r: "ring_ok w" and ww: "world_wf w" and lp: "length (Successors p) = n"
    using assms by (simp_all add: chord_inv_def ring_ok_def)
  obtain q where q: "w (hd (Successors p)) = Some q" using ring_ok_next [OF r assms(2)] by blast
  then have lq: "length (Successors q) = n" using assms(1) by (simp add: chord_inv_def)
  obtain s0 rest where s: "Successors p = s0 # rest"
    using world_wfD(6) [OF ww assms(2)] by (cases "Successors p") auto
  have "call_GetSuccessorList w s0 = Inr (Successors q)"
    using q s world_wfD(1) [OF ww q]
    by (simp add: call_GetSuccessorList_def ChordCall_def GetSuccessorListRPC_def getSuccessorList_def)
  moreover have "\<exists>ss. copy_successors (Successors p) 0 (butlast (Successors q)) = Some ss"
    by (rule copy_successors_total) (use lp lq s in auto)
  ultimately show ?thesis by (simp add: refresh_successors_def s)
qed

lemma push_backup_no_panic:
  assumes "w a = Some p"
  shows "fst (push_backup ord w a) \<noteq> TaskPanic"
proof -
  let ?s = "hd (Successors p)"
  obtain r w1 where d: "call_DeleteBackup w ?s = (r, w1)" by fastforce
  then have k1: "keeps w w1" using call_DeleteBackup_keeps by (metis snd_conv)
  then obtain p1 where p1: "w1 a = Some p1" using keeps_Some assms by blast
  obtain e w2 where c: "copy_backup p1 ?s '''' w1 (ord (Bucket p1)) = (e, w2)" by fastforce
  then have k2: "keeps w w2" using k1 copy_backup_keeps keeps_trans by (metis snd_conv)
  then obtain p2 where p2: "w2 a = Some p2" using keeps_Some assms by blast
  with assms d p1 c show ?thesis
    by (simp add: push_backup_def Let_def split: sum.split option.split)
qed

lemma stablize_no_panic:
  assumes "chord_inv n w"
  shows "fst (stablize ord w a) \<noteq> TaskPanic"
proof (cases "w a")
  case None
  then show ?thesis by (simp add: stablize_def)
next
  case (Some p)
  obtain ss where ss: "refresh_successors w p = Some ss" using refresh_uniform [OF assms Some] by blast
  have r: "ring_ok w" using assms by (simp add: chord_inv_def)
  let ?p1 = "p\<lparr>Successors := ss\<rparr>"
  let ?w1 = "w(a \<mapsto> ?p1)"
  have "keeps w ?w1" by (rule keeps_upd, rule Some, rule refresh_frame [OF r Some ss])
  then have i1: "ring_ok ?w1" by (rule keeps_ring_ok [OF r])
  show ?thesis
  proof (cases "adopt_predecessor ?w1 ?p1")
    case (Inl e)
    with Some ss show ?thesis by (simp add: stablize_def)
  next
    case (Inr ss2)
    then have eq: "ss2 = ss" using adopt_predecessor_stable [OF i1, of a ?p1 ss2] by simp
    have "world_wf ?w1" "good_addr (Address p)"
      using i1 world_wfD(1,2) [of w a p] r Some by (simp_all add: ring_ok_def)
    then have "keeps ?w1 (snd (call_Notify ord ?w1 (hd ss) (Address p)))" by (rule call_Notify_keeps)
    then obtain q where "snd (call_Notify ord ?w1 (hd ss) (Address p)) a = Some q"
      using keeps_Some [of ?w1 _ a ?p1] by auto
    then have "fst (push_backup ord (snd (call_Notify ord ?w1 (hd ss) (Address p))) a) \<noteq> TaskPanic"
      by (rule push_backup_no_panic)
    with Some ss Inr eq show ?thesis by (simp add: stablize_def Let_def)
  qed
qed

lemma checkPredecessor_no_panic:
  assumes "chord_inv n w"
  shows "fst (checkPredecessor la w a) \<noteq> TaskPanic"
proof (cases "w a")
  case None
  then show ?thesis by (simp add: checkPredecessor_def)
next
  case (Some p)
  then have "pred_ok p" using assms by (simp add: chord_inv_def)
  with Some show ?thesis
    by (auto simp: checkPredecessor_def pred_ok_def good_addr_def numeral_2_eq_2 length_Suc_conv
        split: option.splits)
qed

lemma chord_step_inv:
  assumes "chord_inv n w" and "chord_step w w'"
  shows "chord_inv n w'"
proof -
  have r: "ring_ok w" and ww: "world_wf w" using assms(1) by (simp_all add: chord_inv_def ring_ok_def)
  from assms(2) have "keeps w w'"
  proof cases
    case (step_stablize ord a r)
    then show ?thesis
      using stablize_keeps [OF r stablize_no_panic [OF assms(1)], of ord a] by simp
  next
    case (step_checkPredecessor la a r)
    then show ?thesis
      using checkPredecessor_keeps [OF ww checkPredecessor_no_panic [OF assms(1)], of la a] by simp
  next
    case (step_fixFingers fuel a r)
    then show ?thesis using fixFingers_keeps [OF r] by blast
  next
    case (step_store a f r)
    then show ?thesis using call_StoreFile_keeps [of w a f] by simp
  qed
  then show ?thesis by (rule keeps_chord_inv [OF assms(1)])
qed

interpretation chord_tasks: invariant_system "chord_inv n" chord_step "chord_inv n" for n :: nat
  by unfold_locales (auto intro: chord_step_inv)


text \<open>
  On such a ring no periodic task ever panics.
\<close>

theorem tasks_never_panic:
  assumes "chord_inv n w" and "chord_step\<^sup>*\<^sup>* w w'"
  shows "fst (stablize ord w' a) \<noteq> TaskPanic \<and> fst (checkPredecessor la w' a) \<noteq> TaskPanic \<and>
    (\<forall>r v. fixFingers fuel w' a = Some (r, v) \<longrightarrow> r \<noteq> TaskPanic)"
proof -
  have i: "chord_inv n w'" by (rule chord_tasks.steps_inv [OF assms(2,1)])
  then have "ring_ok w'" by (simp add: chord_inv_def)
  with stablize_no_panic [OF i] checkPredecessor_no_panic [OF i] fixFingers_keeps show ?thesis
    by blast
qed

text \<open>
  Nodes started with different numbers of successors do not get along. When the first
  successor of a node answers with a list longer than the node's own, the copy loop indexes
  past the end and the process of the node dies.
\<close>

theorem longer_successor_list_kills_node:
  assumes "w self = Some p" and "Successors p = s0 # rest" and "good_addr s0" and "w s0 = Some q"
    and "length (Successors p) < length (Successors q)"
  shows "stablize ord w self = (TaskPanic, w(self := None))"
proof -
  have "call_GetSuccessorList w s0 = Inr (Successors q)"
    using assms(3,4)
    by (simp add: call_GetSuccessorList_def ChordCall_def GetSuccessorListRPC_def getSuccessorList_def)
  moreover have "copy_successors (Successors p) 0 (butlast (Successors q)) = None"
    by (rule copy_successors_panic) (use assms(2,5) in auto)
  ultimately show ?thesis
    by (simp add: stablize_def assms(1,2) refresh_successors_def crash_def)
qed

end
