(* ===== verification/Chord_Fingers.thy ===== *)
theory Chord_Fingers
  imports Chord_Stable
begin

text \<open>
  What \<open>fixFingers\<close> achieves on a correct ring: every finger it touches points to the
  owner of the finger's target, including the ones the closing loop fills in without a
  lookup, and six runs from \<open>next = 0\<close> fix the whole table.
\<close>

section \<open>Targets covered by one owner\<close>

definition finger_right :: "World \<Rightarrow> NodeProc \<Rightarrow> nat \<Rightarrow> bool" where
  "finger_right w p j \<longleftrightarrow> owns w (fe_Address (FingerTable p ! j)) (node_fingerEntry p j)"

lemma big_Exp2_pow: "1 \<le> j \<Longrightarrow> big_Exp2 (int j - 1) = 2 ^ (j - 1)"
  by (simp add: big_Exp2_def nat_diff_distrib)

lemma mod_minus_shift:
  fixes r t d N :: int
  assumes "0 < N" and "0 \<le> d" and "d \<le> (r - t) mod N"
  shows "(r - (t + d) mod N) mod N = (r - t) mod N - d"
proof -
  have "(r - (t + d) mod N) mod N = ((r - t) mod N - d) mod N"
    by (simp add: mod_simps algebra_simps)
  also have "\<dots> = (r - t) mod N - d"
    using assms by (intro mod_pos_pos_trivial) (use pos_mod_bound [of N "r - t"] in linarith)+
  finally show ?thesis .
qed

lemma owns_next_target:
  assumes ww: "world_wf w" and own: "owns w b (node_fingerEntry p i)" and b: "w b = Some q"
    and idp: "on_ring hashMod (Identifier p)" and ij: "1 \<le> i" "i < j" "j \<le> fingerTableSize"
    and btw: "between (Identifier p) (node_fingerEntry p j) (Identifier q) False"
  shows "owns w b (node_fingerEntry p j)"
proof -
  define d :: int where "d = 2 ^ (j - 1) - 2 ^ (i - 1)"
  let ?ti = "node_fingerEntry p i" and ?tj = "node_fingerEntry p j" and ?c = "cw hashMod (Identifier p) (Identifier q)"
  have "(2::int) ^ (j - 1) \<le> 2 ^ 5"
    using ij(3) by (intro power_increasing) (simp_all add: fingerTableSize_def)
  then have pow: "(2::int) ^ (i - 1) < 2 ^ (j - 1)" "(2::int) ^ (j - 1) \<le> 32" "(1::int) \<le> 2 ^ (i - 1)"
    using ij by simp_all
  have ti: "?ti = (Identifier p + 2 ^ (i - 1)) mod hashMod" and tj0: "?tj = (Identifier p + 2 ^ (j - 1)) mod hashMod"
    using ij by (simp_all add: node_fingerEntry_def fingerEntry_id_def big_Exp2_pow)
  then have tj: "?tj = (?ti + d) mod hashMod" by (simp add: d_def mod_simps)
  have on: "on_ring hashMod ?tj" "on_ring hashMod (Identifier q)"
    using tj world_wfD(4) [OF ww b] by auto
  have diff: "(?tj - Identifier p) mod hashMod = 2 ^ (j - 1)"
    using pow by (simp add: tj0 mod_simps hashMod_eq)
  then have "cw hashMod (Identifier p) ?tj = 2 ^ (j - 1)"
    using pow by (auto simp: cw_def)
  then have less: "2 ^ (j - 1) < ?c"
    using btw chord.btw_cw [OF idp on, of False] by simp
  have cb: "?c \<le> hashMod" "Identifier q mod hashMod = (Identifier p + ?c) mod hashMod"
    using cw_bounds [OF idp on(2)] by (auto simp: cw_def hashMod_eq mod_simps)
  have "(Identifier q - ?ti) mod hashMod = (?c - 2 ^ (i - 1)) mod hashMod"
    using arg_cong [OF cb(2), of "\<lambda>x. (x - ?ti) mod hashMod"] by (simp add: ti mod_simps)
  also have "\<dots> = ?c - 2 ^ (i - 1)"
    using less pow cb(1) by (intro mod_pos_pos_trivial) linarith+
  finally have first: "d \<le> (Identifier q - ?ti) mod hashMod" using less by (simp add: d_def)
  have "(Identifier q - ?tj) mod hashMod \<le> (Identifier r - ?tj) mod hashMod" if "w x = Some r" for x r
  proof -
    have le: "(Identifier q - ?ti) mod hashMod \<le> (Identifier r - ?ti) mod hashMod"
      using own b that by (auto simp: owns_def)
    have "0 < hashMod" "0 \<le> d" using pow by (simp_all add: d_def hashMod_eq)
    with le first show ?thesis by (simp add: tj mod_minus_shift)
  qed
  with b show ?thesis by (auto simp: owns_def)
qed

section \<open>One run\<close>

text \<open>
  What a run leaves behind: from finger \<open>i\<close> on, a stretch up to \<open>m\<close> points to its
  owners, every other finger is as it was, and the next run starts after the stretch.
\<close>

definition fixed_upto :: "World \<Rightarrow> NodeProc \<Rightarrow> nat \<Rightarrow> nat \<Rightarrow> NodeProc \<Rightarrow> bool" where
  "fixed_upto w p i m p' \<longleftrightarrow>
     i \<le> m \<and> m \<le> Suc fingerTableSize \<and> Identifier p' = Identifier p \<and>
     length (FingerTable p') = length (FingerTable p) \<and>
     (\<forall>j. i \<le> j \<and> j < m \<longrightarrow> finger_right w p' j) \<and>
     (\<forall>j. j < i \<or> m \<le> j \<longrightarrow> FingerTable p' ! j = FingerTable p ! j) \<and>
     node_next p' = (if m > fingerTableSize then 0 else m - 1)"

lemma fixed_upto_cons:
  assumes fx: "fixed_upto w p1 (Suc i) m p'" and at_i: "finger_right w p' i"
    and "Identifier p1 = Identifier p" and "length (FingerTable p1) = length (FingerTable p)"
    and same: "\<And>j. j \<noteq> i \<Longrightarrow> FingerTable p1 ! j = FingerTable p ! j"
  shows "fixed_upto w p i m p'"
  unfolding fixed_upto_def
proof (intro conjI allI impI)
  show "finger_right w p' j" if "i \<le> j \<and> j < m" for j
    using that at_i fx by (cases "j = i") (auto simp: fixed_upto_def)
  show "FingerTable p' ! j = FingerTable p ! j" if "j < i \<or> m \<le> j" for j
    using that fx same [of j] by (auto simp: fixed_upto_def)
qed (use assms in \<open>simp_all add: fixed_upto_def\<close>)

lemma extend_fingers_right:
  assumes ww: "world_wf w" and b: "w b = Some q" and i0: "1 \<le> i0"
  shows "i0 < i \<Longrightarrow> i \<le> Suc fingerTableSize \<Longrightarrow> length (FingerTable p) = Suc fingerTableSize \<Longrightarrow>
    on_ring hashMod (Identifier p) \<Longrightarrow> owns w b (node_fingerEntry p i0) \<Longrightarrow>
    \<exists>m p'. extend_fingers w p b i = (None, p') \<and> fixed_upto w p i m p'"
proof (induction "Suc fingerTableSize - i" arbitrary: i p)
  case 0
  then have "extend_fingers w p b i = (None, p\<lparr>node_next := 0\<rparr>)"
    by (simp add: extend_fingers.simps [of w p b i])
  moreover have "fixed_upto w p i i (p\<lparr>node_next := 0\<rparr>)"
    using 0 by (auto simp: fixed_upto_def)
  ultimately show ?case by blast
next
  case (Suc n)
  then have i: "i \<le> fingerTableSize" by simp
  have nm: "call_GetName w b = Inr (Name q)" and idq: "strHash (Name q) mod hashMod = Identifier q"
    and ne: "b \<noteq> ''''"
    using b world_wfD(1,5) [OF ww b] by (auto simp: good_addr_def)
  show ?case
  proof (cases "between (Identifier p) (node_fingerEntry p i) (Identifier q) False")
    case True
    define p1 where "p1 = (if fe_Address (FingerTable p ! i) \<noteq> b then set_finger p i (node_fingerEntry p i) b else p)"
    have e: "extend_fingers w p b i = extend_fingers w p1 b (Suc i)"
      using i nm idq ne True by (simp add: p1_def extend_fingers.simps [of w p b i])
    have own: "owns w b (node_fingerEntry p i)"
      using owns_next_target [OF ww _ b _ i0] Suc.prems i True by blast
    have fp: "node_fingerEntry p1 k = node_fingerEntry p k" "Identifier p1 = Identifier p"
      "length (FingerTable p1) = length (FingerTable p)" for k
      by (simp_all add: p1_def set_finger_def node_fingerEntry_def)
    have "\<exists>m p'. extend_fingers w p1 b (Suc i) = (None, p') \<and> fixed_upto w p1 (Suc i) m p'"
      by (rule Suc.hyps(1)) (use Suc.prems Suc.hyps(2) i in \<open>simp_all add: fp\<close>)
    then obtain m p' where p': "extend_fingers w p1 b (Suc i) = (None, p')" and fx: "fixed_upto w p1 (Suc i) m p'"
      by blast
    have "fe_Address (FingerTable p1 ! i) = b" using i Suc.prems(3) by (simp add: p1_def set_finger_def)
    with fx have at_i: "finger_right w p' i"
      using own by (simp add: fixed_upto_def finger_right_def node_fingerEntry_def fp)
    have "fixed_upto w p i m p'"
      by (rule fixed_upto_cons [OF fx at_i]) (simp_all add: fp p1_def set_finger_def)
    with e p' show ?thesis by auto
  next
    case False
    then have "extend_fingers w p b i = (None, p\<lparr>node_next := i - 1\<rparr>)"
      using i nm idq by (auto simp: extend_fingers.simps [of w p b i])
    moreover have "fixed_upto w p i i (p\<lparr>node_next := i - 1\<rparr>)"
      using i by (auto simp: fixed_upto_def)
    ultimately show ?thesis by blast
  qed
qed

lemma owns_keeps: "keeps w w' \<Longrightarrow> owns w' s k = owns w s k"
  using keeps_Some [of w w'] keeps_back [of w w'] unfolding owns_def same_core_def by metis

lemma fixed_upto_keeps: "keeps w w' \<Longrightarrow> fixed_upto w' p i m p' = fixed_upto w p i m p'"
  by (simp add: fixed_upto_def finger_right_def owns_keeps)

definition next_finger :: "NodeProc \<Rightarrow> nat" where
  "next_finger p = (if node_next p + 1 > fingerTableSize then 1 else node_next p + 1)"

lemma fixFingers_run:
  assumes ok: "ring_ok w" and p: "w a = Some p" and fuel: "64 \<le> fuel"
  shows "\<exists>m p'. fixFingers fuel w a = Some (TaskOk, w(a \<mapsto> p')) \<and> fixed_upto w p (next_finger p) m p' \<and>
    next_finger p < m"
proof -
  have ww: "world_wf w" using ok by (simp add: ring_ok_def)
  note wp = world_wfD [OF ww p]
  let ?i = "next_finger p"
  define p1 where "p1 = p\<lparr>node_next := ?i\<rparr>"
  have i: "1 \<le> ?i" "?i \<le> fingerTableSize" by (simp_all add: next_finger_def fingerTableSize_def)
  have len: "length (FingerTable p1) = Suc fingerTableSize" using wp(3) by (simp add: p1_def wf_proc_def)
  let ?w1 = "w(a \<mapsto> p1)" and ?t = "node_fingerEntry p1 ?i"
  have k1: "keeps w ?w1"
    by (rule keeps_upd, rule p) (use i in \<open>simp add: p1_def same_core_def wf_proc_def pred_ok_def\<close>)
  have r1: "ring_ok ?w1" and ww1: "world_wf ?w1"
    using keeps_ring_ok [OF ok k1] by (simp_all add: ring_ok_def)
  have w1a: "?w1 a = Some p1" by simp
  obtain s where s: "FindSuccessorRPC fuel ?w1 p1 ?t = Some (Inr \<lparr>Found = True, SuccessorAddress = s\<rparr>)"
    and own: "owns ?w1 s (?t mod hashMod)"
    using FindSuccessorRPC_reaches_owner [OF r1 w1a fuel_64 [OF ww1 w1a fuel], of ?t] by blast
  then obtain q where q: "?w1 s = Some q" by (auto simp: owns_def)
  have tm: "?t mod hashMod = ?t" by (simp add: node_fingerEntry_def fingerEntry_id_def)
  have nm: "call_GetName ?w1 s = Inr (Name q)" and ne: "s \<noteq> ''''"
    using q world_wfD(1) [OF ww1 q] by (auto simp: good_addr_def)
  define p2 where "p2 = set_finger p1 ?i ?t s"
  let ?w2 = "?w1(a \<mapsto> p2)"
  have p2: "length (FingerTable p2) = Suc fingerTableSize" "Identifier p2 = Identifier p"
    "node_fingerEntry p2 j = node_fingerEntry p j" "fe_Address (FingerTable p2 ! ?i) = s" for j
    using len i by (simp_all add: p1_def p2_def set_finger_def node_fingerEntry_def)
  have k2: "keeps w ?w2"
    unfolding fun_upd_upd
    by (rule keeps_upd, rule p) (use i in \<open>simp add: p1_def p2_def set_finger_def same_core_def wf_proc_def pred_ok_def\<close>)
  obtain q2 where q2: "?w2 s = Some q2" using q by (cases "s = a") auto
  have ww2: "world_wf ?w2" using keeps_ring_ok [OF ok k2] by (simp add: ring_ok_def)
  have own0: "owns w s (node_fingerEntry p ?i)"
    using own unfolding owns_keeps [OF k1] tm by (simp add: node_fingerEntry_def p1_def)
  have own2: "owns ?w2 s (node_fingerEntry p2 ?i)"
    unfolding owns_keeps [OF k2] p2 by (rule own0)
  obtain m p3 where p3: "extend_fingers ?w2 p2 s (Suc ?i) = (None, p3)" and fx: "fixed_upto ?w2 p2 (Suc ?i) m p3"
    using extend_fingers_right [of ?w2 s q2 ?i "Suc ?i" p2, OF ww2 q2 i(1)] i(2) p2(1,2) own2 wp(4)
    by (auto simp del: fun_upd_apply)
  have run: "fixFingers fuel w a = Some (TaskOk, w(a \<mapsto> p3))"
  proof -
    have "ChordDial ?w1 (Address p1) = Inr p1" using wp by (simp add: p1_def)
    then show ?thesis
      unfolding fixFingers_def p option.case Let_def next_finger_def [symmetric] p1_def [symmetric]
      using s nm p3 i len ne by (simp add: p2_def [symmetric])
  qed
  have "finger_right w p3 ?i"
    using fx own0 by (simp add: fixed_upto_def finger_right_def p2 node_fingerEntry_def)
  then have "fixed_upto w p ?i m p3"
    by (rule fixed_upto_cons [OF fx [unfolded fixed_upto_keeps [OF k2]]])
      (simp_all add: p2_def p1_def set_finger_def)
  moreover have "?i < m" using fx by (simp add: fixed_upto_def)
  ultimately show ?thesis using run by blast
qed

text \<open>
  A run of \<open>fixFingers\<close> on a correct ring succeeds; it fixes the finger whose turn
  it is, and every finger it changes, also those the closing loop fills in without asking the
  ring, points to the owner of its target. No other finger changes.
\<close>

theorem fixFingers_points_to_owners:
  assumes "ring_ok w" and "w a = Some p" and "64 \<le> fuel"
  shows "\<exists>p'. fixFingers fuel w a = Some (TaskOk, w(a \<mapsto> p')) \<and> finger_right w p' (next_finger p) \<and>
    (\<forall>j. FingerTable p' ! j = FingerTable p ! j \<or> finger_right w p' j)"
proof -
  obtain m p' where run: "fixFingers fuel w a = Some (TaskOk, w(a \<mapsto> p'))"
    and fx: "fixed_upto w p (next_finger p) m p'" and m: "next_finger p < m"
    using fixFingers_run [OF assms] by blast
  have "FingerTable p' ! j = FingerTable p ! j \<or> finger_right w p' j" for j
    using fx unfolding fixed_upto_def by (metis not_le)
  moreover have "finger_right w p' (next_finger p)" using fx m by (simp add: fixed_upto_def)
  ultimately show ?thesis using run by blast
qed

section \<open>Six runs\<close>

fun fix_rounds :: "nat \<Rightarrow> nat \<Rightarrow> World \<Rightarrow> NodeAddress \<Rightarrow> World option" where
  "fix_rounds fuel 0 w a = Some w"
| "fix_rounds fuel (Suc n) w a =
     (case fixFingers fuel w a of Some (TaskOk, w1) \<Rightarrow> fix_rounds fuel n w1 a | _ \<Rightarrow> None)"

definition fixed_so_far :: "World \<Rightarrow> NodeProc \<Rightarrow> nat \<Rightarrow> bool" where
  "fixed_so_far w p k \<longleftrightarrow>
     (\<forall>j. 1 \<le> j \<and> j \<le> fingerTableSize \<longrightarrow> finger_right w p j) \<or>
     (k \<le> node_next p \<and> (\<forall>j. 1 \<le> j \<and> j \<le> node_next p \<longrightarrow> finger_right w p j))"

lemma fixed_step:
  assumes fx: "fixed_upto w p (next_finger p) m p'" and m: "next_finger p < m" and so: "fixed_so_far w p k"
    and k: "k < fingerTableSize"
  shows "fixed_so_far w p' (Suc k)"
proof -
  have keep: "finger_right w p' j" if "finger_right w p j" for j
    using fx that unfolding fixed_upto_def finger_right_def node_fingerEntry_def by (metis not_le)
  from so consider "\<forall>j. 1 \<le> j \<and> j \<le> fingerTableSize \<longrightarrow> finger_right w p j"
    | "fingerTableSize \<le> node_next p" "\<forall>j. 1 \<le> j \<and> j \<le> node_next p \<longrightarrow> finger_right w p j"
    | "k \<le> node_next p" "node_next p < fingerTableSize" "\<forall>j. 1 \<le> j \<and> j \<le> node_next p \<longrightarrow> finger_right w p j"
    unfolding fixed_so_far_def by (metis not_le)
  then show ?thesis
  proof cases
    case 3
    then have i: "next_finger p = Suc (node_next p)" by (simp add: next_finger_def)
    have upto: "finger_right w p' j" if "1 \<le> j" "j < m" for j
      using that 3(3) keep fx by (cases "j \<le> node_next p") (auto simp: fixed_upto_def i)
    show ?thesis
    proof (cases "m > fingerTableSize")
      case True
      with upto show ?thesis by (simp add: fixed_so_far_def)
    next
      case False
      with fx have "node_next p' = m - 1" by (simp add: fixed_upto_def)
      with upto m 3(1) show ?thesis by (auto simp: fixed_so_far_def i)
    qed
  qed (use keep in \<open>auto simp: fixed_so_far_def\<close>)
qed

lemma fix_rounds_fixed:
  assumes "ring_ok w" and "w a = Some p" and "64 \<le> fuel" and "fixed_so_far w p k" and "k + n \<le> fingerTableSize"
  shows "\<exists>w' p'. fix_rounds fuel n w a = Some w' \<and> w' a = Some p' \<and> fixed_so_far w' p' (k + n)"
  using assms(1,2,4,5)
proof (induction n arbitrary: w p k)
  case 0
  then show ?case by auto
next
  case (Suc n)
  obtain m p1 where run: "fixFingers fuel w a = Some (TaskOk, w(a \<mapsto> p1))"
    and fx: "fixed_upto w p (next_finger p) m p1" and m: "next_finger p < m"
    using fixFingers_run [OF Suc.prems(1,2) assms(3)] by blast
  let ?w = "w(a \<mapsto> p1)"
  have k: "keeps w ?w" using fixFingers_keeps [OF Suc.prems(1) run] by simp
  have "fixed_so_far w p1 (Suc k)" by (rule fixed_step [OF fx m Suc.prems(3)]) (use Suc.prems(4) in simp)
  then have so: "fixed_so_far ?w p1 (Suc k)"
    unfolding fixed_so_far_def finger_right_def owns_keeps [OF k] .
  have wa: "?w a = Some p1" by simp
  have le: "Suc k + n \<le> fingerTableSize" using Suc.prems(4) by simp
  from Suc.IH [of ?w p1 "Suc k", OF keeps_ring_ok [OF Suc.prems(1) k] wa so le]
  obtain w' p' where "fix_rounds fuel n ?w a = Some w'" "w' a = Some p'" "fixed_so_far w' p' (Suc k + n)"
    by blast
  with run show ?case by simp
qed

text \<open>
  C32: on a correct ring, six runs of \<open>fixFingers\<close> from \<open>next = 0\<close> leave a finger
  table in which every finger points to the owner of its target.
\<close>

theorem six_rounds_fix_fingers:
  assumes "ring_ok w" and "w a = Some p" and "64 \<le> fuel" and "node_next p = 0"
  shows "\<exists>w' p'. fix_rounds fuel 6 w a = Some w' \<and> w' a = Some p' \<and>
    (\<forall>j. 1 \<le> j \<and> j \<le> fingerTableSize \<longrightarrow> finger_right w' p' j)"
proof -
  have "fixed_so_far w p 0" using assms(4) by (simp add: fixed_so_far_def)
  from fix_rounds_fixed [OF assms(1-3) this, of 6] obtain w' p'
    where "fix_rounds fuel 6 w a = Some w'" "w' a = Some p'" "fixed_so_far w' p' 6"
    by (auto simp: fingerTableSize_def)
  then show ?thesis by (auto simp: fixed_so_far_def fingerTableSize_def)
qed

end
