(* ===== verification/Chord_Files.thy ===== *)
theory Chord_Files
  imports Chord_Stabilize
begin

text \<open>
  What happens to stored files when nodes come and go: which files a node hands to its new
  predecessor and that they arrive (\<open>moveFiles\<close>), and that the backup a node keeps at its
  successor answers for its files after it died (\<open>push_backup\<close>, \<open>takeOverBackup\<close>).
\<close>

section \<open>Which files move\<close>

text \<open>
  \<open>moveFiles\<close> selects exactly the files that belong to the new predecessor: between
  two different nodes, a file moves if and only if the new node is met strictly before this
  one on the way clockwise from the file's identifier.
\<close>

theorem should_move_iff_first:
  assumes "on_ring hashMod f" and "on_ring hashMod a" and "on_ring hashMod n" and "a \<noteq> n"
  shows "should_move f a n \<longleftrightarrow> (a - f) mod hashMod < (n - f) mod hashMod"
  using assms
  by (simp add: should_move_def between_def mod_ring_diff) (auto simp: on_ring_def split: if_splits)

section \<open>Handing over\<close>

text \<open>
  A bucket in order: names and identifiers are unique, no name is empty, and every file it
  names can be read.
\<close>

definition sound_store :: "NodeProc \<Rightarrow> bool" where
  "sound_store p \<longleftrightarrow> wf_proc p \<and> distinct (map snd (Bucket p)) \<and> unique_ids (Bucket p) \<and>
     '''' \<notin> snd ` set (Bucket p) \<and>
     (\<forall>e \<in> set (Bucket p). read_file (disk p) (storage_path (Name p) (snd e)) \<noteq> None)"

lemma sound_storeD:
  assumes "sound_store p"
  shows "wf_proc p" "distinct (map snd (Bucket p))" "unique_ids (Bucket p)" "'''' \<notin> snd ` set (Bucket p)"
    "\<forall>e \<in> set (Bucket p). read_file (disk p) (storage_path (Name p) (snd e)) \<noteq> None"
    "\<And>e. e \<in> set (Bucket p) \<Longrightarrow> snd (fst e) mod hashMod = snd (fst e)"
  using assms by (force simp: sound_store_def wf_proc_def keys_ok_def on_ring_def)+

definition file_of :: "NodeProc \<Rightarrow> BigKey \<times> string \<Rightarrow> FileRPC" where
  "file_of p e = \<lparr>file_Id = snd (fst e), file_Name = snd e, file_Content = local_content p (snd e)\<rparr>"

definition moving :: "int \<Rightarrow> NodeProc \<Rightarrow> Bucket_map \<Rightarrow> Bucket_map" where
  "moving i p es = filter (\<lambda>e. should_move (snd (fst e)) i (Identifier p)) es"

definition put_all :: "NodeProc \<Rightarrow> FileRPC list \<Rightarrow> NodeProc" where
  "put_all q fs = foldl (\<lambda>q f. snd (storeChordFile q f False)) q fs"

definition drop_all :: "NodeProc \<Rightarrow> Bucket_map \<Rightarrow> NodeProc" where
  "drop_all p es = foldl (\<lambda>p e. drop_local p (fst e) (snd e)) p es"

lemma put_all_simps [simp]:
  "put_all q [] = q" "put_all q (f # fs) = put_all (snd (storeChordFile q f False)) fs"
  by (simp_all add: put_all_def)

lemma drop_all_simps [simp]:
  "drop_all p [] = p" "drop_all p (e # es) = drop_all (drop_local p (fst e) (snd e)) es"
  by (simp_all add: drop_all_def)

lemma local_content_read: "local_content p f = (case read_file (disk p) (storage_path (Name p) f) of None \<Rightarrow> [] | Some c \<Rightarrow> c)"
  by (simp add: local_content_def read_file_def Let_def)

lemma drop_local_simps [simp]:
  "Identifier (drop_local p k f) = Identifier p" "Name (drop_local p k f) = Name p"
  "Bucket (drop_local p k f) = AList.delete k (Bucket p)"
  by (simp_all add: drop_local_def)

lemma local_content_drop [simp]: "g \<noteq> f \<Longrightarrow> local_content (drop_local p k f) g = local_content p g"
  by (simp add: local_content_read disk.rd_rm_other drop_local_def)

lemma call_StoreFile_live:
  "good_addr a \<Longrightarrow> w a = Some q \<Longrightarrow> snd (call_StoreFile w a f) = w(a \<mapsto> snd (storeChordFile q f False))"
  by (simp add: call_StoreFile_def StoreFileRPC_def split: prod.split)

lemma foldl_move_one:
  assumes "w self = Some p" and "w a = Some q" and "self \<noteq> a" and "good_addr a" and "distinct (map snd es)"
  shows "foldl (move_one self a i) w es =
    w(a \<mapsto> put_all q (map (file_of p) (moving i p es)), self \<mapsto> drop_all p (moving i p es))"
  using assms(1,2,5)
proof (induction es arbitrary: w p q)
  case Nil
  then show ?case by (auto simp: moving_def)
next
  case (Cons e es)
  obtain k f where e: "e = (k, f)" by (cases e)
  show ?case
  proof (cases "should_move (snd k) i (Identifier p)")
    case True
    let ?p = "drop_local p k f" and ?q = "snd (storeChordFile q (file_of p (k, f)) False)"
    let ?w = "w(a \<mapsto> ?q, self \<mapsto> ?p)"
    have step: "move_one self a i w (k, f) = ?w"
      using True Cons.prems assms(3,4)
      by (simp add: move_one_def Let_def file_of_def call_StoreFile_live)
    have same: "moving i ?p es = moving i p es" "map (file_of ?p) (moving i p es) = map (file_of p) (moving i p es)"
      using Cons.prems(3) by (force simp: e file_of_def moving_def intro!: local_content_drop)+
    have "foldl (move_one self a i) ?w es =
      ?w(a \<mapsto> put_all ?q (map (file_of p) (moving i p es)), self \<mapsto> drop_all ?p (moving i p es))"
    proof -
      have "?w self = Some ?p" "?w a = Some ?q" "distinct (map snd es)"
        using Cons.prems(3) assms(3) by simp_all
      from Cons.IH [OF this] show ?thesis by (simp only: same)
    qed
    moreover have "moving i p (e # es) = e # moving i p es" using True by (simp add: moving_def e)
    ultimately show ?thesis using assms(3) by (auto simp: step e fun_upd_def)
  next
    case False
    then have "move_one self a i w e = w" using Cons.prems by (simp add: move_one_def e)
    with False Cons show ?thesis by (simp add: e moving_def)
  qed
qed

lemma drop_all_Bucket:
  "Bucket (drop_all p es) = filter (\<lambda>e. fst e \<notin> fst ` set es) (Bucket p)"
  by (induction es arbitrary: p) (auto simp: AList.delete_eq intro: filter_cong)

lemma put_all_lookup:
  "wf_proc q \<Longrightarrow> bucket_lookup (Bucket (put_all q fs)) i =
     (case bucket_lookup (Bucket q) i of
        Some n \<Rightarrow> Some n | None \<Rightarrow> map_option file_Name (find (\<lambda>f. file_Id f mod hashMod = i) fs))"
  unfolding put_all_def by (rule bucket_store.lookup_puts)

section \<open>Serving a file\<close>

text \<open>
  A node serves a file under an identifier when the bucket has one entry for the identifier,
  which names the file, and the file can be read.
\<close>

definition serves :: "NodeProc \<Rightarrow> int \<Rightarrow> string \<Rightarrow> bytes \<Rightarrow> bool" where
  "serves p i f c \<longleftrightarrow>
     (\<exists>h. filter (\<lambda>e. snd (fst e) = i) (Bucket p) = [((h, i), f)]) \<and>
     read_file (disk p) (storage_path (Name p) f) = Some c"

lemma serves_get:
  assumes "range_perm ord" and "serves p i f c" and "file_Id g mod hashMod = i"
  shows "GetFileRPC ord p g = Inr \<lparr>file_Id = i, file_Name = f, file_Content = c\<rparr>"
proof -
  obtain h where h: "filter (\<lambda>e. snd (fst e) = i) (Bucket p) = [((h, i), f)]"
    and c: "read_file (disk p) (storage_path (Name p) f) = Some c"
    using assms(2) by (auto simp: serves_def)
  have m: "e \<in> set (Bucket p) \<and> snd (fst e) = i \<longleftrightarrow> e = ((h, i), f)" for e
    using arg_cong [OF h, of set] by (simp only: set_filter list.set) blast
  show ?thesis
  proof (rule GetFileRPC_unique [OF assms(1) _ _ assms(3) c])
    show "((h, i), f) \<in> set (Bucket p)" using m by blast
    show "(k', v') = ((h, i), f)" if "(k', v') \<in> set (Bucket p)" and "snd k' = i" for k' v'
      using m [of "(k', v')"] that by simp
  qed
qed

lemma filter_id_fresh: "\<not> has_key b i \<Longrightarrow> filter (\<lambda>e. snd (fst e) = i) b = []"
  by (force simp: has_key_set filter_empty_conv)

lemma store_serves:
  assumes "wf_proc q" and "\<not> has_key (Bucket q) (file_Id f mod hashMod)"
    and "fst (write_file (disk q) (storage_path (Name q) (file_Name f)) (file_Content f))"
    and "disk_readable (disk q) (storage_path (Name q) (file_Name f))"
  shows "serves (snd (storeChordFile q f False)) (file_Id f mod hashMod) (file_Name f) (file_Content f)"
  using assms by (simp add: serves_def storeChordFile_stored filter_id_fresh disk.rd_wr_same)

lemma store_keeps_serving:
  assumes "wf_proc q" and "serves q i f c" and "file_Id g mod hashMod \<noteq> i" and "file_Name g \<noteq> f"
  shows "serves (snd (storeChordFile q g False)) i f c"
proof (cases "has_key (Bucket q) (file_Id g mod hashMod)")
  case True
  with assms(2) show ?thesis by (simp add: storeChordFile_refused serves_def)
next
  case False
  with assms show ?thesis
    by (simp add: serves_def storeChordFile_stored disk.rd_wr_other)
qed

lemma put_all_keeps_serving:
  "wf_proc q \<Longrightarrow> serves q i f c \<Longrightarrow> \<forall>g \<in> set fs. file_Id g mod hashMod \<noteq> i \<and> file_Name g \<noteq> f \<Longrightarrow>
    serves (put_all q fs) i f c"
  by (induction fs arbitrary: q) (auto simp: storeChordFile_wf store_keeps_serving)

lemma put_all_frame [simp]: "Name (put_all q fs) = Name q" "ddirs (disk (put_all q fs)) = ddirs (disk q)"
  "dfault (disk (put_all q fs)) = dfault (disk q)"
proof -
  have "ddirs (disk (snd (storeChordFile q f False))) = ddirs (disk q) \<and>
      dfault (disk (snd (storeChordFile q f False))) = dfault (disk q)" for q f
    by (simp add: storeChordFile_def new_big_def Let_def case_prod_beta)
  then show "Name (put_all q fs) = Name q" "ddirs (disk (put_all q fs)) = ddirs (disk q)"
    "dfault (disk (put_all q fs)) = dfault (disk q)"
    by (induction fs arbitrary: q) simp_all
qed

lemma put_all_wf: "wf_proc q \<Longrightarrow> wf_proc (put_all q fs)"
  unfolding put_all_def by (rule bucket_store.inv_puts)

text \<open>A disk on which a file can be written and read back.\<close>

definition disk_takes :: "Disk \<Rightarrow> string \<Rightarrow> bool" where
  "disk_takes d p \<longleftrightarrow> dirname p \<in> set (ddirs d) \<and> p \<notin> set (ddirs d) \<and> dfault d p = NoFault"

lemma disk_takesD:
  "disk_takes d p \<Longrightarrow> fst (write_file d p c)" "disk_takes d p \<Longrightarrow> disk_readable d p"
  by (simp_all add: disk_takes_def write_file_ok_iff disk_readable_def)

lemma put_all_serves:
  assumes "wf_proc q" and "f \<in> set fs" and "distinct (map file_Name fs)"
    and "distinct (map (\<lambda>f. file_Id f mod hashMod) fs)"
    and "\<not> has_key (Bucket q) (file_Id f mod hashMod)"
    and "disk_takes (disk q) (storage_path (Name q) (file_Name f))"
  shows "serves (put_all q fs) (file_Id f mod hashMod) (file_Name f) (file_Content f)"
proof -
  obtain xs ys where fs: "fs = xs @ f # ys" using split_list [OF assms(2)] by blast
  have other: "file_Id g mod hashMod \<noteq> file_Id f mod hashMod \<and> file_Name g \<noteq> file_Name f"
    if "g \<in> set xs \<or> g \<in> set ys" for g
    using assms(3,4) that by (simp add: fs) (metis image_eqI)
  let ?q = "put_all q xs"
  have wf: "wf_proc ?q" by (rule put_all_wf [OF assms(1)])
  have "find (\<lambda>g. file_Id g mod hashMod = file_Id f mod hashMod) xs = None"
    using other by (simp add: find_None_set)
  then have "\<not> has_key (Bucket ?q) (file_Id f mod hashMod)"
    using assms(5) by (simp add: has_key_lookup put_all_lookup [OF assms(1)])
  moreover have "disk_takes (disk ?q) (storage_path (Name ?q) (file_Name f))"
    using assms(6) by (simp add: disk_takes_def)
  ultimately have s: "serves (snd (storeChordFile ?q f False)) (file_Id f mod hashMod) (file_Name f) (file_Content f)"
    by (intro store_serves wf disk_takesD)
  have "serves (put_all (snd (storeChordFile ?q f False)) ys) (file_Id f mod hashMod) (file_Name f) (file_Content f)"
    by (rule put_all_keeps_serving [OF storeChordFile_wf [OF wf] s]) (use other in simp)
  then show ?thesis by (simp add: fs put_all_def)
qed

lemma moveFiles_eq:
  assumes "w self = Some p" and "w a = Some q" and "self \<noteq> a" and "good_addr a" and "range_perm ord"
    and "distinct (map snd (Bucket p))"
  shows "moveFiles ord w self a =
    w(a \<mapsto> put_all q (map (file_of p) (moving (ring_id (Name q)) p (ord (Bucket p)))),
      self \<mapsto> drop_all p (moving (ring_id (Name q)) p (ord (Bucket p))))"
proof -
  have "distinct (map snd (ord (Bucket p)))"
    using assms(5,6) distinct_map_perm unfolding range_perm_def by blast
  from foldl_move_one [OF assms(1-4) this] show ?thesis
    using assms(1,2,4) by (simp add: moveFiles_def ring_id_def)
qed


text \<open>
  A hand-over that fails loses the file. The answer of the remote store is not looked
  at, so when the new node cannot create the file, the old node forgets it and deletes its
  copy all the same.
\<close>

theorem moveFiles_loses_refused_file:
  assumes "w self = Some p" and "w a = Some q" and "self \<noteq> a" and "good_addr a" and "range_perm ord"
    and "wf_proc q" and "Bucket p = [(k, f)]" and "should_move (snd k) (ring_id (Name q)) (Identifier p)"
    and "dfault (disk p) (storage_path (Name p) f) = NoFault"
    and "dfault (disk q) (storage_path (Name q) f) = OpenFails"
  shows "\<exists>p' q'. moveFiles ord w self a self = Some p' \<and> moveFiles ord w self a a = Some q'
    \<and> Bucket p' = [] \<and> read_file (disk p') (storage_path (Name p) f) = None
    \<and> read_file (disk q') (storage_path (Name q) f) = None"
proof -
  have "ord [(k, f)] = [(k, f)]"
    using assms(5) by (auto simp: range_perm_def dest!: spec [of _ "[(k, f)]"])
  then have mv: "moving (ring_id (Name q)) p (ord (Bucket p)) = [(k, f)]"
    using assms(7,8) by (simp add: moving_def)
  have "read_file (disk (drop_local p k f)) (storage_path (Name p) f) = None"
    using assms(9) by (simp add: drop_local_def read_file_def os_Open_def map_of_dfiles_remove)
  moreover have "read_file (disk (put_all q [g])) (storage_path (Name q) f) = None" for g
    using put_all_frame(3) [of q "[g]"] assms(10) by (simp add: read_file_def os_Open_def)
  ultimately show ?thesis
    using moveFiles_eq [OF assms(1-5)] assms(3,7) mv by (simp add: AList.delete_eq)
qed

section \<open>Backups\<close>

definition copy_all :: "NodeProc \<Rightarrow> FileRPC list \<Rightarrow> NodeProc" where
  "copy_all q fs = foldl (\<lambda>q f. snd (successorStoreFile q f)) q fs"

lemma copy_all_simps [simp]:
  "copy_all q [] = q" "copy_all q (f # fs) = copy_all (snd (successorStoreFile q f)) fs"
  by (simp_all add: copy_all_def)

lemma call_SuccessorStoreFile_live:
  "good_addr a \<Longrightarrow> w a = Some q \<Longrightarrow>
    snd (call_SuccessorStoreFile w a f) = w(a \<mapsto> snd (successorStoreFile q f))"
  by (simp add: call_SuccessorStoreFile_def SuccessorStoreFileRPC_def split: prod.split)

lemma copy_backup_all:
  assumes "w s0 = Some q" and "good_addr s0" and "distinct (lastValue # map snd es)"
    and "'''' \<notin> snd ` set es"
    and "\<forall>e \<in> set es. read_file (disk p) (storage_path (Name p) (snd e)) \<noteq> None"
  shows "copy_backup p s0 lastValue w es = (None, w(s0 \<mapsto> copy_all q (map (file_of p) es)))"
  using assms(1,3-5)
proof (induction es arbitrary: w q lastValue)
  case Nil
  then show ?case by (auto simp: fun_upd_def)
next
  case (Cons e es)
  obtain k v where e [simp]: "e = (k, v)" by (cases e)
  obtain c where c: "os_Open (disk p) (storage_path (Name p) v)" "ReadAll (disk p) (storage_path (Name p) v) = Some c"
    using Cons.prems(4) by (auto simp: read_file_def split: if_splits)
  let ?q = "snd (successorStoreFile q (file_of p e))"
  have f: "file_of p e = \<lparr>file_Id = snd k, file_Name = v, file_Content = c\<rparr>"
    using c by (simp add: file_of_def local_content_def Let_def)
  have "copy_backup p s0 v (w(s0 \<mapsto> ?q)) es = (None, w(s0 \<mapsto> ?q, s0 \<mapsto> copy_all ?q (map (file_of p) es)))"
    by (rule Cons.IH) (use Cons.prems in auto)
  with Cons.prems c show ?case
    by (auto simp: f [unfolded e] call_SuccessorStoreFile_live assms(2))
qed

lemma successorStoreFile_simps [simp]:
  "Name (snd (successorStoreFile q f)) = Name q" "Bucket (snd (successorStoreFile q f)) = Bucket q"
  "Predecessor (snd (successorStoreFile q f)) = Predecessor q"
  "ddirs (disk (snd (successorStoreFile q f))) = ddirs (disk q)"
  "dfault (disk (snd (successorStoreFile q f))) = dfault (disk q)"
  "disk (snd (successorStoreFile q f)) =
     snd (write_file (disk q) (storage_path (Name q) (file_Name f)) (file_Content f))"
  by (simp_all add: successorStoreFile_def new_big_def Let_def)

lemma successorStoreFile_Backup:
  "wf_proc q \<Longrightarrow> Backup (snd (successorStoreFile q f)) =
     Backup q @ [((heap q, file_Id f mod hashMod), file_Name f)]"
  using keys_ok_fresh [of "heap q" "Backup q" "file_Id f mod hashMod"]
  by (simp add: successorStoreFile_def new_big_def Let_def update_fresh wf_proc_def)

lemma copy_all_frame [simp]:
  "Name (copy_all q fs) = Name q" "Bucket (copy_all q fs) = Bucket q" "Predecessor (copy_all q fs) = Predecessor q"
  by (induction fs arbitrary: q) simp_all

lemma copy_all_wf: "wf_proc q \<Longrightarrow> wf_proc (copy_all q fs)"
  by (induction fs arbitrary: q) (simp_all add: successorStoreFile_wf)

lemma copy_all_Backup:
  "wf_proc q \<Longrightarrow> map (\<lambda>e. (snd (fst e), snd e)) (Backup (copy_all q fs)) =
     map (\<lambda>e. (snd (fst e), snd e)) (Backup q) @ map (\<lambda>f. (file_Id f mod hashMod, file_Name f)) fs"
  by (induction fs arbitrary: q) (simp_all add: successorStoreFile_wf successorStoreFile_Backup)

lemma copy_all_read_other:
  "f \<notin> file_Name ` set fs \<Longrightarrow>
    read_file (disk (copy_all q fs)) (storage_path (Name q) f) = read_file (disk q) (storage_path (Name q) f)"
proof (induction fs arbitrary: q)
  case (Cons g fs)
  then show ?case using Cons.IH [of "snd (successorStoreFile q g)"] by (simp add: disk.rd_wr_other)
qed simp

lemma copy_all_read:
  assumes "f \<in> set fs" and "distinct (map file_Name fs)"
    and "disk_takes (disk q) (storage_path (Name q) (file_Name f))"
  shows "read_file (disk (copy_all q fs)) (storage_path (Name q) (file_Name f)) = Some (file_Content f)"
  using assms
proof (induction fs arbitrary: q)
  case (Cons g fs)
  let ?q = "snd (successorStoreFile q g)"
  show ?case
  proof (cases "f = g")
    case True
    then have "read_file (disk ?q) (storage_path (Name q) (file_Name f)) = Some (file_Content f)"
      using disk_takesD [OF Cons.prems(3)] by (simp add: disk.rd_wr_same)
    with Cons.prems(2) True copy_all_read_other [of "file_Name f" fs ?q] show ?thesis by simp
  next
    case False
    with Cons.prems Cons.IH [of ?q] show ?thesis by (simp add: disk_takes_def)
  qed
qed simp

lemma filter_update_other:
  "snd k \<noteq> i \<Longrightarrow> filter (\<lambda>e. snd (fst e) = i) (AList.update k v b) = filter (\<lambda>e. snd (fst e) = i) b"
  by (induction b) auto

lemma filter_merge:
  assumes "distinct (map fst ks)" and "'''' \<notin> snd ` set ks"
    and "\<forall>e \<in> set ks. snd (fst e) = i \<longrightarrow> fst e \<notin> fst ` set b"
  shows "filter (\<lambda>e. snd (fst e) = i) (foldl (\<lambda>b (k, v). if v \<noteq> '''' then AList.update k v b else b) b ks) =
    filter (\<lambda>e. snd (fst e) = i) b @ filter (\<lambda>e. snd (fst e) = i) ks"
  using assms
proof (induction ks arbitrary: b)
  case (Cons e ks)
  obtain k v where e: "e = (k, v)" by (cases e)
  let ?b = "AList.update k v b"
  have v: "v \<noteq> ''''" using Cons.prems(2) by (auto simp: e)
  have "fst ` set ?b = insert k (fst ` set b)" by (simp add: dom_update)
  then have "\<forall>e \<in> set ks. snd (fst e) = i \<longrightarrow> fst e \<notin> fst ` set ?b"
    using Cons.prems(1,3) by (auto simp: e)
  then have "filter (\<lambda>e. snd (fst e) = i) (foldl (\<lambda>b (k, v). if v \<noteq> '''' then AList.update k v b else b) ?b ks) =
    filter (\<lambda>e. snd (fst e) = i) ?b @ filter (\<lambda>e. snd (fst e) = i) ks"
    using Cons.prems(1,2) by (intro Cons.IH) auto
  moreover have "filter (\<lambda>e. snd (fst e) = i) ?b = filter (\<lambda>e. snd (fst e) = i) (b @ [e])"
    using Cons.prems(3) by (cases "snd k = i") (simp_all add: e filter_update_other update_fresh)
  ultimately show ?case using v by (simp add: e)
qed simp

lemma filter_fst_map:
  "map (\<lambda>e. (snd (fst e), snd e)) es = map g fs \<Longrightarrow> distinct (map (fst \<circ> g) fs) \<Longrightarrow> x \<in> set fs \<Longrightarrow>
    \<exists>h. filter (\<lambda>e. snd (fst e) = fst (g x)) es = [((h, fst (g x)), snd (g x))]"
proof (induction es arbitrary: fs)
  case (Cons e es)
  then obtain y ys where fs: "fs = y # ys" by (cases fs) auto
  have e: "g y = (snd (fst e), snd e)" and es: "map (\<lambda>e. (snd (fst e), snd e)) es = map g ys"
    using Cons.prems(1) by (auto simp: fs)
  have img: "(snd \<circ> fst) ` set es = (fst \<circ> g) ` set ys"
    using arg_cong [OF es, of "\<lambda>l. fst ` set l"] by (simp add: image_comp comp_def)
  show ?case
  proof (cases "x = y")
    case True
    have "fst (g y) \<notin> (snd \<circ> fst) ` set es" using Cons.prems(2) img by (simp add: fs)
    then have "filter (\<lambda>e. snd (fst e) = fst (g y)) es = []" by (force simp: filter_empty_conv)
    with True e show ?thesis by (cases e) auto
  next
    case False
    then have "x \<in> set ys" and "snd (fst e) \<noteq> fst (g x)"
      using Cons.prems(2,3) e by (force simp: fs)+
    with Cons.IH [OF es] Cons.prems(2) show ?thesis by (simp add: fs)
  qed
qed simp

lemma takeOver_serves:
  assumes "wf_proc q" and "Backup q = []" and "f \<in> set fs" and "distinct (map file_Name fs)"
    and "distinct (map (\<lambda>f. file_Id f mod hashMod) fs)" and "'''' \<notin> file_Name ` set fs"
    and "\<not> has_key (Bucket q) (file_Id f mod hashMod)"
    and "disk_takes (disk q) (storage_path (Name q) (file_Name f))"
  shows "serves (takeOverBackup (copy_all q fs)) (file_Id f mod hashMod) (file_Name f) (file_Content f)"
proof -
  let ?i = "file_Id f mod hashMod" and ?g = "\<lambda>f. (file_Id f mod hashMod, file_Name f)"
  have m: "map (\<lambda>e. (snd (fst e), snd e)) (Backup (copy_all q fs)) = map ?g fs"
    using copy_all_Backup [OF assms(1)] assms(2) by simp
  obtain h where h: "filter (\<lambda>e. snd (fst e) = ?i) (Backup (copy_all q fs)) = [((h, ?i), file_Name f)]"
    using filter_fst_map [OF m _ assms(3)] assms(5) by (auto simp: comp_def)
  have names: "'''' \<notin> snd ` set (Backup (copy_all q fs))"
    using arg_cong [OF m, of "\<lambda>l. snd ` set l"] assms(6) by (simp add: image_comp comp_def)
  have keys: "distinct (map fst (Backup (copy_all q fs)))"
    using copy_all_wf [OF assms(1)] by (simp add: wf_proc_def keys_ok_def)
  have fresh: "\<forall>e \<in> set (Backup (copy_all q fs)). snd (fst e) = ?i \<longrightarrow> fst e \<notin> fst ` set (Bucket q)"
    using assms(7) by (force simp: has_key_set)
  have "filter (\<lambda>e. snd (fst e) = ?i) (Bucket (takeOverBackup (copy_all q fs))) = [((h, ?i), file_Name f)]"
    using filter_merge [OF keys names fresh] h filter_id_fresh [OF assms(7)] by (simp add: takeOverBackup_def)
  moreover have "read_file (disk (takeOverBackup (copy_all q fs))) (storage_path (Name q) (file_Name f)) =
      Some (file_Content f)"
    using copy_all_read [OF assms(3,4,8)] by (simp add: takeOverBackup_def)
  ultimately show ?thesis by (simp add: serves_def takeOverBackup_def)
qed

lemma push_backup_ok:
  assumes "w a = Some p" and "hd (Successors p) = s" and "s \<noteq> Address p" and "s \<noteq> a" and "good_addr s"
    and "w s = Some q" and "range_perm ord" and "distinct (map snd (Bucket p))" and "'''' \<notin> snd ` set (Bucket p)"
    and "\<forall>e \<in> set (Bucket p). read_file (disk p) (storage_path (Name p) (snd e)) \<noteq> None"
  shows "push_backup ord w a =
    (TaskOk, w(s \<mapsto> copy_all (q\<lparr>Backup := []\<rparr>) (map (file_of p) (ord (Bucket p))), a \<mapsto> cleanRedundantFile p))"
proof -
  have o: "mset (ord (Bucket p)) = mset (Bucket p)" "set (ord (Bucket p)) = set (Bucket p)"
    using assms(7) range_perm_set by (auto simp: range_perm_def)
  have "distinct ('''' # map snd (ord (Bucket p)))"
    using assms(8,9) o distinct_map_perm [OF o(1), of snd] by simp
  then have "copy_backup p s '''' (w(s \<mapsto> q\<lparr>Backup := []\<rparr>)) (ord (Bucket p)) =
    (None, w(s \<mapsto> q\<lparr>Backup := []\<rparr>, s \<mapsto> copy_all (q\<lparr>Backup := []\<rparr>) (map (file_of p) (ord (Bucket p)))))"
    by (intro copy_backup_all) (use assms(5,9,10) o in auto)
  with assms(1-6) show ?thesis
    by (simp add: push_backup_def Let_def call_DeleteBackup_def DeleteSuccessorBackupRPC_def
        deleteSuccessorBackup_eq)
qed

text \<open>
  C16: a file outlives its node. Once the backup step of a stabilisation has run, the death
  of the node does not lose its files: when the successor notices that its predecessor is
  gone, it serves every file of the dead node with its content, unless it already holds
  another file with the same ring identifier.
\<close>

theorem backup_survives_crash:
  assumes "w a = Some p" and "hd (Successors p) = s" and "s \<noteq> Address p" and "s \<noteq> a" and "good_addr s"
    and "w s = Some q" and "range_perm ord" and "sound_store p" and "wf_proc q"
    and "push_backup ord w a = (r, w')"
    and "Predecessor q = ip @ '':'' @ port" and "CHR '':'' \<notin> set ip" and "CHR '':'' \<notin> set port"
    and "(w'(a := None)) (NAT la ip @ '':'' @ port) = None"
    and "(k, f) \<in> set (Bucket p)" and "read_file (disk p) (storage_path (Name p) f) = Some c"
    and "\<not> has_key (Bucket q) (snd k)" and "disk_takes (disk q) (storage_path (Name q) f)"
    and "range_perm ord'" and "file_Id g mod hashMod = snd k"
  shows "\<exists>w2 q'. checkPredecessor la (w'(a := None)) s = (TaskOk, w2) \<and> w2 s = Some q'
    \<and> Predecessor q' = '''' \<and> GetFileRPC ord' q' g = Inr \<lparr>file_Id = snd k, file_Name = f, file_Content = c\<rparr>"
proof -
  note st = sound_storeD [OF assms(8)]
  let ?es = "ord (Bucket p)" and ?q = "q\<lparr>Backup := []\<rparr>"
  let ?fs = "map (file_of p) ?es" and ?f = "file_of p (k, f)"
  have perm: "mset ?es = mset (Bucket p)" "set ?es = set (Bucket p)"
    using assms(7) range_perm_set by (auto simp: range_perm_def)
  have names: "distinct (map file_Name ?fs)"
    using distinct_map_perm [OF perm(1), of snd] st(2) by (simp add: file_of_def comp_def)
  have eq: "map (\<lambda>f. file_Id f mod hashMod) ?fs = map (snd \<circ> fst) ?es"
    using st(6) perm(2) by (auto simp: file_of_def)
  have ids: "distinct (map (\<lambda>f. file_Id f mod hashMod) ?fs)"
    unfolding eq using distinct_map_perm [OF perm(1), of "snd \<circ> fst"] st(3) by (simp add: unique_ids_def)
  have f: "file_Id ?f mod hashMod = snd k" "file_Name ?f = f" "file_Content ?f = c"
    using st(6) [OF assms(15)] assms(16) by (simp_all add: file_of_def local_content_read)
  have mem: "?f \<in> set ?fs" using assms(15) perm(2) by auto
  have "'''' \<notin> file_Name ` set ?fs"
    using st(4) perm(2) by (force simp: file_of_def)
  moreover have "wf_proc ?q" using assms(9) by (simp add: wf_proc_def)
  ultimately have "serves (takeOverBackup (copy_all ?q ?fs)) (snd k) f c"
    using takeOver_serves [of ?q ?f ?fs] mem names ids assms(17,18) by (simp add: f)
  then have "GetFileRPC ord' (takeOverBackup (copy_all ?q ?fs)) g = Inr \<lparr>file_Id = snd k, file_Name = f, file_Content = c\<rparr>"
    using assms(19,20) serves_get by blast
  moreover have w': "w' = w(s \<mapsto> copy_all ?q ?fs, a \<mapsto> cleanRedundantFile p)"
    using push_backup_ok [OF assms(1-7) st(2,4,5)] assms(10) by simp
  moreover have "split_on CHR '':'' (Predecessor q) = [ip, port]"
    using assms(11-13) by (simp add: split_on_append split_on_no_sep)
  ultimately show ?thesis
    using assms(4,11,14) by (simp add: checkPredecessor_def takeOverBackup_def)
qed

end
