(* ===== verification/Chord_Client.thy ===== *)
theory Chord_Client
  imports Chord_Files Chord_Stable
begin

text \<open>
  The user's side of a Chord node (\<^verbatim>\<open>Lab2/Node/tools.go\<close>, \<open>main\<close>): storing a file
  of the upload folder in the ring, getting it back into the download folder, looking it up,
  and starting the program. RSA is a parameter: encryption and decryption under a key, each
  of which may fail. A call that has not returned within the fuel of a lookup is the outer
  \<open>None\<close>; the result of a command is \<open>None\<close> for no error, as Go's \<open>nil\<close>.
\<close>

section \<open>Commands\<close>

type_synonym cipher = "nat \<Rightarrow> bytes \<Rightarrow> bytes option"

definition clientStoreFile :: "nat \<Rightarrow> cipher \<Rightarrow> World \<Rightarrow> NodeAddress \<Rightarrow> string \<Rightarrow> (string option \<times> World) option" where
  "clientStoreFile fuel EncryptPKCS1v15 w self fileName =
     (case w self of
        None \<Rightarrow> Some (Some ''not running'', w)
      | Some p \<Rightarrow>
          (case clientLookUp fuel w fileName p of
             None \<Rightarrow> None
           | Some (Inl err) \<Rightarrow> Some (Some err, w)
           | Some (Inr addr) \<Rightarrow>
               let filepath = upload_path (Name p) fileName in
               if \<not> os_Open (disk p) filepath then Some (Some ''cannot open the file'', w)
               else
                 (case ReadAll (disk p) filepath of
                    None \<Rightarrow> Some (Some ''cannot read the file'', w)
                  | Some content \<Rightarrow>
                      let newFile = \<lparr>file_Id = strHash fileName mod hashMod, file_Name = fileName,
                            file_Content = (if EncryptFlag p then encryptFile EncryptPKCS1v15 p content else content)\<rparr>
                      in (case call_StoreFile w addr newFile of
                            (r, w1) \<Rightarrow>
                              let replyErr = (case r of Inl _ \<Rightarrow> None | Inr reply \<Rightarrow> sf_Err reply);
                                  err = (case r of Inl e \<Rightarrow> Some e | Inr _ \<Rightarrow> None)
                              in Some (if replyErr \<noteq> None \<and> err \<noteq> None then Some ''cannot store the file'' else None,
                                       w1)))))"

definition call_GetFile :: "range_order \<Rightarrow> World \<Rightarrow> NodeAddress \<Rightarrow> FileRPC \<Rightarrow> callErr + FileRPC" where
  "call_GetFile ord w a f =
     ChordCall w a (\<lambda>q. case GetFileRPC ord q f of Inl e \<Rightarrow> Inl (CallError e) | Inr r \<Rightarrow> Inr r)"

definition clientGetFile ::
  "nat \<Rightarrow> cipher \<Rightarrow> range_order \<Rightarrow> World \<Rightarrow> NodeAddress \<Rightarrow> string \<Rightarrow> (string option \<times> World) option" where
  "clientGetFile fuel DecryptPKCS1v15 ord w self fileName =
     (case w self of
        None \<Rightarrow> Some (Some ''not running'', w)
      | Some p \<Rightarrow>
          (case clientLookUp fuel w fileName p of
             None \<Rightarrow> None
           | Some (Inl err) \<Rightarrow> Some (Some err, w)
           | Some (Inr addr) \<Rightarrow>
               (case call_GetFile ord w addr
                       \<lparr>file_Id = strHash fileName mod hashMod, file_Name = fileName, file_Content = []\<rparr> of
                  Inl _ \<Rightarrow> Some (Some ''cannot get the file'', w)
                | Inr file \<Rightarrow>
                    let file1 = (if EncryptFlag p
                                 then file\<lparr>file_Content := decryptFile DecryptPKCS1v15 p (file_Content file)\<rparr>
                                 else file)
                    in (case storeLocalFile p file1 of
                          (success, p1) \<Rightarrow>
                            Some (if \<not> success then Some ''cannot store local file'' else None,
                                  w(self \<mapsto> p1))))))"

text \<open>What the command \<open>LOOKUP\<close> of \<open>main\<close> prints last.\<close>

datatype lookupOutput = CheckFailed | NameFailed | StoredAt string | NotStored

definition main_lookup :: "nat \<Rightarrow> World \<Rightarrow> NodeProc \<Rightarrow> string \<Rightarrow> lookupOutput option" where
  "main_lookup fuel w p key =
     (case clientLookUp fuel w key p of
        None \<Rightarrow> None
      | Some r \<Rightarrow>
          let resultAddr = (case r of Inl _ \<Rightarrow> '''' | Inr addr \<Rightarrow> addr) in
          Some (case ChordCall w resultAddr (\<lambda>q. Inr (CheckFileExistRPC q key)) of
                  Inl _ \<Rightarrow> CheckFailed
                | Inr exist \<Rightarrow>
                    if exist then (case call_GetName w resultAddr of Inl _ \<Rightarrow> NameFailed | Inr nm \<Rightarrow> StoredAt nm)
                    else NotStored))"

text \<open>
  The start of \<open>main\<close>: check the arguments, create the node, listen, join or create.
  The inner \<open>None\<close> is an exit of the program.
\<close>

definition main_start ::
  "nat \<Rightarrow> range_order \<Rightarrow> (string \<Rightarrow> bool) \<Rightarrow> NodeEnv \<Rightarrow> Arguments \<Rightarrow> Disk \<Rightarrow> World \<Rightarrow> World option option" where
  "main_start fuel ord ParseIP env args d w =
     (let valid = CheckArgsValid ParseIP args in
      if valid = -1 then Some None
      else
        (case NewNode env args d of
           None \<Rightarrow> Some None
         | Some p \<Rightarrow>
             if w (Address p) \<noteq> None then Some None
             else
               let w1 = w(Address p \<mapsto> p) in
               if valid = 0 then
                 (case joinChord fuel ord w1 (Address p) (JoinAddress args @ '':'' @ Itoa_int (JoinPort args)) of
                    None \<Rightarrow> None
                  | Some (TaskOk, w2) \<Rightarrow> Some (Some w2)
                  | Some (_, w2) \<Rightarrow> Some None)
               else Some (Some (w(Address p \<mapsto> createChord p)))))"

section \<open>Store and get\<close>

text \<open>No two live nodes share a ring identifier.\<close>

definition ids_unique :: "World \<Rightarrow> bool" where
  "ids_unique w \<longleftrightarrow>
     (\<forall>a b p q. w a = Some p \<and> w b = Some q \<and> Identifier p = Identifier q \<longrightarrow> a = b)"

lemma owns_unique:
  assumes "world_wf w" and "ids_unique w" and "owns w a k" and "owns w b k"
  shows "a = b"
proof -
  obtain p q where p: "w a = Some p" and q: "w b = Some q"
    and "(Identifier p - k) mod hashMod = (Identifier q - k) mod hashMod"
    using assms(3,4) by (force simp: owns_def)
  then have "(Identifier p - k + k) mod hashMod = (Identifier q - k + k) mod hashMod"
    by (metis mod_add_left_eq)
  moreover have "on_ring hashMod (Identifier p)" "on_ring hashMod (Identifier q)"
    using world_wfD(4) [OF assms(1)] p q by blast+
  ultimately have "Identifier p = Identifier q" by (simp add: on_ring_def)
  with p q assms(2) show ?thesis by (auto simp: ids_unique_def)
qed

lemma ids_unique_keeps: "keeps w w' \<Longrightarrow> ids_unique w \<Longrightarrow> ids_unique w'"
  using keeps_back [of w w'] unfolding ids_unique_def same_core_def by metis

text \<open>The owner of a name and what both commands find it to be.\<close>

lemma lookup_is_owner:
  assumes "ring_ok w" and "ids_unique w" and "w self = Some p" and "owns w s (ring_id key)" and "64 \<le> fuel"
  shows "clientLookUp fuel w key p = Some (Inr s)"
proof -
  have ww: "world_wf w" using assms(1) by (simp add: ring_ok_def)
  then have "w (Address p) = Some p" using world_wfD(2) assms(3) by metis
  then obtain t where "clientLookUp fuel w key p = Some (Inr t)" "owns w t (ring_id key)"
    using clientLookUp_finds_owner [OF assms(1) _ assms(5)] by blast
  with owns_unique [OF ww assms(2)] assms(4) show ?thesis by blast
qed

definition upload_of :: "cipher \<Rightarrow> NodeProc \<Rightarrow> string \<Rightarrow> bytes \<Rightarrow> FileRPC" where
  "upload_of Enc p f c =
     \<lparr>file_Id = ring_id f, file_Name = f, file_Content = (if EncryptFlag p then encryptFile Enc p c else c)\<rparr>"

lemma clientStoreFile_eq:
  assumes "ring_ok w" and "ids_unique w" and "w self = Some p" and "owns w s (ring_id f)" and "64 \<le> fuel"
    and "w s = Some q" and "read_file (disk p) (upload_path (Name p) f) = Some c"
  shows "clientStoreFile fuel Enc w self f =
    Some (None, w(s \<mapsto> snd (storeChordFile q (upload_of Enc p f c) False)))"
proof -
  have "good_addr s" using assms(1,6) world_wfD(1) by (auto simp: ring_ok_def)
  then have "snd (call_StoreFile w s (upload_of Enc p f c)) = w(s \<mapsto> snd (storeChordFile q (upload_of Enc p f c) False))"
    using assms(6) by (rule call_StoreFile_live)
  moreover have "sf_Err r = None" if "call_StoreFile w s g = (Inr r, w1)" for g r w1
    using that by (auto simp: call_StoreFile_def split: sum.splits prod.splits if_splits)
  moreover have "os_Open (disk p) (upload_path (Name p) f)" "ReadAll (disk p) (upload_path (Name p) f) = Some c"
    using assms(7) by (auto simp: read_file_def split: if_splits)
  ultimately show ?thesis
    using assms(3) lookup_is_owner [OF assms(1-5)]
    by (cases "call_StoreFile w s (upload_of Enc p f c)")
      (auto simp: clientStoreFile_def Let_def upload_of_def ring_id_def split: sum.split)
qed

lemma storeChordFile_keys [simp]:
  "PrivateKey (snd (storeChordFile q f b)) = PrivateKey q" "EncryptFlag (snd (storeChordFile q f b)) = EncryptFlag q"
  by (auto simp: storeChordFile_def new_big_def Let_def split: prod.splits)

lemma storeChordFile_disk_takes:
  "disk_takes (disk (snd (storeChordFile q f b))) x = disk_takes (disk q) x"
  by (simp add: storeChordFile_def new_big_def Let_def case_prod_beta disk_takes_def)

text \<open>
  C11: what a user stores is what the user gets back. On a correct ring, a file of the upload
  folder whose ring identifier is free at its owner is stored, and a later get on the same
  node writes the original content to the download folder, provided that decryption inverts
  encryption on it and that the disks work.
\<close>

theorem store_get_roundtrip:
  assumes "ring_ok w" and "ids_unique w" and "w self = Some p" and "owns w s (ring_id f)" and "64 \<le> fuel"
    and "w s = Some q" and "read_file (disk p) (upload_path (Name p) f) = Some c"
    and "\<not> has_key (Bucket q) (ring_id f)" and "disk_takes (disk q) (storage_path (Name q) f)"
    and "disk_takes (disk p) (download_path (Name p) f)"
    and "Enc (PublicKey p) c = Some e" and "Dec (PrivateKey p) e = Some c" and "range_perm ord"
  shows "\<exists>w1 w2 p2. clientStoreFile fuel Enc w self f = Some (None, w1)
    \<and> clientGetFile fuel Dec ord w1 self f = Some (None, w2)
    \<and> w2 self = Some p2 \<and> read_file (disk p2) (download_path (Name p2) f) = Some c"
proof -
  let ?f = "upload_of Enc p f c"
  let ?q = "snd (storeChordFile q ?f False)" and ?w1 = "w(s \<mapsto> snd (storeChordFile q (upload_of Enc p f c) False))"
  have ww: "world_wf w" using assms(1) by (simp add: ring_ok_def)
  have gs: "good_addr s" and wq: "wf_proc q" using world_wfD [OF ww assms(6)] by blast+
  have store: "clientStoreFile fuel Enc w self f = Some (None, ?w1)"
    by (rule clientStoreFile_eq [OF assms(1-7)])
  have k: "keeps w ?w1" by (rule keeps_upd, rule assms(6), rule same_core_store)
  have rf: "ring_id f mod hashMod = ring_id f" by (simp add: ring_id_def)
  have "serves ?q (file_Id ?f mod hashMod) (file_Name ?f) (file_Content ?f)"
    by (rule store_serves) (use wq assms(8,9) rf in \<open>simp_all add: upload_of_def disk_takesD\<close>)
  then have get: "GetFileRPC ord ?q \<lparr>file_Id = ring_id f, file_Name = f, file_Content = []\<rparr> =
      Inr \<lparr>file_Id = ring_id f, file_Name = f, file_Content = file_Content ?f\<rparr>"
    using serves_get [OF assms(13)] rf by (simp add: upload_of_def)
  have gf: "call_GetFile ord ?w1 s \<lparr>file_Id = ring_id f, file_Name = f, file_Content = []\<rparr> =
      Inr \<lparr>file_Id = ring_id f, file_Name = f, file_Content = file_Content ?f\<rparr>"
    using get gs by (simp add: call_GetFile_def ChordCall_def)
  obtain p1 where p1: "?w1 self = Some p1" and core: "same_core p p1" using keeps_Some [OF k assms(3)] by blast
  have f1: "Name p1 = Name p" "PrivateKey p1 = PrivateKey p" "EncryptFlag p1 = EncryptFlag p"
    "disk_takes (disk p1) (download_path (Name p) f)"
    using p1 core assms(3,6,10) by (auto simp: same_core_def storeChordFile_disk_takes split: if_splits)
  have "owns ?w1 s (ring_id f)"
    using assms(4) k keeps_Some [OF k] keeps_back [OF k] unfolding owns_def same_core_def by metis
  then have look: "clientLookUp fuel ?w1 f p1 = Some (Inr s)"
    by (rule lookup_is_owner [OF keeps_ring_ok [OF assms(1) k] ids_unique_keeps [OF k assms(2)] p1 _ assms(5)])
  have plain: "(if EncryptFlag p1 then decryptFile Dec p1 (file_Content ?f) else file_Content ?f) = c"
    using assms(11,12) by (simp add: f1 upload_of_def encryptFile_def decryptFile_def)
  let ?d = "write_file (disk p1) (download_path (Name p) f) c"
  have "clientGetFile fuel Dec ord ?w1 self f = Some (None, ?w1(self \<mapsto> p1\<lparr>disk := snd ?d\<rparr>))"
    unfolding clientGetFile_def p1 option.case look sum.case ring_id_def [symmetric] gf
    using plain disk_takesD(1) [OF f1(4), of c] by (simp add: storeLocalFile_def f1 case_prod_beta Let_def split: if_splits)
  moreover have "read_file (snd ?d) (download_path (Name p) f) = Some c"
    using disk_takesD [OF f1(4)] by (rule disk.rd_wr_same)
  ultimately show ?thesis using store f1(1) by (simp del: fun_upd_upd)
qed

text \<open>
  A refused store is reported as a success. When the owner already holds a file under
  the ring identifier (the same name again, or another name with the same 6-bit hash),
  nothing is stored and the command returns no error.
\<close>

theorem refused_store_reported_success:
  assumes "ring_ok w" and "ids_unique w" and "w self = Some p" and "owns w s (ring_id f)" and "64 \<le> fuel"
    and "w s = Some q" and "read_file (disk p) (upload_path (Name p) f) = Some c"
    and "has_key (Bucket q) (ring_id f)"
  shows "\<exists>w1 q1. clientStoreFile fuel Enc w self f = Some (None, w1) \<and> w1 s = Some q1
    \<and> Bucket q1 = Bucket q \<and> disk q1 = disk q"
proof -
  have "has_key (Bucket q) (file_Id (upload_of Enc p f c) mod hashMod)"
    using assms(8) by (simp add: upload_of_def ring_id_def)
  from storeChordFile_refused [OF this] show ?thesis
    using clientStoreFile_eq [OF assms(1-7), of Enc] by simp
qed

text \<open>
  A file that cannot be encrypted (RSA with PKCS #1 v1.5 takes no more than the key
  length less 11 bytes) is replaced by an empty one: the command reports success and the
  owner serves an empty file from then on.
\<close>

theorem oversize_file_stored_empty:
  assumes "ring_ok w" and "ids_unique w" and "w self = Some p" and "owns w s (ring_id f)" and "64 \<le> fuel"
    and "w s = Some q" and "read_file (disk p) (upload_path (Name p) f) = Some c"
    and "\<not> has_key (Bucket q) (ring_id f)" and "disk_takes (disk q) (storage_path (Name q) f)"
    and "EncryptFlag p" and "Enc (PublicKey p) c = None" and "range_perm ord" and "file_Id g = ring_id f"
  shows "\<exists>w1 q1. clientStoreFile fuel Enc w self f = Some (None, w1) \<and> w1 s = Some q1
    \<and> GetFileRPC ord q1 g = Inr \<lparr>file_Id = ring_id f, file_Name = f, file_Content = []\<rparr>"
proof -
  let ?f = "upload_of Enc p f c"
  have rf: "ring_id f mod hashMod = ring_id f" by (simp add: ring_id_def)
  have c: "file_Content ?f = []" using assms(10,11) by (simp add: upload_of_def encryptFile_def)
  have "wf_proc q" using assms(1,6) world_wfD(3) by (auto simp: ring_ok_def)
  then have "serves (snd (storeChordFile q ?f False)) (file_Id ?f mod hashMod) (file_Name ?f) (file_Content ?f)"
    by (intro store_serves) (use assms(8,9) rf in \<open>simp_all add: upload_of_def disk_takesD\<close>)
  then have "GetFileRPC ord (snd (storeChordFile q ?f False)) g =
      Inr \<lparr>file_Id = ring_id f, file_Name = f, file_Content = []\<rparr>"
    using serves_get [OF assms(12)] rf assms(13) by (simp add: c) (simp add: upload_of_def)
  with clientStoreFile_eq [OF assms(1-7), of Enc] show ?thesis by simp
qed

section \<open>Starting\<close>

lemma register_file_core:
  "wf_proc p \<Longrightarrow> wf_proc (register_file p f)" "Address (register_file p f) = Address p"
  "Successors (register_file p f) = Successors p" "Predecessor (register_file p f) = Predecessor p"
  by (auto simp: register_file_def new_big_def wf_proc_def intro: keys_ok_insert keys_ok_mono)

lemma foldl_register_core:
  "wf_proc p \<Longrightarrow> wf_proc (foldl register_file p fs)" "Address (foldl register_file p fs) = Address p"
  "Successors (foldl register_file p fs) = Successors p" "Predecessor (foldl register_file p fs) = Predecessor p"
  by (induction fs arbitrary: p) (simp_all add: register_file_core)

lemma generateRSAKey_core:
  "generateRSAKey env p = Some q \<Longrightarrow>
    (wf_proc p \<longrightarrow> wf_proc q) \<and> Address q = Address p \<and> Successors q = Successors p \<and> Predecessor q = Predecessor p"
  by (auto simp: generateRSAKey_def Let_def wf_proc_def split: option.splits prod.splits bool.splits)

definition start_address :: "NodeEnv \<Rightarrow> Arguments \<Rightarrow> string" where
  "start_address env args =
     (if arg_Address args = ''localhost'' \<or> arg_Address args = ''127.0.0.1'' then arg_Address args
      else if arg_Address args = ''0.0.0.0'' then env_ip2 env else env_local env)"

lemma NewNode_core:
  assumes "NewNode env args d = Some p" and "1 \<le> arg_Successors args"
  shows "wf_proc p \<and> Address p = start_address env args @ '':'' @ Itoa_int (arg_Port args)
    \<and> Successors p = replicate (nat (arg_Successors args)) '''' \<and> Predecessor p = ''''"
proof -
  define nm where "nm = (if ClientName args = ''Default'' then start_address env args @ '':'' @ Itoa_int (arg_Port args) else ClientName args)"
  define p1 where "p1 = initSuccessors (initFingerTable
     \<lparr>Name = nm, Identifier = strHash nm mod hashMod, Address = start_address env args @ '':'' @ Itoa_int (arg_Port args),
      FingerTable = replicate (fingerTableSize + 1) \<lparr>fe_Id = [], fe_Address = ''''\<rparr>,
      node_next = 0, Predecessor = '''', Successors = replicate (nat (arg_Successors args)) '''',
      PrivateKey = 0, PublicKey = 0, EncryptFlag = True, Bucket = [], Backup = [], disk = d, heap = 0\<rparr>)"
  have p1: "wf_proc (p1\<lparr>disk := e\<rparr>) \<and> Address p1 = start_address env args @ '':'' @ Itoa_int (arg_Port args) \<and>
    Successors p1 = replicate (nat (arg_Successors args)) '''' \<and> Predecessor p1 = ''''" for e
    using assms(2) by (simp add: p1_def wf_proc_def initSuccessors_def initFingerTable_def ring_id_def)
  have w1: "wf_proc p1" using p1 [of "disk p1"] by simp
  note nn = assms(1) [unfolded NewNode_def start_address_def [symmetric] Let_def, folded nm_def, folded p1_def]
  show ?thesis
  proof (cases "os_Exists d (node_folder nm)")
    case True
    then show ?thesis
      using nn foldl_register_core(1) [OF w1] p1
      by (auto simp: foldl_register_core(2-4) wf_proc_def split: if_splits option.splits)
  next
    case False
    then obtain e where "generateRSAKey env (p1\<lparr>disk := e\<rparr>) = Some p"
      using nn by (auto split: prod.splits bool.splits)
    from generateRSAKey_core [OF this] p1 show ?thesis by simp
  qed
qed

lemma CheckArgsValid_ranges:
  assumes "CheckArgsValid ParseIP args \<noteq> -1"
  shows "1024 \<le> arg_Port args" "arg_Port args \<le> 65535" "1 \<le> arg_Successors args" "arg_Successors args \<le> 32"
  using assms by (auto simp: CheckArgsValid_def split: if_splits)

lemma match_hex_star_any: "match_hex_star s"
  by (auto simp: match_hex_star_def list_ex_iff intro!: bexI [of _ 0])

text \<open>
  Which arguments are accepted. Addresses, ports, intervals and the number of successors
  are checked against their ranges; the client name is not checked at all, since the pattern
  matches the empty substring of any name.
\<close>

theorem CheckArgsValid_rejects_iff:
  "CheckArgsValid ParseIP args = -1 \<longleftrightarrow>
     \<not> ((ParseIP (arg_Address args) \<or> arg_Address args = ''localhost'') \<and>
        arg_Port args \<in> {1024..65535} \<and> Stabilize args \<in> {1..60000} \<and> FixFingers args \<in> {1..60000} \<and>
        CheckPred args \<in> {1..60000} \<and> arg_Successors args \<in> {1..32} \<and>
        (JoinAddress args \<noteq> ''Unspecified'' \<longrightarrow>
           (ParseIP (JoinAddress args) \<or> JoinAddress args = ''localhost'') \<and> JoinPort args \<in> {1024..65535}))"
  by (auto simp: CheckArgsValid_def match_hex_star_any)

lemma good_addr_port:
  assumes "CHR '':'' \<notin> set ip" and "0 \<le> port"
  shows "good_addr (ip @ '':'' @ Itoa_int port)"
proof -
  have "CHR '':'' \<notin> set (Itoa_int port)"
    using assms(2) Itoa_no_sep [of "CHR '':''"] by (simp add: Itoa_int_def)
  with assms(1) show ?thesis by (simp add: good_addr_def split_on_append split_on_no_sep)
qed

text \<open>
  A program started without a node to join runs a correct ring of one node: the network
  it leaves satisfies the ring invariant that the periodic tasks keep.
\<close>

theorem create_starts_ring:
  assumes "CheckArgsValid ParseIP args = 1" and "NewNode env args d = Some p"
    and "CHR '':'' \<notin> set (start_address env args)"
  shows "\<exists>w. main_start fuel ord ParseIP env args d Map.empty = Some (Some w)
    \<and> dom w = {Address p} \<and> chord_inv (nat (arg_Successors args)) w"
proof -
  have r: "1024 \<le> arg_Port args" "1 \<le> arg_Successors args"
    using CheckArgsValid_ranges [of ParseIP args] assms(1) by simp_all
  note core = NewNode_core [OF assms(2) r(2)]
  let ?p = "createChord p" and ?w = "[Address p \<mapsto> createChord p]"
  have ga: "good_addr (Address p)" using core good_addr_port [OF assms(3), of "arg_Port args"] r by simp
  have p: "wf_proc ?p" "Address ?p = Address p" "hd (Successors ?p) = Address p"
    "length (Successors ?p) = nat (arg_Successors args)" "pred_ok ?p"
    using core r by (auto simp: createChord_def wf_proc_def pred_ok_def hd_map)
  have "chord_inv (nat (arg_Successors args)) ?w"
    using p ga by (auto simp: chord_inv_def ring_ok_def world_wf_def next_on_ring_def between_def split: if_splits)
  moreover have "main_start fuel ord ParseIP env args d Map.empty = Some (Some ?w)"
    using assms(1,2) by (simp add: main_start_def)
  ultimately show ?thesis by auto
qed

end
