(* ===== verification/Chord_Example.thy ===== *)
theory Chord_Example
  imports Chord_Fingers Chord_Client
begin

text \<open>
  A concrete network of two nodes, on which the theorems about Chord are applied: node
  \<^verbatim>\<open>a\<close> has identifier 56 and listens on \<^verbatim>\<open>h:1\<close>, node \<^verbatim>\<open>b\<close> has identifier 24
  and listens on \<^verbatim>\<open>h:2\<close>. The identifiers are the SHA-1 hashes of the names.
\<close>

section \<open>The network\<close>

definition ex_disk :: "string \<Rightarrow> (string \<times> bytes) list \<Rightarrow> Disk" where
  "ex_disk nm files =
     \<lparr>dfiles = files, ddirs = [storage_dir nm, node_folder nm @ ''/file_upload'', node_folder nm @ ''/file_download''],
      dfault = (\<lambda>_. NoFault)\<rparr>"

definition ex_node :: "string \<Rightarrow> int \<Rightarrow> NodeAddress \<Rightarrow> NodeAddress list \<Rightarrow> NodeAddress \<Rightarrow> Bucket_map \<Rightarrow> Disk \<Rightarrow> NodeProc" where
  "ex_node nm i addr ss pr b d =
     \<lparr>Name = nm, Identifier = i, Address = addr,
      FingerTable = replicate (fingerTableSize + 1) \<lparr>fe_Id = [], fe_Address = ''''\<rparr>,
      node_next = 0, Predecessor = pr, Successors = ss, PrivateKey = 7, PublicKey = 7, EncryptFlag = True,
      Bucket = b, Backup = [], disk = d, heap = 1\<rparr>"

definition exA :: NodeProc where
  "exA = ex_node ''a'' 56 ''h:1'' [''h:2''] '''' [] (ex_disk ''a'' [(upload_path ''a'' ''g.txt'', ''hello'')])"

definition exB :: NodeProc where
  "exB = ex_node ''b'' 24 ''h:2'' [''h:1''] ''h:1'' [] (ex_disk ''b'' [])"

definition exW :: World where
  "exW = [''h:1'' \<mapsto> exA, ''h:2'' \<mapsto> exB]"

lemma ring_id_a: "ring_id ''a'' = 56"
  by (simp add: ring_id_def strHash_def hashMod_eq sha1_eval)

lemma ring_id_b: "ring_id ''b'' = 24"
  by (simp add: ring_id_def strHash_def hashMod_eq sha1_eval)

lemma ring_id_g: "ring_id ''g.txt'' = 17"
  by (simp add: ring_id_def strHash_def hashMod_eq sha1_eval)

lemma ex_good_addr: "good_addr ''h:1''" "good_addr ''h:2''"
  by (simp_all add: good_addr_def)

lemma ex_node_wf:
  "ring_id nm = i \<Longrightarrow> ss \<noteq> [] \<Longrightarrow> keys_ok 1 b \<Longrightarrow> wf_proc (ex_node nm i addr ss pr b d)"
  by (simp add: wf_proc_def ex_node_def)

lemma ex_wf: "wf_proc exA" "wf_proc exB"
  by (simp_all add: exA_def exB_def ex_node_wf ring_id_a ring_id_b)

lemma ex_simps [simp]:
  "Name exA = ''a''" "Identifier exA = 56" "Address exA = ''h:1''" "Successors exA = [''h:2'']" "Bucket exA = []"
  "Predecessor exA = ''''" "Name exB = ''b''" "Identifier exB = 24" "Address exB = ''h:2''"
  "Successors exB = [''h:1'']" "Bucket exB = []" "Predecessor exB = ''h:1''" "node_next exA = 0"
  "exW ''h:1'' = Some exA" "exW ''h:2'' = Some exB" "EncryptFlag exA" "PublicKey exA = 7" "PrivateKey exA = 7"
  by (simp_all add: exA_def exB_def exW_def ex_node_def)

lemma exW_cases: "exW x = Some p \<longleftrightarrow> x = ''h:1'' \<and> p = exA \<or> x = ''h:2'' \<and> p = exB"
  by (auto simp: exW_def split: if_splits)

lemma exW_inv: "chord_inv 1 exW"
  using ex_wf ex_good_addr
  by (auto simp: chord_inv_def ring_ok_def world_wf_def exW_cases next_on_ring_def between_def pred_ok_def)

lemma exW_ok: "ring_ok exW"
  using exW_inv by (simp add: chord_inv_def)

lemma exW_unique: "ids_unique exW"
  by (auto simp: ids_unique_def exW_cases)

section \<open>Storing on one node\<close>

definition exF :: FileRPC where
  "exF = \<lparr>file_Id = 81, file_Name = ''g.txt'', file_Content = ''hello''\<rparr>"

lemma dirname_storage: "CHR ''/'' \<notin> set f \<Longrightarrow> dirname (storage_path nm f) = storage_dir nm"
  by (simp add: storage_path_dir dirname_append)

lemma dirname_download: "CHR ''/'' \<notin> set f \<Longrightarrow> dirname (download_path nm f) = node_folder nm @ ''/file_download''"
  using dirname_append [of f "node_folder nm @ ''/file_download''"] by (simp add: download_path_def node_folder_def)

lemma ex_disk_takes:
  "CHR ''/'' \<notin> set f \<Longrightarrow> f \<noteq> '''' \<Longrightarrow> disk_takes (ex_disk ''a'' fs) (storage_path ''a'' f)"
  "CHR ''/'' \<notin> set f \<Longrightarrow> f \<noteq> '''' \<Longrightarrow> disk_takes (ex_disk ''b'' fs) (storage_path ''b'' f)"
  "disk_takes (ex_disk ''a'' fs) (download_path ''a'' ''g.txt'')"
  by (simp_all add: disk_takes_def ex_disk_def dirname_storage dirname_download)
    (simp_all add: storage_path_def storage_dir_def node_folder_def download_path_def)

lemma ex_disks: "disk exA = ex_disk ''a'' [(upload_path ''a'' ''g.txt'', ''hello'')]" "disk exB = ex_disk ''b'' []"
  by (simp_all add: exA_def exB_def ex_node_def)

lemma exF_stored: "storeChordFile exB exF False = (True, snd (storeChordFile exB exF False))"
  using storeChordFile_stored(3) [OF ex_wf(2), of exF] disk_takesD(1) [OF ex_disk_takes(2)]
  by (simp add: prod_eq_iff has_key_def ex_disks exF_def)

theorem store_then_get_witness:
  "GetFileRPC rev (snd (storeChordFile exB exF False)) exF =
     Inr \<lparr>file_Id = 17, file_Name = ''g.txt'', file_Content = ''hello''\<rparr>"
  using store_then_get [OF ex_wf(2) range_perm_id(2) exF_stored _ refl] disk_takesD(2) [OF ex_disk_takes(2)]
  by (simp add: ex_disks exF_def hashMod_eq)

theorem bucket_first_wins_witness:
  "bucket_lookup (Bucket (foldl (\<lambda>p f. snd (storeChordFile p f False)) exB [exF, exF\<lparr>file_Name := ''z''\<rparr>])) 17 =
     Some ''g.txt''"
  using bucket_first_wins [OF ex_wf(2), of "[exF, exF\<lparr>file_Name := ''z''\<rparr>]" 17]
  by (simp add: exF_def hashMod_eq bucket_lookup_def)

definition exBroken :: NodeProc where
  "exBroken = ex_node ''b'' 24 ''h:2'' [''h:1''] '''' [] \<lparr>dfiles = [], ddirs = [], dfault = (\<lambda>_. NoFault)\<rparr>"

theorem failed_store_blocks_id_witness:
  "\<not> fst (storeChordFile exBroken exF False) \<and> has_key (Bucket (snd (storeChordFile exBroken exF False))) 17"
proof -
  have "wf_proc exBroken" by (simp add: exBroken_def ex_node_wf ring_id_b)
  then show ?thesis
    using failed_store_blocks_id [of exBroken rev exF "fst (storeChordFile exBroken exF False)"
        "snd (storeChordFile exBroken exF False)"]
    by (simp add: exBroken_def ex_node_def has_key_def os_Create_def exF_def hashMod_eq)
qed

definition exStale :: NodeProc where
  "exStale = ex_node ''b'' 24 ''h:2'' [''h:1''] '''' [((0, 17), ''g.txt'')]
     (ex_disk ''b'' [(storage_path ''b'' ''g.txt'', ''hello''), (storage_path ''b'' ''a'', ''old'')])"

theorem cleanRedundantFile_exact_witness:
  "read_file (disk (cleanRedundantFile exStale)) (storage_path ''b'' ''g.txt'') = Some ''hello''
    \<and> read_file (disk (cleanRedundantFile exStale)) (storage_path ''b'' ''a'') = None"
  using cleanRedundantFile_exact [of exStale "''g.txt''" "''''"] cleanRedundantFile_exact [of exStale "''a''" "''''"]
  by (simp add: exStale_def ex_node_def ex_disk_def has_key_def ring_id_g ring_id_a read_file_def os_Open_def ReadAll_def)

section \<open>Looking up\<close>

theorem FindSuccessorRPC_owner_witness:
  "\<exists>s. FindSuccessorRPC 64 exW exA 17 = Some (Inr \<lparr>Found = True, SuccessorAddress = s\<rparr>)
    \<and> owns exW s (17 mod hashMod)"
  using FindSuccessorRPC_owner [OF exW_ok, of "''h:1''" exA 17 64] by (simp add: hashMod_eq cw_def)

theorem clientLookUp_owner_witness:
  "\<exists>s. clientLookUp 64 exW ''g.txt'' exA = Some (Inr s) \<and> owns exW s (ring_id ''g.txt'')"
  using clientLookUp_owner [OF exW_ok, of exA 64 "''g.txt''"] by simp

definition exDead :: World where
  "exDead = [''h:1'' \<mapsto> exA, ''h:2'' \<mapsto> ex_node ''b'' 24 ''h:2'' [''h:9''] '''' [] (ex_disk ''b'' [])]"

theorem forwarded_error_reported_found_witness:
  "FindSuccessorRPC 2 exDead exA 30 =
     Some (Inr \<lparr>Found = True, SuccessorAddress = ''Error in findSuccessorRPC at h:9''\<rparr>)"
proof -
  let ?b = "ex_node ''b'' 24 ''h:2'' [''h:9''] '''' [] (ex_disk ''b'' [])"
  have b: "exDead ''h:2'' = Some ?b" and d: "ChordDial exDead ''h:2'' = Inr ?b" "ChordDial exDead ''h:9'' = Inl DialError"
    using ex_good_addr by (simp_all add: exDead_def ChordDial_eq good_addr_def)
  have "call_GetName exDead ''h:2'' = Inr ''b''"
    using b ex_good_addr by (simp add: ex_node_def)
  moreover have "scan_fingers exDead 56 30 (rev (tl (FingerTable exA))) = None"
    by (simp add: exA_def ex_node_def fingerTableSize_def eval_nat_numeral call_GetName_def ChordCall_def ChordDial_def)
  then have "closePrecedingNode exDead exA (30 mod hashMod) = Some ''h:2''"
    by (simp add: closePrecedingNode_def hashMod_eq)
  ultimately show ?thesis
    using forwarded_error_reported_found [of exA "''h:2''" "[]" exDead "''b''" 30 "''h:2''" ?b "''h:9''" "[]" DialError 0] d
    by (simp add: between_def hashMod_eq ring_id_b ex_node_def numeral_2_eq_2)
qed

section \<open>Periodic tasks\<close>

lemma ex_step: "chord_step exW (snd (call_StoreFile exW ''h:2'' exF))"
  by (rule step_store [of _ _ _ "fst (call_StoreFile exW ''h:2'' exF)"]) simp

lemma ex_steps: "chord_step\<^sup>*\<^sup>* exW (snd (call_StoreFile exW ''h:2'' exF))"
  by (rule r_into_rtranclp, rule ex_step)


theorem tasks_never_panic_witness:
  "fst (stablize rev (snd (call_StoreFile exW ''h:2'' exF)) ''h:1'') \<noteq> TaskPanic"
  using tasks_never_panic [OF exW_inv ex_steps] by blast

definition exMixed :: World where
  "exMixed = [''h:1'' \<mapsto> exA, ''h:2'' \<mapsto> ex_node ''b'' 24 ''h:2'' [''h:1'', ''h:2''] '''' [] (ex_disk ''b'' [])]"

theorem longer_successor_list_kills_node_witness:
  "stablize rev exMixed ''h:1'' = (TaskPanic, exMixed(''h:1'' := None))"
  by (rule longer_successor_list_kills_node [of _ _ exA "''h:2''" "[]"
        "ex_node ''b'' 24 ''h:2'' [''h:1'', ''h:2''] '''' [] (ex_disk ''b'' [])"])
    (simp_all add: exMixed_def ex_good_addr ex_node_def)

theorem fixFingers_points_to_owners_witness:
  "\<exists>p'. fixFingers 64 exW ''h:1'' = Some (TaskOk, exW(''h:1'' \<mapsto> p')) \<and> finger_right exW p' 1"
  using fixFingers_points_to_owners [OF exW_ok, of "''h:1''" exA 64]
  by (simp add: next_finger_def fingerTableSize_def) blast

theorem six_rounds_fix_fingers_witness:
  "\<exists>w' p'. fix_rounds 64 6 exW ''h:1'' = Some w' \<and> w' ''h:1'' = Some p' \<and> finger_right w' p' 6"
  using six_rounds_fix_fingers [OF exW_ok, of "''h:1''" exA 64]
  by (force simp: fingerTableSize_def)

section \<open>Files that move\<close>

theorem should_move_iff_first_witness:
  "should_move 10 24 56 \<and> \<not> should_move 30 24 56"
  using should_move_iff_first [of 10 24 56] should_move_iff_first [of 30 24 56]
  by (simp add: on_ring_def hashMod_eq)

definition exHolder :: NodeProc where
  "exHolder = ex_node ''a'' 56 ''h:1'' [''h:2''] '''' [((0, 17), ''g.txt'')]
     (ex_disk ''a'' [(storage_path ''a'' ''g.txt'', ''hello'')])"

definition exHold :: World where
  "exHold = [''h:1'' \<mapsto> exHolder, ''h:2'' \<mapsto> exB]"

lemma exHolder_simps [simp]:
  "Name exHolder = ''a''" "Identifier exHolder = 56" "Address exHolder = ''h:1''" "Successors exHolder = [''h:2'']"
  "Bucket exHolder = [((0, 17), ''g.txt'')]" "exHold ''h:1'' = Some exHolder" "exHold ''h:2'' = Some exB"
  "read_file (disk exHolder) (storage_path ''a'' ''g.txt'') = Some ''hello''"
  by (simp_all add: exHolder_def ex_node_def exHold_def ex_disk_def read_file_def os_Open_def ReadAll_def)

lemma exHolder_sound: "sound_store exHolder"
proof -
  have "wf_proc exHolder"
    by (simp add: exHolder_def ex_node_wf ring_id_a keys_ok_def on_ring_def hashMod_eq)
  then show ?thesis by (simp add: sound_store_def unique_ids_def)
qed

lemma ex_takes_g: "disk_takes (disk exB) (storage_path ''b'' ''g.txt'')"
  by (simp add: ex_disks ex_disk_takes)

lemma ex_moves: "should_move 17 24 56"
  by (simp add: should_move_def between_def)


definition exFull :: NodeProc where
  "exFull = ex_node ''b'' 24 ''h:2'' [''h:1''] '''' [] \<lparr>dfiles = [], ddirs = [], dfault = (\<lambda>_. OpenFails)\<rparr>"

theorem moveFiles_loses_refused_file_witness:
  "\<exists>p' q'. moveFiles rev (exHold(''h:2'' \<mapsto> exFull)) ''h:1'' ''h:2'' ''h:1'' = Some p'
    \<and> moveFiles rev (exHold(''h:2'' \<mapsto> exFull)) ''h:1'' ''h:2'' ''h:2'' = Some q'
    \<and> Bucket p' = [] \<and> read_file (disk p') (storage_path ''a'' ''g.txt'') = None
    \<and> read_file (disk q') (storage_path ''b'' ''g.txt'') = None"
proof -
  have "wf_proc exFull" "Name exFull = ''b''" "dfault (disk exFull) x = OpenFails" for x
    by (simp_all add: exFull_def ex_node_wf ring_id_b, simp_all add: ex_node_def)
  moreover have "dfault (disk exHolder) x = NoFault" for x
    by (simp add: exHolder_def ex_node_def ex_disk_def)
  ultimately show ?thesis
    using moveFiles_loses_refused_file [of "exHold(''h:2'' \<mapsto> exFull)" "''h:1''" exHolder "''h:2''" exFull rev "(0, 17)" "''g.txt''"]
      ex_good_addr ex_moves by (simp add: ring_id_b)
qed

theorem backup_survives_crash_witness:
  "\<exists>w2 q'. checkPredecessor ''10.0.0.1'' ((snd (push_backup rev exHold ''h:1''))(''h:1'' := None)) ''h:2'' = (TaskOk, w2)
    \<and> w2 ''h:2'' = Some q' \<and> GetFileRPC rev q' \<lparr>file_Id = 17, file_Name = '''', file_Content = []\<rparr> =
        Inr \<lparr>file_Id = 17, file_Name = ''g.txt'', file_Content = ''hello''\<rparr>"
proof -
  have "push_backup rev exHold ''h:1'' =
      (fst (push_backup rev exHold ''h:1''), snd (push_backup rev exHold ''h:1''))" by simp
  from backup_survives_crash [of exHold "''h:1''" exHolder "''h:2''" exB rev _ _ "''h''" "''1''" "''10.0.0.1''" "(0, 17)"
      "''g.txt''" "''hello''" rev "\<lparr>file_Id = 17, file_Name = '''', file_Content = []\<rparr>", OF _ _ _ _ _ _ _ _ _ this]
  show ?thesis
    using ex_good_addr exHolder_sound ex_wf ex_takes_g by (simp add: has_key_def NAT_def hashMod_eq) blast
qed

section \<open>The user's commands\<close>

lemma ex_owner: "owns exW ''h:2'' (ring_id ''g.txt'')"
  by (auto simp: owns_def exW_cases ring_id_g hashMod_eq)

lemma ex_upload: "read_file (disk exA) (upload_path ''a'' ''g.txt'') = Some ''hello''"
  by (simp add: ex_disks ex_disk_def read_file_def os_Open_def ReadAll_def)

theorem store_get_roundtrip_witness:
  "\<exists>w1 w2 p2. clientStoreFile 64 (\<lambda>k c. Some (rev c)) exW ''h:1'' ''g.txt'' = Some (None, w1)
    \<and> clientGetFile 64 (\<lambda>k c. Some (rev c)) rev w1 ''h:1'' ''g.txt'' = Some (None, w2)
    \<and> w2 ''h:1'' = Some p2 \<and> read_file (disk p2) (download_path (Name p2) ''g.txt'') = Some ''hello''"
  by (rule store_get_roundtrip [OF exW_ok exW_unique _ ex_owner, of "''h:1''" exA 64 exB "''hello''" _ "''olleh''"])
    (simp_all add: ex_upload has_key_def ex_takes_g, simp add: ex_disks ex_disk_takes)

theorem refused_store_reported_success_witness:
  "\<exists>w1 q1. clientStoreFile 64 (\<lambda>k c. Some c) (exW(''h:2'' \<mapsto> exStale)) ''h:1'' ''g.txt'' = Some (None, w1)
    \<and> w1 ''h:2'' = Some q1 \<and> disk q1 = disk exStale"
proof -
  let ?w = "exW(''h:2'' \<mapsto> exStale)"
  have s: "Name exStale = ''b''" "Identifier exStale = 24" "Address exStale = ''h:2''" "Successors exStale = [''h:1'']"
    "has_key (Bucket exStale) 17" "pred_ok exStale"
    by (simp_all add: exStale_def ex_node_def has_key_def pred_ok_def)
  have "wf_proc exStale"
    by (simp add: exStale_def ex_node_wf ring_id_b keys_ok_def on_ring_def hashMod_eq)
  then have "keeps exW ?w"
    using s by (intro keeps_upd [of _ _ exB]) (simp_all add: same_core_def)
  then have "ring_ok ?w" "ids_unique ?w"
    using keeps_ring_ok [OF exW_ok] ids_unique_keeps [OF _ exW_unique] by blast+
  moreover have "owns ?w ''h:2'' (ring_id ''g.txt'')"
    using owns_keeps [OF \<open>keeps exW ?w\<close>] ex_owner by blast
  ultimately show ?thesis
    using refused_store_reported_success [of ?w "''h:1''" exA "''h:2''" "''g.txt''" 64 exStale "''hello''" "\<lambda>k c. Some c"]
      s ex_upload by (simp add: ring_id_g) blast
qed

theorem oversize_file_stored_empty_witness:
  "\<exists>w1 q1. clientStoreFile 64 (\<lambda>k c. if length c > 3 then None else Some c) exW ''h:1'' ''g.txt'' = Some (None, w1)
    \<and> w1 ''h:2'' = Some q1 \<and> GetFileRPC rev q1 exF = Inr \<lparr>file_Id = 17, file_Name = ''g.txt'', file_Content = []\<rparr>"
proof -
  have "file_Id (exF\<lparr>file_Id := 17\<rparr>) = ring_id ''g.txt''" by (simp add: ring_id_g)
  moreover have "GetFileRPC rev q (exF\<lparr>file_Id := 17\<rparr>) = GetFileRPC rev q exF" for q
    by (simp add: GetFileRPC_def exF_def hashMod_eq)
  ultimately show ?thesis
    using oversize_file_stored_empty [OF exW_ok exW_unique _ ex_owner, of "''h:1''" exA 64 exB "''hello''"
        "\<lambda>k c. if length c > 3 then None else Some c" rev "exF\<lparr>file_Id := 17\<rparr>"]
      ex_upload ex_takes_g by (simp add: has_key_def ring_id_g)
qed

definition exArgs :: Arguments where
  "exArgs = \<lparr>arg_Address = ''localhost'', arg_Port = 8000, JoinAddress = ''Unspecified'', JoinPort = 8000,
     Stabilize = 1000, FixFingers = 1000, CheckPred = 3000, arg_Successors = 3, ClientName = ''n1''\<rparr>"

definition exEnv :: NodeEnv where
  "exEnv = \<lparr>env_local = ''10.0.0.1'', env_ip2 = ''10.0.0.1'', env_key = Some 7, pem_private = (\<lambda>_. ''k''),
     pem_public = (\<lambda>_. ''k''), pem_parse = (\<lambda>_. Some 7)\<rparr>"

definition exEmptyDisk :: Disk where
  "exEmptyDisk = \<lparr>dfiles = [], ddirs = [''..'', ''../files''], dfault = (\<lambda>_. NoFault)\<rparr>"

lemma init_Name: "Name (initSuccessors p) = Name p" "Name (initFingerTable p) = Name p"
  by (simp_all add: initSuccessors_def initFingerTable_def)

definition exMade :: Disk where
  "exMade = exEmptyDisk\<lparr>ddirs := [''../files/n1/chord_storage'', ''../files/n1/file_download'',
     ''../files/n1/file_upload'', ''..'', ''../files'', ''../files/n1'', ''..'', ''../files'']\<rparr>"

lemma ex_folder: "node_folder ''n1'' = ''../files/n1''"
  by (simp add: node_folder_def)

lemma ex_mkdirall:
  "os_MkdirAll exEmptyDisk ''../files/n1'' =
     (True, exEmptyDisk\<lparr>ddirs := [''..'', ''../files'', ''../files/n1'', ''..'', ''../files'']\<rparr>)"
  by (simp add: os_MkdirAll_def exEmptyDisk_def)

lemma ex_subfolders:
  "subfolders (exEmptyDisk\<lparr>ddirs := [''..'', ''../files'', ''../files/n1'', ''..'', ''../files'']\<rparr>) ''n1'' = exMade"
  by (simp add: subfolders_def ex_folder os_Exists_def exEmptyDisk_def exMade_def os_Mkdir_def dirname_def)

lemma ex_rsa: "Name p = ''n1'' \<Longrightarrow> disk p = exMade \<Longrightarrow> \<exists>q. generateRSAKey exEnv p = Some q"
  by (simp add: generateRSAKey_def exEnv_def ex_folder Let_def os_Create_def dirname_def exEmptyDisk_def exMade_def
      file_Write_def)

theorem create_starts_ring_witness:
  "\<exists>w. main_start 64 rev (\<lambda>_. False) exEnv exArgs exEmptyDisk Map.empty = Some (Some w) \<and> chord_inv 3 w"
proof -
  have "\<exists>p. NewNode exEnv exArgs exEmptyDisk = Some p"
    unfolding NewNode_def Let_def
    by (simp add: exArgs_def ex_folder ex_mkdirall ex_subfolders ex_rsa init_Name)
      (simp add: exEmptyDisk_def os_Exists_def)
  then obtain p where p: "NewNode exEnv exArgs exEmptyDisk = Some p" by blast
  have "CheckArgsValid (\<lambda>_. False) exArgs = 1"
    by (simp add: CheckArgsValid_def exArgs_def match_hex_star_any)
  from create_starts_ring [OF this p, of 64 rev] show ?thesis
    by (simp add: start_address_def exArgs_def) blast
qed

theorem CheckArgsValid_rejects_iff_witness:
  "CheckArgsValid (\<lambda>_. False) (exArgs\<lparr>ClientName := ''not a hash''\<rparr>) \<noteq> -1 \<and>
   CheckArgsValid (\<lambda>_. False) (exArgs\<lparr>JoinAddress := ''nowhere''\<rparr>) = -1"
  using CheckArgsValid_rejects_iff [of "\<lambda>_. False" "exArgs\<lparr>ClientName := ''not a hash''\<rparr>"]
    CheckArgsValid_rejects_iff [of "\<lambda>_. False" "exArgs\<lparr>JoinAddress := ''nowhere''\<rparr>"]
  by (simp add: exArgs_def)

end
