(* ===== verification/MR_Coordinator.thy ===== *)
theory MR_Coordinator
  imports Go_Prelude
begin

text \<open>
  The MapReduce coordinator (\<^verbatim>\<open>Lab3/src/mr/coordinator.go\<close>, \<^verbatim>\<open>rpc.go\<close>). Its RPC handlers
  run in goroutines and share the task tables under one lock, so the model has one function
  per critical section, and \<open>RequestTask\<close>, which takes the lock twice, is two of them: the
  choice of a task and, later, its assignment. A pointer into a task table is a \<open>TaskRef\<close>.
  The interleavings are the runs of \<open>mr_step\<close>, which also has the timers started by
  \<open>go c.waitForTask(task)\<close> fire at any time.
\<close>

section \<open>Data\<close>

datatype TaskType = MapTask | ReduceTask | NoTask | ExitTask

datatype TaskStatus = NotStarted | InProgress | Completed

text \<open>\<open>iota\<close> numbers the statuses in the order of a task's progress.\<close>

fun iota_status :: "TaskStatus \<Rightarrow> nat" where
  "iota_status NotStarted = 0"
| "iota_status InProgress = 1"
| "iota_status Completed = 2"

instantiation TaskStatus :: linorder
begin

definition less_eq_TaskStatus :: "TaskStatus \<Rightarrow> TaskStatus \<Rightarrow> bool" where
  "less_eq_TaskStatus a b \<longleftrightarrow> iota_status a \<le> iota_status b"

definition less_TaskStatus :: "TaskStatus \<Rightarrow> TaskStatus \<Rightarrow> bool" where
  "less_TaskStatus a b \<longleftrightarrow> iota_status a < iota_status b"

instance
proof
  show "x \<le> y \<Longrightarrow> y \<le> x \<Longrightarrow> x = y" for x y :: TaskStatus
    by (cases x; cases y) (simp_all add: less_eq_TaskStatus_def)
qed (auto simp: less_eq_TaskStatus_def less_TaskStatus_def)

end

lemma NotStarted_less [simp]: "NotStarted < s \<longleftrightarrow> s \<noteq> NotStarted"
  by (cases s) (simp_all add: less_TaskStatus_def)

record Task =
  task_Type :: TaskType
  Status :: TaskStatus
  Index :: int
  File :: string
  WorkerId :: int

record Coordinator =
  hostAddr :: string
  hostPort :: string
  nMap :: nat
  nReduce :: nat
  nMapCompleted :: nat
  nReduceCompleted :: nat
  mapTasks :: "Task list"
  reduceTasks :: "Task list"

record RequestTaskReply =
  rt_TaskType :: TaskType
  rt_TaskId :: int
  rt_TaskFile :: string

record CompleteTaskArgs =
  ct_TaskType :: TaskType
  ct_TaskId :: int
  ct_WorkerId :: int

datatype TaskRef = MapRef nat | ReduceRef nat | FreshTask TaskType

section \<open>Handlers\<close>

definition GetNReduce :: "Coordinator \<Rightarrow> nat" where
  "GetNReduce c = length (reduceTasks c)"

text \<open>
  The two loops of \<open>selectTask\<close>: the first task that is not started becomes in progress.
  \<open>None\<close>: no such task.
\<close>

fun select_from :: "nat \<Rightarrow> Task list \<Rightarrow> (nat \<times> Task list) option" where
  "select_from i [] = None"
| "select_from i (t # ts) =
     (if Status t = NotStarted then Some (i, t\<lparr>Status := InProgress, Index := int i\<rparr> # ts)
      else map_option (apsnd ((#) t)) (select_from (Suc i) ts))"

definition selectTask :: "Coordinator \<Rightarrow> TaskRef \<times> Coordinator" where
  "selectTask c =
     (case select_from 0 (take (nMap c) (mapTasks c)) of
        Some (i, ts) \<Rightarrow> (MapRef i, c\<lparr>mapTasks := ts @ drop (nMap c) (mapTasks c)\<rparr>)
      | None \<Rightarrow>
          if nMapCompleted c \<noteq> nMap c then (FreshTask NoTask, c)
          else
            (case select_from 0 (take (nReduce c) (reduceTasks c)) of
               Some (i, ts) \<Rightarrow> (ReduceRef i, c\<lparr>reduceTasks := ts @ drop (nReduce c) (reduceTasks c)\<rparr>)
             | None \<Rightarrow>
                 if nReduceCompleted c \<noteq> nReduce c then (FreshTask NoTask, c)
                 else (FreshTask ExitTask, c)))"

definition fresh_task :: "TaskType \<Rightarrow> Task" where
  "fresh_task ty = \<lparr>task_Type = ty, Status = NotStarted, Index = -1, File = '''', WorkerId = -1\<rparr>"

fun deref :: "Coordinator \<Rightarrow> TaskRef \<Rightarrow> Task" where
  "deref c (MapRef i) = mapTasks c ! i"
| "deref c (ReduceRef i) = reduceTasks c ! i"
| "deref c (FreshTask ty) = fresh_task ty"

fun update_task :: "Coordinator \<Rightarrow> TaskRef \<Rightarrow> (Task \<Rightarrow> Task) \<Rightarrow> Coordinator" where
  "update_task c (MapRef i) f = c\<lparr>mapTasks := (mapTasks c)[i := f (mapTasks c ! i)]\<rparr>"
| "update_task c (ReduceRef i) f = c\<lparr>reduceTasks := (reduceTasks c)[i := f (reduceTasks c ! i)]\<rparr>"
| "update_task c (FreshTask ty) f = c"

text \<open>
  The second critical section of \<open>RequestTask\<close>: the reply, the tables, and whether a
  timer is started for the task.
\<close>

definition assignTask :: "Coordinator \<Rightarrow> TaskRef \<Rightarrow> int \<Rightarrow> RequestTaskReply \<times> Coordinator \<times> bool" where
  "assignTask c r workerId =
     (let c1 = update_task c r (\<lambda>t. t\<lparr>WorkerId := workerId\<rparr>); t = deref c1 r
      in (\<lparr>rt_TaskType = task_Type t, rt_TaskId = Index t, rt_TaskFile = File t\<rparr>, c1,
          task_Type t = MapTask \<or> task_Type t = ReduceTask))"

text \<open>Without interference, \<open>RequestTask\<close> is the two sections one after the other.\<close>

definition RequestTask :: "Coordinator \<Rightarrow> int \<Rightarrow> RequestTaskReply \<times> Coordinator \<times> bool" where
  "RequestTask c workerId = (case selectTask c of (r, c1) \<Rightarrow> assignTask c1 r workerId)"

definition canExit :: "Coordinator \<Rightarrow> bool" where
  "canExit c \<longleftrightarrow> nMapCompleted c = nMap c \<and> nReduceCompleted c = nReduce c"

text \<open>\<open>None\<close>: a task number outside the table panics.\<close>

definition CompleteTask :: "Coordinator \<Rightarrow> CompleteTaskArgs \<Rightarrow> (bool \<times> Coordinator) option" where
  "CompleteTask c args =
     (if ct_TaskType args \<noteq> MapTask \<and> ct_TaskType args \<noteq> ReduceTask then Some (False, c)
      else
        let r = (if ct_TaskType args = MapTask then MapRef (nat (ct_TaskId args)) else ReduceRef (nat (ct_TaskId args)));
            table = (if ct_TaskType args = MapTask then mapTasks c else reduceTasks c)
        in if ct_TaskId args < 0 \<or> int (length table) \<le> ct_TaskId args then None
           else
             let c1 = (if Status (deref c r) = InProgress \<and> WorkerId (deref c r) = ct_WorkerId args
                       then let c2 = update_task c r (\<lambda>t. t\<lparr>Status := Completed\<rparr>)
                            in if ct_TaskType args = MapTask then c2\<lparr>nMapCompleted := nMapCompleted c2 + 1\<rparr>
                               else c2\<lparr>nReduceCompleted := nReduceCompleted c2 + 1\<rparr>
                       else c)
             in Some (canExit c1, c1))"

text \<open>\<open>waitForTask\<close> after its ten seconds.\<close>

definition waitForTask :: "Coordinator \<Rightarrow> TaskRef \<Rightarrow> Coordinator" where
  "waitForTask c r =
     (if task_Type (deref c r) \<noteq> MapTask \<and> task_Type (deref c r) \<noteq> ReduceTask then c
      else if Status (deref c r) = InProgress
      then update_task c r (\<lambda>t. t\<lparr>Status := NotStarted, WorkerId := -1\<rparr>) else c)"

definition Done :: "Coordinator \<Rightarrow> bool" where
  "Done c \<longleftrightarrow> nMap c = nMapCompleted c \<and> nReduce c = nReduceCompleted c"

section \<open>Start\<close>

text \<open>
  \<open>regexp.MatchString("lit*", s)\<close> with a literal prefix and a starred last character
  looks for the prefix anywhere in the string.
\<close>

definition contains :: "string \<Rightarrow> string \<Rightarrow> bool" where
  "contains lit s = list_ex (\<lambda>i. take (length lit) (drop i s) = lit) [0..<Suc (length s)]"

definition getCloudFileList :: "string \<Rightarrow> string \<Rightarrow> string list" where
  "getCloudFileList body lit = filter (contains lit) (split_on CHR '' '' body)"

definition MakeCoordinator :: "string \<Rightarrow> string list \<Rightarrow> nat \<Rightarrow> string \<Rightarrow> Coordinator" where
  "MakeCoordinator cloudBody files0 nRed position =
     (let files = (if position = ''cloud'' then getCloudFileList cloudBody ''pg'' else files0)
      in \<lparr>hostAddr = (if position = ''cloud'' then ''0.0.0.0'' else ''localhost''), hostPort = ''8000'',
          nMap = length files, nReduce = nRed, nMapCompleted = 0, nReduceCompleted = 0,
          mapTasks = map (\<lambda>i. \<lparr>task_Type = MapTask, Status = NotStarted, Index = int i, File = files ! i,
                                WorkerId = -1\<rparr>) [0..<length files],
          reduceTasks = map (\<lambda>i. \<lparr>task_Type = ReduceTask, Status = NotStarted, Index = int i, File = '''',
                                   WorkerId = -1\<rparr>) [0..<nRed]\<rparr>)"

section \<open>Runs\<close>

text \<open>
  The state of a job: the coordinator, the requests between their two critical sections, and
  the timers that have not fired. A worker identifies itself by its process id.
\<close>

record MRState =
  coord :: Coordinator
  pending :: "(TaskRef \<times> int) list"
  timers :: "TaskRef list"

inductive mr_step :: "MRState \<Rightarrow> MRState \<Rightarrow> bool" where
  mr_select: "selectTask (coord s) = (r, c) \<Longrightarrow> 0 < workerId \<Longrightarrow>
     mr_step s (s\<lparr>coord := c, pending := pending s @ [(r, workerId)]\<rparr>)"
| mr_assign: "pending s = xs @ (r, workerId) # ys \<Longrightarrow> assignTask (coord s) r workerId = (reply, c, timer) \<Longrightarrow>
     mr_step s (s\<lparr>coord := c, pending := xs @ ys, timers := (if timer then r # timers s else timers s)\<rparr>)"
| mr_complete: "CompleteTask (coord s) args = Some (reply, c) \<Longrightarrow> 0 < ct_WorkerId args \<Longrightarrow> mr_step s (s\<lparr>coord := c\<rparr>)"
| mr_timeout: "timers s = xs @ r # ys \<Longrightarrow>
     mr_step s (s\<lparr>coord := waitForTask (coord s) r, timers := xs @ ys\<rparr>)"

definition mr_start :: "MRState \<Rightarrow> bool" where
  "mr_start s \<longleftrightarrow>
     (\<exists>body files nRed position. s = \<lparr>coord = MakeCoordinator body files nRed position, pending = [], timers = []\<rparr>)"

inductive_cases mr_stepE: "mr_step s t"

section \<open>Tables and references\<close>

fun in_table :: "Coordinator \<Rightarrow> TaskRef \<Rightarrow> bool" where
  "in_table c (MapRef i) \<longleftrightarrow> i < length (mapTasks c)"
| "in_table c (ReduceRef i) \<longleftrightarrow> i < length (reduceTasks c)"
| "in_table c (FreshTask ty) \<longleftrightarrow> False"

fun typed :: "TaskRef \<Rightarrow> Task \<Rightarrow> bool" where
  "typed (MapRef i) t \<longleftrightarrow> task_Type t = MapTask \<and> Index t = int i"
| "typed (ReduceRef i) t \<longleftrightarrow> task_Type t = ReduceTask \<and> Index t = int i"
| "typed (FreshTask ty) t \<longleftrightarrow> True"

definition tables_ok :: "Coordinator \<Rightarrow> bool" where
  "tables_ok c \<longleftrightarrow> length (mapTasks c) = nMap c \<and> length (reduceTasks c) = nReduce c \<and>
     (\<forall>r. in_table c r \<longrightarrow> typed r (deref c r))"

definition counts_ok :: "Coordinator \<Rightarrow> bool" where
  "counts_ok c \<longleftrightarrow>
     nMapCompleted c = length (filter (\<lambda>t. Status t = Completed) (mapTasks c)) \<and>
     nReduceCompleted c = length (filter (\<lambda>t. Status t = Completed) (reduceTasks c))"

definition phases_ok :: "Coordinator \<Rightarrow> bool" where
  "phases_ok c \<longleftrightarrow>
     (\<forall>i j. in_table c (ReduceRef i) \<and> NotStarted < Status (deref c (ReduceRef i)) \<and> in_table c (MapRef j) \<longrightarrow>
        Status (deref c (MapRef j)) = Completed)"

lemma deref_update [simp]:
  "in_table c r \<Longrightarrow> deref (update_task c r f) r' = (if r' = r then f (deref c r) else deref c r')"
  by (cases r; cases r') (auto simp: nth_list_update)

lemma in_table_update [simp]: "in_table (update_task c r f) r' = in_table c r'"
  by (cases r; cases r') auto

lemma update_task_frame [simp]:
  "nMap (update_task c r f) = nMap c" "nReduce (update_task c r f) = nReduce c"
  "nMapCompleted (update_task c r f) = nMapCompleted c" "nReduceCompleted (update_task c r f) = nReduceCompleted c"
  "length (mapTasks (update_task c r f)) = length (mapTasks c)"
  "length (reduceTasks (update_task c r f)) = length (reduceTasks c)"
  by (cases r; simp)+

lemma tables_ok_update:
  assumes "tables_ok c" and "in_table c r" and "typed r (f (deref c r))"
  shows "tables_ok (update_task c r f)"
  using assms by (auto simp: tables_ok_def)

lemma counts_ok_update:
  assumes "counts_ok c" and "in_table c r" and "Status (f (deref c r)) = Completed \<longleftrightarrow> Status (deref c r) = Completed"
  shows "counts_ok (update_task c r f)"
proof (cases r)
  case (MapRef i)
  with assms count_list_update [of i "mapTasks c" "\<lambda>t. Status t = Completed" "f (mapTasks c ! i)"] show ?thesis
    by (auto simp: counts_ok_def split: if_splits)
next
  case (ReduceRef i)
  with assms count_list_update [of i "reduceTasks c" "\<lambda>t. Status t = Completed" "f (reduceTasks c ! i)"] show ?thesis
    by (auto simp: counts_ok_def split: if_splits)
qed (use assms in simp)

lemma filter_all: "length (filter P xs) = length xs \<longleftrightarrow> (\<forall>x \<in> set xs. P x)"
  by (metis filter_True length_filter_less less_irrefl)

lemma all_maps_done:
  assumes "tables_ok c" and "counts_ok c" and "nMapCompleted c = nMap c" and "in_table c (MapRef j)"
  shows "Status (deref c (MapRef j)) = Completed"
  using assms filter_all [of "\<lambda>t. Status t = Completed" "mapTasks c"] by (auto simp: tables_ok_def counts_ok_def)

section \<open>What a handler does to the tables\<close>

lemma select_from_Some:
  "select_from k ts = Some (i, ts') \<Longrightarrow>
    \<exists>j. i = k + j \<and> j < length ts \<and> Status (ts ! j) = NotStarted \<and> (\<forall>l < j. Status (ts ! l) \<noteq> NotStarted) \<and>
      ts' = ts[j := (ts ! j)\<lparr>Status := InProgress, Index := int i\<rparr>]"
proof (induction ts arbitrary: k ts')
  case (Cons t ts)
  show ?case
  proof (cases "Status t = NotStarted")
    case True
    with Cons.prems show ?thesis by (intro exI [of _ 0]) auto
  next
    case False
    then obtain us where us: "select_from (Suc k) ts = Some (i, us)" "ts' = t # us"
      using Cons.prems by auto
    from Cons.IH [OF us(1)] obtain j where j: "i = Suc k + j" "j < length ts" "Status (ts ! j) = NotStarted"
      "\<forall>l < j. Status (ts ! l) \<noteq> NotStarted" "us = ts[j := (ts ! j)\<lparr>Status := InProgress, Index := int i\<rparr>]"
      by blast
    with False us(2) show ?thesis
      by (intro exI [of _ "Suc j"]) (auto simp: nth_Cons split: nat.splits)
  qed
qed simp

lemma select_from_None: "select_from k ts = None \<longleftrightarrow> (\<forall>t \<in> set ts. Status t \<noteq> NotStarted)"
  by (induction ts arbitrary: k) auto

text \<open>The choice of a task: a task of a table that becomes in progress, or none.\<close>

lemma selectTask_cases:
  assumes ok: "tables_ok c" and sel: "selectTask c = (r, c')"
  obtains (table) "in_table c r" "Status (deref c r) = NotStarted"
      "c' = update_task c r (\<lambda>t. t\<lparr>Status := InProgress\<rparr>)"
      "\<And>i. r = ReduceRef i \<Longrightarrow> nMapCompleted c = nMap c"
    | (wait) "r = FreshTask NoTask" "c' = c" "\<not> Done c"
    | (exit) "r = FreshTask ExitTask" "c' = c" "Done c"
proof (cases "select_from 0 (mapTasks c)")
  case (Some p)
  then obtain i ts where p: "select_from 0 (mapTasks c) = Some (i, ts)" by (cases p) auto
  then have i: "i < length (mapTasks c)" "Status (mapTasks c ! i) = NotStarted"
    "ts = (mapTasks c)[i := (mapTasks c ! i)\<lparr>Status := InProgress, Index := int i\<rparr>]"
    by (auto dest!: select_from_Some)
  have "Index (mapTasks c ! i) = int i" using ok i(1) by (auto simp: tables_ok_def dest: spec [of _ "MapRef i"])
  then have "(mapTasks c ! i)\<lparr>Status := InProgress, Index := int i\<rparr> = (mapTasks c ! i)\<lparr>Status := InProgress\<rparr>"
    by (cases "mapTasks c ! i") simp
  with sel p ok i show ?thesis
    by (intro table) (auto simp: selectTask_def tables_ok_def)
next
  case None
  show ?thesis
  proof (cases "nMapCompleted c = nMap c")
    case False
    with None sel ok show ?thesis by (intro wait) (auto simp: selectTask_def tables_ok_def Done_def)
  next
    case fin: True
    show ?thesis
    proof (cases "select_from 0 (reduceTasks c)")
      case (Some p)
      then obtain i ts where p: "select_from 0 (reduceTasks c) = Some (i, ts)" by (cases p) auto
      then have i: "i < length (reduceTasks c)" "Status (reduceTasks c ! i) = NotStarted"
        "ts = (reduceTasks c)[i := (reduceTasks c ! i)\<lparr>Status := InProgress, Index := int i\<rparr>]"
        by (auto dest!: select_from_Some)
      have "Index (reduceTasks c ! i) = int i" using ok i(1) by (auto simp: tables_ok_def dest: spec [of _ "ReduceRef i"])
      then have "(reduceTasks c ! i)\<lparr>Status := InProgress, Index := int i\<rparr> = (reduceTasks c ! i)\<lparr>Status := InProgress\<rparr>"
        by (cases "reduceTasks c ! i") simp
      with sel None fin p ok i show ?thesis
        by (intro table) (auto simp: selectTask_def tables_ok_def)
    next
      case none: None
      show ?thesis
      proof (cases "nReduceCompleted c = nReduce c")
        case True
        with None fin none sel ok show ?thesis by (intro exit) (auto simp: selectTask_def tables_ok_def Done_def)
      next
        case False
        with None fin none sel ok show ?thesis by (intro wait) (auto simp: selectTask_def tables_ok_def Done_def)
      qed
    qed
  qed
qed

definition args_ref :: "CompleteTaskArgs \<Rightarrow> TaskRef" where
  "args_ref args =
     (if ct_TaskType args = MapTask then MapRef (nat (ct_TaskId args))
      else if ct_TaskType args = ReduceTask then ReduceRef (nat (ct_TaskId args)) else FreshTask (ct_TaskType args))"

fun add_completed :: "TaskRef \<Rightarrow> Coordinator \<Rightarrow> Coordinator" where
  "add_completed (MapRef i) c = c\<lparr>nMapCompleted := nMapCompleted c + 1\<rparr>"
| "add_completed (ReduceRef i) c = c\<lparr>nReduceCompleted := nReduceCompleted c + 1\<rparr>"
| "add_completed (FreshTask ty) c = c"

definition accepted :: "Coordinator \<Rightarrow> CompleteTaskArgs \<Rightarrow> bool" where
  "accepted c args \<longleftrightarrow> in_table c (args_ref args) \<and> Status (deref c (args_ref args)) = InProgress \<and>
     WorkerId (deref c (args_ref args)) = ct_WorkerId args"

lemma CompleteTask_result:
  "CompleteTask c args = Some (reply, c') \<Longrightarrow>
    c' = (if accepted c args
          then add_completed (args_ref args) (update_task c (args_ref args) (\<lambda>t. t\<lparr>Status := Completed\<rparr>)) else c)"
  by (auto simp: CompleteTask_def Let_def accepted_def args_ref_def split: if_splits)

lemma CompleteTask_accepts:
  "accepted c args \<Longrightarrow> 0 \<le> ct_TaskId args \<Longrightarrow> \<exists>reply c'. CompleteTask c args = Some (reply, c')"
  by (auto simp: CompleteTask_def Let_def accepted_def args_ref_def split: if_splits)

lemma add_completed_simps [simp]:
  "deref (add_completed r c) r' = deref c r'" "in_table (add_completed r c) r' = in_table c r'"
  "tables_ok (add_completed r c) = tables_ok c" "phases_ok (add_completed r c) = phases_ok c"
proof -
  show d: "deref (add_completed r c) r' = deref c r'" for r' by (cases r; cases r') simp_all
  show i: "in_table (add_completed r c) r' = in_table c r'" for r' by (cases r; cases r') simp_all
  show "tables_ok (add_completed r c) = tables_ok c"
    unfolding tables_ok_def d i by (cases r) simp_all
  show "phases_ok (add_completed r c) = phases_ok c"
    unfolding phases_ok_def d i by simp
qed

lemma counts_ok_complete:
  assumes "counts_ok c" and "in_table c r" and "Status (deref c r) \<noteq> Completed"
  shows "counts_ok (add_completed r (update_task c r (\<lambda>t. t\<lparr>Status := Completed\<rparr>)))"
proof (cases r)
  case (MapRef i)
  with assms count_list_update [of i "mapTasks c" "\<lambda>t. Status t = Completed" "(mapTasks c ! i)\<lparr>Status := Completed\<rparr>"]
  show ?thesis by (auto simp: counts_ok_def)
next
  case (ReduceRef i)
  with assms count_list_update [of i "reduceTasks c" "\<lambda>t. Status t = Completed" "(reduceTasks c ! i)\<lparr>Status := Completed\<rparr>"]
  show ?thesis by (auto simp: counts_ok_def)
qed (use assms in simp)

section \<open>The invariant of the job\<close>

text \<open>From here on tables are read through references only.\<close>

declare deref.simps [simp del] in_table.simps(1,2) [simp del] update_task.simps(1,2) [simp del]

definition watchers :: "MRState \<Rightarrow> TaskRef \<Rightarrow> nat" where
  "watchers s r = count_list (map fst (pending s)) r + count_list (timers s) r"

fun watched :: "TaskStatus \<Rightarrow> nat \<Rightarrow> bool" where
  "watched NotStarted n \<longleftrightarrow> n = 0"
| "watched InProgress n \<longleftrightarrow> n = 1"
| "watched Completed n \<longleftrightarrow> n \<le> 1"

definition watch_ok :: "MRState \<Rightarrow> bool" where
  "watch_ok s \<longleftrightarrow>
     (\<forall>r. in_table (coord s) r \<longrightarrow> watched (Status (deref (coord s) r)) (watchers s r)) \<and>
     (\<forall>r \<in> fst ` set (pending s). in_table (coord s) r \<or> r = FreshTask NoTask \<or> r = FreshTask ExitTask) \<and>
     (\<forall>r \<in> set (timers s). in_table (coord s) r)"

definition mr_inv :: "MRState \<Rightarrow> bool" where
  "mr_inv s \<longleftrightarrow> tables_ok (coord s) \<and> counts_ok (coord s) \<and> phases_ok (coord s) \<and> watch_ok s"

lemma mr_inv_start: "mr_start s \<Longrightarrow> mr_inv s"
proof -
  assume "mr_start s"
  then obtain body files nRed position
    where s: "s = \<lparr>coord = MakeCoordinator body files nRed position, pending = [], timers = []\<rparr>"
    by (auto simp: mr_start_def)
  let ?c = "MakeCoordinator body files nRed position"
  have t: "typed r (deref ?c r) \<and> Status (deref ?c r) = NotStarted" if "in_table ?c r" for r
    using that by (cases r) (auto simp: MakeCoordinator_def Let_def deref.simps in_table.simps)
  moreover have "length (mapTasks ?c) = nMap ?c" "length (reduceTasks ?c) = nReduce ?c" "counts_ok ?c"
    by (auto simp: MakeCoordinator_def Let_def counts_ok_def filter_empty_conv)
  ultimately show ?thesis
    by (auto simp: mr_inv_def tables_ok_def phases_ok_def watch_ok_def watchers_def s)
qed

lemma phases_ok_update:
  assumes "phases_ok c" and "in_table c r"
    and "Status (deref c r) = Completed \<longrightarrow> Status (f (deref c r)) = Completed"
    and "\<And>i j. r = ReduceRef i \<Longrightarrow> in_table c (MapRef j) \<Longrightarrow> Status (deref c r) = NotStarted \<Longrightarrow>
      NotStarted < Status (f (deref c r)) \<Longrightarrow> Status (deref c (MapRef j)) = Completed"
  shows "phases_ok (update_task c r f)"
  unfolding phases_ok_def
proof (intro allI impI)
  fix i j
  assume a: "in_table (update_task c r f) (ReduceRef i) \<and>
    NotStarted < Status (deref (update_task c r f) (ReduceRef i)) \<and> in_table (update_task c r f) (MapRef j)"
  have "Status (deref c (MapRef j)) = Completed"
  proof (cases "r = ReduceRef i \<and> Status (deref c r) = NotStarted")
    case True
    with a assms(2) show ?thesis by (intro assms(4)) auto
  next
    case False
    with a assms(1,2) show ?thesis
      unfolding phases_ok_def by (auto split: if_splits)
  qed
  with assms(2,3) show "Status (deref (update_task c r f) (MapRef j)) = Completed" by auto
qed

lemma mr_inv_select:
  assumes inv: "mr_inv s" and sel: "selectTask (coord s) = (r, c)"
  shows "mr_inv (s\<lparr>coord := c, pending := pending s @ [(r, wid)]\<rparr>)"
proof -
  have ok: "tables_ok (coord s)" "counts_ok (coord s)" "phases_ok (coord s)" "watch_ok s"
    using inv by (simp_all add: mr_inv_def)
  from ok(1) sel show ?thesis
  proof (cases rule: selectTask_cases)
    case table
    have ty: "typed r (deref (coord s) r)" using ok(1) table(1) by (simp add: tables_ok_def)
    have "tables_ok c" unfolding table(3)
      by (rule tables_ok_update [OF ok(1) table(1)]) (use ty in \<open>cases r; simp\<close>)
    moreover have "counts_ok c" unfolding table(3)
      by (rule counts_ok_update) (use ok(2) table in simp_all)
    moreover have "phases_ok c" unfolding table(3)
      by (rule phases_ok_update) (use ok table in \<open>auto intro: all_maps_done\<close>)
    moreover have "watch_ok (s\<lparr>coord := c, pending := pending s @ [(r, wid)]\<rparr>)"
      using ok(4) table by (auto simp: watch_ok_def watchers_def)
    ultimately show ?thesis by (simp add: mr_inv_def)
  qed (use ok in \<open>auto simp: mr_inv_def watch_ok_def watchers_def\<close>)
qed

text \<open>An update of one task that keeps its type, and what it does to the watchers.\<close>

lemma mr_inv_update:
  assumes inv: "mr_inv s" and r: "in_table (coord s) r" and ty: "typed r (f (deref (coord s) r))"
    and fin: "Status (f (deref (coord s) r)) = Completed \<longleftrightarrow> Status (deref (coord s) r) = Completed"
    and red: "Status (deref (coord s) r) = NotStarted \<Longrightarrow> Status (f (deref (coord s) r)) = NotStarted"
    and wat: "watch_ok (s\<lparr>coord := update_task (coord s) r f, pending := ps, timers := ts\<rparr>)"
  shows "mr_inv (s\<lparr>coord := update_task (coord s) r f, pending := ps, timers := ts\<rparr>)"
proof -
  have ok: "tables_ok (coord s)" "counts_ok (coord s)" "phases_ok (coord s)"
    using inv by (simp_all add: mr_inv_def)
  have "tables_ok (update_task (coord s) r f)" by (rule tables_ok_update [OF ok(1) r]) (rule ty)
  moreover have "counts_ok (update_task (coord s) r f)" by (rule counts_ok_update [OF ok(2) r]) (rule fin)
  moreover have "phases_ok (update_task (coord s) r f)"
    by (rule phases_ok_update [OF ok(3) r]) (use fin red in auto)
  ultimately show ?thesis using wat by (simp add: mr_inv_def)
qed

lemma count_list_snoc_simps:
  "count_list (xs @ r # ys) r' = count_list (xs @ ys) r' + (if r' = r then 1 else 0)"
  by simp

lemma mr_inv_assign:
  assumes inv: "mr_inv s" and pend: "pending s = xs @ (r, wid) # ys"
    and asg: "assignTask (coord s) r wid = (reply, c, timer)"
  shows "mr_inv (s\<lparr>coord := c, pending := xs @ ys, timers := (if timer then r # timers s else timers s)\<rparr>)"
proof -
  have ok: "tables_ok (coord s)" "watch_ok s" using inv by (simp_all add: mr_inv_def)
  have c: "c = update_task (coord s) r (\<lambda>t. t\<lparr>WorkerId := wid\<rparr>)"
    and tm: "timer \<longleftrightarrow> task_Type (deref c r) = MapTask \<or> task_Type (deref c r) = ReduceTask"
    using asg by (auto simp: assignTask_def Let_def)
  from ok(2) pend consider "in_table (coord s) r" | "r = FreshTask NoTask \<or> r = FreshTask ExitTask"
    by (auto simp: watch_ok_def)
  then show ?thesis
  proof cases
    case 1
    have ty: "typed r (deref (coord s) r)" using ok(1) 1 by (simp add: tables_ok_def)
    have "timer" using tm ty 1 unfolding c by (cases r) auto
    moreover have "watch_ok (s\<lparr>coord := c, pending := xs @ ys, timers := r # timers s\<rparr>)"
      using ok(2) 1 by (auto simp: watch_ok_def watchers_def pend c)
    ultimately show ?thesis
      using mr_inv_update [OF inv 1, where f = "\<lambda>t. t\<lparr>WorkerId := wid\<rparr>" and ps = "xs @ ys" and ts = "r # timers s"] ty
      by (cases r) (simp_all add: c)
  next
    case 2
    then have "\<not> timer" "c = coord s" using tm by (auto simp: c deref.simps fresh_task_def)
    moreover have "watchers (s\<lparr>pending := xs @ ys\<rparr>) ra = watchers s ra" if "in_table (coord s) ra" for ra
      using that 2 by (auto simp: watchers_def pend)
    then have "watch_ok (s\<lparr>pending := xs @ ys\<rparr>)"
      using ok(2) by (simp add: watch_ok_def pend)
    ultimately show ?thesis using inv by (simp add: mr_inv_def)
  qed
qed

lemma mr_inv_complete:
  assumes inv: "mr_inv s" and cmp: "CompleteTask (coord s) args = Some (reply, c)"
  shows "mr_inv (s\<lparr>coord := c\<rparr>)"
proof (cases "accepted (coord s) args")
  case True
  let ?r = "args_ref args" and ?f = "\<lambda>t. t\<lparr>Status := Completed\<rparr>"
  have ok: "tables_ok (coord s)" "counts_ok (coord s)" "phases_ok (coord s)" "watch_ok s"
    using inv by (simp_all add: mr_inv_def)
  have c: "c = add_completed ?r (update_task (coord s) ?r ?f)"
    using CompleteTask_result [OF cmp] True by simp
  have r: "in_table (coord s) ?r" "Status (deref (coord s) ?r) = InProgress"
    using True by (simp_all add: accepted_def)
  have ty: "typed ?r (deref (coord s) ?r)" using ok(1) r by (simp add: tables_ok_def)
  have "tables_ok c" unfolding c add_completed_simps
    by (rule tables_ok_update [OF ok(1) r(1)]) (use ty in \<open>cases ?r; simp\<close>)
  moreover have "counts_ok c" unfolding c by (rule counts_ok_complete [OF ok(2) r(1)]) (simp add: r)
  moreover have "phases_ok c" unfolding c add_completed_simps
    by (rule phases_ok_update [OF ok(3) r(1)]) (use r(2) in auto)
  moreover have "watch_ok (s\<lparr>coord := c\<rparr>)"
    using ok(4) r by (fastforce simp: watch_ok_def watchers_def c)
  ultimately show ?thesis by (simp add: mr_inv_def)
next
  case False
  with CompleteTask_result [OF cmp] have "c = coord s" by simp
  with inv show ?thesis by simp
qed

lemma mr_inv_timeout:
  assumes inv: "mr_inv s" and tms: "timers s = xs @ r # ys"
  shows "mr_inv (s\<lparr>coord := waitForTask (coord s) r, timers := xs @ ys\<rparr>)"
proof -
  have ok: "tables_ok (coord s)" "watch_ok s" using inv by (simp_all add: mr_inv_def)
  have r: "in_table (coord s) r" using ok(2) tms by (auto simp: watch_ok_def)
  have ty: "typed r (deref (coord s) r)" using ok(1) r by (simp add: tables_ok_def)
  have w: "watched (Status (deref (coord s) r)) (watchers s r)" using ok(2) r by (simp add: watch_ok_def)
  show ?thesis
  proof (cases "Status (deref (coord s) r) = InProgress")
    case True
    let ?f = "\<lambda>t. t\<lparr>Status := NotStarted, WorkerId := -1\<rparr>"
    have c: "waitForTask (coord s) r = update_task (coord s) r ?f"
      using ty True by (cases r) (auto simp: waitForTask_def)
    have "watch_ok (s\<lparr>coord := update_task (coord s) r ?f, timers := xs @ ys\<rparr>)"
      using ok(2) r w True by (auto simp: watch_ok_def watchers_def tms)
    then show ?thesis
      unfolding c using mr_inv_update [OF inv r, where f = ?f and ps = "pending s" and ts = "xs @ ys"] ty True
      by (cases r) simp_all
  next
    case False
    then have c: "waitForTask (coord s) r = coord s" by (simp add: waitForTask_def)
    have "Status (deref (coord s) r) = Completed"
      using w False by (cases "Status (deref (coord s) r)") (auto simp: watchers_def tms)
    moreover have "watchers (s\<lparr>timers := xs @ ys\<rparr>) ra = (if ra = r then watchers s r - 1 else watchers s ra)" for ra
      by (simp add: watchers_def tms)
    ultimately have "watch_ok (s\<lparr>timers := xs @ ys\<rparr>)"
      using ok(2) w by (simp add: watch_ok_def tms)
    with inv show ?thesis by (simp add: mr_inv_def c)
  qed
qed

lemma mr_inv_step: "mr_inv s \<Longrightarrow> mr_step s t \<Longrightarrow> mr_inv t"
  by (auto elim!: mr_stepE intro: mr_inv_select mr_inv_assign mr_inv_complete mr_inv_timeout)

interpretation mr: invariant_system mr_start mr_step mr_inv
  by unfold_locales (auto intro: mr_inv_start mr_inv_step)

section \<open>Safety\<close>

lemma mr_inv_Done:
  assumes "mr_inv s"
  shows "Done (coord s) \<longleftrightarrow> (\<forall>t \<in> set (mapTasks (coord s)) \<union> set (reduceTasks (coord s)). Status t = Completed)"
  using assms filter_all [of "\<lambda>t. Status t = Completed" "mapTasks (coord s)"]
    filter_all [of "\<lambda>t. Status t = Completed" "reduceTasks (coord s)"]
  by (auto simp: mr_inv_def tables_ok_def counts_ok_def Done_def)

text \<open>
  C14: the coordinator reports the job as done exactly when every task is completed, in every
  state that any interleaving of requests, completion reports (also late, repeated or forged ones)
  and timeouts can reach.
\<close>

theorem done_iff_all_completed:
  assumes "reach mr_start mr_step s"
  shows "Done (coord s) \<longleftrightarrow> (\<forall>t \<in> set (mapTasks (coord s)) \<union> set (reduceTasks (coord s)). Status t = Completed)"
  by (rule mr_inv_Done [OF mr.reach_inv [OF assms]])

text \<open>
  C7: no reduce task is handed out, or even in progress, before every map task is completed,
  so a reducer finds all intermediate files.
\<close>

theorem reduce_only_after_maps:
  assumes "reach mr_start mr_step s"
    and "selectTask (coord s) = (ReduceRef i, c) \<or>
      (i < length (reduceTasks (coord s)) \<and> NotStarted < Status (reduceTasks (coord s) ! i))"
  shows "\<forall>t \<in> set (mapTasks (coord s)). Status t = Completed"
proof -
  have inv: "mr_inv s" by (rule mr.reach_inv [OF assms(1)])
  then have ok: "tables_ok (coord s)" "counts_ok (coord s)" "phases_ok (coord s)" by (simp_all add: mr_inv_def)
  have "Status (deref (coord s) (MapRef j)) = Completed" if "in_table (coord s) (MapRef j)" for j
    using assms(2)
  proof
    assume "selectTask (coord s) = (ReduceRef i, c)"
    with ok(1) show ?thesis by (cases rule: selectTask_cases) (use all_maps_done [OF ok(1,2)] that in auto)
  next
    assume "i < length (reduceTasks (coord s)) \<and> NotStarted < Status (reduceTasks (coord s) ! i)"
    with ok(3) that show ?thesis by (simp add: phases_ok_def in_table.simps deref.simps)
  qed
  then show ?thesis by (auto simp: in_set_conv_nth in_table.simps deref.simps)
qed

text \<open>
  No task is forgotten. A task in progress has exactly one party that will bring it on:
  a request about to be answered with it, or a running timer that puts it back; a task that is
  not started has none.
\<close>

theorem in_progress_has_one_watcher:
  assumes "reach mr_start mr_step s" and "in_table (coord s) r"
  shows "(Status (deref (coord s) r) = InProgress \<longrightarrow> watchers s r = 1) \<and>
    (Status (deref (coord s) r) = NotStarted \<longrightarrow> watchers s r = 0)"
proof -
  have "watched (Status (deref (coord s) r)) (watchers s r)"
    using mr.reach_inv [OF assms(1)] assms(2) by (simp add: mr_inv_def watch_ok_def)
  then show ?thesis by auto
qed

lemma completed_step:
  assumes "mr_inv s" and "mr_step s t" and "in_table (coord s) r" and "Status (deref (coord s) r) = Completed"
  shows "in_table (coord t) r \<and> Status (deref (coord t) r) = Completed"
  using assms(2)
proof cases
  case (mr_select r' c wid)
  have "tables_ok (coord s)" using assms(1) by (simp add: mr_inv_def)
  then show ?thesis using mr_select(2)
    by (cases rule: selectTask_cases) (use mr_select(1) assms(3,4) in auto)
next
  case (mr_assign xs r' wid ys reply c timer)
  then show ?thesis using assms
    by (cases "in_table (coord s) r'") (auto simp: assignTask_def Let_def watch_ok_def mr_inv_def)
next
  case (mr_complete args reply c)
  with CompleteTask_result [OF mr_complete(2)] assms(3,4) show ?thesis by (auto simp: accepted_def)
next
  case (mr_timeout xs r' ys)
  then have "in_table (coord s) r'" using assms(1) by (auto simp: mr_inv_def watch_ok_def)
  with mr_timeout assms(3,4) show ?thesis by (auto simp: waitForTask_def)
qed

text \<open>
  A completed task stays completed whatever happens later: timers that still run for it,
  workers that report it again, new requests.
\<close>

theorem completed_stays_completed:
  assumes "reach mr_start mr_step s" and "mr_step\<^sup>*\<^sup>* s t" and "in_table (coord s) r"
    and "Status (deref (coord s) r) = Completed"
  shows "in_table (coord t) r \<and> Status (deref (coord t) r) = Completed"
  using assms(2)
proof (induction rule: rtranclp_induct)
  case base
  with assms show ?case by simp
next
  case (step u v)
  have "mr_inv u" by (rule mr.reach_inv [OF mr.reach_steps [OF step(1) assms(1)]])
  with step completed_step show ?case by blast
qed

text \<open>
  Tasks that wait for a worker: not started, or chosen by a request that has not been
  answered yet. Their worker id is -1.
\<close>

definition idle :: "MRState \<Rightarrow> TaskRef \<Rightarrow> bool" where
  "idle s r \<longleftrightarrow> in_table (coord s) r \<and> (Status (deref (coord s) r) = NotStarted \<or>
     (Status (deref (coord s) r) = InProgress \<and> r \<in> fst ` set (pending s)))"

definition idle_ok :: "MRState \<Rightarrow> bool" where
  "idle_ok s \<longleftrightarrow> mr_inv s \<and> (\<forall>r. idle s r \<longrightarrow> WorkerId (deref (coord s) r) = -1)"

lemma idle_start: "mr_start s \<Longrightarrow> idle_ok s"
proof -
  assume s: "mr_start s"
  then obtain body files nRed position where c: "coord s = MakeCoordinator body files nRed position"
    by (auto simp: mr_start_def)
  have "WorkerId (deref (coord s) r) = -1" if "in_table (coord s) r" for r
    using that by (cases r) (auto simp: c MakeCoordinator_def Let_def deref.simps in_table.simps)
  then show ?thesis using mr_inv_start [OF s] by (simp add: idle_ok_def idle_def)
qed

lemma idle_assigned:
  assumes "watch_ok s" and "pending s = xs @ (r, wid) # ys" and "in_table (coord s) r"
  shows "Status (deref (coord s) r) \<noteq> NotStarted \<and>
    (Status (deref (coord s) r) = InProgress \<longrightarrow> r \<notin> fst ` set (xs @ ys))"
proof -
  have "watched (Status (deref (coord s) r)) (watchers s r)" using assms(1,3) by (simp add: watch_ok_def)
  then show ?thesis
    using assms(2) by (auto simp: watchers_def count_list_0_iff) force+
qed

lemma idle_step:
  assumes s: "idle_ok s" and st: "mr_step s t"
  shows "idle_ok t"
proof -
  have inv: "mr_inv s" using s by (simp add: idle_ok_def)
  have w: "WorkerId (deref (coord s) r) = -1" if "idle s r" for r using s that by (simp add: idle_ok_def)
  have ok: "tables_ok (coord s)" "watch_ok s" using inv by (simp_all add: mr_inv_def)
  from st have "WorkerId (deref (coord t) q) = -1" if "idle t q" for q
  proof cases
    case (mr_select r c wid)
    from ok(1) mr_select(2) show ?thesis
      by (cases rule: selectTask_cases) (use that w mr_select(1) in \<open>auto simp: idle_def split: if_splits\<close>)
  next
    case (mr_assign xs r wid ys reply c timer)
    have c: "c = update_task (coord s) r (\<lambda>t. t\<lparr>WorkerId := wid\<rparr>)"
      using mr_assign(3) by (auto simp: assignTask_def Let_def)
    show ?thesis
    proof (cases "in_table (coord s) r")
      case True
      have "q \<noteq> r" using that idle_assigned [OF ok(2) mr_assign(2) True] True by (auto simp: idle_def mr_assign(1) c)
      then show ?thesis using w that True by (auto simp: idle_def mr_assign(1,2) c)
    next
      case False
      then have "c = coord s" using ok(2) mr_assign(2) by (auto simp: watch_ok_def c)
      then show ?thesis using w that by (auto simp: idle_def mr_assign(1,2))
    qed
  next
    case (mr_complete args reply c)
    with CompleteTask_result [OF mr_complete(2)] that w show ?thesis
      by (auto simp: accepted_def idle_def split: if_splits)
  next
    case (mr_timeout xs r ys)
    then have "in_table (coord s) r" using ok(2) by (auto simp: watch_ok_def)
    with mr_timeout that w show ?thesis by (auto simp: waitForTask_def idle_def split: if_splits)
  qed
  then show ?thesis using mr_inv_step [OF inv st] by (simp add: idle_ok_def)
qed

interpretation mr_idle: invariant_system mr_start mr_step idle_ok
  by unfold_locales (auto intro: idle_start idle_step)

text \<open>
  A worker that was too slow does no harm. From the moment a timer resets its task until
  the task is assigned again, also in the window between the two critical sections of the new
  request, its report leaves the coordinator unchanged.
\<close>

theorem stale_completion_ignored:
  assumes "reach mr_start mr_step s" and "CompleteTask (coord s) args = Some (reply, c)"
    and "0 < ct_WorkerId args" and "idle s (args_ref args)"
  shows "c = coord s"
proof -
  have "WorkerId (deref (coord s) (args_ref args)) = -1"
    using mr_idle.reach_inv [OF assms(1)] assms(4) by (simp add: idle_ok_def)
  with CompleteTask_result [OF assms(2)] assms(3) show ?thesis by (auto simp: accepted_def)
qed

text \<open>
  A worker is told to exit exactly when the job is done: \<open>selectTask\<close> hands out the
  exit task if and only if \<open>Done\<close>, and so does the flag of a completion's reply.
\<close>

theorem exit_iff_done:
  assumes "reach mr_start mr_step s"
  shows "(fst (selectTask (coord s)) = FreshTask ExitTask \<longleftrightarrow> Done (coord s)) \<and>
    (\<forall>args reply c. CompleteTask (coord s) args = Some (reply, c) \<and> ct_TaskType args \<in> {MapTask, ReduceTask} \<longrightarrow>
       (reply \<longleftrightarrow> Done c))"
proof -
  have inv: "mr_inv s" by (rule mr.reach_inv [OF assms])
  then have ok: "tables_ok (coord s)" by (simp add: mr_inv_def)
  obtain r c where sel: "selectTask (coord s) = (r, c)" by fastforce
  have all: "Status (deref (coord s) q) = Completed" if "Done (coord s)" "in_table (coord s) q" for q
    using mr_inv_Done [OF inv] that by (cases q) (auto simp: in_table.simps deref.simps)
  have "r = FreshTask ExitTask \<longleftrightarrow> Done (coord s)"
    using ok sel by (cases rule: selectTask_cases) (use all in auto)
  moreover have "reply \<longleftrightarrow> Done d" if "CompleteTask (coord s) args = Some (reply, d)"
    "ct_TaskType args \<in> {MapTask, ReduceTask}" for args reply d
    using that by (auto simp: CompleteTask_def Let_def canExit_def Done_def split: if_splits)
  ultimately show ?thesis using sel by simp blast
qed

section \<open>Liveness\<close>

definition remaining :: "Coordinator \<Rightarrow> nat" where
  "remaining c = (nMap c - nMapCompleted c) + (nReduce c - nReduceCompleted c)"

text \<open>Every request can be answered and every timer can fire without changing the counts.\<close>

lemma drain:
  assumes "mr_inv s"
  shows "\<exists>t. mr_step\<^sup>*\<^sup>* s t \<and> pending t = [] \<and> timers t = [] \<and> remaining (coord t) = remaining (coord s)"
  using assms
proof (induction "2 * length (pending s) + length (timers s)" arbitrary: s rule: less_induct)
  case less
  show ?case
  proof (cases "pending s")
    case (Cons x ys)
    obtain r wid where x: "x = (r, wid)" by (cases x)
    obtain reply c timer where asg: "assignTask (coord s) r wid = (reply, c, timer)" by (metis prod_cases3)
    let ?t = "s\<lparr>coord := c, pending := [] @ ys, timers := (if timer then r # timers s else timers s)\<rparr>"
    have st: "mr_step s ?t" by (rule mr_assign [OF _ asg]) (simp add: Cons x)
    have c: "remaining c = remaining (coord s)"
      using asg by (auto simp: assignTask_def Let_def remaining_def)
    from less.hyps [of ?t] mr_inv_step [OF less.prems st] obtain u
      where "mr_step\<^sup>*\<^sup>* ?t u" "pending u = []" "timers u = []" "remaining (coord u) = remaining c"
      by (cases timer) (auto simp: Cons)
    with st c show ?thesis by (metis converse_rtranclp_into_rtranclp)
  next
    case Nil
    show ?thesis
    proof (cases "timers s")
      case t: (Cons r ys)
      let ?t = "s\<lparr>coord := waitForTask (coord s) r, timers := [] @ ys\<rparr>"
      have st: "mr_step s ?t" by (rule mr_timeout) (simp add: t)
      have c: "remaining (waitForTask (coord s) r) = remaining (coord s)"
        by (simp add: waitForTask_def remaining_def)
      from less.hyps [of ?t] mr_inv_step [OF less.prems st] obtain u
        where "mr_step\<^sup>*\<^sup>* ?t u" "pending u = []" "timers u = []" "remaining (coord u) = remaining (coord s)"
        by (auto simp: t c)
      with st show ?thesis by (metis converse_rtranclp_into_rtranclp)
    next
      case t: Nil
      with Nil show ?thesis by blast
    qed
  qed
qed

lemma quiet_not_in_progress:
  assumes "mr_inv s" and "pending s = []" and "timers s = []" and "in_table (coord s) r"
  shows "Status (deref (coord s) r) \<noteq> InProgress"
  using assms by (auto simp: mr_inv_def watch_ok_def watchers_def dest!: spec [of _ r])

lemma quiet_selects:
  assumes inv: "mr_inv s" and q: "pending s = []" "timers s = []" and nd: "\<not> Done (coord s)"
    and sel: "selectTask (coord s) = (r, c)"
  shows "in_table (coord s) r \<and> Status (deref (coord s) r) = NotStarted \<and>
    c = update_task (coord s) r (\<lambda>t. t\<lparr>Status := InProgress\<rparr>)"
proof -
  have ok: "tables_ok (coord s)" "counts_ok (coord s)" using inv by (simp_all add: mr_inv_def)
  have st: "Status t = Completed" if ns: "Status t \<noteq> NotStarted"
    and mem: "t \<in> set (mapTasks (coord s)) \<or> t \<in> set (reduceTasks (coord s))" for t
  proof -
    obtain q where "in_table (coord s) q" "t = deref (coord s) q"
      using mem by (auto simp: in_set_conv_nth) (metis in_table.simps deref.simps)+
    with quiet_not_in_progress [OF inv q] ns show ?thesis by (cases "Status t") auto
  qed
  have len: "length (mapTasks (coord s)) = nMap (coord s)" "length (reduceTasks (coord s)) = nReduce (coord s)"
    using ok(1) by (simp_all add: tables_ok_def)
  from ok(1) sel show ?thesis
  proof (cases rule: selectTask_cases)
    case wait
    then have none: "select_from 0 (mapTasks (coord s)) = None"
      "nMapCompleted (coord s) = nMap (coord s) \<Longrightarrow> select_from 0 (reduceTasks (coord s)) = None"
      using sel by (auto simp: selectTask_def len split: option.splits if_splits prod.splits)
    then have "\<forall>t \<in> set (mapTasks (coord s)). Status t = Completed" using st by (simp add: select_from_None)
    then have m: "nMapCompleted (coord s) = nMap (coord s)"
      using ok(2) len filter_all [of "\<lambda>t. Status t = Completed" "mapTasks (coord s)"] by (simp add: counts_ok_def)
    with none have "\<forall>t \<in> set (reduceTasks (coord s)). Status t = Completed" using st by (simp add: select_from_None)
    then have "nReduceCompleted (coord s) = nReduce (coord s)"
      using ok(2) len filter_all [of "\<lambda>t. Status t = Completed" "reduceTasks (coord s)"] by (simp add: counts_ok_def)
    with m nd show ?thesis by (simp add: Done_def)
  qed (use nd in auto)
qed

lemma mr_inv_bounds:
  "mr_inv s \<Longrightarrow> nMapCompleted (coord s) \<le> nMap (coord s) \<and> nReduceCompleted (coord s) \<le> nReduce (coord s)"
  unfolding mr_inv_def tables_ok_def counts_ok_def by (metis length_filter_le)

lemma quiet_step:
  assumes inv: "mr_inv s" and q: "pending s = []" "timers s = []" and nd: "\<not> Done (coord s)"
  shows "\<exists>t. mr_step\<^sup>*\<^sup>* s t \<and> remaining (coord t) < remaining (coord s)"
proof -
  obtain r c where sel: "selectTask (coord s) = (r, c)" by fastforce
  note tab = quiet_selects [OF inv q nd sel]
  let ?s1 = "s\<lparr>coord := c, pending := pending s @ [(r, 1)]\<rparr>"
  have s1: "mr_step s ?s1" by (rule mr_select [OF sel]) simp
  obtain reply d timer where asg: "assignTask c r 1 = (reply, d, timer)" by (metis prod_cases3)
  let ?s2 = "?s1\<lparr>coord := d, pending := [] @ [], timers := (if timer then r # timers ?s1 else timers ?s1)\<rparr>"
  have s2: "mr_step ?s1 ?s2" by (rule mr_assign [where xs = "[]" and ys = "[]"]) (use asg q in simp_all)
  have d: "d = update_task c r (\<lambda>t. t\<lparr>WorkerId := 1\<rparr>)"
    using asg by (auto simp: assignTask_def Let_def)
  have c: "c = update_task (coord s) r (\<lambda>t. t\<lparr>Status := InProgress\<rparr>)" and r: "in_table (coord s) r"
    using tab by simp_all
  define args where "args = \<lparr>ct_TaskType = (case r of MapRef i \<Rightarrow> MapTask | _ \<Rightarrow> ReduceTask),
    ct_TaskId = (case r of MapRef i \<Rightarrow> int i | ReduceRef i \<Rightarrow> int i | _ \<Rightarrow> 0), ct_WorkerId = 1\<rparr>"
  have ar: "args_ref args = r" "0 \<le> ct_TaskId args" "ct_WorkerId args = 1"
    using r by (cases r; simp add: args_def args_ref_def)+
  have acc: "accepted d args" using r by (simp add: accepted_def ar d c)
  obtain reply2 e where cmp: "CompleteTask d args = Some (reply2, e)"
    using CompleteTask_accepts [OF acc ar(2)] by blast
  have s3: "mr_step ?s2 (?s2\<lparr>coord := e\<rparr>)" by (rule mr_complete [of _ args reply2]) (simp add: cmp, simp add: args_def)
  have i3: "mr_inv (?s2\<lparr>coord := e\<rparr>)"
    using mr_inv_step [OF mr_inv_step [OF mr_inv_step [OF inv s1] s2] s3] .
  have e: "e = add_completed r (update_task d r (\<lambda>t. t\<lparr>Status := Completed\<rparr>))"
    using CompleteTask_result [OF cmp] acc ar by simp
  have "nMapCompleted e \<le> nMap e" "nReduceCompleted e \<le> nReduce e"
    using mr_inv_bounds [OF i3] by simp_all
  then have "remaining e < remaining (coord s)"
    unfolding e d c by (cases r) (use r in \<open>simp_all add: remaining_def\<close>)
  moreover have "mr_step\<^sup>*\<^sup>* s (?s2\<lparr>coord := e\<rparr>)"
    using s1 s2 s3 by (meson converse_rtranclp_into_rtranclp r_into_rtranclp)
  ultimately show ?thesis by (intro exI [of _ "?s2\<lparr>coord := e\<rparr>"]) simp
qed

lemma can_finish:
  "mr_inv s \<Longrightarrow> \<exists>t. mr_step\<^sup>*\<^sup>* s t \<and> Done (coord t)"
proof (induction "remaining (coord s)" arbitrary: s rule: less_induct)
  case less
  obtain u where u: "mr_step\<^sup>*\<^sup>* s u" "pending u = []" "timers u = []" "remaining (coord u) = remaining (coord s)"
    using drain [OF less.prems] by blast
  have iu: "mr_inv u" by (rule mr.steps_inv [OF u(1) less.prems])
  show ?case
  proof (cases "Done (coord u)")
    case True
    with u(1) show ?thesis by blast
  next
    case False
    then obtain v where v: "mr_step\<^sup>*\<^sup>* u v" "remaining (coord v) < remaining (coord u)"
      using quiet_step [OF iu u(2,3)] by blast
    have "mr_inv v" by (rule mr.steps_inv [OF v(1) iu])
    with less.hyps [of v] v(2) u(4) obtain t where "mr_step\<^sup>*\<^sup>* v t" "Done (coord t)" by auto
    with u(1) v(1) show ?thesis by (meson rtranclp_trans)
  qed
qed


text \<open>
  A completion report is answered unless it names a task number outside the table of its
  type; then the handler indexes out of range and the coordinator panics.
\<close>

theorem CompleteTask_panics_iff:
  "CompleteTask c args = None \<longleftrightarrow>
     (ct_TaskType args = MapTask \<and> (ct_TaskId args < 0 \<or> int (length (mapTasks c)) \<le> ct_TaskId args)) \<or>
     (ct_TaskType args = ReduceTask \<and> (ct_TaskId args < 0 \<or> int (length (reduceTasks c)) \<le> ct_TaskId args))"
  by (auto simp: CompleteTask_def Let_def)

end
