(* ===== verification/MR_Worker.thy ===== *)
theory MR_Worker
  imports Go_Crypto MR_Coordinator
begin

text \<open>
  The MapReduce worker (\<^verbatim>\<open>Lab3/src/mr/worker.go\<close>), the sequential reference
  (\<^verbatim>\<open>main/mrsequential.go\<close>) and the applications (\<^verbatim>\<open>mrapps\<close>). The shared temporary
  directory maps a path to the key-value pairs that the file holds (the JSON stream that the
  encoder writes and the decoder reads back, \<open>Go_JSON\<close>); file errors, which the worker only
  prints, are not modelled. The cloud mode is in \<open>MR_Cloud\<close>. The main result: a distributed run, with any worker ids and any repeated
  executions, writes the same lines as the sequential program.
\<close>

section \<open>Definitions\<close>

record KeyValue =
  kv_Key :: string
  kv_Value :: string

definition ihash :: "string \<Rightarrow> nat" where
  "ihash key = nat (fnv32a (byte_values key) mod 2147483648)"

type_synonym TmpDir = "(string \<times> KeyValue list) list"

definition map_prefix :: "nat \<Rightarrow> string" where
  "map_prefix mapId = ''tmp/mr-'' @ Itoa mapId @ ''-''"

definition temp_path :: "nat \<Rightarrow> nat \<Rightarrow> nat \<Rightarrow> string" where
  "temp_path pid mapId i = map_prefix mapId @ ''-'' @ Itoa i @ ''-'' @ Itoa pid"

definition final_path :: "nat \<Rightarrow> nat \<Rightarrow> string" where
  "final_path mapId i = map_prefix mapId @ ''-'' @ Itoa i"

definition file_append :: "string \<Rightarrow> KeyValue \<Rightarrow> TmpDir \<Rightarrow> TmpDir" where
  "file_append p kv fs = AList.update p ((case map_of fs p of None \<Rightarrow> [] | Some c \<Rightarrow> c) @ [kv]) fs"

definition os_Rename :: "string \<Rightarrow> string \<Rightarrow> TmpDir \<Rightarrow> TmpDir" where
  "os_Rename old new fs =
     (case map_of fs old of None \<Rightarrow> fs | Some c \<Rightarrow> AList.update new c (AList.delete old fs))"

text \<open>\<open>None\<close>: \<open>ihash(kv.Key) % nReduce\<close> divides by zero.\<close>

definition writeMapOutput :: "nat \<Rightarrow> nat \<Rightarrow> KeyValue list \<Rightarrow> nat \<Rightarrow> TmpDir \<Rightarrow> TmpDir option" where
  "writeMapOutput nRed pid kvs mapId fs =
     (if nRed = 0 \<and> kvs \<noteq> [] then None
      else
        let fs1 = foldl (\<lambda>d i. AList.update (temp_path pid mapId i) [] d) fs [0..<nRed];
            fs2 = foldl (\<lambda>d kv. file_append (temp_path pid mapId (ihash (kv_Key kv) mod nRed)) kv d) fs1 kvs
        in Some (foldl (\<lambda>d i. os_Rename (temp_path pid mapId i) (final_path mapId i) d) fs2 [0..<nRed]))"

text \<open>An input file that cannot be read is mapped as an empty one.\<close>

definition doMap ::
  "(string \<Rightarrow> string \<Rightarrow> KeyValue list) \<Rightarrow> (string \<Rightarrow> bytes option) \<Rightarrow> nat \<Rightarrow> nat \<Rightarrow> string \<Rightarrow> nat \<Rightarrow> TmpDir \<Rightarrow> TmpDir option" where
  "doMap mapf input nRed pid path mapId fs =
     writeMapOutput nRed pid (mapf path (case input path of None \<Rightarrow> [] | Some c \<Rightarrow> c)) mapId fs"

text \<open>\<open>filepath.Glob("tmp/mr-*-R")\<close>: the star stands for any characters but a slash.\<close>

definition glob_reduce :: "nat \<Rightarrow> string \<Rightarrow> bool" where
  "glob_reduce reduceId p =
     (let suf = CHR ''-'' # Itoa reduceId in
      HasPrefix p ''tmp/mr-'' \<and> HasSuffix p suf \<and> 7 + length suf \<le> length p \<and>
      CHR ''/'' \<notin> set (take (length p - length suf - 7) (drop 7 p)))"

definition kvMap_add :: "(string \<times> string list) list \<Rightarrow> KeyValue \<Rightarrow> (string \<times> string list) list" where
  "kvMap_add m kv =
     AList.update (kv_Key kv) ((case map_of m (kv_Key kv) of None \<Rightarrow> [] | Some vs \<Rightarrow> vs) @ [kv_Value kv]) m"

definition out_line :: "string \<Rightarrow> string \<Rightarrow> string" where
  "out_line key value = key @ '' '' @ value @ [CHR 0x0A]"

definition reduce_lines :: "(string \<Rightarrow> string list \<Rightarrow> string) \<Rightarrow> (string \<times> string list) list \<Rightarrow> string list" where
  "reduce_lines reducef m =
     map (\<lambda>key. out_line key (reducef key (case map_of m key of None \<Rightarrow> [] | Some vs \<Rightarrow> vs))) (sort (map fst m))"

text \<open>The output files, by name: \<^verbatim>\<open>mr-out-R\<close> replaces what an earlier run left.\<close>

definition writeReduceOutput ::
  "(string \<Rightarrow> string list \<Rightarrow> string) \<Rightarrow> (string \<times> string list) list \<Rightarrow> nat \<Rightarrow> (string \<times> bytes) list \<Rightarrow> (string \<times> bytes) list" where
  "writeReduceOutput reducef m reduceId outs =
     AList.update (''mr-out-'' @ Itoa reduceId) (concat (reduce_lines reducef m)) outs"

definition reduce_stream :: "nat \<Rightarrow> TmpDir \<Rightarrow> KeyValue list" where
  "reduce_stream reduceId fs =
     concat (map (\<lambda>p. case map_of fs p of None \<Rightarrow> [] | Some c \<Rightarrow> c) (sort (filter (glob_reduce reduceId) (map fst fs))))"

definition doReduce ::
  "(string \<Rightarrow> string list \<Rightarrow> string) \<Rightarrow> nat \<Rightarrow> TmpDir \<Rightarrow> (string \<times> bytes) list \<Rightarrow> (string \<times> bytes) list" where
  "doReduce reducef reduceId fs outs =
     writeReduceOutput reducef (foldl kvMap_add [] (reduce_stream reduceId fs)) reduceId outs"

section \<open>The sequential program\<close>

text \<open>The loop over the sorted pairs, one group of equal keys at a time.\<close>

fun seq_lines :: "(string \<Rightarrow> string list \<Rightarrow> string) \<Rightarrow> KeyValue list \<Rightarrow> string list" where
  "seq_lines reducef [] = []"
| "seq_lines reducef (kv # rest) =
     out_line (kv_Key kv)
       (reducef (kv_Key kv) (kv_Value kv # map kv_Value (takeWhile (\<lambda>x. kv_Key x = kv_Key kv) rest)))
     # seq_lines reducef (dropWhile (\<lambda>x. kv_Key x = kv_Key kv) rest)"

text \<open>
  \<open>sort.Sort(ByKey(intermediate))\<close> is not stable, so the order within a key is the
  runtime's choice: the sort is an argument. \<open>None\<close>: an input file cannot be read.
\<close>

fun seq_intermediate ::
  "(string \<Rightarrow> string \<Rightarrow> KeyValue list) \<Rightarrow> (string \<Rightarrow> bytes option) \<Rightarrow> string list \<Rightarrow> KeyValue list option" where
  "seq_intermediate mapf input [] = Some []"
| "seq_intermediate mapf input (f # fs) =
     (case input f of
        None \<Rightarrow> None
      | Some c \<Rightarrow> map_option (\<lambda>kva. mapf f c @ kva) (seq_intermediate mapf input fs))"

definition mrsequential ::
  "(KeyValue list \<Rightarrow> KeyValue list) \<Rightarrow> (string \<Rightarrow> string \<Rightarrow> KeyValue list) \<Rightarrow> (string \<Rightarrow> string list \<Rightarrow> string) \<Rightarrow>
     (string \<Rightarrow> bytes option) \<Rightarrow> string list \<Rightarrow> bytes option" where
  "mrsequential sorter mapf reducef input files =
     map_option (\<lambda>kva. concat (seq_lines reducef (sorter kva))) (seq_intermediate mapf input files)"

section \<open>Applications\<close>

text \<open>\<open>strings.FieldsFunc\<close> with \<open>!unicode.IsLetter\<close>, on ASCII text.\<close>

definition is_letter :: "char \<Rightarrow> bool" where
  "is_letter c \<longleftrightarrow> (CHR ''a'' \<le> c \<and> c \<le> CHR ''z'') \<or> (CHR ''A'' \<le> c \<and> c \<le> CHR ''Z'')"

fun FieldsFunc :: "(char \<Rightarrow> bool) \<Rightarrow> string \<Rightarrow> string list" where
  "FieldsFunc letter [] = []"
| "FieldsFunc letter (c # cs) =
     (if letter c then takeWhile letter (c # cs) # FieldsFunc letter (dropWhile letter cs)
      else FieldsFunc letter cs)"

definition wc_Map :: "string \<Rightarrow> string \<Rightarrow> KeyValue list" where
  "wc_Map filename contents = map (\<lambda>w. \<lparr>kv_Key = w, kv_Value = ''1''\<rparr>) (FieldsFunc is_letter contents)"

definition wc_Reduce :: "string \<Rightarrow> string list \<Rightarrow> string" where
  "wc_Reduce key values = Itoa (length values)"

definition join_strings :: "string \<Rightarrow> string list \<Rightarrow> string" where
  "join_strings sep xs = (case xs of [] \<Rightarrow> [] | y # ys \<Rightarrow> y @ concat (map (\<lambda>z. sep @ z) ys))"

text \<open>The indexer; the order in which it emits the words of its set is the runtime's choice.\<close>

definition indexer_Map :: "(string list \<Rightarrow> string list) \<Rightarrow> string \<Rightarrow> string \<Rightarrow> KeyValue list" where
  "indexer_Map ord document contents =
     map (\<lambda>w. \<lparr>kv_Key = w, kv_Value = document\<rparr>) (ord (remdups (FieldsFunc is_letter contents)))"

definition indexer_Reduce :: "string \<Rightarrow> string list \<Rightarrow> string" where
  "indexer_Reduce key values = Itoa (length values) @ '' '' @ join_strings '','' (sort values)"

text \<open>\<^verbatim>\<open>crash.go\<close> and \<^verbatim>\<open>nocrash.go\<close>, in the runs in which they do not crash.\<close>

definition crash_Map :: "string \<Rightarrow> string \<Rightarrow> KeyValue list" where
  "crash_Map filename contents =
     [\<lparr>kv_Key = ''a'', kv_Value = filename\<rparr>, \<lparr>kv_Key = ''b'', kv_Value = Itoa (length filename)\<rparr>,
      \<lparr>kv_Key = ''c'', kv_Value = Itoa (length contents)\<rparr>, \<lparr>kv_Key = ''d'', kv_Value = ''xyzzy''\<rparr>]"

definition crash_Reduce :: "string \<Rightarrow> string list \<Rightarrow> string" where
  "crash_Reduce key values = join_strings '' '' (sort values)"

section \<open>Paths\<close>

lemma Itoa_no_dash: "CHR ''-'' \<notin> set (Itoa n)" "CHR ''/'' \<notin> set (Itoa n)"
  using Itoa_no_sep [of "CHR ''-''" n] Itoa_no_sep [of "CHR ''/''" n] by simp_all

lemma dash_split_eq:
  "CHR ''-'' \<notin> set a \<Longrightarrow> CHR ''-'' \<notin> set b \<Longrightarrow> a @ CHR ''-'' # x = b @ CHR ''-'' # y \<longleftrightarrow> a = b \<and> x = y"
proof (induction a arbitrary: b)
  case Nil
  then show ?case by (cases b) auto
next
  case (Cons c a)
  then show ?case by (cases b) auto
qed

lemma path_inj:
  "final_path m i = final_path k j \<longleftrightarrow> m = k \<and> i = j"
  "temp_path p m i = temp_path q k j \<longleftrightarrow> p = q \<and> m = k \<and> i = j"
  using dash_split_eq [OF Itoa_no_dash(1) Itoa_no_dash(1)]
  by (auto simp: final_path_def temp_path_def map_prefix_def Itoa_inj)

lemma final_not_temp: "final_path m i \<noteq> temp_path p k j"
proof
  assume eq: "final_path m i = temp_path p k j"
  have "Itoa i = Itoa j @ CHR ''-'' # Itoa p"
    using eq dash_split_eq [OF Itoa_no_dash(1) Itoa_no_dash(1), of m "CHR ''-'' # Itoa i" k]
    by (simp add: final_path_def temp_path_def map_prefix_def)
  then have "CHR ''-'' \<in> set (Itoa i)" by simp
  with Itoa_no_dash show False by blast
qed

lemma final_path_split: "final_path m i = ''tmp/mr-'' @ (Itoa m @ ''-'') @ CHR ''-'' # Itoa i"
  by (simp add: final_path_def map_prefix_def)

lemma glob_reduce_iff:
  "glob_reduce r p \<longleftrightarrow> (\<exists>mid. p = ''tmp/mr-'' @ mid @ CHR ''-'' # Itoa r \<and> CHR ''/'' \<notin> set mid)"
proof
  let ?suf = "CHR ''-'' # Itoa r"
  assume g: "glob_reduce r p"
  then have pre: "take 7 p = ''tmp/mr-''" and "HasSuffix p ?suf"
    by (simp_all add: glob_reduce_def Let_def HasPrefix_def eval_nat_numeral)
  then obtain y where y: "p = y @ ?suf" using HasSuffix_iff by blast
  have len: "7 \<le> length y" using g y by (simp add: glob_reduce_def Let_def)
  have "take 7 y = ''tmp/mr-''" using pre y len by simp
  then have "p = ''tmp/mr-'' @ drop 7 y @ ?suf" using y append_take_drop_id [of 7 y] by (metis append_assoc)
  moreover have "CHR ''/'' \<notin> set (drop 7 y)" using g y len by (auto simp: glob_reduce_def Let_def)
  ultimately show "\<exists>mid. p = ''tmp/mr-'' @ mid @ ?suf \<and> CHR ''/'' \<notin> set mid" by blast
next
  assume "\<exists>mid. p = ''tmp/mr-'' @ mid @ CHR ''-'' # Itoa r \<and> CHR ''/'' \<notin> set mid"
  then obtain mid where p: "p = ''tmp/mr-'' @ mid @ CHR ''-'' # Itoa r" and "CHR ''/'' \<notin> set mid" by blast
  then show "glob_reduce r p"
    using HasSuffix_append [of "''tmp/mr-'' @ mid" "CHR ''-'' # Itoa r"] by (simp add: glob_reduce_def Let_def HasPrefix_def)
qed

lemma glob_final: "glob_reduce r (final_path m i) \<longleftrightarrow> i = r"
proof
  assume "glob_reduce r (final_path m i)"
  then obtain mid where "Itoa m @ CHR ''-'' # CHR ''-'' # Itoa i = mid @ CHR ''-'' # Itoa r"
    by (auto simp: glob_reduce_iff final_path_split)
  then have "last (split_on CHR ''-'' (Itoa m @ CHR ''-'' # CHR ''-'' # Itoa i)) = last (split_on CHR ''-'' (mid @ CHR ''-'' # Itoa r))"
    by simp
  then show "i = r"
    by (simp add: split_on_append split_on_no_sep Itoa_no_dash Itoa_inj)
next
  assume "i = r"
  then show "glob_reduce r (final_path m i)"
    unfolding glob_reduce_iff final_path_split using Itoa_no_dash(2) [of m]
    by (intro exI [of _ "Itoa m @ ''-''"]) simp
qed

section \<open>What a map task leaves behind\<close>

definition part :: "nat \<Rightarrow> nat \<Rightarrow> KeyValue list \<Rightarrow> KeyValue list" where
  "part nRed i kvs = filter (\<lambda>kv. ihash (kv_Key kv) mod nRed = i) kvs"

lemma create_temps:
  "map_of (foldl (\<lambda>d i. AList.update (temp_path pid m i) [] d) fs is) p =
     (if p \<in> temp_path pid m ` set is then Some [] else map_of fs p)"
  by (induction "is" arbitrary: fs) (auto simp: update_conv')

lemma encode_all:
  assumes "0 < nRed" and "\<And>i. i < nRed \<Longrightarrow> map_of fs (temp_path pid m i) \<noteq> None"
  shows "map_of (foldl (\<lambda>d kv. file_append (temp_path pid m (ihash (kv_Key kv) mod nRed)) kv d) fs kvs) p =
    (case map_of fs p of
       None \<Rightarrow> None
     | Some c \<Rightarrow> Some (c @ filter (\<lambda>kv. p = temp_path pid m (ihash (kv_Key kv) mod nRed)) kvs))"
  using assms(2)
proof (induction kvs arbitrary: fs)
  case Nil
  then show ?case by (simp split: option.split)
next
  case (Cons kv kvs)
  let ?q = "temp_path pid m (ihash (kv_Key kv) mod nRed)"
  let ?fs = "file_append ?q kv fs"
  have q: "map_of fs ?q \<noteq> None" using Cons.prems assms(1) by simp
  have up: "map_of ?fs x = (if x = ?q then map_option (\<lambda>c. c @ [kv]) (map_of fs x) else map_of fs x)" for x
    using q by (auto simp: file_append_def update_conv')
  have "\<And>i. i < nRed \<Longrightarrow> map_of ?fs (temp_path pid m i) \<noteq> None"
    using Cons.prems by (simp add: up)
  from Cons.IH [OF this] show ?case by (auto simp: up split: option.split)
qed

lemma rename_all:
  assumes "distinct is"
  shows "map_of (foldl (\<lambda>d i. os_Rename (temp_path pid m i) (final_path m i) d) fs is) p =
    (if \<exists>i \<in> set is. p = final_path m i \<and> map_of fs (temp_path pid m i) \<noteq> None
     then map_of fs (temp_path pid m (THE i. p = final_path m i))
     else if p \<in> temp_path pid m ` set is then None else map_of fs p)"
  using assms
proof (induction "is" arbitrary: fs)
  case Nil
  then show ?case by simp
next
  case (Cons i js)
  let ?fs = "os_Rename (temp_path pid m i) (final_path m i) fs"
  have up: "map_of ?fs x = (if x = temp_path pid m i then None
      else if x = final_path m i \<and> map_of fs (temp_path pid m i) \<noteq> None then map_of fs (temp_path pid m i) else map_of fs x)" for x
    using final_not_temp [of m i pid m i]
    by (auto simp: os_Rename_def update_conv' delete_conv' split: option.split)
  have the: "(THE k. final_path m j = final_path m k) = j" for j by (simp add: path_inj)
  have other: "map_of ?fs (temp_path pid m j) = map_of fs (temp_path pid m j)" if "j \<in> set js" for j
    using that Cons.prems final_not_temp [of m i pid m j] by (auto simp: up path_inj)
  show ?case
  proof (cases "\<exists>j \<in> set js. p = final_path m j")
    case True
    then obtain j where j: "j \<in> set js" "p = final_path m j" by blast
    then have "j \<noteq> i" using Cons.prems by auto
    with j Cons.IH [of ?fs] Cons.prems other [OF j(1)] show ?thesis
      by (auto simp: the path_inj up final_not_temp)
  next
    case False
    then show ?thesis
      using Cons.IH [of ?fs] Cons.prems by (auto simp: the path_inj up final_not_temp)
  qed
qed

lemma distinct_foldl:
  assumes "\<And>d x. distinct (map fst d) \<Longrightarrow> distinct (map fst (f d x))" and "distinct (map fst e)"
  shows "distinct (map fst (foldl f e xs))"
  using assms(2) by (induction xs arbitrary: e) (simp_all add: assms(1))

lemma os_Rename_distinct: "distinct (map fst d) \<Longrightarrow> distinct (map fst (os_Rename old new d))"
  by (simp add: os_Rename_def distinct_update distinct_delete split: option.split)

lemma temps_written:
  fixes nRed pid m
  defines "create \<equiv> \<lambda>fs. foldl (\<lambda>d i. AList.update (temp_path pid m i) [] d) fs [0..<nRed]"
    and "encode \<equiv> \<lambda>fs kvs. foldl (\<lambda>d kv. file_append (temp_path pid m (ihash (kv_Key kv) mod nRed)) kv d) fs kvs"
  assumes "0 < nRed"
  shows "i < nRed \<Longrightarrow> map_of (encode (create fs) kvs) (temp_path pid m i) = Some (part nRed i kvs)"
    and "(\<forall>i < nRed. p \<noteq> temp_path pid m i) \<Longrightarrow> map_of (encode (create fs) kvs) p = map_of fs p"
proof -
  have t1: "map_of (create fs) p = (if p \<in> temp_path pid m ` {0..<nRed} then Some [] else map_of fs p)" for p
    by (simp add: create_def create_temps)
  have t2: "map_of (encode (create fs) kvs) p = (case map_of (create fs) p of None \<Rightarrow> None
      | Some c \<Rightarrow> Some (c @ filter (\<lambda>kv. p = temp_path pid m (ihash (kv_Key kv) mod nRed)) kvs))" for p
    unfolding encode_def by (rule encode_all [OF assms(3)]) (simp add: t1)
  show "map_of (encode (create fs) kvs) (temp_path pid m i) = Some (part nRed i kvs)" if "i < nRed"
    using that by (auto simp: t2 t1 part_def path_inj intro!: filter_cong)
  show "map_of (encode (create fs) kvs) p = map_of fs p" if "\<forall>i < nRed. p \<noteq> temp_path pid m i"
  proof -
    have "filter (\<lambda>kv. p = temp_path pid m (ihash (kv_Key kv) mod nRed)) kvs = []"
      using that assms(3) by (auto simp: filter_empty_conv)
    then show ?thesis using that by (auto simp: t2 t1 split: option.split)
  qed
qed

lemma writeMapOutput_result:
  assumes "0 < nRed"
  shows "\<exists>fs'. writeMapOutput nRed pid kvs m fs = Some fs' \<and>
    (\<forall>i < nRed. map_of fs' (final_path m i) = Some (part nRed i kvs) \<and> map_of fs' (temp_path pid m i) = None) \<and>
    (\<forall>p. (\<forall>i < nRed. p \<noteq> final_path m i \<and> p \<noteq> temp_path pid m i) \<longrightarrow> map_of fs' p = map_of fs p) \<and>
    (distinct (map fst fs) \<longrightarrow> distinct (map fst fs'))"
proof -
  define fs1 where "fs1 = foldl (\<lambda>d i. AList.update (temp_path pid m i) [] d) fs [0..<nRed]"
  define fs2 where "fs2 = foldl (\<lambda>d kv. file_append (temp_path pid m (ihash (kv_Key kv) mod nRed)) kv d) fs1 kvs"
  define fs3 where "fs3 = foldl (\<lambda>d i. os_Rename (temp_path pid m i) (final_path m i) d) fs2 [0..<nRed]"
  have w: "writeMapOutput nRed pid kvs m fs = Some fs3"
    using assms by (simp add: writeMapOutput_def fs1_def fs2_def fs3_def Let_def)
  have temp: "map_of fs2 (temp_path pid m i) = Some (part nRed i kvs)" if "i < nRed" for i
    unfolding fs2_def fs1_def by (rule temps_written(1) [OF assms that])
  have keep: "map_of fs2 p = map_of fs p" if "\<forall>i < nRed. p \<noteq> temp_path pid m i" for p
    unfolding fs2_def fs1_def by (rule temps_written(2) [OF assms that])
  have the: "(THE k. final_path m j = final_path m k) = j" for j by (simp add: path_inj)
  have t3: "map_of fs3 p = (if \<exists>i < nRed. p = final_path m i then map_of fs2 (temp_path pid m (THE i. p = final_path m i))
     else if p \<in> temp_path pid m ` {0..<nRed} then None else map_of fs2 p)" for p
    unfolding fs3_def by (subst rename_all) (auto simp: temp)
  have "distinct (map fst fs3)" if d: "distinct (map fst fs)"
    unfolding fs3_def fs2_def fs1_def
    by (intro distinct_foldl d) (simp_all add: distinct_update file_append_def os_Rename_distinct)
  moreover have "map_of fs3 (final_path m i) = Some (part nRed i kvs)" if "i < nRed" for i
    using that by (auto simp: t3 the temp)
  moreover have "map_of fs3 (temp_path pid m i) = None" if "i < nRed" for i
    using that by (simp add: t3 final_not_temp [symmetric])
  moreover have "map_of fs3 p = map_of fs p" if "\<forall>i < nRed. p \<noteq> final_path m i \<and> p \<noteq> temp_path pid m i" for p
    using that keep by (auto simp: t3)
  ultimately show ?thesis using w by blast
qed

text \<open>
  A map task leaves exactly one file per reduce task, which holds the pairs that hash to
  it in the order in which \<open>mapf\<close> emitted them, and no temporary file of its own; all other
  files are as they were, so running the task again changes nothing.
\<close>

theorem writeMapOutput_partitions:
  assumes "0 < nRed"
  shows "\<exists>fs'. writeMapOutput nRed pid kvs m fs = Some fs' \<and>
    (\<forall>i < nRed. map_of fs' (final_path m i) = Some (part nRed i kvs) \<and> map_of fs' (temp_path pid m i) = None) \<and>
    (\<forall>p. (\<forall>i < nRed. p \<noteq> final_path m i \<and> p \<noteq> temp_path pid m i) \<longrightarrow> map_of fs' p = map_of fs p)"
  using writeMapOutput_result [OF assms] by blast

section \<open>What the job should compute\<close>

definition vals :: "string \<Rightarrow> KeyValue list \<Rightarrow> string list" where
  "vals k xs = map kv_Value (filter (\<lambda>kv. kv_Key kv = k) xs)"

definition mr_spec :: "(string \<Rightarrow> string list \<Rightarrow> string) \<Rightarrow> KeyValue list \<Rightarrow> string list" where
  "mr_spec reducef xs = map (\<lambda>k. out_line k (reducef k (vals k xs))) (sorted_list_of_set (kv_Key ` set xs))"

lemma kvMap_all:
  "map_of (foldl kvMap_add m xs) k =
     (if k \<in> kv_Key ` set xs \<or> map_of m k \<noteq> None
      then Some ((case map_of m k of None \<Rightarrow> [] | Some vs \<Rightarrow> vs) @ vals k xs) else None)"
  by (induction xs arbitrary: m) (auto simp: kvMap_add_def vals_def update_conv' split: option.split)

lemma kvMap_distinct: "distinct (map fst m) \<Longrightarrow> distinct (map fst (foldl kvMap_add m xs))"
  by (induction xs arbitrary: m) (simp_all add: kvMap_add_def distinct_update)

lemma sort_distinct: "distinct xs \<Longrightarrow> sort xs = sorted_list_of_set (set xs)"
  by (simp add: sorted_list_of_set_sort_remdups distinct_remdups_id)

lemma reduce_lines_spec: "reduce_lines reducef (foldl kvMap_add [] xs) = mr_spec reducef xs"
proof -
  let ?m = "foldl kvMap_add [] xs"
  have "set (map fst ?m) = dom (map_of ?m)" by (simp add: dom_map_of_conv_image_fst)
  also have "\<dots> = kv_Key ` set xs" by (auto simp: kvMap_all dom_def split: if_splits)
  finally have "sort (map fst ?m) = sorted_list_of_set (kv_Key ` set xs)"
    using sort_distinct [OF kvMap_distinct [of "[]" xs]] by simp
  then show ?thesis by (simp add: reduce_lines_def mr_spec_def kvMap_all)
qed

lemma takeWhile_sorted_filter:
  assumes "sorted (map kv_Key (kv # rest))"
  shows "filter (\<lambda>x. kv_Key x = kv_Key kv) rest = takeWhile (\<lambda>x. kv_Key x = kv_Key kv) rest"
    and "kv_Key kv \<notin> kv_Key ` set (dropWhile (\<lambda>x. kv_Key x = kv_Key kv) rest)"
proof -
  have "kv_Key kv \<notin> kv_Key ` set (dropWhile (\<lambda>x. kv_Key x = kv_Key kv) rest)
    \<and> filter (\<lambda>x. kv_Key x = kv_Key kv) rest = takeWhile (\<lambda>x. kv_Key x = kv_Key kv) rest"
    using assms
  proof (induction rest)
    case (Cons a rest)
    show ?case
    proof (cases "kv_Key a = kv_Key kv")
      case True
      with Cons show ?thesis by simp
    next
      case False
      with Cons.prems have "kv_Key kv < kv_Key x" if "x \<in> set (a # rest)" for x
        using that by (auto simp: less_le)
      then have ne: "\<forall>x \<in> set (a # rest). kv_Key x \<noteq> kv_Key kv" by fastforce
      then have "filter (\<lambda>x. kv_Key x = kv_Key kv) (a # rest) = []" "kv_Key kv \<notin> kv_Key ` set (a # rest)"
        by (simp only: filter_empty_conv, metis imageE)
      with False show ?thesis by simp
    qed
  qed simp
  then show "filter (\<lambda>x. kv_Key x = kv_Key kv) rest = takeWhile (\<lambda>x. kv_Key x = kv_Key kv) rest"
    and "kv_Key kv \<notin> kv_Key ` set (dropWhile (\<lambda>x. kv_Key x = kv_Key kv) rest)" by simp_all
qed

lemma sorted_list_of_set_Cons:
  assumes "finite A" and "\<And>x. x \<in> A \<Longrightarrow> a < x"
  shows "sorted_list_of_set (insert a A) = a # sorted_list_of_set A"
proof -
  have "a \<notin> A" using assms(2) by blast
  with assms show ?thesis by (simp add: insort_is_Cons less_imp_le)
qed

text \<open>The sequential loop computes the specification on sorted input.\<close>

lemma seq_lines_spec: "sorted (map kv_Key xs) \<Longrightarrow> seq_lines reducef xs = mr_spec reducef xs"
proof (induction reducef xs rule: seq_lines.induct)
  case (1 reducef)
  then show ?case by (simp add: mr_spec_def)
next
  case (2 reducef kv rest)
  let ?k = "kv_Key kv" and ?ds = "dropWhile (\<lambda>x. kv_Key x = kv_Key kv) rest"
  note tw = takeWhile_sorted_filter [OF 2(2)]
  have "set rest = set (takeWhile (\<lambda>x. kv_Key x = ?k) rest) \<union> set ?ds"
    by (metis set_append takeWhile_dropWhile_id)
  then have keys: "kv_Key ` set (kv # rest) = insert ?k (kv_Key ` set ?ds)"
    by (auto dest: set_takeWhileD)
  have lt: "?k < x" if "x \<in> kv_Key ` set ?ds" for x
  proof -
    have "?k \<le> x" using 2(2) that by (auto dest: set_dropWhileD)
    with tw(2) that show ?thesis by (auto simp: less_le)
  qed
  have slk: "sorted_list_of_set (insert ?k (kv_Key ` set ?ds)) = ?k # sorted_list_of_set (kv_Key ` set ?ds)"
    by (rule sorted_list_of_set_Cons [OF _ lt]) simp_all
  have sd: "sorted (map kv_Key ?ds)"
    using 2(2) sorted_dropWhile [of "map kv_Key rest" "\<lambda>x. x = ?k"] by (simp add: dropWhile_map comp_def)
  have others: "vals x (kv # rest) = vals x ?ds" if "x \<in> kv_Key ` set ?ds" for x
  proof -
    have "x \<noteq> ?k" using tw(2) that by metis
    then have "filter (\<lambda>y. kv_Key y = x) (takeWhile (\<lambda>x. kv_Key x = ?k) rest) = []"
      by (auto simp: filter_empty_conv dest: set_takeWhileD)
    then have "filter (\<lambda>y. kv_Key y = x) rest = filter (\<lambda>y. kv_Key y = x) ?ds"
      using arg_cong [OF takeWhile_dropWhile_id [of "\<lambda>x. kv_Key x = ?k" rest], of "filter (\<lambda>y. kv_Key y = x)"]
      by (simp only: filter_append append_Nil)
    with \<open>x \<noteq> ?k\<close> show ?thesis by (simp add: vals_def)
  qed
  have "mr_spec reducef (kv # rest) = out_line ?k (reducef ?k (vals ?k (kv # rest))) # mr_spec reducef ?ds"
    unfolding mr_spec_def keys slk using others by simp
  moreover have "vals ?k (kv # rest) = kv_Value kv # map kv_Value (takeWhile (\<lambda>x. kv_Key x = ?k) rest)"
    by (simp add: vals_def tw(1))
  ultimately show ?case using 2(1) [OF sd] by simp
qed

section \<open>The distributed job\<close>

text \<open>
  The map phase: the executions of map tasks in some order, each by some worker; a task may
  be executed again by another worker after a timeout.
\<close>

fun run_maps ::
  "(string \<Rightarrow> string \<Rightarrow> KeyValue list) \<Rightarrow> (string \<Rightarrow> bytes option) \<Rightarrow> string list \<Rightarrow> nat \<Rightarrow> (nat \<times> nat) list \<Rightarrow> TmpDir \<Rightarrow> TmpDir option" where
  "run_maps mapf input files nRed [] fs = Some fs"
| "run_maps mapf input files nRed ((m, pid) # runs) fs =
     (case doMap mapf input nRed pid (files ! m) m fs of
        None \<Rightarrow> None
      | Some fs1 \<Rightarrow> run_maps mapf input files nRed runs fs1)"

definition task_kvs ::
  "(string \<Rightarrow> string \<Rightarrow> KeyValue list) \<Rightarrow> (string \<Rightarrow> bytes option) \<Rightarrow> string list \<Rightarrow> nat \<Rightarrow> KeyValue list" where
  "task_kvs mapf input files m = mapf (files ! m) (case input (files ! m) of None \<Rightarrow> [] | Some c \<Rightarrow> c)"

definition intermediate_files :: "nat \<Rightarrow> (nat \<Rightarrow> KeyValue list) \<Rightarrow> nat set \<Rightarrow> string \<Rightarrow> KeyValue list option" where
  "intermediate_files nRed kvs D p =
     (if \<exists>m \<in> D. \<exists>i < nRed. p = final_path m i
      then (let (m, i) = (SOME x. p = final_path (fst x) (snd x)) in Some (part nRed i (kvs m))) else None)"

lemma intermediate_files_at: "m \<in> D \<Longrightarrow> i < nRed \<Longrightarrow> intermediate_files nRed kvs D (final_path m i) = Some (part nRed i (kvs m))"
proof -
  assume "m \<in> D" "i < nRed"
  moreover have "(SOME x. final_path m i = final_path (fst x) (snd x)) = (m, i)"
    by (rule some_equality) (auto simp: path_inj)
  ultimately show ?thesis by (auto simp: intermediate_files_def)
qed

lemma intermediate_files_else:
  "(\<And>m i. m \<in> D \<Longrightarrow> i < nRed \<Longrightarrow> p \<noteq> final_path m i) \<Longrightarrow> intermediate_files nRed kvs D p = None"
  by (auto simp: intermediate_files_def)

lemma run_maps_files:
  assumes "0 < nRed" and "map_of fs = intermediate_files nRed (task_kvs mapf input files) D" and "distinct (map fst fs)"
  shows "\<exists>fs'. run_maps mapf input files nRed runs fs = Some fs' \<and> distinct (map fst fs') \<and>
    map_of fs' = intermediate_files nRed (task_kvs mapf input files) (D \<union> fst ` set runs)"
  using assms(2,3)
proof (induction runs arbitrary: fs D)
  case Nil
  then show ?case by simp
next
  case (Cons run runs)
  let ?k = "task_kvs mapf input files"
  obtain m pid where run: "run = (m, pid)" by (cases run)
  obtain fs1 where w: "writeMapOutput nRed pid (?k m) m fs = Some fs1"
    and at: "\<And>i. i < nRed \<Longrightarrow> map_of fs1 (final_path m i) = Some (part nRed i (?k m)) \<and> map_of fs1 (temp_path pid m i) = None"
    and other: "\<And>p. (\<And>i. i < nRed \<Longrightarrow> p \<noteq> final_path m i \<and> p \<noteq> temp_path pid m i) \<Longrightarrow> map_of fs1 p = map_of fs p"
    and d: "distinct (map fst fs1)"
    using writeMapOutput_result [OF assms(1), of pid "?k m" m fs] Cons.prems(2) by blast
  have "map_of fs1 p = intermediate_files nRed ?k (insert m D) p" for p
  proof (cases "\<exists>k \<in> insert m D. \<exists>i < nRed. p = final_path k i")
    case True
    then obtain k i where k: "k \<in> insert m D" "i < nRed" "p = final_path k i" by blast
    show ?thesis
    proof (cases "k = m")
      case True
      with k at show ?thesis by (simp add: intermediate_files_at)
    next
      case False
      then have "map_of fs1 p = map_of fs p"
        using k by (intro other) (auto simp: path_inj final_not_temp)
      with False k Cons.prems(1) show ?thesis by (simp add: intermediate_files_at)
    qed
  next
    case False
    then have none: "intermediate_files nRed ?k (insert m D) p = None" by (intro intermediate_files_else) blast
    show ?thesis
    proof (cases "\<exists>i < nRed. p = temp_path pid m i")
      case True
      with at none show ?thesis by auto
    next
      case noT: False
      with False have "map_of fs1 p = map_of fs p" by (intro other) blast
      also have "\<dots> = None" unfolding Cons.prems(1) using False by (intro intermediate_files_else) blast
      finally show ?thesis by (simp add: none)
    qed
  qed
  then have "map_of fs1 = intermediate_files nRed ?k (insert m D)" by blast
  from Cons.IH [OF this d] w show ?case by (auto simp: run doMap_def task_kvs_def)
qed

lemma mset_concat_map: "mset (concat (map f [0..<n])) = (\<Sum>i<n. mset (f i))"
  by (simp add: mset_concat interv_sum_list_conv_sum_set_nat atLeast0LessThan comp_def)

lemma part_concat: "part nRed r (concat xss) = concat (map (part nRed r) xss)"
  by (induction xss) (simp_all add: part_def)

lemma image_mset_sums: "image_mset f (\<Sum>r<(n::nat). M r) = (\<Sum>r<n. image_mset f (M r))"
  by (induction n) simp_all

lemma mset_sorted_list_of_set: "finite A \<Longrightarrow> mset (sorted_list_of_set A) = mset_set A"
  by (metis distinct_sorted_list_of_set mset_set_set set_sorted_list_of_set)

text \<open>What a reduce task reads, up to order: the pairs of all map tasks that hash to it.\<close>

lemma reduce_stream_mset:
  assumes fs: "map_of fs = intermediate_files nRed kvs {..<n}" and d: "distinct (map fst fs)" and r: "r < nRed"
  shows "mset (reduce_stream r fs) = mset (part nRed r (concat (map kvs [0..<n])))"
proof -
  let ?L = "filter (glob_reduce r) (map fst fs)"
  let ?g = "\<lambda>p. case map_of fs p of None \<Rightarrow> [] | Some c \<Rightarrow> c"
  have dom: "p \<in> set (map fst fs) \<longleftrightarrow> (\<exists>m < n. \<exists>i < nRed. p = final_path m i)" for p
  proof -
    have "p \<in> set (map fst fs) \<longleftrightarrow> map_of fs p \<noteq> None" by (simp add: map_of_eq_None_iff)
    also have "\<dots> \<longleftrightarrow> (\<exists>m < n. \<exists>i < nRed. p = final_path m i)"
      unfolding fs by (metis intermediate_files_at intermediate_files_else lessThan_iff option.distinct(1))
    finally show ?thesis .
  qed
  have L: "set ?L = (\<lambda>m. final_path m r) ` {..<n}"
    using dom glob_final r by auto
  have "mset (reduce_stream r fs) = (\<Sum>p \<leftarrow> sort ?L. mset (?g p))"
    by (simp add: reduce_stream_def mset_concat comp_def)
  also have "\<dots> = (\<Sum>p \<in> set ?L. mset (?g p))"
    using d by (simp add: sum_list_distinct_conv_sum_set)
  also have "\<dots> = (\<Sum>m<n. mset (?g (final_path m r)))"
    unfolding L by (subst sum.reindex) (auto simp: inj_on_def path_inj)
  also have "\<dots> = (\<Sum>m<n. mset (part nRed r (kvs m)))"
    using r by (intro sum.cong) (simp_all add: fs intermediate_files_at)
  also have "\<dots> = mset (part nRed r (concat (map kvs [0..<n])))"
    using mset_concat_map [of "\<lambda>m. part nRed r (kvs m)" n] by (simp add: part_concat comp_def)
  finally show ?thesis .
qed

text \<open>
  The contract between the framework and an application: the reduce function does not depend
  on the order of the values, which differs between runs.
\<close>

locale mr_app =
  fixes reducef :: "string \<Rightarrow> string list \<Rightarrow> string"
  assumes reduce_perm: "mset vs = mset ws \<Longrightarrow> reducef k vs = reducef k ws"
begin

lemma spec_perm: "mset xs = mset ys \<Longrightarrow> mr_spec reducef xs = mr_spec reducef ys"
proof -
  assume eq: "mset xs = mset ys"
  then have "set xs = set ys" by (rule mset_eq_set)
  moreover have "mset (vals k xs) = mset (vals k ys)" for k
    using eq by (simp add: vals_def)
  then have "reducef k (vals k xs) = reducef k (vals k ys)" for k by (rule reduce_perm)
  ultimately show ?thesis by (simp add: mr_spec_def)
qed

lemma spec_part:
  "mr_spec reducef (part nRed r xs) =
     map (\<lambda>k. out_line k (reducef k (vals k xs))) (sorted_list_of_set {k \<in> kv_Key ` set xs. ihash k mod nRed = r})"
proof -
  have keys: "kv_Key ` set (part nRed r xs) = {k \<in> kv_Key ` set xs. ihash k mod nRed = r}"
    by (auto simp: part_def)
  have "vals k (part nRed r xs) = vals k xs" if "ihash k mod nRed = r" for k
    unfolding vals_def part_def filter_filter using that by (intro arg_cong [of _ _ "map kv_Value"] filter_cong) auto
  then show ?thesis by (simp add: mr_spec_def keys)
qed

lemma sum_parts:
  assumes "finite A" and "\<And>k. k \<in> A \<Longrightarrow> g k < (n :: nat)"
  shows "(\<Sum>r<n. image_mset f (mset_set {k \<in> A. g k = r})) = image_mset f (mset_set A)"
proof -
  have "(\<Sum>r<n. mset_set {k \<in> A. g k = r}) = mset_set A"
  proof (rule multiset_eqI)
    fix x
    have "count (\<Sum>r<n. mset_set {k \<in> A. g k = r}) x = (\<Sum>r<n. if x \<in> A \<and> g x = r then 1 else 0)"
      using assms(1) by (auto simp: count_sum count_mset_set' intro!: sum.cong)
    also have "\<dots> = count (mset_set A) x"
      using assms by (cases "x \<in> A") (auto simp: count_mset_set' sum.delta')
    finally show "count (\<Sum>r<n. mset_set {k \<in> A. g k = r}) x = count (mset_set A) x" .
  qed
  then show ?thesis using image_mset_sums [of f "\<lambda>r. mset_set {k \<in> A. g k = r}" n] by simp
qed

text \<open>The lines of all reduce tasks together are the lines of the specification.\<close>

lemma reduces_spec:
  assumes "0 < nRed" and "\<And>r. r < nRed \<Longrightarrow> mset (stream r) = mset (part nRed r xs)"
  shows "mset (concat (map (\<lambda>r. mr_spec reducef (stream r)) [0..<nRed])) = mset (mr_spec reducef xs)"
proof -
  let ?f = "\<lambda>k. out_line k (reducef k (vals k xs))" and ?A = "kv_Key ` set xs"
  have "mset (concat (map (\<lambda>r. mr_spec reducef (stream r)) [0..<nRed])) = (\<Sum>r<nRed. mset (mr_spec reducef (stream r)))"
    by (rule mset_concat_map)
  also have "\<dots> = (\<Sum>r<nRed. image_mset ?f (mset_set {k \<in> ?A. ihash k mod nRed = r}))"
    using spec_perm [OF assms(2)] by (intro sum.cong) (simp_all add: spec_part mset_sorted_list_of_set)
  also have "\<dots> = image_mset ?f (mset_set ?A)"
    by (rule sum_parts) (use assms(1) in auto)
  also have "\<dots> = mset (mr_spec reducef xs)" by (simp add: mr_spec_def mset_sorted_list_of_set)
  finally show ?thesis .
qed

lemma seq_spec:
  assumes "mset (sorter xs) = mset xs" and "sorted (map kv_Key (sorter xs))"
  shows "seq_lines reducef (sorter xs) = mr_spec reducef xs"
  using seq_lines_spec [OF assms(2)] spec_perm [OF assms(1)] by simp

end

interpretation wc: mr_app wc_Reduce
  by unfold_locales (auto simp: wc_Reduce_def dest: mset_eq_length)

lemma sort_perm: "mset vs = mset ws \<Longrightarrow> sort vs = sort ws" for vs ws :: "string list"
  by (rule properties_for_sort) simp_all

interpretation indexer: mr_app indexer_Reduce
  by unfold_locales (metis indexer_Reduce_def mset_eq_length sort_perm)

interpretation crash: mr_app crash_Reduce
  by unfold_locales (metis crash_Reduce_def sort_perm)

section \<open>Equivalence\<close>

definition reduce_out :: "(string \<Rightarrow> string list \<Rightarrow> string) \<Rightarrow> nat \<Rightarrow> TmpDir \<Rightarrow> string list" where
  "reduce_out reducef r fs = reduce_lines reducef (foldl kvMap_add [] (reduce_stream r fs))"

lemma doReduce_file: "map_of (doReduce reducef r fs outs) (''mr-out-'' @ Itoa r) = Some (concat (reduce_out reducef r fs))"
  by (simp add: doReduce_def writeReduceOutput_def reduce_out_def update_conv')

text \<open>
  The executions of map tasks of a job over \<open>n\<close> input files: every task at least once, in
  any order, by any workers.
\<close>

definition covers :: "nat \<Rightarrow> (nat \<times> nat) list \<Rightarrow> bool" where
  "covers n runs \<longleftrightarrow> fst ` set runs = {..<n}"

lemma job_streams:
  assumes "0 < nRed" and "covers (length files) runs"
  shows "\<exists>fs. run_maps mapf input files nRed runs [] = Some fs \<and>
    (\<forall>r < nRed. mset (reduce_stream r fs) =
       mset (part nRed r (concat (map (task_kvs mapf input files) [0..<length files]))))"
proof -
  let ?k = "task_kvs mapf input files"
  have "map_of [] = intermediate_files nRed ?k {}" by (auto simp: intermediate_files_def)
  from run_maps_files [OF assms(1) this, of runs] assms(2) obtain fs
    where "run_maps mapf input files nRed runs [] = Some fs" "distinct (map fst fs)"
      "map_of fs = intermediate_files nRed ?k {..<length files}"
    by (auto simp: covers_def)
  with reduce_stream_mset show ?thesis by blast
qed

lemma seq_intermediate_kvs:
  assumes "\<forall>f \<in> set files. input f \<noteq> None"
  shows "seq_intermediate mapf input files = Some (concat (map (task_kvs mapf input files) [0..<length files]))"
  using assms
proof (induction files)
  case Nil
  then show ?case by simp
next
  case (Cons f files)
  have "map (task_kvs mapf input (f # files)) [0..<length (f # files)] =
    task_kvs mapf input (f # files) 0 # map (task_kvs mapf input files) [0..<length files]"
    by (simp add: upt_conv_Cons task_kvs_def map_Suc_upt [symmetric] del: upt_Suc)
  moreover obtain y where y: "input f = Some y" using Cons.prems by auto
  moreover have "task_kvs mapf input (f # files) 0 = mapf f y" using y by (simp add: task_kvs_def)
  ultimately have "concat (map (task_kvs mapf input (f # files)) [0..<length (f # files)]) =
    mapf f y @ concat (map (task_kvs mapf input files) [0..<length files])"
    by (simp only: concat.simps)
  with Cons y show ?case by (simp only: seq_intermediate.simps) simp
qed

lemma job_lines:
  assumes "mr_app reducef" and "0 < nRed" and "covers (length files) runs"
    and "run_maps mapf input files nRed runs [] = Some fs"
  shows "mset (concat (map (\<lambda>r. reduce_out reducef r fs) [0..<nRed])) =
    mset (mr_spec reducef (concat (map (task_kvs mapf input files) [0..<length files])))"
proof -
  let ?xs = "concat (map (task_kvs mapf input files) [0..<length files])"
  have "mset (reduce_stream r fs) = mset (part nRed r ?xs)" if "r < nRed" for r
    using job_streams [OF assms(2,3), of mapf input] assms(4) that by auto
  then show ?thesis
    unfolding reduce_out_def reduce_lines_spec by (rule mr_app.reduces_spec [OF assms(1,2)])
qed

lemma seq_output:
  assumes "mr_app reducef" and "\<forall>f \<in> set files. input f \<noteq> None"
    and "\<And>xs. mset (sorter xs) = mset xs" and "\<And>xs. sorted (map kv_Key (sorter xs))"
  shows "mrsequential sorter mapf reducef input files =
    Some (concat (mr_spec reducef (concat (map (task_kvs mapf input files) [0..<length files]))))"
  using mr_app.seq_spec [where sorter = sorter and xs = "concat (map (task_kvs mapf input files) [0..<length files])",
      OF assms(1)] assms(3,4)
  by (simp add: mrsequential_def seq_intermediate_kvs [OF assms(2)])

text \<open>
  C4: the distributed job computes what the sequential program computes. For an application
  whose reduce function ignores the order of its values, after any executions of the map
  tasks that cover the inputs (any order, any workers, any repetitions), the files
  \<^verbatim>\<open>mr-out-0\<close>, \dots that the reduce tasks write hold together exactly the lines that
  \<^verbatim>\<open>mrsequential\<close> writes, whatever the order in which its unstable sort leaves equal keys.
\<close>

theorem distributed_equals_sequential:
  assumes "mr_app reducef" and "0 < nRed" and "covers (length files) runs"
    and "\<forall>f \<in> set files. input f \<noteq> None"
    and "\<And>xs. mset (sorter xs) = mset xs" and "\<And>xs. sorted (map kv_Key (sorter xs))"
  shows "\<exists>fs out lines.
    run_maps mapf input files nRed runs [] = Some fs \<and>
    (\<forall>r < nRed. \<forall>outs. map_of (doReduce reducef r fs outs) (''mr-out-'' @ Itoa r) = Some (concat (out r))) \<and>
    mrsequential sorter mapf reducef input files = Some (concat lines) \<and>
    mset (concat (map out [0..<nRed])) = mset lines"
proof -
  let ?xs = "concat (map (task_kvs mapf input files) [0..<length files])"
  obtain fs where fs: "run_maps mapf input files nRed runs [] = Some fs"
    using job_streams [OF assms(2,3)] by blast
  show ?thesis
    using fs job_lines [OF assms(1-3) fs] seq_output [where sorter = sorter, OF assms(1,4,5,6)]
    by (intro exI [of _ fs] exI [of _ "\<lambda>r. reduce_out reducef r fs"] exI [of _ "mr_spec reducef ?xs"]
        conjI allI impI doReduce_file)
qed

text \<open>
  The two programs differ on an input that cannot be read. The sequential program stops;
  the worker prints a message, maps the empty content, and the job goes on and completes.
\<close>

theorem unreadable_input_mapped_empty:
  assumes "0 < nRed" and "covers (length files) runs" and "f \<in> set files" and "input f = None"
  shows "mrsequential sorter mapf reducef input files = None \<and>
    (\<exists>fs. run_maps mapf input files nRed runs [] = Some fs) \<and>
    doMap mapf input nRed pid f m fs0 = doMap mapf (input(f \<mapsto> [])) nRed pid f m fs0"
proof -
  have "seq_intermediate mapf input files = None"
    using assms(3,4) by (induction files) (auto split: option.split)
  moreover have "\<exists>fs. run_maps mapf input files nRed runs [] = Some fs"
    using job_streams [OF assms(1,2)] by blast
  ultimately show ?thesis using assms(4) by (simp add: mrsequential_def doMap_def)
qed

section \<open>Talking to the coordinator\<close>

datatype Endpoint = UnixSocket string | TcpAddress string

definition coordinatorSock :: "nat \<Rightarrow> string" where
  "coordinatorSock uid = ''/var/tmp/824-mr-'' @ Itoa uid"

text \<open>Where \<open>server\<close> listens and where \<open>call\<close> dials; \<open>location\<close> is never assigned.\<close>

definition server_endpoint :: "nat \<Rightarrow> string \<Rightarrow> Coordinator \<Rightarrow> Endpoint" where
  "server_endpoint uid position c =
     (if position = ''cloud'' then TcpAddress (hostAddr c @ '':'' @ hostPort c) else UnixSocket (coordinatorSock uid))"

definition worker_location :: string where
  "worker_location = ''cloud''"

definition coordinator_addr :: "string \<Rightarrow> string" where
  "coordinator_addr position =
     (if position = ''cloud'' then ''3.230.196.47:8000'' else if position = ''local'' then ''localhost:8000'' else '''')"

definition call_endpoint :: "nat \<Rightarrow> string \<Rightarrow> Endpoint" where
  "call_endpoint uid position =
     (if worker_location \<noteq> ''cloud'' then UnixSocket (coordinatorSock uid) else TcpAddress (coordinator_addr position))"

text \<open>
  A local job cannot run: the coordinator listens on a Unix socket and its worker dials
  a TCP address, since the variable that should tell the worker is always \<^verbatim>\<open>cloud\<close>.
\<close>

theorem local_worker_dials_elsewhere:
  "server_endpoint uid ''local'' (MakeCoordinator body files nRed ''local'') \<noteq> call_endpoint uid' ''local''"
  by (simp add: server_endpoint_def call_endpoint_def worker_location_def)

end
