(* ===== verification/MR_Job.thy ===== *)
theory MR_Job
  imports MR_Worker
begin

text \<open>
  A whole MapReduce job: the loop of \<open>Worker\<close> (\<^verbatim>\<open>Lab3/src/mr/worker.go\<close>) against the
  coordinator, with the temporary directory and the output files as the shared state. One
  worker alone, started on a fresh coordinator, terminates after as many rounds as there are
  tasks and leaves the output of the sequential program.
\<close>

section \<open>The worker\<close>

type_synonym JobState = "Coordinator \<times> TmpDir \<times> (string \<times> bytes) list"

definition requestTask :: "Coordinator \<Rightarrow> nat \<Rightarrow> RequestTaskReply \<times> Coordinator" where
  "requestTask c pid = (case RequestTask c (int pid) of (reply, c1, _) \<Rightarrow> (reply, c1))"

definition completeTask :: "Coordinator \<Rightarrow> TaskType \<Rightarrow> int \<Rightarrow> nat \<Rightarrow> (bool \<times> Coordinator) option" where
  "completeTask c ty i pid = CompleteTask c \<lparr>ct_TaskType = ty, ct_TaskId = i, ct_WorkerId = int pid\<rparr>"

text \<open>
  The loop of \<open>Worker\<close>, one task per round. \<open>None\<close>: the worker panicked or has not
  returned within the given number of rounds. A completion that fails ends the loop.
\<close>

fun Worker_loop ::
  "(string \<Rightarrow> string \<Rightarrow> KeyValue list) \<Rightarrow> (string \<Rightarrow> string list \<Rightarrow> string) \<Rightarrow> (string \<Rightarrow> bytes option) \<Rightarrow> nat \<Rightarrow> nat \<Rightarrow> nat \<Rightarrow>
     JobState \<Rightarrow> JobState option" where
  "Worker_loop mapf reducef input nRed pid 0 s = None"
| "Worker_loop mapf reducef input nRed pid (Suc n) (c, fs, outs) =
     (case requestTask c pid of
        (reply, c1) \<Rightarrow>
          (case rt_TaskType reply of
             ExitTask \<Rightarrow> Some (c1, fs, outs)
           | NoTask \<Rightarrow> Worker_loop mapf reducef input nRed pid n (c1, fs, outs)
           | MapTask \<Rightarrow>
               if rt_TaskFile reply = '''' then Worker_loop mapf reducef input nRed pid n (c1, fs, outs)
               else
                 (case doMap mapf input nRed pid (rt_TaskFile reply) (nat (rt_TaskId reply)) fs of
                    None \<Rightarrow> None
                  | Some fs1 \<Rightarrow>
                      (case completeTask c1 MapTask (rt_TaskId reply) pid of
                         None \<Rightarrow> Some (c1, fs1, outs)
                       | Some (exit, c2) \<Rightarrow>
                           if exit then Some (c2, fs1, outs)
                           else Worker_loop mapf reducef input nRed pid n (c2, fs1, outs)))
           | ReduceTask \<Rightarrow>
               let outs1 = doReduce reducef (nat (rt_TaskId reply)) fs outs in
               (case completeTask c1 ReduceTask (rt_TaskId reply) pid of
                  None \<Rightarrow> Some (c1, fs, outs1)
                | Some (exit, c2) \<Rightarrow>
                    if exit then Some (c2, fs, outs1)
                    else Worker_loop mapf reducef input nRed pid n (c2, fs, outs1))))"

definition Worker ::
  "(string \<Rightarrow> string \<Rightarrow> KeyValue list) \<Rightarrow> (string \<Rightarrow> string list \<Rightarrow> string) \<Rightarrow> (string \<Rightarrow> bytes option) \<Rightarrow> string \<Rightarrow> nat \<Rightarrow> nat \<Rightarrow>
     JobState \<Rightarrow> JobState option" where
  "Worker mapf reducef input position pid rounds s =
     (if position = ''cloud'' \<or> position = ''local''
      then Worker_loop mapf reducef input (GetNReduce (fst s)) pid rounds s else Some s)"

section \<open>A job served by one worker\<close>

definition stage_tasks :: "TaskType \<Rightarrow> (nat \<Rightarrow> string) \<Rightarrow> nat \<Rightarrow> nat \<Rightarrow> nat \<Rightarrow> Task list" where
  "stage_tasks ty file pid n k =
     map (\<lambda>i. \<lparr>task_Type = ty, Status = (if i < k then Completed else NotStarted), Index = int i, File = file i,
                WorkerId = (if i < k then int pid else -1)\<rparr>) [0..<n]"

definition stage :: "string list \<Rightarrow> nat \<Rightarrow> nat \<Rightarrow> nat \<Rightarrow> nat \<Rightarrow> Coordinator" where
  "stage files nRed pid k j =
     \<lparr>hostAddr = ''localhost'', hostPort = ''8000'', nMap = length files, nReduce = nRed, nMapCompleted = k,
      nReduceCompleted = j, mapTasks = stage_tasks MapTask ((!) files) pid (length files) k,
      reduceTasks = stage_tasks ReduceTask (\<lambda>_. '''') pid nRed j\<rparr>"

lemma stage_start: "MakeCoordinator body files nRed ''local'' = stage files nRed pid 0 0"
  by (simp add: MakeCoordinator_def stage_def stage_tasks_def)

lemma select_from_first:
  "j < length ts \<Longrightarrow> Status (ts ! j) = NotStarted \<Longrightarrow> (\<And>l. l < j \<Longrightarrow> Status (ts ! l) \<noteq> NotStarted) \<Longrightarrow>
    select_from k ts = Some (k + j, ts[j := (ts ! j)\<lparr>Status := InProgress, Index := int (k + j)\<rparr>])"
proof (induction ts arbitrary: j k)
  case (Cons t ts)
  show ?case
  proof (cases j)
    case 0
    with Cons.prems show ?thesis by simp
  next
    case (Suc i)
    have "Status t \<noteq> NotStarted" using Cons.prems(3) [of 0] Suc by simp
    moreover have "select_from (Suc k) ts = Some (Suc k + i, ts[i := (ts ! i)\<lparr>Status := InProgress, Index := int (Suc k + i)\<rparr>])"
      by (rule Cons.IH) (use Cons.prems(1,2) Cons.prems(3) [of "Suc _"] Suc in auto)
    ultimately show ?thesis by (simp add: Suc)
  qed
qed simp

lemma stage_tasks_length [simp]: "length (stage_tasks ty file pid n k) = n"
  by (simp add: stage_tasks_def)

lemma stage_tasks_select:
  "k < n \<Longrightarrow> select_from 0 (stage_tasks ty file pid n k) =
     Some (k, (stage_tasks ty file pid n k)[k := \<lparr>task_Type = ty, Status = InProgress, Index = int k, File = file k, WorkerId = -1\<rparr>])"
  using select_from_first [of k "stage_tasks ty file pid n k" 0] by (simp add: stage_tasks_def)

lemma stage_tasks_none: "select_from 0 (stage_tasks ty file pid n n) = None"
  by (auto simp: select_from_None stage_tasks_def)

lemma stage_tasks_next:
  "k < n \<Longrightarrow> (stage_tasks ty file pid n k)[k := \<lparr>task_Type = ty, Status = Completed, Index = int k, File = file k, WorkerId = int pid\<rparr>] =
     stage_tasks ty file pid n (Suc k)"
  by (rule nth_equalityI) (auto simp: stage_tasks_def nth_list_update)

lemma stage_map_round:
  assumes "k < length files"
  shows "\<exists>c1. requestTask (stage files nRed pid k 0) pid =
      (\<lparr>rt_TaskType = MapTask, rt_TaskId = int k, rt_TaskFile = files ! k\<rparr>, c1) \<and>
    completeTask c1 MapTask (int k) pid = Some (Suc k = length files \<and> 0 = nRed, stage files nRed pid (Suc k) 0)"
  using assms stage_tasks_next [of k "length files" MapTask "(!) files" pid]
  by (simp add: requestTask_def RequestTask_def selectTask_def stage_def stage_tasks_select assignTask_def Let_def
      deref.simps update_task.simps completeTask_def CompleteTask_def canExit_def)

lemma stage_reduce_round:
  assumes "j < nRed"
  shows "\<exists>c1. requestTask (stage files nRed pid (length files) j) pid =
      (\<lparr>rt_TaskType = ReduceTask, rt_TaskId = int j, rt_TaskFile = ''''\<rparr>, c1) \<and>
    completeTask c1 ReduceTask (int j) pid = Some (Suc j = nRed, stage files nRed pid (length files) (Suc j))"
  using assms stage_tasks_next [of j nRed ReduceTask "\<lambda>_. ''''" pid]
  by (simp add: requestTask_def RequestTask_def selectTask_def stage_def stage_tasks_select stage_tasks_none assignTask_def
      Let_def deref.simps update_task.simps completeTask_def CompleteTask_def canExit_def)

lemma Worker_loop_map:
  assumes "k < length files" and "files ! k \<noteq> ''''" and "0 < nRed"
    and "doMap mapf input nRed pid (files ! k) k fs = Some fs1"
  shows "Worker_loop mapf reducef input nRed pid (Suc n) (stage files nRed pid k 0, fs, outs) =
    Worker_loop mapf reducef input nRed pid n (stage files nRed pid (Suc k) 0, fs1, outs)"
proof -
  obtain c1 where "requestTask (stage files nRed pid k 0) pid =
      (\<lparr>rt_TaskType = MapTask, rt_TaskId = int k, rt_TaskFile = files ! k\<rparr>, c1)"
    and "completeTask c1 MapTask (int k) pid = Some (Suc k = length files \<and> 0 = nRed, stage files nRed pid (Suc k) 0)"
    using stage_map_round [OF assms(1)] by blast
  with assms(2-4) show ?thesis by simp
qed

lemma Worker_loop_maps:
  assumes "\<forall>f \<in> set files. f \<noteq> ''''" and "0 < nRed"
  shows "k + m = length files \<Longrightarrow> run_maps mapf input files nRed (map (\<lambda>i. (i, pid)) [k..<length files]) fs = Some fs' \<Longrightarrow>
    Worker_loop mapf reducef input nRed pid (m + n) (stage files nRed pid k 0, fs, outs) =
    Worker_loop mapf reducef input nRed pid n (stage files nRed pid (length files) 0, fs', outs)"
proof (induction m arbitrary: k fs)
  case 0
  then show ?case by simp
next
  case (Suc m)
  then have k: "k < length files" by simp
  then have up: "[k..<length files] = k # [Suc k..<length files]" by (rule upt_conv_Cons)
  obtain fs1 where d: "doMap mapf input nRed pid (files ! k) k fs = Some fs1"
    and r: "run_maps mapf input files nRed (map (\<lambda>i. (i, pid)) [Suc k..<length files]) fs1 = Some fs'"
    using Suc.prems(2) by (auto simp: up split: option.splits)
  have "files ! k \<noteq> ''''" using assms(1) k by simp
  from Worker_loop_map [OF k this assms(2) d] Suc.IH [OF _ r] Suc.prems(1) show ?case by simp
qed

lemma Worker_loop_reduce:
  assumes "j < nRed"
  shows "Worker_loop mapf reducef input nRed pid (Suc n) (stage files nRed pid (length files) j, fs, outs) =
    (if Suc j = nRed then Some (stage files nRed pid (length files) (Suc j), fs, doReduce reducef j fs outs)
     else Worker_loop mapf reducef input nRed pid n
       (stage files nRed pid (length files) (Suc j), fs, doReduce reducef j fs outs))"
proof -
  obtain c1 where "requestTask (stage files nRed pid (length files) j) pid =
      (\<lparr>rt_TaskType = ReduceTask, rt_TaskId = int j, rt_TaskFile = ''''\<rparr>, c1)"
    and "completeTask c1 ReduceTask (int j) pid = Some (Suc j = nRed, stage files nRed pid (length files) (Suc j))"
    using stage_reduce_round [OF assms] by blast
  then show ?thesis by (simp add: Let_def)
qed

lemma Worker_loop_reduces:
  "j + Suc m = nRed \<Longrightarrow>
    Worker_loop mapf reducef input nRed pid (Suc m + e) (stage files nRed pid (length files) j, fs, outs) =
    Some (stage files nRed pid (length files) nRed, fs, foldl (\<lambda>o1 r. doReduce reducef r fs o1) outs [j..<nRed])"
proof (induction m arbitrary: j outs)
  case 0
  then show ?case
    using Worker_loop_reduce [of j nRed mapf reducef input pid e] by (simp add: upt_conv_Cons del: Worker_loop.simps)
next
  case (Suc m)
  then show ?case
    using Worker_loop_reduce [of j nRed mapf reducef input pid "Suc m + e"] Suc.IH [of "Suc j"]
    by (simp add: upt_conv_Cons del: Worker_loop.simps)
qed

lemma doReduces_files:
  "map_of (foldl (\<lambda>o1 r. doReduce reducef r fs o1) outs [j..<n]) (''mr-out-'' @ Itoa r) =
     (if j \<le> r \<and> r < n then Some (concat (reduce_out reducef r fs)) else map_of outs (''mr-out-'' @ Itoa r))"
  by (induction n)
    (auto simp: doReduce_def writeReduceOutput_def reduce_out_def update_conv' Itoa_inj less_Suc_eq upt_conv_Nil not_le)


end
