(* ===== verification/MR_Example.thy ===== *)
theory MR_Example
  imports MR_Job
begin

text \<open>
  A concrete job, on which the theorems about MapReduce are applied: one input file, one
  reduce task, a worker with process id 7; and the word count over two small files.
\<close>

section \<open>A run of the coordinator\<close>

definition exC0 :: Coordinator where
  "exC0 = MakeCoordinator '''' [''f''] 1 ''local''"

definition ex_map :: "TaskStatus \<Rightarrow> int \<Rightarrow> Task" where
  "ex_map st wid = \<lparr>task_Type = MapTask, Status = st, Index = 0, File = ''f'', WorkerId = wid\<rparr>"

definition ex_reduce :: "TaskStatus \<Rightarrow> int \<Rightarrow> Task" where
  "ex_reduce st wid = \<lparr>task_Type = ReduceTask, Status = st, Index = 0, File = '''', WorkerId = wid\<rparr>"

definition exC :: "nat \<Rightarrow> Task \<Rightarrow> Task \<Rightarrow> Coordinator" where
  "exC k m r = \<lparr>hostAddr = ''localhost'', hostPort = ''8000'', nMap = 1, nReduce = 1, nMapCompleted = k,
     nReduceCompleted = 0, mapTasks = [m], reduceTasks = [r]\<rparr>"

definition exS :: "Coordinator \<Rightarrow> (TaskRef \<times> int) list \<Rightarrow> TaskRef list \<Rightarrow> MRState" where
  "exS c ps ts = \<lparr>coord = c, pending = ps, timers = ts\<rparr>"

lemmas ex_defs = exC_def exS_def ex_map_def ex_reduce_def

lemma exS_simps [simp]: "coord (exS c ps ts) = c" "pending (exS c ps ts) = ps" "timers (exS c ps ts) = ts"
  "(exS c ps ts)\<lparr>coord := d\<rparr> = exS d ps ts" "(exS c ps ts)\<lparr>pending := qs\<rparr> = exS c qs ts"
  "(exS c ps ts)\<lparr>timers := us\<rparr> = exS c ps us"
  by (simp_all add: exS_def)

lemma ex_reach0: "reach mr_start mr_step (exS (exC 0 (ex_map NotStarted (-1)) (ex_reduce NotStarted (-1))) [] [])"
proof (rule reach_init)
  have "MakeCoordinator '''' [''f''] 1 ''local'' = exC 0 (ex_map NotStarted (-1)) (ex_reduce NotStarted (-1))"
    by (simp add: MakeCoordinator_def ex_defs)
  then show "mr_start (exS (exC 0 (ex_map NotStarted (-1)) (ex_reduce NotStarted (-1))) [] [])"
    unfolding mr_start_def exS_def by metis
qed

lemma ex_step1:
  "mr_step (exS (exC 0 (ex_map NotStarted (-1)) (ex_reduce NotStarted (-1))) [] [])
     (exS (exC 0 (ex_map InProgress (-1)) (ex_reduce NotStarted (-1))) [(MapRef 0, 7)] [])"
  using mr_select [of "exS (exC 0 (ex_map NotStarted (-1)) (ex_reduce NotStarted (-1))) [] []" "MapRef 0"
      "exC 0 (ex_map InProgress (-1)) (ex_reduce NotStarted (-1))" 7]
  by (simp add: selectTask_def) (simp add: ex_defs)

lemma ex_step2:
  "mr_step (exS (exC 0 (ex_map InProgress (-1)) (ex_reduce NotStarted (-1))) [(MapRef 0, 7)] [])
     (exS (exC 0 (ex_map InProgress 7) (ex_reduce NotStarted (-1))) [] [MapRef 0])"
  using mr_assign [of "exS (exC 0 (ex_map InProgress (-1)) (ex_reduce NotStarted (-1))) [(MapRef 0, 7)] []" "[]"
      "MapRef 0" 7 "[]" "\<lparr>rt_TaskType = MapTask, rt_TaskId = 0, rt_TaskFile = ''f''\<rparr>"
      "exC 0 (ex_map InProgress 7) (ex_reduce NotStarted (-1))" True]
  by (simp add: assignTask_def update_task.simps deref.simps Let_def) (simp add: ex_defs)

lemma ex_step3:
  "mr_step (exS (exC 0 (ex_map InProgress 7) (ex_reduce NotStarted (-1))) [] [MapRef 0])
     (exS (exC 1 (ex_map Completed 7) (ex_reduce NotStarted (-1))) [] [MapRef 0])"
proof -
  have "CompleteTask (exC 0 (ex_map InProgress 7) (ex_reduce NotStarted (-1)))
      \<lparr>ct_TaskType = MapTask, ct_TaskId = 0, ct_WorkerId = 7\<rparr> = Some (False, exC 1 (ex_map Completed 7) (ex_reduce NotStarted (-1)))"
    by (simp add: CompleteTask_def Let_def canExit_def update_task.simps deref.simps exC_def ex_map_def ex_reduce_def)
  from mr_complete [of "exS _ [] [MapRef 0]", simplified, OF this] show ?thesis by simp
qed

lemma ex_step4:
  "mr_step (exS (exC 1 (ex_map Completed 7) (ex_reduce NotStarted (-1))) [] [MapRef 0])
     (exS (exC 1 (ex_map Completed 7) (ex_reduce InProgress (-1))) [(ReduceRef 0, 7)] [MapRef 0])"
  using mr_select [of "exS (exC 1 (ex_map Completed 7) (ex_reduce NotStarted (-1))) [] [MapRef 0]" "ReduceRef 0"
      "exC 1 (ex_map Completed 7) (ex_reduce InProgress (-1))" 7]
  by (simp add: selectTask_def) (simp add: ex_defs)

lemma ex_reach1: "reach mr_start mr_step (exS (exC 0 (ex_map InProgress (-1)) (ex_reduce NotStarted (-1))) [(MapRef 0, 7)] [])"
  by (rule reach_step [OF ex_reach0 ex_step1])

lemma ex_reach3: "reach mr_start mr_step (exS (exC 1 (ex_map Completed 7) (ex_reduce NotStarted (-1))) [] [MapRef 0])"
  by (rule reach_step [OF reach_step [OF ex_reach1 ex_step2] ex_step3])

lemma ex_reach4: "reach mr_start mr_step (exS (exC 1 (ex_map Completed 7) (ex_reduce InProgress (-1))) [(ReduceRef 0, 7)] [MapRef 0])"
  by (rule reach_step [OF ex_reach3 ex_step4])

theorem done_iff_all_completed_witness: "\<not> Done (exC 1 (ex_map Completed 7) (ex_reduce InProgress (-1)))"
  using done_iff_all_completed [OF ex_reach4] by (simp add: ex_defs)

theorem reduce_only_after_maps_witness:
  "map Status (mapTasks (exC 1 (ex_map Completed 7) (ex_reduce InProgress (-1)))) = [Completed]"
  using reduce_only_after_maps [OF ex_reach4, of 0] by (simp add: ex_defs)

theorem in_progress_has_one_watcher_witness:
  "watchers (exS (exC 0 (ex_map InProgress (-1)) (ex_reduce NotStarted (-1))) [(MapRef 0, 7)] []) (MapRef 0) = 1"
  using in_progress_has_one_watcher [OF ex_reach1, of "MapRef 0"]
  by (simp add: in_table.simps deref.simps) (simp add: ex_defs)

theorem completed_stays_completed_witness:
  "Status (deref (exC 1 (ex_map Completed 7) (ex_reduce InProgress (-1))) (MapRef 0)) = Completed"
  using completed_stays_completed [OF ex_reach3 r_into_rtranclp [of mr_step, OF ex_step4], of "MapRef 0"]
  by (simp add: in_table.simps deref.simps) (simp add: ex_defs)

theorem stale_completion_ignored_witness:
  "\<exists>reply. CompleteTask (exC 0 (ex_map InProgress (-1)) (ex_reduce NotStarted (-1)))
     \<lparr>ct_TaskType = MapTask, ct_TaskId = 0, ct_WorkerId = 7\<rparr> =
     Some (reply, exC 0 (ex_map InProgress (-1)) (ex_reduce NotStarted (-1)))"
proof -
  let ?c = "exC 0 (ex_map InProgress (-1)) (ex_reduce NotStarted (-1))"
  let ?a = "\<lparr>ct_TaskType = MapTask, ct_TaskId = 0, ct_WorkerId = 7\<rparr>"
  obtain reply c where r: "CompleteTask ?c ?a = Some (reply, c)"
    by (simp add: CompleteTask_def Let_def exC_def)
  have "idle (exS ?c [(MapRef 0, 7)] []) (args_ref ?a)"
    by (simp add: idle_def args_ref_def in_table.simps deref.simps) (simp add: ex_defs)
  with stale_completion_ignored [OF ex_reach1, of ?a reply c] r show ?thesis by auto
qed

theorem exit_iff_done_witness:
  "fst (selectTask (exC 1 (ex_map Completed 7) (ex_reduce InProgress (-1)))) \<noteq> FreshTask ExitTask"
  using exit_iff_done [OF ex_reach4] by (simp add: Done_def) (simp add: exC_def)


section \<open>Word count\<close>

definition ex_input :: "string \<Rightarrow> bytes option" where
  "ex_input = [''f'' \<mapsto> ''a b a'', ''g'' \<mapsto> ''b c'']"

theorem writeMapOutput_partitions_witness:
  "\<exists>fs'. writeMapOutput 2 7 (wc_Map ''f'' ''a b a'') 0 [] = Some fs' \<and>
     map_of fs' (final_path 0 1) = Some (part 2 1 (wc_Map ''f'' ''a b a''))"
  using writeMapOutput_partitions [of 2 7 "wc_Map ''f'' ''a b a''" 0 "[]"] by auto

theorem distributed_equals_sequential_witness:
  "\<exists>fs lines. run_maps wc_Map ex_input [''f'', ''g''] 2 [(1, 8), (0, 7), (1, 9)] [] = Some fs \<and>
     mrsequential (sort_key kv_Key) wc_Map wc_Reduce ex_input [''f'', ''g''] = Some (concat lines)"
  using distributed_equals_sequential [OF wc.mr_app_axioms, of 2 "[''f'', ''g'']" "[(1, 8), (0, 7), (1, 9)]" ex_input
      "sort_key kv_Key" wc_Map]
  by (auto simp: covers_def ex_input_def lessThan_Suc numeral_2_eq_2)

theorem unreadable_input_mapped_empty_witness:
  "mrsequential (sort_key kv_Key) wc_Map wc_Reduce ex_input [''h''] = None \<and>
     (\<exists>fs. run_maps wc_Map ex_input [''h''] 2 [(0, 7)] [] = Some fs)"
proof -
  have c: "covers (length [''h'']) [(0, 7)]" by (simp add: covers_def lessThan_Suc)
  have h: "''h'' \<in> set [''h'']" and n: "ex_input ''h'' = None" by (simp_all add: ex_input_def)
  from unreadable_input_mapped_empty [where input = ex_input, OF zero_less_numeral c h n] show ?thesis by blast
qed


end
