(* ===== verification/Go_JSON.thy ===== *)
theory Go_JSON
  imports Go_Prelude "HOL-Library.Monad_Syntax"
begin

text \<open>
  The part of \<^verbatim>\<open>encoding/json\<close> that the MapReduce worker uses: the stream of objects
  with two string fields that \<open>Encoder.Encode\<close> writes, one per line, and that
  \<open>Decoder.Decode\<close> reads back. Strings are escaped as the encoder does (with HTML escaping,
  which is on by default); bytes from 128 on are parts of valid UTF-8 and stand for themselves.
\<close>

section \<open>Strings\<close>

definition hexdigit :: "nat \<Rightarrow> char" where
  "hexdigit d = (if d < 10 then char_of (48 + d) else char_of (87 + d))"

definition hexval :: "char \<Rightarrow> nat option" where
  "hexval c =
     (let n = of_char c in
      if 48 \<le> n \<and> n \<le> 57 then Some (n - 48)
      else if 97 \<le> n \<and> n \<le> 102 then Some (n - 87)
      else if 65 \<le> n \<and> n \<le> 70 then Some (n - 55)
      else None)"

definition json_char :: "char \<Rightarrow> string" where
  "json_char c =
     (if c = CHR 0x22 then [CHR 0x5C, CHR 0x22]
      else if c = CHR 0x5C then [CHR 0x5C, CHR 0x5C]
      else if c = CHR 0x0A then [CHR 0x5C, CHR ''n'']
      else if c = CHR 0x0D then [CHR 0x5C, CHR ''r'']
      else if c = CHR 0x09 then [CHR 0x5C, CHR ''t'']
      else if (of_char c :: nat) < 32 \<or> c = CHR ''<'' \<or> c = CHR ''>'' \<or> c = CHR ''&''
      then [CHR 0x5C, CHR ''u'', CHR ''0'', CHR ''0'', hexdigit (of_char c div 16), hexdigit (of_char c mod 16)]
      else [c])"

definition json_string :: "string \<Rightarrow> string" where
  "json_string s = CHR 0x22 # concat (map json_char s) @ [CHR 0x22]"

text \<open>
  The decoder, after the opening quote: the string and the rest behind the closing quote. Escapes of
  characters beyond 255 are not read here; the encoder writes none.
\<close>

definition json_escape :: "char \<Rightarrow> char option" where
  "json_escape c =
     map_of [(CHR 0x22, CHR 0x22), (CHR 0x5C, CHR 0x5C), (CHR ''/'', CHR ''/''), (CHR ''b'', CHR 0x08), (CHR ''f'', CHR 0x0C),
       (CHR ''n'', CHR 0x0A), (CHR ''r'', CHR 0x0D), (CHR ''t'', CHR 0x09)] c"

fun unquote :: "string \<Rightarrow> (string \<times> string) option" where
  "unquote [] = None"
| "unquote (c # cs) =
     (if c = CHR 0x22 then Some ([], cs)
      else if (of_char c :: nat) < 32 then None
      else if c = CHR 0x5C then
        (case cs of
           [] \<Rightarrow> None
         | e # ds \<Rightarrow>
             if e = CHR ''u'' then
               (case ds of
                  z1 # z2 # h # l # rest \<Rightarrow>
                    (case (hexval h, hexval l) of
                       (Some a, Some b) \<Rightarrow>
                         if z1 = CHR ''0'' \<and> z2 = CHR ''0''
                         then map_option (apfst ((#) (char_of (16 * a + b)))) (unquote rest) else None
                     | _ \<Rightarrow> None)
                | _ \<Rightarrow> None)
             else
               (case json_escape e of
                  None \<Rightarrow> None
                | Some x \<Rightarrow> map_option (apfst ((#) x)) (unquote ds)))
      else map_option (apfst ((#) c)) (unquote cs))"

lemma hexval_digit: "d < 16 \<Longrightarrow> hexval (hexdigit d) = Some d"
  by (auto simp: hexval_def hexdigit_def Let_def)

lemma unquote_char: "unquote (json_char c @ t) = map_option (apfst ((#) c)) (unquote t)"
proof (cases "(of_char c :: nat) < 32 \<or> c = CHR ''<'' \<or> c = CHR ''>'' \<or> c = CHR ''&''")
  case True
  have b: "(of_char c :: nat) div 16 < 16" "(of_char c :: nat) mod 16 < 16"
    by (rule less_mult_imp_div_less, use nat_of_char_less_256 [of c] in simp) simp
  have c: "char_of (16 * ((of_char c :: nat) div 16) + of_char c mod 16) = c" by simp
  show ?thesis
    using True by (auto simp: json_char_def json_escape_def hexval_digit [OF b(1)] hexval_digit [OF b(2)] c)
next
  case False
  then show ?thesis by (auto simp: json_char_def json_escape_def)
qed

lemma unquote_string: "unquote (concat (map json_char s) @ CHR 0x22 # t) = Some (s, t)"
  by (induction s) (simp_all add: unquote_char)

section \<open>Streams of pairs\<close>

definition json_pair :: "string \<times> string \<Rightarrow> string" where
  "json_pair kv = ''{'' @ json_string ''Key'' @ '':'' @ json_string (fst kv) @ '','' @ json_string ''Value'' @ '':'' @
     json_string (snd kv) @ ''}'' @ [CHR 0x0A]"

definition json_stream :: "(string \<times> string) list \<Rightarrow> bytes" where
  "json_stream kvs = concat (map json_pair kvs)"

text \<open>Objects in the form in which the encoder writes them; white space before an object is skipped.\<close>

fun expect :: "string \<Rightarrow> string \<Rightarrow> string option" where
  "expect [] s = Some s"
| "expect (p # ps) [] = None"
| "expect (p # ps) (c # cs) = (if p = c then expect ps cs else None)"

definition is_space :: "char \<Rightarrow> bool" where
  "is_space c \<longleftrightarrow> c = CHR '' '' \<or> c = CHR 0x09 \<or> c = CHR 0x0A \<or> c = CHR 0x0D"

definition parse_pair :: "string \<Rightarrow> ((string \<times> string) \<times> string) option" where
  "parse_pair s = do {
     s \<leftarrow> expect (''{'' @ json_string ''Key'' @ '':'' @ [CHR 0x22]) s;
     (k, s) \<leftarrow> unquote s;
     s \<leftarrow> expect ('','' @ json_string ''Value'' @ '':'' @ [CHR 0x22]) s;
     (v, s) \<leftarrow> unquote s;
     s \<leftarrow> expect ''}'' s;
     Some ((k, v), s)
   }"

lemma expect_length: "expect p s = Some r \<Longrightarrow> length s = length p + length r"
  by (induction p s rule: expect.induct) (auto split: if_splits)

lemma unquote_length: "unquote s = Some (x, r) \<Longrightarrow> length r < length s"
  by (induction s arbitrary: x rule: unquote.induct)
    (fastforce split: if_splits list.splits option.splits)+

lemma parse_pair_length: "parse_pair s = Some (kv, r) \<Longrightarrow> length r < length s"
  by (auto simp: parse_pair_def bind_eq_Some_conv dest!: expect_length unquote_length)

text \<open>
  \<open>for decoder.More() { decoder.Decode(&kv) }\<close>: a decoding error does not advance the
  decoder, so the loop of the worker then never ends; this is \<open>None\<close>.
\<close>

function parse_stream :: "string \<Rightarrow> (string \<times> string) list option" where
  "parse_stream s =
     (case dropWhile is_space s of
        [] \<Rightarrow> Some []
      | c # cs \<Rightarrow>
          if c = CHR ''}'' \<or> c = CHR '']'' then Some []
          else (case parse_pair (c # cs) of
                  None \<Rightarrow> None
                | Some (kv, rest) \<Rightarrow> map_option ((#) kv) (parse_stream rest)))"
  by pat_completeness auto
termination
proof (relation "measure length")
  fix s c cs p kv rest
  assume "dropWhile is_space s = c # cs" "parse_pair (c # cs) = Some p" "(kv, rest) = p"
  then have "length rest < length (c # cs)" "length (c # cs) \<le> length s"
    using parse_pair_length [of "c # cs" kv rest] length_dropWhile_le [of is_space s] by auto
  then show "(rest, s) \<in> measure length" by simp
qed simp

declare parse_stream.simps [simp del]

lemma expect_append [simp]: "expect p (p @ t) = Some t"
  by (induction p) simp_all

lemma parse_pair_encoded: "parse_pair (json_pair kv @ t) = Some (kv, CHR 0x0A # t)"
  using expect_append [of "''{'' @ json_string ''Key'' @ '':'' @ [CHR 0x22]"]
    expect_append [of "'','' @ json_string ''Value'' @ '':'' @ [CHR 0x22]"]
  by (simp add: parse_pair_def json_pair_def json_string_def [of "fst kv"] json_string_def [of "snd kv"] unquote_string)

lemma parse_stream_newline: "parse_stream (CHR 0x0A # s) = parse_stream s"
  by (subst (1 2) parse_stream.simps) (simp add: is_space_def)

text \<open>
  What the decoder reads from a file that the encoder wrote are the pairs that were
  written, whatever characters they contain.
\<close>

theorem json_roundtrip: "parse_stream (json_stream kvs) = Some kvs"
proof (induction kvs)
  case Nil
  show ?case by (simp add: json_stream_def parse_stream.simps)
next
  case (Cons kv kvs)
  let ?t = "json_stream kvs"
  obtain cs where cs: "json_pair kv @ ?t = CHR ''{'' # cs" by (simp add: json_pair_def)
  have "parse_pair (CHR ''{'' # cs) = Some (kv, CHR 0x0A # ?t)" using parse_pair_encoded [of kv ?t] cs by simp
  then have "parse_stream (json_pair kv @ ?t) = map_option ((#) kv) (parse_stream (CHR 0x0A # ?t))"
    unfolding cs by (subst parse_stream.simps) (simp add: is_space_def)
  then show ?case using Cons by (simp add: json_stream_def parse_stream_newline)
qed

end
