(* ===== verification/MR_Cloud.thy ===== *)
theory MR_Cloud
  imports MR_Worker Go_Disk Go_JSON
begin

text \<open>
  MapReduce on several machines: the file server (\<^verbatim>\<open>Lab3/FileServer/SimpleServer.go\<close>) and the
  branches of \<^verbatim>\<open>worker.go\<close> and \<^verbatim>\<open>coordinator.go\<close> that are taken in cloud mode. Workers
  no longer share a directory: a map task works in the directory of its machine and uploads its
  files, a reduce task downloads what it needs, and the coordinator fetches the results. A
  request to the server is one step; names in URLs are plain, so that the path in the URL
  is the path on the server. The main result: on a clean server the job writes the lines of the
  sequential program. A server that still has files of an earlier job spoils the result.
\<close>

section \<open>The file server\<close>

text \<open>The names in a directory, with those of its subdirectories, as \<open>ioutil.ReadDir\<close> sorts them.\<close>

definition dir_names :: "Disk \<Rightarrow> string \<Rightarrow> string list option" where
  "dir_names d dir =
     (if dir \<in> set (ddirs d)
      then Some (sort (map basename (filter (\<lambda>p. dirname p = dir) (map fst (dfiles d) @ ddirs d))))
      else None)"

text \<open>An empty directory can be removed, too.\<close>

definition os_RemovePath :: "Disk \<Rightarrow> string \<Rightarrow> bool \<times> Disk" where
  "os_RemovePath d p =
     (if p \<in> set (ddirs d) then
        (if filter (\<lambda>q. dirname q = p) (map fst (dfiles d) @ ddirs d) = [] then (True, d\<lparr>ddirs := removeAll p (ddirs d)\<rparr>)
         else (False, d))
      else os_Remove d p)"

text \<open>
  \<open>None\<close> is \<open>log.Fatal\<close>: the server process ends and the client gets an error. Opening a
  directory works but reading it fails, with the same effect.
\<close>

definition getFile :: "Disk \<Rightarrow> string \<Rightarrow> string \<Rightarrow> bytes \<Rightarrow> (bytes \<times> Disk) option" where
  "getFile d method path body =
     (if method = ''GET'' then
        (case read_file d (''.'' @ path) of None \<Rightarrow> None | Some content \<Rightarrow> Some (content, d))
      else if method = ''POST'' then
        (let file_name = ''.'' @ path;
             (ok, d) = (if os_Exists d file_name then os_RemovePath d file_name else (True, d)) in
         if \<not> ok then None
         else (case os_Create d file_name of
                 (False, _) \<Rightarrow> None
               | (True, d) \<Rightarrow> Some ([], snd (file_Write d file_name body))))
      else Some ([], d))"

text \<open>A listing, of names without a percent sign: each name is passed to \<open>Fprintf\<close> as its format.\<close>

definition name_list :: "string list \<Rightarrow> bytes" where
  "name_list names = concat (map (\<lambda>n. n @ '' '') names)"

definition homePage :: "Disk \<Rightarrow> string \<Rightarrow> string \<Rightarrow> bytes \<Rightarrow> (bytes \<times> Disk) option" where
  "homePage d method path body =
     (let welcome = (if path = ''/'' then ''Welcome to the File storage server!'' else '''') in
      if (path = ''/root'' \<or> path = ''/root/'') \<and> method = ''GET'' then
        (case dir_names d ''./root'' of None \<Rightarrow> None | Some names \<Rightarrow> Some (welcome @ name_list names, d))
      else if (path = ''/root/tmp'' \<or> path = ''/root/tmp/'') \<and> method = ''GET'' then
        (case dir_names d ''./root/tmp'' of None \<Rightarrow> None | Some names \<Rightarrow> Some (welcome @ name_list names, d))
      else
        (case getFile d method path body of None \<Rightarrow> None | Some (out, d) \<Rightarrow> Some (welcome @ out, d)))"

section \<open>The worker\<close>

text \<open>
  The result of a task is \<open>None\<close> when it does not complete: the worker or the server ended
  with \<open>log.Fatal\<close>, or the worker divided by zero or loops on a file that is not JSON.
\<close>

definition file_bytes :: "KeyValue list \<Rightarrow> bytes" where
  "file_bytes kvs = json_stream (map (\<lambda>kv. (kv_Key kv, kv_Value kv)) kvs)"

definition file_pairs :: "bytes \<Rightarrow> KeyValue list option" where
  "file_pairs b = map_option (map (\<lambda>(k, v). \<lparr>kv_Key = k, kv_Value = v\<rparr>)) (parse_stream b)"

fun rename_upload :: "nat \<Rightarrow> nat \<Rightarrow> nat list \<Rightarrow> TmpDir \<Rightarrow> Disk \<Rightarrow> (TmpDir \<times> Disk) option" where
  "rename_upload pid mapId [] fs srv = Some (fs, srv)"
| "rename_upload pid mapId (i # is) fs srv =
     (let newPath = final_path mapId i;
          fs = os_Rename (temp_path pid mapId i) newPath fs;
          content = (case map_of fs newPath of None \<Rightarrow> [] | Some kvs \<Rightarrow> file_bytes kvs) in
      (case homePage srv ''POST'' (''/root/'' @ newPath) content of
         None \<Rightarrow> None
       | Some (_, srv) \<Rightarrow> rename_upload pid mapId is fs srv))"

definition writeMapOutput_cloud ::
  "nat \<Rightarrow> nat \<Rightarrow> KeyValue list \<Rightarrow> nat \<Rightarrow> TmpDir \<Rightarrow> Disk \<Rightarrow> (TmpDir \<times> Disk) option" where
  "writeMapOutput_cloud nRed pid kvs mapId fs srv =
     (if nRed = 0 \<and> kvs \<noteq> [] then None
      else
        let fs1 = foldl (\<lambda>d i. AList.update (temp_path pid mapId i) [] d) fs [0..<nRed];
            fs2 = foldl (\<lambda>d kv. file_append (temp_path pid mapId (ihash (kv_Key kv) mod nRed)) kv d) fs1 kvs
        in rename_upload pid mapId [0..<nRed] fs2 srv)"

definition doMap_cloud ::
  "(string \<Rightarrow> string \<Rightarrow> KeyValue list) \<Rightarrow> nat \<Rightarrow> nat \<Rightarrow> string \<Rightarrow> nat \<Rightarrow> TmpDir \<Rightarrow> Disk \<Rightarrow> (TmpDir \<times> Disk) option" where
  "doMap_cloud mapf nRed pid filepath mapId fs srv =
     (case homePage srv ''GET'' (''/root/'' @ filepath) [] of
        None \<Rightarrow> None
      | Some (content, srv) \<Rightarrow> writeMapOutput_cloud nRed pid (mapf filepath content) mapId fs srv)"

definition reduce_names :: "nat \<Rightarrow> bytes \<Rightarrow> string list" where
  "reduce_names reduceId content =
     filter (\<lambda>file. HasPrefix file ''mr-'' \<and> HasSuffix file (CHR ''-'' # Itoa reduceId)) (split_on CHR '' '' content)"

fun download_pairs :: "string list \<Rightarrow> Disk \<Rightarrow> (KeyValue list \<times> Disk) option" where
  "download_pairs [] srv = Some ([], srv)"
| "download_pairs (file # files) srv =
     (case homePage srv ''GET'' (''/root/tmp/'' @ file) [] of
        None \<Rightarrow> None
      | Some (content, srv) \<Rightarrow>
          (case file_pairs content of
             None \<Rightarrow> None
           | Some kvs \<Rightarrow> map_option (apfst ((@) kvs)) (download_pairs files srv)))"

definition doReduce_cloud ::
  "(string \<Rightarrow> string list \<Rightarrow> string) \<Rightarrow> nat \<Rightarrow> (string \<times> bytes) list \<Rightarrow> Disk \<Rightarrow> ((string \<times> bytes) list \<times> Disk) option" where
  "doReduce_cloud reducef reduceId outs srv =
     (case homePage srv ''GET'' ''/root/tmp'' [] of
        None \<Rightarrow> None
      | Some (listing, srv) \<Rightarrow>
          (case download_pairs (reduce_names reduceId listing) srv of
             None \<Rightarrow> None
           | Some (kvs, srv) \<Rightarrow>
               let outs = writeReduceOutput reducef (foldl kvMap_add [] kvs) reduceId outs;
                   newPath = ''mr-out-'' @ Itoa reduceId;
                   content = (case map_of outs newPath of None \<Rightarrow> [] | Some c \<Rightarrow> c) in
               (case homePage srv ''POST'' (''/root/'' @ newPath) content of
                  None \<Rightarrow> None
                | Some (_, srv) \<Rightarrow> Some (outs, srv))))"

section \<open>The coordinator\<close>

definition cloud_files :: "string \<Rightarrow> Disk \<Rightarrow> (string list \<times> Disk) option" where
  "cloud_files lit srv =
     (case homePage srv ''GET'' ''/root'' [] of
        None \<Rightarrow> None
      | Some (body, srv) \<Rightarrow> Some (getCloudFileList body lit, srv))"

fun download_results :: "string list \<Rightarrow> Disk \<Rightarrow> Disk \<Rightarrow> (Disk \<times> Disk) option" where
  "download_results [] srv local = Some (srv, local)"
| "download_results (file # files) srv local =
     (case homePage srv ''GET'' (''/root/'' @ file) [] of
        None \<Rightarrow> None
      | Some (body, srv) \<Rightarrow>
          (case write_file local file body of
             (False, _) \<Rightarrow> None
           | (True, local) \<Rightarrow> download_results files srv local))"

text \<open>\<open>Done\<close> in cloud mode: the results are fetched once all tasks are completed.\<close>

definition Done_cloud :: "Coordinator \<Rightarrow> Disk \<Rightarrow> Disk \<Rightarrow> (bool \<times> Disk \<times> Disk) option" where
  "Done_cloud c srv local =
     (if \<not> Done c then Some (False, srv, local)
      else
        (case cloud_files ''mr-ou'' srv of
           None \<Rightarrow> None
         | Some (files_list, srv) \<Rightarrow>
             (case download_results files_list srv local of
                None \<Rightarrow> None
              | Some (srv, local) \<Rightarrow> Some (True, srv, local))))"

section \<open>Requests on a healthy server\<close>

text \<open>
  Both directories are there, with nothing in them but plain files and the second in the first,
  nothing fails, and no name has a space, which separates the names of a listing, or a percent
  sign, since \<open>Fprintf\<close> would take the name for a format.
\<close>

definition srv_ok :: "Disk \<Rightarrow> bool" where
  "srv_ok d \<longleftrightarrow> {''./root'', ''./root/tmp''} \<subseteq> set (ddirs d) \<and> distinct (map fst (dfiles d) @ ddirs d) \<and>
     (\<forall>p \<in> set (ddirs d). dirname p \<noteq> ''./root/tmp'' \<and> (dirname p = ''./root'' \<longrightarrow> p = ''./root/tmp'')) \<and>
     (\<forall>p. dfault d p = NoFault) \<and> (\<forall>p \<in> fst ` set (dfiles d). CHR '' '' \<notin> set p \<and> CHR ''%'' \<notin> set p)"

lemma home_post:
  assumes "dirname (''.'' @ path) \<in> set (ddirs d)" "''.'' @ path \<notin> set (ddirs d)" "\<And>p. dfault d p = NoFault" "path \<noteq> ''/''"
  shows "\<exists>d'. homePage d ''POST'' path c = Some ([], d') \<and> map_of (dfiles d') = (map_of (dfiles d))(''.'' @ path \<mapsto> c) \<and>
    ddirs d' = ddirs d \<and> dfault d' = dfault d \<and> (distinct (map fst (dfiles d)) \<longrightarrow> distinct (map fst (dfiles d')))"
proof -
  let ?p = "''.'' @ path"
  let ?d = "d\<lparr>dfiles := AList.update ?p c (AList.update ?p [] (if os_Exists d ?p then AList.delete ?p (dfiles d) else dfiles d))\<rparr>"
  have "homePage d ''POST'' path c = Some ([], ?d)"
    using assms by (auto simp: homePage_def getFile_def os_RemovePath_def os_Remove_def os_Open_def os_Create_def file_Write_def os_Exists_def Let_def)
  then show ?thesis
    by (intro exI [of _ ?d]) (auto simp: update_conv' delete_conv' distinct_update distinct_delete fun_eq_iff)
qed

lemma srv_ok_post:
  assumes ok: "srv_ok d" and dir: "''.'' @ dir \<in> {''./root'', ''./root/tmp''}"
    and x: "CHR ''/'' \<notin> set x" "CHR '' '' \<notin> set x \<and> CHR ''%'' \<notin> set x" "dir = ''/root'' \<Longrightarrow> x \<noteq> ''tmp''"
  shows "\<exists>d'. homePage d ''POST'' (dir @ ''/'' @ x) c = Some ([], d') \<and> srv_ok d' \<and>
    map_of (dfiles d') = (map_of (dfiles d))(''.'' @ dir @ ''/'' @ x \<mapsto> c) \<and> ddirs d' = ddirs d"
proof -
  have dn: "dirname (''.'' @ dir @ ''/'' @ x) = ''.'' @ dir"
    using dirname_append [OF x(1), of "''.'' @ dir"] by simp
  have nd: "''.'' @ dir @ ''/'' @ x \<notin> set (ddirs d)"
    using ok dir dn x(3) by (auto simp: srv_ok_def)
  have "\<exists>d'. homePage d ''POST'' (dir @ ''/'' @ x) c = Some ([], d') \<and>
      map_of (dfiles d') = (map_of (dfiles d))(''.'' @ (dir @ ''/'' @ x) \<mapsto> c) \<and>
      ddirs d' = ddirs d \<and> dfault d' = dfault d \<and> (distinct (map fst (dfiles d)) \<longrightarrow> distinct (map fst (dfiles d')))"
    by (rule home_post) (use ok dir nd dn in \<open>auto simp: srv_ok_def\<close>)
  then obtain d' where d': "homePage d ''POST'' (dir @ ''/'' @ x) c = Some ([], d')"
    "map_of (dfiles d') = (map_of (dfiles d))(''.'' @ dir @ ''/'' @ x \<mapsto> c)"
    "ddirs d' = ddirs d" "dfault d' = dfault d" "distinct (map fst (dfiles d'))"
    using ok by (auto simp: srv_ok_def)
  have keys: "fst ` set (dfiles d') = insert (''.'' @ dir @ ''/'' @ x) (fst ` set (dfiles d))"
    using d'(2) by (metis dom_fun_upd dom_map_of_conv_image_fst option.distinct(1))
  have "srv_ok d'" using ok d'(3-5) keys nd x(2) dir unfolding srv_ok_def by auto
  with d' show ?thesis by auto
qed

lemma home_get:
  assumes "map_of (dfiles d) (''.'' @ path) = Some c" "\<And>p. dfault d p = NoFault"
    and "path \<notin> {''/'', ''/root'', ''/root/'', ''/root/tmp'', ''/root/tmp/''}"
  shows "homePage d ''GET'' path b = Some (c, d)"
  using assms by (simp add: homePage_def getFile_def read_file_def os_Open_def ReadAll_def)

lemma split_name_list: "\<forall>n \<in> set ns. CHR '' '' \<notin> set n \<Longrightarrow> split_on CHR '' '' (name_list ns) = ns @ [[]]"
proof (induction ns)
  case (Cons n ns)
  then show ?case using split_on_append_sep [of "CHR '' ''" n "name_list ns"] by (simp add: name_list_def)
qed (simp add: name_list_def)

lemma basename_no_sep: "CHR ''/'' \<notin> set (basename p)"
  unfolding basename_def by (rule split_on_parts [OF last_in_set]) simp

lemma dirname_path: "dirname p = D \<Longrightarrow> D \<noteq> [] \<Longrightarrow> p = D @ CHR ''/'' # basename p"
proof -
  assume D: "dirname p = D" "D \<noteq> []"
  have "CHR ''/'' \<in> set p" using D by (cases "CHR ''/'' \<in> set p") (auto simp: dirname_def split_on_no_sep)
  with D dirname_basename [of p] show ?thesis by simp
qed

lemma child_iff:
  assumes "D \<noteq> []" "CHR ''/'' \<notin> set x"
  shows "x \<in> basename ` {p \<in> A. dirname p = D} \<longleftrightarrow> D @ CHR ''/'' # x \<in> A"
proof
  assume "x \<in> basename ` {p \<in> A. dirname p = D}"
  then obtain p where "p \<in> A" "dirname p = D" "x = basename p" by blast
  with dirname_path [of p D] assms(1) show "D @ CHR ''/'' # x \<in> A" by metis
next
  assume "D @ CHR ''/'' # x \<in> A"
  with dirname_append [OF assms(2), of D] have "D @ CHR ''/'' # x \<in> {p \<in> A. dirname p = D}" by simp
  with basename_append [OF assms(2), of D] show "x \<in> basename ` {p \<in> A. dirname p = D}" by (metis imageI)
qed

lemma basename_inj: "D \<noteq> [] \<Longrightarrow> inj_on basename {p \<in> A. dirname p = D}"
proof (rule inj_onI)
  fix p q
  assume D: "D \<noteq> []" and "p \<in> {p \<in> A. dirname p = D}" "q \<in> {p \<in> A. dirname p = D}" "basename p = basename q"
  then show "p = q" using dirname_path [of p D] dirname_path [of q D] by simp
qed

text \<open>A listing has the names of the plain files, and in the upper directory also \<^verbatim>\<open>tmp\<close>.\<close>

lemma listing:
  assumes ok: "srv_ok d" and dir: "dir = ''/root'' \<or> dir = ''/root/tmp''"
  shows "\<exists>ns. homePage d ''GET'' dir b = Some (name_list ns, d) \<and> split_on CHR '' '' (name_list ns) = ns @ [[]] \<and> distinct ns \<and>
    (\<forall>x. x \<in> set ns \<longleftrightarrow> CHR ''/'' \<notin> set x \<and>
       (map_of (dfiles d) (''.'' @ dir @ ''/'' @ x) \<noteq> None \<or> dir = ''/root'' \<and> x = ''tmp''))"
proof -
  define D where "D = ''.'' @ dir"
  define all where "all = map fst (dfiles d) @ ddirs d"
  define ns where "ns = sort (map basename (filter (\<lambda>p. dirname p = D) all))"
  have D: "D \<noteq> []" and at: "''.'' @ dir @ ''/'' @ x = D @ CHR ''/'' # x" for x by (simp_all add: D_def)
  have home: "homePage d ''GET'' dir b = Some (name_list ns, d)"
    using ok dir by (auto simp: homePage_def dir_names_def srv_ok_def ns_def all_def D_def)
  have ns: "set ns = basename ` {p \<in> set all. dirname p = D}" by (auto simp: ns_def)
  have "distinct all" using ok by (simp add: srv_ok_def all_def)
  then have dist: "distinct ns" using basename_inj [OF D] by (simp add: ns_def distinct_map)
  have sub: "CHR ''/'' \<notin> set x" if "x \<in> set ns" for x using that basename_no_sep by (auto simp: ns)
  have iff: "x \<in> set ns \<longleftrightarrow> map_of (dfiles d) (D @ CHR ''/'' # x) \<noteq> None \<or> dir = ''/root'' \<and> x = ''tmp''"
    if x: "CHR ''/'' \<notin> set x" for x
  proof -
    have "x \<in> set ns \<longleftrightarrow> D @ CHR ''/'' # x \<in> fst ` set (dfiles d) \<or> D @ CHR ''/'' # x \<in> set (ddirs d)"
      unfolding ns child_iff [OF D x] by (simp add: all_def)
    moreover have "D @ CHR ''/'' # x \<in> set (ddirs d) \<longleftrightarrow> dir = ''/root'' \<and> x = ''tmp''"
      using ok dir dirname_append [OF x, of D] by (auto simp: srv_ok_def D_def)
    ultimately show ?thesis by (simp add: map_of_eq_None_iff)
  qed
  have "CHR '' '' \<notin> set x" if x: "x \<in> set ns" for x
  proof (cases "x = ''tmp''")
    case False
    with iff [OF sub [OF x]] x have "D @ CHR ''/'' # x \<in> fst ` set (dfiles d)" by (simp add: map_of_eq_None_iff)
    with ok have "CHR '' '' \<notin> set (D @ CHR ''/'' # x)" unfolding srv_ok_def by blast
    then show ?thesis by simp
  qed simp
  then have "split_on CHR '' '' (name_list ns) = ns @ [[]]" by (intro split_name_list) blast
  with home dist sub iff show ?thesis unfolding at by blast
qed

section \<open>The map phase\<close>

definition mr_name :: "nat \<Rightarrow> nat \<Rightarrow> string" where
  "mr_name m i = ''mr-'' @ Itoa m @ ''--'' @ Itoa i"

definition srv_path :: "nat \<Rightarrow> nat \<Rightarrow> string" where
  "srv_path m i = ''./root/tmp/'' @ mr_name m i"

lemma srv_path_inj: "srv_path m i = srv_path k j \<longleftrightarrow> m = k \<and> i = j"
  using path_inj(1) [of m i k j] by (simp add: srv_path_def mr_name_def final_path_def map_prefix_def)

lemma mr_name_suffix: "HasSuffix (mr_name m i) (CHR ''-'' # Itoa r) \<longleftrightarrow> i = r"
proof
  have last: "last (split_on CHR ''-'' (y @ CHR ''-'' # Itoa k)) = Itoa k" for y k
    by (simp add: split_on_append split_on_no_sep Itoa_no_dash)
  assume "HasSuffix (mr_name m i) (CHR ''-'' # Itoa r)"
  then obtain y where "(''mr-'' @ Itoa m @ ''-'') @ CHR ''-'' # Itoa i = y @ CHR ''-'' # Itoa r"
    unfolding HasSuffix_iff by (auto simp: mr_name_def)
  then have "Itoa i = Itoa r" using last [of _ i] last [of _ r] by metis
  then show "i = r" by (simp add: Itoa_inj)
next
  assume "i = r"
  then show "HasSuffix (mr_name m i) (CHR ''-'' # Itoa r)"
    unfolding HasSuffix_iff by (intro exI [of _ "''mr-'' @ Itoa m @ ''-''"]) (simp add: mr_name_def)
qed

lemma Itoa_plain: "CHR ''/'' \<notin> set (Itoa n)" "CHR '' '' \<notin> set (Itoa n)" "CHR ''%'' \<notin> set (Itoa n)"
  by (rule Itoa_no_sep, simp)+

lemma rename_upload_result:
  assumes "srv_ok srv" "distinct is" "\<And>i. i \<in> set is \<Longrightarrow> map_of fs (temp_path pid m i) = Some (c i)"
  shows "\<exists>fs' srv'. rename_upload pid m is fs srv = Some (fs', srv') \<and> srv_ok srv' \<and>
    (\<forall>i \<in> set is. map_of (dfiles srv') (srv_path m i) = Some (file_bytes (c i))) \<and>
    (\<forall>p. (\<forall>i \<in> set is. p \<noteq> srv_path m i) \<longrightarrow> map_of (dfiles srv') p = map_of (dfiles srv) p)"
  using assms
proof (induction "is" arbitrary: fs srv)
  case (Cons i js)
  let ?fs = "os_Rename (temp_path pid m i) (final_path m i) fs"
  have up: "map_of ?fs (final_path m i) = Some (c i)"
    using Cons.prems(3) by (simp add: os_Rename_def update_conv')
  have rest: "map_of ?fs (temp_path pid m j) = Some (c j)" if "j \<in> set js" for j
    using Cons.prems(2,3) that final_not_temp [of m i pid m j]
    by (auto simp: os_Rename_def update_conv' delete_conv' path_inj split: option.split)
  have path: "''/root/'' @ final_path m i = ''/root/tmp'' @ ''/'' @ mr_name m i"
    "''.'' @ ''/root/tmp'' @ ''/'' @ mr_name m i = srv_path m i"
    by (simp_all add: final_path_def map_prefix_def mr_name_def srv_path_def)
  have "CHR ''/'' \<notin> set (mr_name m i)" "CHR '' '' \<notin> set (mr_name m i) \<and> CHR ''%'' \<notin> set (mr_name m i)"
    using Itoa_plain by (simp_all add: mr_name_def)
  from srv_ok_post [OF Cons.prems(1) _ this, of "''/root/tmp''" "file_bytes (c i)"] obtain srv1
    where post: "homePage srv ''POST'' (''/root/tmp'' @ ''/'' @ mr_name m i) (file_bytes (c i)) = Some ([], srv1)"
      and ok: "srv_ok srv1" and at: "map_of (dfiles srv1) = (map_of (dfiles srv))(srv_path m i \<mapsto> file_bytes (c i))"
    unfolding path(2) by auto
  from Cons.IH [OF ok _ rest] Cons.prems(2) obtain fs' srv'
    where run: "rename_upload pid m js ?fs srv1 = Some (fs', srv')" and ok': "srv_ok srv'"
      and js: "\<forall>i \<in> set js. map_of (dfiles srv') (srv_path m i) = Some (file_bytes (c i))"
      and frame: "\<forall>p. (\<forall>i \<in> set js. p \<noteq> srv_path m i) \<longrightarrow> map_of (dfiles srv') p = map_of (dfiles srv1) p" by auto
  have "rename_upload pid m (i # js) fs srv = Some (fs', srv')"
    using run post by (simp add: Let_def up path(1) del: append.simps)
  moreover have "map_of (dfiles srv') (srv_path m i) = Some (file_bytes (c i))"
    using frame [rule_format, of "srv_path m i"] Cons.prems(2) by (auto simp: srv_path_inj at)
  ultimately show ?case using ok' js frame at by auto
qed simp

text \<open>
  The map phase of a job: executions of map tasks in some order, each by a worker in the
  directory of its own machine, whatever earlier tasks left there.
\<close>

fun run_maps_cloud ::
  "(string \<Rightarrow> string \<Rightarrow> KeyValue list) \<Rightarrow> string list \<Rightarrow> nat \<Rightarrow> (nat \<times> nat \<times> TmpDir) list \<Rightarrow> Disk \<Rightarrow> Disk option" where
  "run_maps_cloud mapf files nRed [] srv = Some srv"
| "run_maps_cloud mapf files nRed ((m, pid, fs) # runs) srv =
     (case doMap_cloud mapf nRed pid (files ! m) m fs srv of
        None \<Rightarrow> None
      | Some (_, srv) \<Rightarrow> run_maps_cloud mapf files nRed runs srv)"

definition srv_input :: "Disk \<Rightarrow> string \<Rightarrow> bytes option" where
  "srv_input srv f = map_of (dfiles srv) (''./root/'' @ f)"

text \<open>The server has the files of the map tasks in \<open>D\<close>, and otherwise what it had.\<close>

definition mapped :: "nat \<Rightarrow> (nat \<Rightarrow> KeyValue list) \<Rightarrow> nat set \<Rightarrow> Disk \<Rightarrow> Disk \<Rightarrow> bool" where
  "mapped nRed kvs D srv0 srv \<longleftrightarrow> srv_ok srv \<and>
     (\<forall>m \<in> D. \<forall>i < nRed. map_of (dfiles srv) (srv_path m i) = Some (file_bytes (part nRed i (kvs m)))) \<and>
     (\<forall>p. (\<forall>m \<in> D. \<forall>i < nRed. p \<noteq> srv_path m i) \<longrightarrow> map_of (dfiles srv) p = map_of (dfiles srv0) p)"

lemma doMap_cloud_mapped:
  assumes "0 < nRed" and ok: "mapped nRed (task_kvs mapf (srv_input srv0) files) D srv0 srv"
    and f: "srv_input srv0 (files ! m) \<noteq> None" "CHR ''/'' \<notin> set (files ! m)" "files ! m \<notin> {[], ''tmp''}"
  shows "\<exists>fs' srv'. doMap_cloud mapf nRed pid (files ! m) m fs srv = Some (fs', srv') \<and>
    mapped nRed (task_kvs mapf (srv_input srv0) files) (insert m D) srv0 srv'"
proof -
  let ?kvs = "task_kvs mapf (srv_input srv0) files" and ?f = "files ! m"
  obtain b where b: "srv_input srv0 ?f = Some b" using f(1) by auto
  have "''./root/'' @ ?f \<noteq> srv_path k i" for k i using f(2) by (auto simp: srv_path_def)
  then have at: "map_of (dfiles srv) (''.'' @ ''/root/'' @ ?f) = Some b"
    using ok b by (simp add: mapped_def srv_input_def)
  have get: "homePage srv ''GET'' (''/root/'' @ ?f) [] = Some (b, srv)"
    by (rule home_get [OF at]) (use ok f in \<open>auto simp: mapped_def srv_ok_def\<close>)
  let ?fs1 = "foldl (\<lambda>d i. AList.update (temp_path pid m i) [] d) fs [0..<nRed]"
  let ?fs2 = "foldl (\<lambda>d kv. file_append (temp_path pid m (ihash (kv_Key kv) mod nRed)) kv d) ?fs1 (?kvs m)"
  from rename_upload_result [of srv "[0..<nRed]" ?fs2 pid m "\<lambda>i. part nRed i (?kvs m)"] obtain fs' srv'
    where up: "rename_upload pid m [0..<nRed] ?fs2 srv = Some (fs', srv')" "srv_ok srv'"
      "\<forall>i < nRed. map_of (dfiles srv') (srv_path m i) = Some (file_bytes (part nRed i (?kvs m)))"
      "\<And>p. (\<forall>i < nRed. p \<noteq> srv_path m i) \<Longrightarrow> map_of (dfiles srv') p = map_of (dfiles srv) p"
    using ok temps_written(1) [OF assms(1)] by (auto simp: mapped_def)
  have "doMap_cloud mapf nRed pid ?f m fs srv = Some (fs', srv')"
    using up(1) get assms(1) by (simp add: doMap_cloud_def writeMapOutput_cloud_def Let_def task_kvs_def b del: append.simps)
  moreover have "map_of (dfiles srv') (srv_path k i) = Some (file_bytes (part nRed i (?kvs k)))"
    if "k \<in> insert m D" "i < nRed" for k i
    using up(3,4) ok that by (cases "k = m") (auto simp: mapped_def srv_path_inj)
  ultimately show ?thesis using up(2,4) ok by (auto simp: mapped_def)
qed

lemma run_maps_cloud_mapped:
  assumes "0 < nRed" and "mapped nRed (task_kvs mapf (srv_input srv0) files) D srv0 srv"
    and "\<And>run. run \<in> set runs \<Longrightarrow> srv_input srv0 (files ! fst run) \<noteq> None \<and> CHR ''/'' \<notin> set (files ! fst run) \<and> files ! fst run \<notin> {[], ''tmp''}"
  shows "\<exists>srv'. run_maps_cloud mapf files nRed runs srv = Some srv' \<and>
    mapped nRed (task_kvs mapf (srv_input srv0) files) (D \<union> fst ` set runs) srv0 srv'"
  using assms(2,3)
proof (induction runs arbitrary: srv D)
  case (Cons run runs)
  obtain m pid fs where run: "run = (m, pid, fs)" by (cases run)
  obtain fs' srv1 where one: "doMap_cloud mapf nRed pid (files ! m) m fs srv = Some (fs', srv1)"
    "mapped nRed (task_kvs mapf (srv_input srv0) files) (insert m D) srv0 srv1"
    using doMap_cloud_mapped [OF assms(1) Cons.prems(1), of m pid fs] Cons.prems(2) [of run] by (auto simp: run)
  with Cons.IH [OF one(2)] Cons.prems(2) show ?case by (auto simp: run)
qed (simp add: assms)

section \<open>The reduce phase\<close>

lemma file_pairs_bytes: "file_pairs (file_bytes kvs) = Some kvs"
  by (simp add: file_pairs_def file_bytes_def json_roundtrip comp_def map_idI)

lemma download_pairs_all:
  assumes "\<And>x. x \<in> set xs \<Longrightarrow> HasPrefix x ''mr-'' \<and> map_of (dfiles srv) (''./root/tmp/'' @ x) = Some (file_bytes (g x))"
    and "srv_ok srv"
  shows "download_pairs xs srv = Some (concat (map g xs), srv)"
  using assms(1)
proof (induction xs)
  case (Cons x xs)
  have x: "HasPrefix x ''mr-''" "map_of (dfiles srv) (''.'' @ ''/root/tmp/'' @ x) = Some (file_bytes (g x))"
    using Cons.prems [of x] by simp_all
  have "homePage srv ''GET'' (''/root/tmp/'' @ x) [] = Some (file_bytes (g x), srv)"
    by (rule home_get [OF x(2)]) (use assms(2) x(1) in \<open>auto simp: srv_ok_def HasPrefix_iff\<close>)
  with Cons show ?case by (simp add: file_pairs_bytes del: append.simps)
qed simp

text \<open>A server on which no earlier job left files.\<close>

definition srv_clean :: "Disk \<Rightarrow> bool" where
  "srv_clean srv \<longleftrightarrow> (\<forall>p \<in> fst ` set (dfiles srv). \<not> HasPrefix p ''./root/tmp/mr-'' \<and> \<not> contains ''mr-ou'' p)"

lemma clean_name: "srv_clean srv \<Longrightarrow> map_of (dfiles srv) p \<noteq> None \<Longrightarrow> \<not> HasPrefix p ''./root/tmp/mr-'' \<and> \<not> contains ''mr-ou'' p"
  by (auto simp: srv_clean_def map_of_eq_None_iff)

text \<open>What the reduce tasks rely on: the uploaded files, and no other file with such a name.\<close>

definition tmp_ok :: "nat \<Rightarrow> (nat \<Rightarrow> KeyValue list) \<Rightarrow> nat \<Rightarrow> Disk \<Rightarrow> bool" where
  "tmp_ok nRed kvs n srv \<longleftrightarrow> srv_ok srv \<and>
     (\<forall>m < n. \<forall>i < nRed. map_of (dfiles srv) (srv_path m i) = Some (file_bytes (part nRed i (kvs m)))) \<and>
     (\<forall>x. HasPrefix x ''mr-'' \<and> map_of (dfiles srv) (''./root/tmp/'' @ x) \<noteq> None \<longrightarrow> (\<exists>m < n. \<exists>i < nRed. x = mr_name m i))"

lemma mapped_tmp_ok:
  assumes m: "mapped nRed kvs {..<n} srv0 srv" and clean: "srv_clean srv0"
  shows "tmp_ok nRed kvs n srv"
proof -
  have "\<exists>m < n. \<exists>i < nRed. x = mr_name m i"
    if x: "HasPrefix x ''mr-''" "map_of (dfiles srv) (''./root/tmp/'' @ x) \<noteq> None" for x
  proof (rule ccontr)
    assume "\<not> ?thesis"
    then have "map_of (dfiles srv) (''./root/tmp/'' @ x) = map_of (dfiles srv0) (''./root/tmp/'' @ x)"
      using m by (auto simp: mapped_def srv_path_def)
    with clean_name [OF clean, of "''./root/tmp/'' @ x"] x show False by (auto simp: HasPrefix_iff)
  qed
  with m show ?thesis by (simp add: tmp_ok_def mapped_def)
qed

text \<open>Which files a reduce task fetches: those of the map tasks for it, once each.\<close>

lemma reduce_names_listing:
  assumes m: "tmp_ok nRed kvs n srv" and r: "r < nRed"
  shows "\<exists>l. homePage srv ''GET'' ''/root/tmp'' [] = Some (l, srv) \<and> distinct (reduce_names r l) \<and>
    set (reduce_names r l) = (\<lambda>m. mr_name m r) ` {..<n}"
proof -
  have ok: "srv_ok srv" using m by (simp add: tmp_ok_def)
  from listing [OF ok, of "''/root/tmp''" "[]"] obtain ns
    where home: "homePage srv ''GET'' ''/root/tmp'' [] = Some (name_list ns, srv)"
      and sp: "split_on CHR '' '' (name_list ns) = ns @ [[]]" and d: "distinct ns"
      and ns: "\<And>x. x \<in> set ns \<longleftrightarrow> CHR ''/'' \<notin> set x \<and> map_of (dfiles srv) (''./root/tmp/'' @ x) \<noteq> None" by auto
  let ?P = "\<lambda>x. HasPrefix x ''mr-'' \<and> HasSuffix x (CHR ''-'' # Itoa r)"
  have names: "reduce_names r (name_list ns) = filter ?P ns" by (simp add: reduce_names_def sp HasPrefix_def)
  have glob: "?P (mr_name k i) \<longleftrightarrow> i = r" for k i
    using mr_name_suffix [of k i r] by (simp add: mr_name_def HasPrefix_def)
  have "x \<in> set ns \<and> ?P x \<longleftrightarrow> x \<in> (\<lambda>m. mr_name m r) ` {..<n}" for x
  proof (cases "\<exists>k < n. \<exists>i < nRed. x = mr_name k i")
    case True
    then obtain k i where x: "k < n" "i < nRed" "x = mr_name k i" by blast
    then have "x \<in> set ns" using m ns [of x] Itoa_plain by (auto simp: tmp_ok_def srv_path_def mr_name_def)
    with x glob show ?thesis by (auto simp: image_iff srv_path_inj [unfolded srv_path_def, simplified])
  next
    case False
    moreover have "\<exists>k < n. \<exists>i < nRed. x = mr_name k i" if "x \<in> set ns" "HasPrefix x ''mr-''"
      using m that ns [of x] unfolding tmp_ok_def by blast
    ultimately have "\<not> (x \<in> set ns \<and> ?P x)" by blast
    with False r show ?thesis by auto
  qed
  with home names d show ?thesis by (intro exI [of _ "name_list ns"]) auto
qed

lemma stream_mset:
  assumes "distinct xs" "set xs = (\<lambda>m. mr_name m r) ` {..<n}" "\<And>m. m < n \<Longrightarrow> g (mr_name m r) = part nRed r (kvs m)"
  shows "mset (concat (map g xs)) = mset (part nRed r (concat (map kvs [0..<n])))"
proof -
  have inj: "inj_on (\<lambda>m. mr_name m r) {..<n}" using srv_path_inj by (auto simp: inj_on_def srv_path_def)
  have "mset (concat (map g xs)) = (\<Sum>x \<in> set xs. mset (g x))"
    using assms(1) by (simp add: mset_concat comp_def sum_list_distinct_conv_sum_set)
  also have "\<dots> = (\<Sum>m<n. mset (part nRed r (kvs m)))"
    unfolding assms(2) by (subst sum.reindex [OF inj]) (simp add: assms(3))
  also have "\<dots> = mset (part nRed r (concat (map kvs [0..<n])))"
    using mset_concat_map [of "\<lambda>m. part nRed r (kvs m)" n] by (simp add: part_concat comp_def)
  finally show ?thesis .
qed

definition out_name :: "nat \<Rightarrow> string" where
  "out_name r = ''mr-out-'' @ Itoa r"

text \<open>A reduce task uploads its result and changes nothing else on the server.\<close>

lemma doReduce_cloud_result:
  assumes app: "mr_app reducef" and ok: "tmp_ok nRed kvs n srv" and r: "r < nRed"
  shows "\<exists>outs' srv'. doReduce_cloud reducef r outs srv = Some (outs', srv') \<and> tmp_ok nRed kvs n srv' \<and>
    map_of (dfiles srv') = (map_of (dfiles srv))(''./root/'' @ out_name r \<mapsto>
      concat (mr_spec reducef (part nRed r (concat (map kvs [0..<n])))))"
proof -
  let ?out = "concat (mr_spec reducef (part nRed r (concat (map kvs [0..<n]))))"
  from reduce_names_listing [OF ok r] obtain l where l: "homePage srv ''GET'' ''/root/tmp'' [] = Some (l, srv)"
    "distinct (reduce_names r l)" "set (reduce_names r l) = (\<lambda>m. mr_name m r) ` {..<n}" by blast
  define g where "g x = the (file_pairs (the (map_of (dfiles srv) (''./root/tmp/'' @ x))))" for x
  have g: "g (mr_name m r) = part nRed r (kvs m) \<and> map_of (dfiles srv) (''./root/tmp/'' @ mr_name m r) = Some (file_bytes (g (mr_name m r)))"
    if "m < n" for m
  proof -
    have "map_of (dfiles srv) (''./root/tmp/'' @ mr_name m r) = Some (file_bytes (part nRed r (kvs m)))"
      using ok r that by (simp add: tmp_ok_def srv_path_def)
    then show ?thesis by (simp add: g_def file_pairs_bytes del: append.simps)
  qed
  have down: "download_pairs (reduce_names r l) srv = Some (concat (map g (reduce_names r l)), srv)"
  proof (rule download_pairs_all)
    fix x assume "x \<in> set (reduce_names r l)"
    then obtain m where "m < n" "x = mr_name m r" using l(3) by auto
    with g show "HasPrefix x ''mr-'' \<and> map_of (dfiles srv) (''./root/tmp/'' @ x) = Some (file_bytes (g x))"
      by (metis HasPrefix_append mr_name_def)
  qed (use ok in \<open>simp add: tmp_ok_def\<close>)
  have "mset (concat (map g (reduce_names r l))) = mset (part nRed r (concat (map kvs [0..<n])))"
    by (rule stream_mset [OF l(2,3)]) (use g in blast)
  then have spec: "reduce_lines reducef (foldl kvMap_add [] (concat (map g (reduce_names r l)))) =
      mr_spec reducef (part nRed r (concat (map kvs [0..<n])))"
    unfolding reduce_lines_spec by (rule mr_app.spec_perm [OF app])
  have plain: "CHR ''/'' \<notin> set (out_name r)" "CHR '' '' \<notin> set (out_name r) \<and> CHR ''%'' \<notin> set (out_name r)" "out_name r \<noteq> ''tmp''"
    using Itoa_plain by (simp_all add: out_name_def)
  have "srv_ok srv" using ok by (simp add: tmp_ok_def)
  from srv_ok_post [OF this _ plain, of "''/root''" ?out] obtain srv'
    where post: "homePage srv ''POST'' (''/root'' @ ''/'' @ out_name r) ?out = Some ([], srv')" and ok': "srv_ok srv'"
      and at: "map_of (dfiles srv') = (map_of (dfiles srv))(''./root/'' @ out_name r \<mapsto> ?out)" by auto
  have "''./root/tmp/'' @ x \<noteq> ''./root/'' @ out_name r" for x by (simp add: out_name_def)
  then have "tmp_ok nRed kvs n srv'" using ok ok' by (simp add: tmp_ok_def at srv_path_def)
  moreover have "doReduce_cloud reducef r outs srv =
      Some (writeReduceOutput reducef (foldl kvMap_add [] (concat (map g (reduce_names r l)))) r outs, srv')"
    using post by (simp add: doReduce_cloud_def l(1) down Let_def writeReduceOutput_def update_conv' spec out_name_def)
  ultimately show ?thesis using at by blast
qed

text \<open>The reduce phase: executions of reduce tasks, each where earlier ones left results.\<close>

fun run_reduces_cloud ::
  "(string \<Rightarrow> string list \<Rightarrow> string) \<Rightarrow> (nat \<times> (string \<times> bytes) list) list \<Rightarrow> Disk \<Rightarrow> Disk option" where
  "run_reduces_cloud reducef [] srv = Some srv"
| "run_reduces_cloud reducef ((r, outs) # runs) srv =
     (case doReduce_cloud reducef r outs srv of
        None \<Rightarrow> None
      | Some (_, srv) \<Rightarrow> run_reduces_cloud reducef runs srv)"

lemma run_reduces_cloud_result:
  assumes app: "mr_app reducef" and ok: "tmp_ok nRed kvs n srv" and r: "\<And>run. run \<in> set runs \<Longrightarrow> fst run < nRed"
  shows "\<exists>srv'. run_reduces_cloud reducef runs srv = Some srv' \<and> srv_ok srv' \<and>
    (\<forall>r \<in> fst ` set runs. map_of (dfiles srv') (''./root/'' @ out_name r) =
       Some (concat (mr_spec reducef (part nRed r (concat (map kvs [0..<n])))))) \<and>
    (\<forall>p. (\<forall>r \<in> fst ` set runs. p \<noteq> ''./root/'' @ out_name r) \<longrightarrow> map_of (dfiles srv') p = map_of (dfiles srv) p)"
  using ok r
proof (induction runs arbitrary: srv)
  case Nil
  then show ?case by (simp add: tmp_ok_def)
next
  case (Cons run runs)
  obtain r outs where run: "run = (r, outs)" by (cases run)
  obtain outs' srv1 where one: "doReduce_cloud reducef r outs srv = Some (outs', srv1)" "tmp_ok nRed kvs n srv1"
    "map_of (dfiles srv1) = (map_of (dfiles srv))(''./root/'' @ out_name r \<mapsto>
      concat (mr_spec reducef (part nRed r (concat (map kvs [0..<n])))))"
    using doReduce_cloud_result [OF app Cons.prems(1), of r outs] Cons.prems(2) [of run] by (auto simp: run)
  from Cons.IH [OF one(2)] Cons.prems(2) obtain srv' where rest: "run_reduces_cloud reducef runs srv1 = Some srv'" "srv_ok srv'"
    "\<forall>r \<in> fst ` set runs. map_of (dfiles srv') (''./root/'' @ out_name r) =
       Some (concat (mr_spec reducef (part nRed r (concat (map kvs [0..<n])))))"
    "\<And>p. (\<forall>r \<in> fst ` set runs. p \<noteq> ''./root/'' @ out_name r) \<Longrightarrow> map_of (dfiles srv') p = map_of (dfiles srv1) p"
    by auto
  have "out_name r = out_name k \<longleftrightarrow> r = k" for k by (simp add: out_name_def Itoa_inj)
  then have "map_of (dfiles srv') (''./root/'' @ out_name r) = Some (concat (mr_spec reducef (part nRed r (concat (map kvs [0..<n])))))"
    using rest(3) rest(4) [of "''./root/'' @ out_name r"] one(3) by (cases "r \<in> fst ` set runs") auto
  with rest one show ?case by (auto simp: run)
qed

section \<open>Fetching the results\<close>

lemma contains_iff: "contains lit s \<longleftrightarrow> (\<exists>a b. s = a @ lit @ b)"
proof
  assume "contains lit s"
  then obtain i where "take (length lit) (drop i s) = lit" by (auto simp: contains_def list_ex_iff)
  then have "s = take i s @ lit @ drop (length lit) (drop i s)" by (metis append_take_drop_id)
  then show "\<exists>a b. s = a @ lit @ b" by blast
next
  assume "\<exists>a b. s = a @ lit @ b"
  then obtain a b where "s = a @ lit @ b" by blast
  then show "contains lit s" by (auto simp: contains_def list_ex_iff intro!: bexI [of _ "length a"])
qed

lemma contains_append: "contains lit x \<Longrightarrow> contains lit (y @ x)"
  unfolding contains_iff by (metis append_assoc)

lemma cloud_files_listing:
  assumes ok: "srv_ok srv" and lit: "lit \<noteq> []"
  shows "\<exists>xs. cloud_files lit srv = Some (xs, srv) \<and> distinct xs \<and>
    (\<forall>x. x \<in> set xs \<longleftrightarrow> CHR ''/'' \<notin> set x \<and> contains lit x \<and> (srv_input srv x \<noteq> None \<or> x = ''tmp''))"
proof -
  from listing [OF ok, of "''/root''" "[]"] obtain ns
    where home: "homePage srv ''GET'' ''/root'' [] = Some (name_list ns, srv)"
      and sp: "split_on CHR '' '' (name_list ns) = ns @ [[]]" and d: "distinct ns"
      and ns: "\<And>x. x \<in> set ns \<longleftrightarrow> CHR ''/'' \<notin> set x \<and> (srv_input srv x \<noteq> None \<or> x = ''tmp'')"
    by (auto simp: srv_input_def)
  have "\<not> contains lit []" using lit by (simp add: contains_iff)
  with home sp d ns show ?thesis
    by (intro exI [of _ "filter (contains lit) ns"]) (auto simp: cloud_files_def getCloudFileList_def)
qed

text \<open>The directory of the coordinator: files can be written, and no directory has the name of a result.\<close>

definition local_ok :: "Disk \<Rightarrow> bool" where
  "local_ok d \<longleftrightarrow> [] \<in> set (ddirs d) \<and> (\<forall>p \<in> set (ddirs d). \<not> HasPrefix p ''mr-out-'') \<and> (\<forall>p. dfault d p = NoFault)"

lemma download_results_all:
  assumes "\<And>r. r \<in> set rs \<Longrightarrow> srv_input srv (out_name r) = Some (b r)" and ok: "srv_ok srv" and "local_ok d"
  shows "\<exists>d'. download_results (map out_name rs) srv d = Some (srv, d') \<and>
    (\<forall>r \<in> set rs. map_of (dfiles d') (out_name r) = Some (b r)) \<and>
    (\<forall>p. p \<notin> out_name ` set rs \<longrightarrow> map_of (dfiles d') p = map_of (dfiles d) p)"
  using assms(1,3)
proof (induction rs arbitrary: d)
  case (Cons r rs)
  have inj: "out_name i = out_name j \<longleftrightarrow> i = j" for i j by (simp add: out_name_def Itoa_inj)
  have at: "map_of (dfiles srv) (''.'' @ ''/root/'' @ out_name r) = Some (b r)"
    using Cons.prems(1) [of r] by (simp add: srv_input_def)
  have get: "homePage srv ''GET'' (''/root/'' @ out_name r) [] = Some (b r, srv)"
    by (rule home_get [OF at]) (use ok in \<open>auto simp: srv_ok_def out_name_def\<close>)
  obtain w d1 where wr: "write_file d (out_name r) (b r) = (w, d1)" by (cases "write_file d (out_name r) (b r)")
  have dir: "dirname (out_name r) = []" using Itoa_plain(1) by (simp add: dirname_def split_on_no_sep out_name_def)
  have nd: "out_name r \<notin> set (ddirs d)" using Cons.prems(2) by (auto simp: local_ok_def out_name_def HasPrefix_def)
  have w: w using write_file_ok_iff [of d "out_name r" "b r"] Cons.prems(2) dir nd wr by (simp add: local_ok_def)
  have "local_ok d1"
    using Cons.prems(2) write_file_frame [of d "out_name r" "b r"] wr by (simp add: local_ok_def)
  from Cons.IH [OF _ this] Cons.prems(1) obtain d' where d': "download_results (map out_name rs) srv d1 = Some (srv, d')"
    "\<forall>r \<in> set rs. map_of (dfiles d') (out_name r) = Some (b r)"
    "\<forall>p. p \<notin> out_name ` set rs \<longrightarrow> map_of (dfiles d') p = map_of (dfiles d1) p" by auto
  have d1: "map_of (dfiles d1) p = (if p = out_name r then Some (b r) else map_of (dfiles d) p)" for p
    using map_of_dfiles_write_same [of d "out_name r" "b r"] map_of_dfiles_write_other [of p "out_name r" d "b r"] wr w by auto
  have "download_results (map out_name (r # rs)) srv d = Some (srv, d')"
    using d'(1) get wr w by (simp del: append.simps)
  moreover have "map_of (dfiles d') (out_name r) = Some (b r)"
    using d'(2) d'(3) [rule_format, of "out_name r"] d1 inj by (cases "r \<in> set rs") (auto simp: image_iff)
  ultimately show ?case using d'(2,3) d1 by auto
qed simp

lemma Done_cloud_fetches:
  assumes ok: "srv_ok srv" and local: "local_ok d" and "Done c"
    and at: "\<And>r. r < nRed \<Longrightarrow> srv_input srv (out_name r) = Some (b r)"
    and no: "\<And>x. contains ''mr-ou'' x \<Longrightarrow> CHR ''/'' \<notin> set x \<Longrightarrow> srv_input srv x \<noteq> None \<Longrightarrow> x \<in> out_name ` {..<nRed}"
  shows "\<exists>d'. Done_cloud c srv d = Some (True, srv, d') \<and> (\<forall>r < nRed. map_of (dfiles d') (out_name r) = Some (b r)) \<and>
    (\<forall>p. p \<notin> out_name ` {..<nRed} \<longrightarrow> map_of (dfiles d') p = map_of (dfiles d) p)"
proof -
  from cloud_files_listing [OF ok, of "''mr-ou''"] obtain xs where xs: "cloud_files ''mr-ou'' srv = Some (xs, srv)"
    "\<And>x. x \<in> set xs \<longleftrightarrow> CHR ''/'' \<notin> set x \<and> contains ''mr-ou'' x \<and> (srv_input srv x \<noteq> None \<or> x = ''tmp'')" by auto
  have "contains ''mr-ou'' (out_name r)" for r unfolding contains_iff by (rule exI [of _ "[]"]) (simp add: out_name_def)
  moreover have "\<not> contains ''mr-ou'' ''tmp''" by code_simp
  moreover have "CHR ''/'' \<notin> set (out_name r)" for r using Itoa_plain(1) by (simp add: out_name_def)
  ultimately have set: "set xs = out_name ` {..<nRed}" using xs(2) at no by fastforce
  then have "\<forall>x \<in> set xs. \<exists>r. x = out_name r" by blast
  then obtain rs where rs: "xs = map out_name rs" using ex_map_conv [of xs out_name] by blast
  have "inj out_name" by (rule injI) (simp add: out_name_def Itoa_inj)
  with set rs have rs': "set rs = {..<nRed}" by (simp add: inj_image_eq_iff)
  from download_results_all [of rs srv b, OF _ ok local] at rs' obtain d'
    where "download_results (map out_name rs) srv d = Some (srv, d')"
      "\<forall>r < nRed. map_of (dfiles d') (out_name r) = Some (b r)"
      "\<forall>p. p \<notin> out_name ` {..<nRed} \<longrightarrow> map_of (dfiles d') p = map_of (dfiles d) p" by auto
  with assms(3) xs(1) rs show ?thesis by (simp add: Done_cloud_def)
qed

section \<open>The job\<close>

lemma pg_input:
  assumes "srv_ok srv" "cloud_files ''pg'' srv = Some (files, srv)" "f \<in> set files"
  shows "srv_input srv f \<noteq> None \<and> CHR ''/'' \<notin> set f \<and> f \<notin> {[], ''tmp''}"
proof -
  have "\<not> contains ''pg'' []" "\<not> contains ''pg'' ''tmp''" by code_simp+
  then show ?thesis using cloud_files_listing [OF assms(1), of "''pg''"] assms(2,3) by auto
qed

lemma cloud_phases:
  fixes mapf :: "string \<Rightarrow> string \<Rightarrow> KeyValue list"
  assumes app: "mr_app reducef" and pos: "0 < nRed" and ok: "srv_ok srv" and clean: "srv_clean srv"
    and files: "cloud_files ''pg'' srv = Some (files, srv)"
    and maps: "fst ` set maps = {..<length files}" and reds: "fst ` set reds = {..<nRed}"
  defines "xs \<equiv> concat (map (task_kvs mapf (srv_input srv) files) [0..<length files])"
  shows "\<exists>srv1 srv2. run_maps_cloud mapf files nRed maps srv = Some srv1 \<and> run_reduces_cloud reducef reds srv1 = Some srv2 \<and>
    srv_ok srv2 \<and> (\<forall>r < nRed. srv_input srv2 (out_name r) = Some (concat (mr_spec reducef (part nRed r xs)))) \<and>
    (\<forall>x. contains ''mr-ou'' x \<and> CHR ''/'' \<notin> set x \<and> srv_input srv2 x \<noteq> None \<longrightarrow> x \<in> out_name ` {..<nRed})"
proof -
  let ?k = "task_kvs mapf (srv_input srv) files"
  have "mapped nRed ?k {} srv srv" using ok by (simp add: mapped_def)
  moreover have "srv_input srv (files ! fst run) \<noteq> None \<and> CHR ''/'' \<notin> set (files ! fst run) \<and> files ! fst run \<notin> {[], ''tmp''}"
    if "run \<in> set maps" for run
    using that maps by (intro pg_input [OF ok files] nth_mem) auto
  ultimately obtain srv1 where m: "run_maps_cloud mapf files nRed maps srv = Some srv1"
    "mapped nRed ?k {..<length files} srv srv1"
    using run_maps_cloud_mapped [OF pos, of mapf srv files "{}" srv maps] maps by auto
  have "fst run < nRed" if "run \<in> set reds" for run using that reds by blast
  from run_reduces_cloud_result [OF app mapped_tmp_ok [OF m(2) clean], of reds, OF this] obtain srv2
    where r: "run_reduces_cloud reducef reds srv1 = Some srv2" "srv_ok srv2"
      "\<And>r. r < nRed \<Longrightarrow> map_of (dfiles srv2) (''./root/'' @ out_name r) = Some (concat (mr_spec reducef (part nRed r xs)))"
      "\<And>p. (\<forall>r < nRed. p \<noteq> ''./root/'' @ out_name r) \<Longrightarrow> map_of (dfiles srv2) p = map_of (dfiles srv1) p"
    unfolding reds xs_def by auto
  have "x \<in> out_name ` {..<nRed}" if x: "contains ''mr-ou'' x" "CHR ''/'' \<notin> set x" "srv_input srv2 x \<noteq> None" for x
  proof (rule ccontr)
    assume "x \<notin> out_name ` {..<nRed}"
    then have "srv_input srv2 x = srv_input srv1 x" unfolding srv_input_def by (intro r(4)) auto
    also have "\<dots> = srv_input srv x"
    proof -
      have "''./root/'' @ x \<noteq> srv_path k i" for k i using x(2) by (auto simp: srv_path_def)
      with m(2) show ?thesis unfolding mapped_def srv_input_def by blast
    qed
    finally show False
      using clean_name [OF clean, of "''./root/'' @ x"] contains_append [OF x(1), of "''./root/''"] x(3)
      by (simp add: srv_input_def)
  qed
  with m r show ?thesis by (auto simp: srv_input_def)
qed

text \<open>
  C10: A job on several machines computes what the sequential program computes. On a server
  that no earlier job used, with any executions of the map and reduce tasks that cover the job (in
  any order of each phase, by any workers, in directories with any earlier files, any repetitions), no
  worker fails; \<open>Done\<close> then fetches exactly one file per reduce task, and these
  hold together the lines that \<^verbatim>\<open>mrsequential\<close> writes on the files that the server listed.
\<close>

theorem cloud_equals_sequential:
  assumes "mr_app reducef" and "0 < nRed" and "srv_ok srv" and "srv_clean srv"
    and "cloud_files ''pg'' srv = Some (files, srv)"
    and "fst ` set maps = {..<length files}" and "fst ` set reds = {..<nRed}"
    and "Done c" and "local_ok d"
    and "\<And>xs. mset (sorter xs) = mset xs" and "\<And>xs. sorted (map kv_Key (sorter xs))"
  shows "\<exists>srv1 srv2 d' out lines.
    run_maps_cloud mapf files nRed maps srv = Some srv1 \<and> run_reduces_cloud reducef reds srv1 = Some srv2 \<and>
    Done_cloud c srv2 d = Some (True, srv2, d') \<and>
    (\<forall>r < nRed. map_of (dfiles d') (out_name r) = Some (concat (out r))) \<and>
    (\<forall>p. p \<notin> out_name ` {..<nRed} \<longrightarrow> map_of (dfiles d') p = map_of (dfiles d) p) \<and>
    mrsequential sorter mapf reducef (srv_input srv) files = Some (concat lines) \<and>
    mset (concat (map out [0..<nRed])) = mset lines"
proof -
  let ?xs = "concat (map (task_kvs mapf (srv_input srv) files) [0..<length files])"
  let ?out = "\<lambda>r. mr_spec reducef (part nRed r ?xs)"
  obtain srv1 srv2 where runs: "run_maps_cloud mapf files nRed maps srv = Some srv1" "run_reduces_cloud reducef reds srv1 = Some srv2"
    and ok2: "srv_ok srv2" and out: "\<And>r. r < nRed \<Longrightarrow> srv_input srv2 (out_name r) = Some (concat (?out r))"
    and no: "\<And>x. contains ''mr-ou'' x \<Longrightarrow> CHR ''/'' \<notin> set x \<Longrightarrow> srv_input srv2 x \<noteq> None \<Longrightarrow> x \<in> out_name ` {..<nRed}"
    using cloud_phases [OF assms(1-7), of mapf] by blast
  obtain d' where d': "Done_cloud c srv2 d = Some (True, srv2, d')"
    "\<forall>r < nRed. map_of (dfiles d') (out_name r) = Some (concat (?out r))"
    "\<forall>p. p \<notin> out_name ` {..<nRed} \<longrightarrow> map_of (dfiles d') p = map_of (dfiles d) p"
    using Done_cloud_fetches [OF ok2 assms(9,8) out no] by blast
  have "\<forall>f \<in> set files. srv_input srv f \<noteq> None" using pg_input [OF assms(3,5)] by blast
  then have seq: "mrsequential sorter mapf reducef (srv_input srv) files = Some (concat (mr_spec reducef ?xs))"
    by (rule seq_output [where sorter = sorter, OF assms(1) _ assms(10,11)])
  have "mset (concat (map ?out [0..<nRed])) = mset (mr_spec reducef ?xs)"
    by (rule mr_app.reduces_spec [OF assms(1,2)]) simp
  with runs d' seq show ?thesis
    by (intro exI [of _ srv1] exI [of _ srv2] exI [of _ d'] exI [of _ ?out] exI [of _ "mr_spec reducef ?xs"]) simp
qed

text \<open>
  The server never removes the files of a finished job: a later job with fewer input files
  reduces the pairs of the earlier job's other map tasks together with its own.
\<close>

theorem stale_files_reduced:
  assumes "mr_app reducef" and "tmp_ok nRed old k srv0" and "n \<le> k" and "mapped nRed kvs {..<n} srv0 srv" and "r < nRed"
  shows "\<exists>outs' srv'. doReduce_cloud reducef r outs srv = Some (outs', srv') \<and>
    srv_input srv' (out_name r) =
      Some (concat (mr_spec reducef (part nRed r (concat (map kvs [0..<n]) @ concat (map old [n..<k])))))"
proof -
  let ?all = "\<lambda>m. if m < n then kvs m else old m"
  have split: "[0..<k] = [0..<n] @ [n..<k]" using assms(3) upt_add_eq_append [of 0 n "k - n"] by simp
  have "map ?all [0..<k] = map kvs [0..<n] @ map old [n..<k]" unfolding split by (simp add: map_idI)
  then have all: "concat (map ?all [0..<k]) = concat (map kvs [0..<n]) @ concat (map old [n..<k])" by simp
  have "map_of (dfiles srv) (srv_path m i) = Some (file_bytes (part nRed i (?all m)))" if "m < k" "i < nRed" for m i
    using assms(2,4) that by (cases "m < n") (auto simp: mapped_def tmp_ok_def srv_path_inj)
  moreover have "\<exists>m < k. \<exists>i < nRed. x = mr_name m i"
    if x: "HasPrefix x ''mr-''" "map_of (dfiles srv) (''./root/tmp/'' @ x) \<noteq> None" for x
  proof (cases "\<exists>m < n. \<exists>i < nRed. x = mr_name m i")
    case True
    then show ?thesis using assms(3) order.strict_trans2 by blast
  next
    case False
    then have "map_of (dfiles srv) (''./root/tmp/'' @ x) = map_of (dfiles srv0) (''./root/tmp/'' @ x)"
      using assms(4) by (auto simp: mapped_def srv_path_def)
    with x assms(2) show ?thesis unfolding tmp_ok_def by metis
  qed
  ultimately have "tmp_ok nRed ?all k srv" using assms(4) unfolding tmp_ok_def mapped_def by blast
  from doReduce_cloud_result [OF assms(1) this assms(5), of outs] show ?thesis
    unfolding all srv_input_def by auto
qed

text \<open>A client can end the server: asking for a file that is not there, or for the welcome page.\<close>

theorem missing_file_kills_server:
  "map_of (dfiles d) (''.'' @ path) = None \<Longrightarrow> path \<notin> {''/root'', ''/root/'', ''/root/tmp'', ''/root/tmp/''} \<Longrightarrow>
    homePage d ''GET'' path body = None"
  by (simp add: homePage_def getFile_def read_file_def os_Open_def)

section \<open>An example\<close>

definition ex_server :: Disk where
  "ex_server = \<lparr>dfiles = [(''./root/pg-b'', ''b a''), (''./root/pg-a'', ''a''), (''./root/notes'', ''pages'')],
     ddirs = [''./root'', ''./root/tmp''], dfault = (\<lambda>_. NoFault)\<rparr>"

definition ex_local :: Disk where
  "ex_local = \<lparr>dfiles = [], ddirs = [''''], dfault = (\<lambda>_. NoFault)\<rparr>"

lemma ex_server_ok: "srv_ok ex_server" "local_ok ex_local"
  by (simp add: srv_ok_def ex_server_def dirname_def, simp add: local_ok_def ex_local_def HasPrefix_def)

lemma ex_server_clean: "srv_clean ex_server"
  by code_simp

lemma ex_server_files: "cloud_files ''pg'' ex_server = Some ([''pg-a'', ''pg-b''], ex_server)"
proof -
  have "sort [''pg-b'', ''pg-a'', ''notes'', ''tmp''] = [''notes'', ''pg-a'', ''pg-b'', ''tmp'']" by code_simp
  then have "homePage ex_server ''GET'' ''/root'' [] = Some (''notes pg-a pg-b tmp '', ex_server)"
    by (simp add: homePage_def dir_names_def ex_server_def dirname_def basename_def name_list_def)
  moreover have "getCloudFileList ''notes pg-a pg-b tmp '' ''pg'' = [''pg-a'', ''pg-b'']" by code_simp
  ultimately show ?thesis by (simp add: cloud_files_def)
qed

theorem cloud_equals_sequential_witness:
  "\<exists>srv1 srv2 d' out lines.
    run_maps_cloud wc_Map [''pg-a'', ''pg-b''] 2 [(1, 7, []), (0, 8, []), (1, 8, [])] ex_server = Some srv1 \<and>
    run_reduces_cloud wc_Reduce [(1, []), (0, []), (0, [])] srv1 = Some srv2 \<and>
    Done_cloud (MakeCoordinator [] [] 0 ''local'') srv2 ex_local = Some (True, srv2, d') \<and>
    map_of (dfiles d') (out_name 0) = Some (concat (out 0)) \<and> map_of (dfiles d') (out_name 1) = Some (concat (out 1)) \<and>
    mrsequential (sort_key kv_Key) wc_Map wc_Reduce (srv_input ex_server) [''pg-a'', ''pg-b''] = Some (concat lines) \<and>
    mset (concat (map out [0..<2])) = mset lines"
proof -
  have "\<exists>srv1 srv2 d' out lines.
    run_maps_cloud wc_Map [''pg-a'', ''pg-b''] 2 [(1, 7, []), (0, 8, []), (1, 8, [])] ex_server = Some srv1 \<and>
    run_reduces_cloud wc_Reduce [(1, []), (0, []), (0, [])] srv1 = Some srv2 \<and>
    Done_cloud (MakeCoordinator [] [] 0 ''local'') srv2 ex_local = Some (True, srv2, d') \<and>
    (\<forall>r < 2. map_of (dfiles d') (out_name r) = Some (concat (out r))) \<and>
    (\<forall>p. p \<notin> out_name ` {..<2} \<longrightarrow> map_of (dfiles d') p = map_of (dfiles ex_local) p) \<and>
    mrsequential (sort_key kv_Key) wc_Map wc_Reduce (srv_input ex_server) [''pg-a'', ''pg-b''] = Some (concat lines) \<and>
    mset (concat (map out [0..<2])) = mset lines"
  proof (rule cloud_equals_sequential [OF wc.mr_app_axioms _ ex_server_ok(1) ex_server_clean ex_server_files])
    show "Done (MakeCoordinator [] [] 0 ''local'')" by (simp add: Done_def MakeCoordinator_def)
  qed (auto simp: ex_server_ok)
  then obtain srv1 srv2 d' out lines where "run_maps_cloud wc_Map [''pg-a'', ''pg-b''] 2 [(1, 7, []), (0, 8, []), (1, 8, [])] ex_server = Some srv1"
    "run_reduces_cloud wc_Reduce [(1, []), (0, []), (0, [])] srv1 = Some srv2"
    "Done_cloud (MakeCoordinator [] [] 0 ''local'') srv2 ex_local = Some (True, srv2, d')"
    "\<forall>r < 2. map_of (dfiles d') (out_name r) = Some (concat (out r))"
    "mrsequential (sort_key kv_Key) wc_Map wc_Reduce (srv_input ex_server) [''pg-a'', ''pg-b''] = Some (concat lines)"
    "mset (concat (map out [0..<2])) = mset lines" by blast
  moreover from this(4) have "map_of (dfiles d') (out_name 0) = Some (concat (out 0))" "map_of (dfiles d') (out_name 1) = Some (concat (out 1))"
    by simp_all
  ultimately show ?thesis by blast
qed

end
