(* ===== verification/Porcupine_Model.thy ===== *)
theory Porcupine_Model
  imports Go_Prelude
begin

text \<open>
  The data of the linearizability checker (\<^verbatim>\<open>Lab3/src/porcupine/model.go\<close>), the entries
  that \<^verbatim>\<open>checker.go\<close> makes of a history, and what the checker decides: whether a history is
  linearizable. An \<^verbatim>\<open>interface{}\<close> value is of the type \<open>'v\<close>, a state of the model of
  the type \<open>'s\<close>. The two functions that describe operations and states for the
  visualisation are arguments in \<open>Porcupine_Visualize\<close>.
\<close>

section \<open>Definitions\<close>

record 'v Operation =
  op_ClientId :: int
  Input :: 'v
  Call :: int
  Output :: 'v
  Return :: int

datatype EventKind = CallEvent | ReturnEvent

record 'v Event =
  ev_ClientId :: int
  Kind :: EventKind
  Value :: 'v
  Id :: int

text \<open>\<open>None\<close> is a nil function field.\<close>

record ('s, 'v) Model =
  Partition :: "('v Operation list \<Rightarrow> 'v Operation list list) option"
  PartitionEvent :: "('v Event list \<Rightarrow> 'v Event list list) option"
  Init :: 's
  Step :: "'s \<Rightarrow> 'v \<Rightarrow> 'v \<Rightarrow> bool \<times> 's"
  Equal :: "('s \<Rightarrow> 's \<Rightarrow> bool) option"

definition NoPartition :: "'v Operation list \<Rightarrow> 'v Operation list list" where
  "NoPartition history = [history]"

definition NoPartitionEvent :: "'v Event list \<Rightarrow> 'v Event list list" where
  "NoPartitionEvent history = [history]"

definition ShallowEqual :: "'s \<Rightarrow> 's \<Rightarrow> bool" where
  "ShallowEqual state1 state2 \<longleftrightarrow> state1 = state2"

definition or_default :: "'a option \<Rightarrow> 'a \<Rightarrow> 'a" where
  "or_default f d = (case f of None \<Rightarrow> d | Some g \<Rightarrow> g)"

definition fillDefault :: "('s, 'v) Model \<Rightarrow> ('s, 'v) Model" where
  "fillDefault m =
     m\<lparr>Partition := Some (or_default (Partition m) NoPartition),
       PartitionEvent := Some (or_default (PartitionEvent m) NoPartitionEvent),
       Equal := Some (or_default (Equal m) ShallowEqual)\<rparr>"

datatype CheckResult = Unknown | Ok | Illegal

datatype entryKind = callEntry | returnEntry

record 'v entry =
  e_kind :: entryKind
  e_value :: 'v
  e_id :: int
  e_time :: int
  e_clientId :: int

definition byTime_Less :: "'v entry \<Rightarrow> 'v entry \<Rightarrow> bool" where
  "byTime_Less a b =
     (if e_time a \<noteq> e_time b then e_time a < e_time b
      else e_kind a = callEntry \<and> e_kind b = returnEntry)"

fun history_entries :: "int \<Rightarrow> 'v Operation list \<Rightarrow> 'v entry list" where
  "history_entries i [] = []"
| "history_entries i (elem # rest) =
     \<lparr>e_kind = callEntry, e_value = Input elem, e_id = i, e_time = Call elem, e_clientId = op_ClientId elem\<rparr> #
     \<lparr>e_kind = returnEntry, e_value = Output elem, e_id = i, e_time = Return elem, e_clientId = op_ClientId elem\<rparr> #
     history_entries (i + 1) rest"

text \<open>\<open>sort.Sort\<close> is not stable, so the sort is an argument.\<close>

definition makeEntries :: "('v entry list \<Rightarrow> 'v entry list) \<Rightarrow> 'v Operation list \<Rightarrow> 'v entry list" where
  "makeEntries sorter history = sorter (history_entries 0 history)"

text \<open>What \<open>sort.Sort\<close> promises of its result.\<close>

definition sorts_byTime :: "('v entry list \<Rightarrow> 'v entry list) \<Rightarrow> bool" where
  "sorts_byTime sorter \<longleftrightarrow>
     (\<forall>es. mset (sorter es) = mset es \<and> sorted_wrt (\<lambda>a b. \<not> byTime_Less b a) (sorter es))"

fun renumber_loop :: "(int \<rightharpoonup> int) \<Rightarrow> int \<Rightarrow> 'v Event list \<Rightarrow> 'v Event list" where
  "renumber_loop m i [] = []"
| "renumber_loop m i (v # vs) =
     (case m (Id v) of
        Some r \<Rightarrow> v\<lparr>Id := r\<rparr> # renumber_loop m i vs
      | None \<Rightarrow> v\<lparr>Id := i\<rparr> # renumber_loop (m(Id v \<mapsto> i)) (i + 1) vs)"

definition renumber :: "'v Event list \<Rightarrow> 'v Event list" where
  "renumber events = renumber_loop Map.empty 0 events"

definition convertEntries :: "'v Event list \<Rightarrow> 'v entry list" where
  "convertEntries events =
     map (\<lambda>(i, elem).
        \<lparr>e_kind = (if Kind elem = ReturnEvent then returnEntry else callEntry), e_value = Value elem,
         e_id = Id elem, e_time = int i, e_clientId = ev_ClientId elem\<rparr>) (enumerate 0 events)"

section \<open>Linearizability\<close>

text \<open>
  The operations are numbered. A sequence of them is legal from a state if the model accepts
  every step; \<open>before i j\<close> says that operation \<open>i\<close> had returned when
  \<open>j\<close> was called.
\<close>

fun legal :: "('s \<Rightarrow> 'v \<Rightarrow> 'v \<Rightarrow> bool \<times> 's) \<Rightarrow> (nat \<Rightarrow> 'v) \<Rightarrow> (nat \<Rightarrow> 'v) \<Rightarrow> 's \<Rightarrow> nat list \<Rightarrow> bool" where
  "legal step inp out s [] = True"
| "legal step inp out s (i # is) =
     (case step s (inp i) (out i) of (ok, s') \<Rightarrow> ok \<and> legal step inp out s' is)"

definition linearization ::
  "('s \<Rightarrow> 'v \<Rightarrow> 'v \<Rightarrow> bool \<times> 's) \<Rightarrow> (nat \<Rightarrow> 'v) \<Rightarrow> (nat \<Rightarrow> 'v) \<Rightarrow> (nat \<Rightarrow> nat \<Rightarrow> bool) \<Rightarrow> 's \<Rightarrow> nat set \<Rightarrow> nat list \<Rightarrow> bool" where
  "linearization step inp out before s A is \<longleftrightarrow>
     distinct is \<and> set is = A \<and> legal step inp out s is \<and> sorted_wrt (\<lambda>i j. \<not> before j i) is"

text \<open>A history of operations is linearizable by its calls and returns in real time.\<close>

definition linearizable :: "('s, 'v) Model \<Rightarrow> 'v Operation list \<Rightarrow> bool" where
  "linearizable m h \<longleftrightarrow>
     (\<exists>is. linearization (Step m) (\<lambda>i. Input (h ! i)) (\<lambda>i. Output (h ! i))
        (\<lambda>i j. Return (h ! i) < Call (h ! j)) (Init m) {..<length h} is)"

text \<open>What the checker relies on of the model's equality of states.\<close>

locale state_equality =
  fixes step :: "'s \<Rightarrow> 'v \<Rightarrow> 'v \<Rightarrow> bool \<times> 's" and eq :: "'s \<Rightarrow> 's \<Rightarrow> bool"
  assumes eq_refl: "eq s s"
    and eq_step: "eq s t \<Longrightarrow> fst (step s x y) = fst (step t x y) \<and> eq (snd (step s x y)) (snd (step t x y))"
begin

lemma legal_eq: "eq s t \<Longrightarrow> legal step inp out s is = legal step inp out t is"
proof (induction "is" arbitrary: s t)
  case (Cons i js)
  from eq_step [OF Cons.prems, of "inp i" "out i"] Cons.IH show ?case
    by (auto split: prod.split)
qed simp

lemma linearization_eq: "eq s t \<Longrightarrow> linearization step inp out before s A is = linearization step inp out before t A is"
  using legal_eq by (simp add: linearization_def)

end

section \<open>The entries of a history\<close>

definition kid :: "'v entry \<Rightarrow> entryKind \<times> int" where
  "kid e = (e_kind e, e_id e)"

text \<open>Every one of \<open>n\<close> operations has one call and one return, in this order.\<close>

definition wf_entries :: "'v entry list \<Rightarrow> nat \<Rightarrow> bool" where
  "wf_entries es n \<longleftrightarrow> distinct (map kid es) \<and> set (map kid es) = UNIV \<times> {0..<int n} \<and>
     (\<forall>p q. p < length es \<and> q < length es \<and> e_id (es ! p) = e_id (es ! q) \<and>
        e_kind (es ! p) = callEntry \<and> e_kind (es ! q) = returnEntry \<longrightarrow> p < q)"

definition posn :: "'v entry list \<Rightarrow> entryKind \<Rightarrow> nat \<Rightarrow> nat" where
  "posn es k i = (LEAST p. p < length es \<and> kid (es ! p) = (k, int i))"

abbreviation callp :: "'v entry list \<Rightarrow> nat \<Rightarrow> nat" where
  "callp es \<equiv> posn es callEntry"

abbreviation retp :: "'v entry list \<Rightarrow> nat \<Rightarrow> nat" where
  "retp es \<equiv> posn es returnEntry"

definition eid :: "'v entry list \<Rightarrow> nat \<Rightarrow> nat" where
  "eid es p = nat (e_id (es ! p))"

lemma entryKind_UNIV: "UNIV = {callEntry, returnEntry}"
  using entryKind.exhaust by auto

lemma wf_length: "wf_entries es n \<Longrightarrow> length es = 2 * n"
proof -
  assume wf: "wf_entries es n"
  then have "length es = card ((UNIV :: entryKind set) \<times> {0..<int n})"
    by (metis distinct_card length_map wf_entries_def)
  then show ?thesis by (simp add: card_cartesian_product entryKind_UNIV)
qed

lemma posn:
  assumes "wf_entries es n" and "i < n"
  shows "posn es k i < length es" and "kid (es ! posn es k i) = (k, int i)"
proof -
  have "(k, int i) \<in> set (map kid es)" using assms by (simp add: wf_entries_def)
  then have "\<exists>p. p < length es \<and> kid (es ! p) = (k, int i)" by (auto simp: in_set_conv_nth)
  then have "posn es k i < length es \<and> kid (es ! posn es k i) = (k, int i)"
    unfolding posn_def by (rule LeastI_ex)
  then show "posn es k i < length es" "kid (es ! posn es k i) = (k, int i)" by auto
qed

lemma kid_inj: "wf_entries es n \<Longrightarrow> p < length es \<Longrightarrow> q < length es \<Longrightarrow> kid (es ! p) = kid (es ! q) \<Longrightarrow> p = q"
  unfolding wf_entries_def by (metis distinct_conv_nth length_map nth_map)

lemma eid:
  assumes "wf_entries es n" and "p < length es"
  shows "eid es p < n" and "e_id (es ! p) = int (eid es p)" and "p = posn es (e_kind (es ! p)) (eid es p)"
proof -
  have "kid (es ! p) \<in> UNIV \<times> {0..<int n}" using assms unfolding wf_entries_def by (metis length_map nth_map nth_mem)
  then have r: "0 \<le> e_id (es ! p)" "e_id (es ! p) < int n" by (auto simp: kid_def)
  then show i: "eid es p < n" "e_id (es ! p) = int (eid es p)" by (auto simp: eid_def)
  from kid_inj [OF assms posn(1) [OF assms(1) i(1)]] posn(2) [OF assms(1) i(1)]
  show "p = posn es (e_kind (es ! p)) (eid es p)" by (simp add: kid_def i(2))
qed

lemma posn_fields:
  assumes "wf_entries es n" and "i < n"
  shows "e_kind (es ! posn es k i) = k" and "e_id (es ! posn es k i) = int i" and "eid es (posn es k i) = i"
  using posn(2) [OF assms] by (simp_all add: kid_def eid_def)

lemma wf_order:
  assumes "wf_entries es n" and "p < length es" and "q < length es" and "e_id (es ! p) = e_id (es ! q)"
    and "e_kind (es ! p) = callEntry" and "e_kind (es ! q) = returnEntry"
  shows "p < q"
  using assms unfolding wf_entries_def by simp

lemma call_before_return:
  assumes "wf_entries es n" and "i < n"
  shows "callp es i < retp es i"
  by (rule wf_order [OF assms(1) posn(1) [OF assms] posn(1) [OF assms]]) (simp_all add: posn_fields [OF assms])

section \<open>Operations as entries\<close>

definition op_entry :: "entryKind \<Rightarrow> int \<Rightarrow> 'v Operation \<Rightarrow> 'v entry" where
  "op_entry k i op =
     \<lparr>e_kind = k, e_value = (case k of callEntry \<Rightarrow> Input op | returnEntry \<Rightarrow> Output op), e_id = i,
      e_time = (case k of callEntry \<Rightarrow> Call op | returnEntry \<Rightarrow> Return op), e_clientId = op_ClientId op\<rparr>"

lemma set_history_entries:
  "e \<in> set (history_entries a h) \<longleftrightarrow> (\<exists>k i. i < length h \<and> e = op_entry k (a + int i) (h ! i))"
proof (induction h arbitrary: a)
  case (Cons op h)
  have split: "(\<exists>k i. i < length (op # h) \<and> e = op_entry k (a + int i) ((op # h) ! i)) \<longleftrightarrow>
      (\<exists>k. e = op_entry k a op) \<or> (\<exists>k i. i < length h \<and> e = op_entry k (a + 1 + int i) (h ! i))"
    (is "?L \<longleftrightarrow> ?A \<or> ?B")
  proof
    assume ?L
    then obtain k i where "i < length (op # h)" "e = op_entry k (a + int i) ((op # h) ! i)" by blast
    then show "?A \<or> ?B" by (cases i) (auto simp: algebra_simps)
  next
    assume "?A \<or> ?B"
    then show ?L
    proof
      assume ?A
      then obtain k where "e = op_entry k (a + int 0) ((op # h) ! 0)" by auto
      then show ?L by (intro exI [of _ k] exI [of _ 0]) simp
    next
      assume ?B
      then obtain k i where "i < length h" "e = op_entry k (a + int (Suc i)) ((op # h) ! Suc i)"
        by (auto simp: algebra_simps)
      then show ?L by (intro exI [of _ k] exI [of _ "Suc i"]) simp
    qed
  qed
  have "(\<exists>k. e = op_entry k a op) \<longleftrightarrow> e = op_entry callEntry a op \<or> e = op_entry returnEntry a op"
    by (metis entryKind.exhaust)
  then show ?case unfolding split by (auto simp: Cons.IH op_entry_def)
qed simp

lemma kid_op_entry: "kid (op_entry k i op) = (k, i)"
  by (simp add: kid_def op_entry_def)

lemma op_entry_id: "e_id (op_entry k i op) = i"
  by (simp add: op_entry_def)

lemma distinct_history_entries: "distinct (map kid (history_entries a h))"
proof (induction h arbitrary: a)
  case (Cons op h)
  have "a < e_id e" if "e \<in> set (history_entries (a + 1) h)" for e
    using that by (auto simp: set_history_entries op_entry_id)
  with Cons show ?case by (force simp: kid_def)
qed simp

lemma op_entry_kid: "e \<in> set (history_entries 0 h) \<Longrightarrow> kid e = (k, int i) \<Longrightarrow> i < length h \<and> e = op_entry k (int i) (h ! i)"
  by (auto simp: set_history_entries kid_op_entry)

lemma set_kid_history: "kid ` set (history_entries 0 h) = UNIV \<times> {0..<int (length h)}"
proof (intro set_eqI iffI)
  fix x :: "entryKind \<times> int" assume "x \<in> UNIV \<times> {0..<int (length h)}"
  then obtain k j where "x = (k, j)" "0 \<le> j" "j < int (length h)" by (cases x) auto
  then obtain i where "x = (k, int i)" "i < length h" using zero_le_imp_eq_int [of j] by auto
  then have "x = kid (op_entry k (int i) (h ! i))" "op_entry k (int i) (h ! i) \<in> set (history_entries 0 h)"
    by (auto simp: kid_op_entry set_history_entries)
  then show "x \<in> kid ` set (history_entries 0 h)" by blast
qed (auto simp: set_history_entries kid_op_entry)

definition ordered_history :: "'v Operation list \<Rightarrow> bool" where
  "ordered_history h \<longleftrightarrow> list_all (\<lambda>op. Call op \<le> Return op) h"

lemma sorted_positions:
  assumes "sorted_wrt (\<lambda>a b. \<not> byTime_Less b a) es" and "p < length es" and "q < length es" and "byTime_Less (es ! p) (es ! q)"
  shows "p < q"
proof (rule ccontr)
  assume "\<not> p < q"
  then consider "p = q" | "q < p" by linarith
  then show False
    using assms by cases (auto simp: byTime_Less_def sorted_wrt_iff_nth_less)
qed

lemma makeEntries_wf:
  assumes "sorts_byTime sorter" and "ordered_history h"
  shows "wf_entries (makeEntries sorter h) (length h)"
proof -
  let ?es = "makeEntries sorter h"
  have ms: "mset ?es = mset (history_entries 0 h)" and srt: "sorted_wrt (\<lambda>a b. \<not> byTime_Less b a) ?es"
    using assms(1) by (simp_all add: sorts_byTime_def makeEntries_def)
  then have "mset (map kid ?es) = mset (map kid (history_entries 0 h))" by simp
  then have "distinct (map kid ?es)" using distinct_history_entries mset_eq_imp_distinct_iff by blast
  moreover have "set (map kid ?es) = UNIV \<times> {0..<int (length h)}"
    using set_kid_history mset_eq_setD [OF ms] by simp
  moreover have "p < q" if "p < length ?es" "q < length ?es" "e_id (?es ! p) = e_id (?es ! q)"
    "e_kind (?es ! p) = callEntry" "e_kind (?es ! q) = returnEntry" for p q
  proof -
    have "?es ! p \<in> set (history_entries 0 h)" "?es ! q \<in> set (history_entries 0 h)"
      using that(1,2) mset_eq_setD [OF ms] by (metis nth_mem)+
    then obtain k i l j where e: "i < length h" "?es ! p = op_entry k (int i) (h ! i)"
        "j < length h" "?es ! q = op_entry l (int j) (h ! j)" by (auto simp: set_history_entries)
    with that have "?es ! p = op_entry callEntry (int i) (h ! i)" "?es ! q = op_entry returnEntry (int i) (h ! i)"
      by (auto simp: op_entry_def)
    moreover have "Call (h ! i) \<le> Return (h ! i)" using assms(2) e(1) by (simp add: ordered_history_def list_all_length)
    ultimately have "byTime_Less (?es ! p) (?es ! q)" by (auto simp: byTime_Less_def op_entry_def)
    with srt that(1,2) show ?thesis by (rule sorted_positions)
  qed
  ultimately show ?thesis unfolding wf_entries_def by blast
qed

lemma makeEntries_nth:
  assumes "sorts_byTime sorter" and "ordered_history h" and "i < length h"
  shows "makeEntries sorter h ! posn (makeEntries sorter h) k i = op_entry k (int i) (h ! i)"
proof -
  let ?es = "makeEntries sorter h"
  have "set ?es = set (history_entries 0 h)"
    using assms(1) by (metis mset_eq_setD sorts_byTime_def makeEntries_def)
  moreover note posn [OF makeEntries_wf [OF assms(1,2)] assms(3), of k]
  ultimately show ?thesis using op_entry_kid by (metis nth_mem)
qed

lemma makeEntries_before:
  assumes "sorts_byTime sorter" and "ordered_history h" and "i < length h" and "j < length h"
  shows "retp (makeEntries sorter h) i < callp (makeEntries sorter h) j \<longleftrightarrow> Return (h ! i) < Call (h ! j)"
proof -
  let ?es = "makeEntries sorter h"
  have srt: "sorted_wrt (\<lambda>a b. \<not> byTime_Less b a) ?es" using assms(1) by (simp add: sorts_byTime_def makeEntries_def)
  note wf = makeEntries_wf [OF assms(1,2)] and nth = makeEntries_nth [OF assms(1,2)]
  have p: "retp ?es i < length ?es" "callp ?es j < length ?es" using posn(1) [OF wf] assms(3,4) by auto
  have *: "byTime_Less (?es ! retp ?es i) (?es ! callp ?es j) \<longleftrightarrow> Return (h ! i) < Call (h ! j)"
    "byTime_Less (?es ! callp ?es j) (?es ! retp ?es i) \<longleftrightarrow> Call (h ! j) \<le> Return (h ! i)"
    unfolding nth [OF assms(3)] nth [OF assms(4)] by (auto simp: byTime_Less_def op_entry_def)
  show ?thesis
    using sorted_positions [OF srt p] sorted_positions [OF srt p(2,1)] * by (meson linorder_not_le less_asym)
qed

end
