(* ===== verification/Porcupine_List.thy ===== *)
theory Porcupine_List
  imports Porcupine_Model "HOL-Library.Monad_Syntax"
begin

text \<open>
  The doubly linked list of \<^verbatim>\<open>Lab3/src/porcupine/checker.go\<close> in an explicit heap: a pointer
  is an address or nil (\<open>None\<close>), and dereferencing nil is a panic (\<open>None\<close> in the
  result). The checker takes the two entries of an operation out of the list (\<open>lift\<close>) and
  puts them back later (\<open>unlift\<close>) through the pointers that the removed nodes keep. The
  lemmas relate the heap to the sequence of addresses in the list.
\<close>

section \<open>Definitions\<close>

record 'v lnode =
  n_value :: "'v option"
  n_match :: "nat option"
  n_id :: int
  n_next :: "nat option"
  n_prev :: "nat option"

type_synonym 'v heap = "nat \<Rightarrow> 'v lnode"

definition set_next :: "nat \<Rightarrow> nat option \<Rightarrow> 'v heap \<Rightarrow> 'v heap" where
  "set_next a v h = h(a := (h a)\<lparr>n_next := v\<rparr>)"

definition set_prev :: "nat \<Rightarrow> nat option \<Rightarrow> 'v heap \<Rightarrow> 'v heap" where
  "set_prev a v h = h(a := (h a)\<lparr>n_prev := v\<rparr>)"

definition insertBefore :: "'v heap \<Rightarrow> nat \<Rightarrow> nat option \<Rightarrow> 'v heap" where
  "insertBefore h n mark =
     (case mark of
        None \<Rightarrow> h
      | Some m \<Rightarrow>
          let beforeMark = n_prev (h m);
              h1 = set_next n (Some m) (set_prev m (Some n) h)
          in case beforeMark of
               None \<Rightarrow> h1
             | Some b \<Rightarrow> set_next b (Some n) (set_prev n (Some b) h1))"

text \<open>The walk along \<open>next\<close> ends only if the list does.\<close>

partial_function (option) list_length :: "'v heap \<Rightarrow> nat option \<Rightarrow> nat \<Rightarrow> nat option" where
  "list_length h p l =
     (case p of None \<Rightarrow> Some l | Some a \<Rightarrow> list_length h (n_next (h a)) (l + 1))"

text \<open>A new node for the entry at position \<open>i\<close> gets the address \<open>i\<close>.\<close>

definition new_node :: "'v option \<Rightarrow> nat option \<Rightarrow> int \<Rightarrow> 'v lnode" where
  "new_node v m i = \<lparr>n_value = v, n_match = m, n_id = i, n_next = None, n_prev = None\<rparr>"

definition link_entry ::
  "nat \<times> 'v entry \<Rightarrow> 'v heap \<times> nat option \<times> (int \<rightharpoonup> nat) \<Rightarrow> 'v heap \<times> nat option \<times> (int \<rightharpoonup> nat)" where
  "link_entry ie st =
     (let (i, elem) = ie; (h, root, mtch) = st in
      if e_kind elem = returnEntry
      then (insertBefore (h(i := new_node (Some (e_value elem)) None (e_id elem))) i root, Some i, mtch(e_id elem \<mapsto> i))
      else (insertBefore (h(i := new_node (Some (e_value elem)) (mtch (e_id elem)) (e_id elem))) i root, Some i, mtch))"

definition makeLinkedEntries :: "'v entry list \<Rightarrow> 'v heap \<times> nat option" where
  "makeLinkedEntries entries =
     (let (h, root, mtch) = foldr link_entry (enumerate 0 entries) (\<lambda>_. new_node None None 0, None, Map.empty)
      in (h, root))"

definition lift :: "'v heap \<Rightarrow> nat \<Rightarrow> 'v heap option" where
  "lift h entry = do {
     p \<leftarrow> n_prev (h entry);
     let h = set_next p (n_next (h entry)) h;
     q \<leftarrow> n_next (h entry);
     let h = set_prev q (n_prev (h entry)) h;
     mtch \<leftarrow> n_match (h entry);
     mp \<leftarrow> n_prev (h mtch);
     let h = set_next mp (n_next (h mtch)) h;
     (case n_next (h mtch) of
        None \<Rightarrow> Some h
      | Some mn \<Rightarrow> Some (set_prev mn (n_prev (h mtch)) h))
   }"

definition unlift :: "'v heap \<Rightarrow> nat \<Rightarrow> 'v heap option" where
  "unlift h entry = do {
     mtch \<leftarrow> n_match (h entry);
     mp \<leftarrow> n_prev (h mtch);
     let h = set_next mp (Some mtch) h;
     let h = (case n_next (h mtch) of None \<Rightarrow> h | Some mn \<Rightarrow> set_prev mn (Some mtch) h);
     p \<leftarrow> n_prev (h entry);
     let h = set_next p (Some entry) h;
     q \<leftarrow> n_next (h entry);
     Some (set_prev q (Some entry) h)
   }"

section \<open>Lists in the heap\<close>

lemma set_fields [simp]:
  "n_next (set_next a v h b) = (if b = a then v else n_next (h b))"
  "n_prev (set_next a v h b) = n_prev (h b)"
  "n_next (set_prev a v h b) = n_next (h b)"
  "n_prev (set_prev a v h b) = (if b = a then v else n_prev (h b))"
  "n_value (set_next a v h b) = n_value (h b)" "n_value (set_prev a v h b) = n_value (h b)"
  "n_match (set_next a v h b) = n_match (h b)" "n_match (set_prev a v h b) = n_match (h b)"
  "n_id (set_next a v h b) = n_id (h b)" "n_id (set_prev a v h b) = n_id (h b)"
  by (simp_all add: set_next_def set_prev_def)

definition hd_opt :: "'a list \<Rightarrow> 'a option" where
  "hd_opt xs = (case xs of [] \<Rightarrow> None | x # _ \<Rightarrow> Some x)"

lemma hd_opt_simps [simp]: "hd_opt [] = None" "hd_opt (x # xs) = Some x"
  by (simp_all add: hd_opt_def)

lemma hd_optD: "hd_opt xs = Some x \<Longrightarrow> x \<in> set xs"
  by (cases xs) auto

lemma set_tlD: "x \<in> set (tl xs) \<Longrightarrow> x \<in> set xs"
  by (cases xs) auto

text \<open>The addresses of a list, in order; the \<open>prev\<close> of the first is not looked at.\<close>

fun dll :: "'v heap \<Rightarrow> nat list \<Rightarrow> bool" where
  "dll h [] = True"
| "dll h [x] = (n_next (h x) = None)"
| "dll h (x # y # zs) = (n_next (h x) = Some y \<and> n_prev (h y) = Some x \<and> dll h (y # zs))"

lemma dll_Cons: "dll h (x # ys) \<longleftrightarrow> n_next (h x) = hd_opt ys \<and> (ys \<noteq> [] \<longrightarrow> n_prev (h (hd ys)) = Some x) \<and> dll h ys"
  by (cases ys) auto

lemma dll_cong:
  assumes "\<And>x. x \<in> set xs \<Longrightarrow> n_next (g x) = n_next (h x)"
    and "\<And>x. x \<in> set (tl xs) \<Longrightarrow> n_prev (g x) = n_prev (h x)"
  shows "dll g xs = dll h xs"
  using assms
proof (induction xs)
  case (Cons x ys)
  have "dll g ys = dll h ys"
    by (rule Cons.IH) (use Cons.prems list.set_sel(2) [of ys] in \<open>cases ys; simp\<close>)+
  with Cons.prems show ?case by (cases ys) simp_all
qed simp

text \<open>A node outside the list that still points to its old neighbours.\<close>

definition remembers :: "'v heap \<Rightarrow> nat list \<Rightarrow> nat \<Rightarrow> nat list \<Rightarrow> bool" where
  "remembers h us a vs \<longleftrightarrow> us \<noteq> [] \<and> n_prev (h a) = Some (last us) \<and> n_next (h a) = hd_opt vs"

lemma dll_remembers: "dll h (us @ a # vs) \<Longrightarrow> us \<noteq> [] \<Longrightarrow> remembers h us a vs"
proof (induction us)
  case (Cons u us)
  then show ?case by (cases us) (auto simp: remembers_def dll_Cons)
qed simp

definition unlink :: "'v heap \<Rightarrow> nat \<Rightarrow> nat list \<Rightarrow> nat list \<Rightarrow> 'v heap" where
  "unlink h a us vs =
     (let g = set_next (last us) (hd_opt vs) h in
      case vs of [] \<Rightarrow> g | v # _ \<Rightarrow> set_prev v (Some (last us)) g)"

definition relink :: "'v heap \<Rightarrow> nat \<Rightarrow> nat list \<Rightarrow> nat list \<Rightarrow> 'v heap" where
  "relink h a us vs =
     (let g = set_next (last us) (Some a) h in
      case vs of [] \<Rightarrow> g | v # _ \<Rightarrow> set_prev v (Some a) g)"

lemma unlink_fields:
  "n_next (unlink h a us vs x) = (if x = last us then hd_opt vs else n_next (h x))"
  "n_prev (unlink h a us vs x) = (if hd_opt vs = Some x then Some (last us) else n_prev (h x))"
  "n_value (unlink h a us vs x) = n_value (h x)" "n_match (unlink h a us vs x) = n_match (h x)" "n_id (unlink h a us vs x) = n_id (h x)"
  by (cases vs; simp add: unlink_def Let_def)+

lemma relink_fields:
  "n_next (relink h a us vs x) = (if x = last us then Some a else n_next (h x))"
  "n_prev (relink h a us vs x) = (if hd_opt vs = Some x then Some a else n_prev (h x))"
  "n_value (relink h a us vs x) = n_value (h x)" "n_match (relink h a us vs x) = n_match (h x)" "n_id (relink h a us vs x) = n_id (h x)"
  by (cases vs; simp add: relink_def Let_def)+

lemma dll_append:
  assumes "us \<noteq> []"
    and "distinct us"
  shows "dll h (us @ vs) \<longleftrightarrow>
    dll (set_next (last us) None h) us \<and> n_next (h (last us)) = hd_opt vs \<and>
    (vs \<noteq> [] \<longrightarrow> n_prev (h (hd vs)) = Some (last us)) \<and> dll h vs"
  using assms
proof (induction us)
  case (Cons u us)
  show ?case
  proof (cases us)
    case Nil
    then show ?thesis by (simp add: dll_Cons [of _ _ vs])
  next
    case (Cons w ws)
    with Cons.prems have "u \<noteq> last us" by auto
    with Cons Cons.IH Cons.prems show ?thesis by simp
  qed
qed simp

lemma unlink_dll:
  assumes "dll h (us @ a # vs)" and "us \<noteq> []" and "distinct (us @ a # vs)"
  shows "dll (unlink h a us vs) (us @ vs)"
proof -
  let ?g = "unlink h a us vs"
  have d: "distinct us" "last us \<in> set us" "last us \<notin> set vs" "a \<notin> set us" using last_in_set [OF assms(2)] assms(3) by auto
  have h: "dll (set_next (last us) None h) us" "dll h vs"
    using assms(1,2) d(1) by (simp_all add: dll_append dll_Cons [of _ a])
  have "dll (set_next (last us) None ?g) us"
    using h(1) by (rule iffD1 [OF dll_cong, rotated -1])
      (use assms(3) in \<open>auto simp: unlink_fields hd_opt_def split: list.splits dest: set_tlD\<close>)
  moreover have "dll ?g vs"
    using h(2) by (rule iffD1 [OF dll_cong, rotated -1])
      (use d assms(3) in \<open>auto simp: unlink_fields hd_opt_def split: list.splits\<close>)
  ultimately show ?thesis
    using dll_append [OF assms(2) d(1), of ?g vs] by (cases vs) (auto simp: unlink_fields)
qed

lemma relink_dll:
  assumes "dll h (us @ vs)" and "remembers h us a vs" and "distinct (us @ a # vs)"
  shows "dll (relink h a us vs) (us @ a # vs)"
proof -
  let ?g = "relink h a us vs"
  have ne: "us \<noteq> []" using assms(2) by (simp add: remembers_def)
  have d: "distinct us" "last us \<in> set us" "last us \<notin> set vs" "a \<notin> set us" "a \<notin> set vs" using last_in_set [OF ne] assms(3) by auto
  have h: "dll (set_next (last us) None h) us" "dll h vs"
    using assms(1) ne d(1) by (simp_all add: dll_append)
  have "dll (set_next (last us) None ?g) us"
    using h(1) by (rule iffD1 [OF dll_cong, rotated -1])
      (use assms(3) in \<open>auto simp: relink_fields hd_opt_def split: list.splits dest: set_tlD\<close>)
  moreover have "dll ?g vs"
    using h(2) by (rule iffD1 [OF dll_cong, rotated -1])
      (use d assms(3) in \<open>auto simp: relink_fields hd_opt_def split: list.splits\<close>)
  moreover have "n_next (?g a) = hd_opt vs" "n_prev (?g a) = Some (last us)"
    using assms(2) d ne by (cases vs; auto simp: relink_fields remembers_def)+
  ultimately show ?thesis
    using ne d(1) by (cases vs) (auto simp: dll_append dll_Cons [of _ a] relink_fields)
qed

lemma lift_unfold:
  assumes "n_prev (h e) = Some p" and "n_next (h e) = Some q" and "p \<noteq> e"
    and "set_prev q (Some p) (set_next p (Some q) h) = g" and "n_match (h e) = Some m"
    and "n_prev (g m) = Some mp" and "n_next (g m) = mn" and "mp \<noteq> m"
  shows "lift h e = Some (case mn of None \<Rightarrow> set_next mp mn g | Some x \<Rightarrow> set_prev x (Some mp) (set_next mp mn g))"
proof -
  have "n_match (g e) = Some m" using assms(4,5) by auto
  moreover have "n_next (set_next p (Some q) h e) = Some q" "n_prev (set_next p (Some q) h e) = Some p"
    using assms(1-3) by simp_all
  moreover have "n_next (set_next mp mn g m) = mn" "n_prev (set_next mp mn g m) = Some mp"
    using assms(6-8) by simp_all
  ultimately show ?thesis by (simp only: lift_def Let_def assms bind.bind_lunit) (simp split: option.split)
qed

lemma unlift_unfold:
  assumes "n_match (h e) = Some m" and "n_prev (h m) = Some mp" and "n_next (h m) = mn" and "mp \<noteq> m"
    and "(case mn of None \<Rightarrow> set_next mp (Some m) h | Some x \<Rightarrow> set_prev x (Some m) (set_next mp (Some m) h)) = g"
    and "n_prev (g e) = Some p" and "n_next (g e) = Some q" and "p \<noteq> e"
  shows "unlift h e = Some (set_prev q (Some e) (set_next p (Some e) g))"
  using assms by (auto simp: unlift_def split: option.splits)

text \<open>\<open>lift\<close> takes the entry and its match out; the two nodes remember where they were.\<close>

lemma lift_spec:
  assumes "dll h (us @ a # bs @ m # cs)" and "us \<noteq> []" and "distinct (us @ a # bs @ m # cs)"
    and "n_match (h a) = Some m"
  shows "lift h a = Some (unlink (unlink h a us (bs @ m # cs)) m (us @ bs) cs)"
proof -
  let ?vs = "bs @ m # cs" and ?g = "unlink h a us (bs @ m # cs)"
  have a: "remembers h us a ?vs" by (rule dll_remembers [OF assms(1,2)])
  have "dll ?g ((us @ bs) @ m # cs)" using unlink_dll [OF assms(1-3)] by simp
  then have m: "remembers ?g (us @ bs) m cs" by (rule dll_remembers) (simp add: assms(2))
  obtain q ws where q: "?vs = q # ws" by (cases ?vs) auto
  have ne: "last us \<noteq> a" using last_in_set [OF assms(2)] assms(3) by auto
  have g: "set_prev q (Some (last us)) (set_next (last us) (Some q) h) = ?g"
    unfolding q by (simp add: unlink_def)
  have na: "n_prev (h a) = Some (last us)" "n_next (h a) = Some q" using a by (simp_all add: remembers_def q)
  have mm: "n_prev (?g m) = Some (last (us @ bs))" "n_next (?g m) = hd_opt cs" using m by (simp_all add: remembers_def)
  have "last (us @ bs) \<noteq> m" using last_in_set [of "us @ bs"] assms(2,3) by auto
  from lift_unfold [OF na ne g assms(4) mm this] show ?thesis
    by (cases cs) (simp_all add: unlink_def Let_def)
qed

text \<open>\<open>unlift\<close> puts them back.\<close>

lemma unlift_spec:
  assumes "dll h (us @ bs @ cs)" and "remembers h (us @ bs) m cs" and "remembers h us a (bs @ m # cs)"
    and "distinct (us @ a # bs @ m # cs)" and "n_match (h a) = Some m"
  shows "\<exists>g. unlift h a = Some g \<and> dll g (us @ a # bs @ m # cs) \<and>
    (\<forall>x. x \<notin> set (us @ bs @ m # cs) \<longrightarrow> n_next (g x) = n_next (h x) \<and> n_prev (g x) = n_prev (h x)) \<and>
    (\<forall>x. n_value (g x) = n_value (h x) \<and> n_match (g x) = n_match (h x) \<and> n_id (g x) = n_id (h x))"
proof -
  let ?h1 = "relink h m (us @ bs) cs"
  let ?g = "relink ?h1 a us (bs @ m # cs)"
  have ne: "us \<noteq> []" using assms(3) by (simp add: remembers_def)
  have d1: "dll ?h1 (us @ bs @ m # cs)"
    using relink_dll [of h "us @ bs" cs m] assms(1,2,4) by auto
  have am: "a \<noteq> last (us @ bs)" "hd_opt cs \<noteq> Some a"
    using assms(4) ne last_in_set [of "us @ bs"] by (auto simp: hd_opt_def split: list.splits)
  have r1: "remembers ?h1 us a (bs @ m # cs)"
    using assms(3) am by (auto simp: remembers_def relink_fields)
  have dg: "dll ?g (us @ a # bs @ m # cs)"
    by (rule relink_dll [OF d1 r1]) (use assms(4) in auto)
  obtain q ws where q: "bs @ m # cs = q # ws" by (cases "bs @ m # cs") auto
  have mm: "n_prev (h m) = Some (last (us @ bs))" "n_next (h m) = hd_opt cs" using assms(2) by (simp_all add: remembers_def)
  have nm: "last (us @ bs) \<noteq> m" "last us \<noteq> a"
    using last_in_set [of "us @ bs"] last_in_set [OF ne] ne assms(4) by auto
  have h1: "(case hd_opt cs of None \<Rightarrow> set_next (last (us @ bs)) (Some m) h
      | Some x \<Rightarrow> set_prev x (Some m) (set_next (last (us @ bs)) (Some m) h)) = ?h1"
    by (cases cs) (simp_all add: relink_def)
  have na: "n_prev (?h1 a) = Some (last us)" "n_next (?h1 a) = Some q" using r1 by (simp_all add: remembers_def q)
  have "unlift h a = Some ?g"
    using unlift_unfold [OF assms(5) mm nm(1) h1 na nm(2)] by (simp add: relink_def [of ?h1] q)
  moreover have "n_next (?g x) = n_next (h x)" "n_prev (?g x) = n_prev (h x)" if "x \<notin> set (us @ bs @ m # cs)" for x
    using that ne last_in_set [of us] last_in_set [of "us @ bs"] by (auto simp: relink_fields dest!: hd_optD)
  ultimately show ?thesis using dg by (auto simp: relink_fields)
qed

text \<open>Two removals leave the nodes outside the list alone and make the removed ones remember.\<close>

lemma unlink_twice:
  assumes "dll h (us @ a # bs @ m # vs)" and "us \<noteq> []" and "distinct (us @ a # bs @ m # vs)"
  defines "g \<equiv> unlink (unlink h a us (bs @ m # vs)) m (us @ bs) vs"
  shows "dll g (us @ bs @ vs)" and "remembers g us a (bs @ m # vs)" and "remembers g (us @ bs) m vs"
    and "\<And>x. x \<notin> set (us @ bs @ m # vs) \<Longrightarrow> n_next (g x) = n_next (h x) \<and> n_prev (g x) = n_prev (h x)"
proof -
  let ?h1 = "unlink h a us (bs @ m # vs)"
  have d1: "dll ?h1 ((us @ bs) @ m # vs)" using unlink_dll [OF assms(1-3)] by simp
  have dis: "distinct ((us @ bs) @ m # vs)" "us @ bs \<noteq> []" using assms(2,3) by auto
  show "dll g (us @ bs @ vs)" using unlink_dll [OF d1 dis(2,1)] by (simp add: g_def)
  have lasts: "last us \<in> set us" "last (us @ bs) \<in> set (us @ bs)" using last_in_set assms(2) dis(2) by blast+
  show other: "n_next (g x) = n_next (h x) \<and> n_prev (g x) = n_prev (h x)" if "x \<notin> set (us @ bs @ m # vs)" for x
    using that lasts by (auto simp: g_def unlink_fields dest!: hd_optD)
  have "a \<notin> set (us @ bs @ m # vs)" using assms(3) by auto
  with other [of a] dll_remembers [OF assms(1,2)] show "remembers g us a (bs @ m # vs)" by (simp add: remembers_def)
  have "m \<noteq> last (us @ bs)" "hd_opt vs \<noteq> Some m" using assms(3) lasts by (auto dest: hd_optD)
  with dll_remembers [OF d1 dis(2)] show "remembers g (us @ bs) m vs" by (simp add: g_def remembers_def unlink_fields)
qed

text \<open>
  Taking an entry out is undone by putting it back. From a list that holds a call entry and, later,
  its return, \<open>lift\<close> makes the list without the two, and \<open>unlift\<close> makes the
  original list again, through the pointers that the two nodes kept.
\<close>

theorem lift_unlift_restores:
  assumes "dll h (us @ a # bs @ m # cs)" and "us \<noteq> []" and "distinct (us @ a # bs @ m # cs)" and "n_match (h a) = Some m"
  shows "\<exists>g g'. lift h a = Some g \<and> dll g (us @ bs @ cs) \<and> unlift g a = Some g' \<and> dll g' (us @ a # bs @ m # cs)"
proof -
  note two = unlink_twice [OF assms(1-3)]
  have "n_match (unlink (unlink h a us (bs @ m # cs)) m (us @ bs) cs a) = Some m" by (simp add: unlink_fields assms(4))
  from unlift_spec [OF two(1,3,2) assms(3) this] lift_spec [OF assms] two(1) show ?thesis by blast
qed

section \<open>Building the list\<close>

lemma list_length_dll: "dll h xs \<Longrightarrow> list_length h (hd_opt xs) l = Some (length xs + l)"
proof (induction xs arbitrary: l)
  case (Cons x ys)
  then show ?case by (subst list_length.simps) (simp add: dll_Cons)
qed (simp add: list_length.simps)

text \<open>What the nodes say about the entries; this never changes.\<close>

definition node_ok :: "'v entry list \<Rightarrow> 'v heap \<Rightarrow> nat \<Rightarrow> bool" where
  "node_ok es h p \<longleftrightarrow> n_value (h p) = Some (e_value (es ! p)) \<and> n_id (h p) = e_id (es ! p) \<and>
     n_match (h p) = (if e_kind (es ! p) = callEntry then Some (retp es (eid es p)) else None)"

lemma insertBefore_front:
  assumes "dll h (a # xs)" and "distinct (n # a # xs)" and "n_prev (h a) = None"
  shows "dll (insertBefore h n (Some a)) (n # a # xs)" and "n_prev (insertBefore h n (Some a) n) = n_prev (h n)"
proof -
  have ib: "insertBefore h n (Some a) = set_next n (Some a) (set_prev a (Some n) h)"
    using assms(3) by (simp add: insertBefore_def)
  have "dll (insertBefore h n (Some a)) (a # xs)"
    using assms(1) by (rule iffD1 [OF dll_cong, rotated -1]) (use assms(2) in \<open>auto simp: ib\<close>)
  then show "dll (insertBefore h n (Some a)) (n # a # xs)" by (simp add: ib)
  show "n_prev (insertBefore h n (Some a) n) = n_prev (h n)" using assms(2) by (auto simp: ib)
qed

lemma insertBefore_fields:
  "n_value (insertBefore h n mark x) = n_value (h x)" "n_match (insertBefore h n mark x) = n_match (h x)"
  "n_id (insertBefore h n mark x) = n_id (h x)"
  by (simp_all add: insertBefore_def Let_def split: option.split)

definition suffix_ok :: "'v entry list \<Rightarrow> nat \<Rightarrow> 'v heap \<times> nat option \<times> (int \<rightharpoonup> nat) \<Rightarrow> bool" where
  "suffix_ok es k st \<longleftrightarrow> (case st of (h, root, mtch) \<Rightarrow>
     dll h [k..<length es] \<and> root = hd_opt [k..<length es] \<and> (k < length es \<longrightarrow> n_prev (h k) = None) \<and>
     (\<forall>p. k \<le> p \<and> p < length es \<longrightarrow> node_ok es h p \<and> (e_kind (es ! p) = returnEntry \<longrightarrow> mtch (e_id (es ! p)) = Some p)))"

lemma suffix_ok_list:
  assumes "suffix_ok es (Suc k) (h, root, mtch)" and "k < length es"
  shows "dll (insertBefore (h(k := new_node v m i)) k root) [k..<length es] \<and>
    n_prev (insertBefore (h(k := new_node v m i)) k root k) = None"
proof (cases "Suc k < length es")
  case True
  let ?h = "h(k := new_node v m i)"
  have xs: "[Suc k..<length es] = Suc k # [Suc (Suc k)..<length es]" using True by (simp add: upt_conv_Cons)
  have "dll h (Suc k # [Suc (Suc k)..<length es])" using assms(1) unfolding suffix_ok_def xs by simp
  then have "dll ?h (Suc k # [Suc (Suc k)..<length es])"
    by (rule iffD1 [OF dll_cong, rotated -1]) auto
  moreover have "n_prev (?h (Suc k)) = None" using assms(1) True by (simp add: suffix_ok_def)
  moreover have "distinct (k # Suc k # [Suc (Suc k)..<length es])" by simp
  moreover have "root = Some (Suc k)" using assms(1) by (simp add: suffix_ok_def xs)
  moreover have "[k..<length es] = k # Suc k # [Suc (Suc k)..<length es]" using True by (simp add: upt_conv_Cons)
  ultimately show ?thesis using insertBefore_front [of ?h "Suc k" _ k] by (simp add: new_node_def)
next
  case False
  then have "[k..<length es] = [k]" "root = None" using assms by (auto simp: upt_conv_Cons suffix_ok_def)
  then show ?thesis by (simp add: insertBefore_def new_node_def)
qed

lemma link_entry_ok:
  assumes "wf_entries es n" and "suffix_ok es (Suc k) st" and "k < length es"
  shows "suffix_ok es k (link_entry (k, es ! k) st)"
proof -
  obtain h root mtch where st: "st = (h, root, mtch)" by (cases st)
  let ?i = "eid es k"
  note list = suffix_ok_list [OF assms(2) [unfolded st] assms(3)]
  have xs: "[k..<length es] = k # [Suc k..<length es]" using assms(3) by (simp add: upt_conv_Cons)
  have later: "node_ok es h p \<and> (e_kind (es ! p) = returnEntry \<longrightarrow> mtch (e_id (es ! p)) = Some p)"
    if "k < p" "p < length es" for p using assms(2) that by (simp add: suffix_ok_def st)
  have call: "mtch (e_id (es ! k)) = Some (retp es ?i)" if "e_kind (es ! k) = callEntry"
  proof -
    note i = eid [OF assms(1,3)]
    have "k < retp es ?i" using call_before_return [OF assms(1) i(1)] i(3) that by simp
    with later [OF _ posn(1) [OF assms(1) i(1)]] show ?thesis by (simp add: posn_fields [OF assms(1) i(1)] i(2))
  qed
  have ids: "e_id (es ! p) \<noteq> e_id (es ! k)" if "k < p" "p < length es" "e_kind (es ! k) = e_kind (es ! p)" for p
    using kid_inj [OF assms(1), of p k] that by (auto simp: kid_def)
  show ?thesis
  proof (cases "e_kind (es ! k)")
    case callEntry
    with list call later show ?thesis
      by (auto simp: suffix_ok_def st link_entry_def xs node_ok_def insertBefore_fields new_node_def le_less)
  next
    case returnEntry
    with list later ids show ?thesis
      by (auto simp: suffix_ok_def st link_entry_def xs node_ok_def insertBefore_fields new_node_def le_less)
  qed
qed

lemma link_entries_ok:
  assumes "wf_entries es n" and "k \<le> length es"
  shows "suffix_ok es k (foldr link_entry (enumerate k (drop k es)) (\<lambda>_. new_node None None 0, None, Map.empty))"
  using assms(2)
proof (induction rule: inc_induct)
  case base
  then show ?case by (auto simp: suffix_ok_def)
next
  case (step k)
  have "drop k es = es ! k # drop (Suc k) es" using step.hyps by (simp add: Cons_nth_drop_Suc)
  then show ?case using link_entry_ok [OF assms(1) step.IH] step.hyps by simp
qed

lemma makeLinkedEntries_ok:
  assumes "wf_entries es n"
  shows "\<exists>h. makeLinkedEntries es = (h, hd_opt [0..<length es]) \<and> dll h [0..<length es] \<and>
    (0 < length es \<longrightarrow> n_prev (h 0) = None) \<and> (\<forall>p < length es. node_ok es h p)"
  using link_entries_ok [OF assms, of 0]
  by (auto simp: makeLinkedEntries_def suffix_ok_def Let_def split: prod.splits)

end
