(* ===== verification/Porcupine_Bitset.thy ===== *)
theory Porcupine_Bitset
  imports Go_Prelude
begin

text \<open>
  The bit sets of the linearizability checker (\<^verbatim>\<open>Lab3/src/porcupine/bitset.go\<close>): a slice of
  64-bit words, read as the set of the positions of its ones. The operations are shown to be
  the operations on finite sets of numbers, and the hash to be a function of the set, so that
  the checker's hash table never misses an entry.
\<close>

unbundle bit_operations_syntax

section \<open>Definitions\<close>

type_synonym bitset = "64 word list"

definition newBitset :: "nat \<Rightarrow> bitset" where
  "newBitset bits =
     (let extra = (if bits mod 64 \<noteq> 0 then 1 else 0);
          chunks = bits div 64 + extra
      in replicate chunks 0)"

definition bitsetIndex :: "nat \<Rightarrow> nat \<times> nat" where
  "bitsetIndex pos = (pos div 64, pos mod 64)"

text \<open>\<open>None\<close>: the index is out of range and the program panics.\<close>

definition bitset_set :: "bitset \<Rightarrow> nat \<Rightarrow> bitset option" where
  "bitset_set b pos =
     (let (major, minor) = bitsetIndex pos in
      if major < length b then Some (b[major := b ! major OR push_bit minor 1]) else None)"

definition bitset_clear :: "bitset \<Rightarrow> nat \<Rightarrow> bitset option" where
  "bitset_clear b pos =
     (let (major, minor) = bitsetIndex pos in
      if major < length b then Some (b[major := b ! major AND NOT (push_bit minor 1)]) else None)"

definition bitset_get :: "bitset \<Rightarrow> nat \<Rightarrow> bool option" where
  "bitset_get b pos =
     (let (major, minor) = bitsetIndex pos in
      if major < length b then Some (b ! major AND push_bit minor 1 \<noteq> 0) else None)"

definition OnesCount64 :: "64 word \<Rightarrow> nat" where
  "OnesCount64 v = length (filter (bit v) [0..<64])"

definition popcnt :: "bitset \<Rightarrow> nat" where
  "popcnt b = foldl (\<lambda>total v. total + OnesCount64 v) 0 b"

definition bitset_hash :: "bitset \<Rightarrow> 64 word" where
  "bitset_hash b = foldl (\<lambda>hash v. hash XOR v) (of_nat (popcnt b)) b"

definition bitset_equals :: "bitset \<Rightarrow> bitset \<Rightarrow> bool" where
  "bitset_equals b b2 \<longleftrightarrow> length b = length b2 \<and> list_all (\<lambda>i. b ! i = b2 ! i) [0..<length b]"

section \<open>The set of a bit set\<close>

definition bits_set :: "bitset \<Rightarrow> nat set" where
  "bits_set b = {pos. pos < 64 * length b \<and> bit (b ! (pos div 64)) (pos mod 64)}"

text \<open>What a client of a set of small numbers relies on.\<close>

locale index_set =
  fixes new :: "nat \<Rightarrow> 'b" and ins :: "'b \<Rightarrow> nat \<Rightarrow> 'b option" and del :: "'b \<Rightarrow> nat \<Rightarrow> 'b option"
    and eq :: "'b \<Rightarrow> 'b \<Rightarrow> bool" and key :: "'b \<Rightarrow> 'h" and cap :: "'b \<Rightarrow> nat" and elems :: "'b \<Rightarrow> nat set"
  assumes new: "elems (new n) = {}" and cap_new: "n \<le> cap (new n)"
    and ins: "i < cap b \<Longrightarrow> \<exists>b'. ins b i = Some b' \<and> elems b' = insert i (elems b) \<and> cap b' = cap b"
    and del: "i < cap b \<Longrightarrow> \<exists>b'. del b i = Some b' \<and> elems b' = elems b - {i} \<and> cap b' = cap b"
    and eq: "cap b = cap c \<Longrightarrow> eq b c \<longleftrightarrow> elems b = elems c"
    and key: "cap b = cap c \<Longrightarrow> elems b = elems c \<Longrightarrow> key b = key c"
begin

text \<open>Taking back what was put in gives the same set, and the same key.\<close>

lemma del_ins:
  assumes "i < cap b" and "i \<notin> elems b"
  shows "\<exists>c d. ins b i = Some c \<and> del c i = Some d \<and> eq d b \<and> key d = key b"
proof -
  obtain c where c: "ins b i = Some c" "elems c = insert i (elems b)" "cap c = cap b" using ins [OF assms(1)] by blast
  obtain d where d: "del c i = Some d" "elems d = elems c - {i}" "cap d = cap c" using del [of i c] assms(1) c(3) by auto
  from c d assms(2) have "elems d = elems b" "cap d = cap b" by auto
  with c(1) d(1) eq [of d b] key [of d b] show ?thesis by simp
qed

end

lemma bits_set_bound: "bits_set b \<subseteq> {..<64 * length b}"
  by (auto simp: bits_set_def)

lemma index_split: "i = j \<longleftrightarrow> i div 64 = j div 64 \<and> i mod (64::nat) = j mod 64"
  by (metis div_mod_decomp)

lemma bits_set_new: "bits_set (newBitset n) = {}"
  by (auto simp: bits_set_def newBitset_def Let_def less_mult_imp_div_less mult.commute)

lemma length_new: "n \<le> 64 * length (newBitset n)"
  by (simp add: newBitset_def Let_def) presburger

lemma bits_set_upd:
  assumes "major < length b"
  shows "bits_set (b[major := v]) =
    {i \<in> bits_set b. i div 64 \<noteq> major} \<union> {i. i div 64 = major \<and> bit v (i mod 64)}"
  using assms by (auto simp: bits_set_def nth_list_update)

lemma chunk_bound: "i < 64 * length b \<longleftrightarrow> i div 64 < length b"
  by (simp add: div_less_iff_less_mult mult.commute)

lemma bit_chunk: "i < 64 * length b \<Longrightarrow> i \<in> bits_set b \<longleftrightarrow> bit (b ! (i div 64)) (i mod 64)"
  by (simp add: bits_set_def)

lemma bits_set_set:
  assumes "pos < 64 * length b"
  shows "\<exists>b'. bitset_set b pos = Some b' \<and> bits_set b' = insert pos (bits_set b) \<and> length b' = length b"
proof -
  have m: "pos div 64 < length b" using assms by (simp add: less_mult_imp_div_less mult.commute)
  have "bits_set (b[pos div 64 := b ! (pos div 64) OR push_bit (pos mod 64) 1]) = insert pos (bits_set b)"
    unfolding bits_set_upd [OF m] using m by (auto simp: chunk_bound bits_set_def bit_simps index_split [of _ pos])
  with m show ?thesis by (simp add: bitset_set_def bitsetIndex_def)
qed

lemma bits_set_clear:
  assumes "pos < 64 * length b"
  shows "\<exists>b'. bitset_clear b pos = Some b' \<and> bits_set b' = bits_set b - {pos} \<and> length b' = length b"
proof -
  have m: "pos div 64 < length b" using assms by (simp add: chunk_bound)
  have "bits_set (b[pos div 64 := b ! (pos div 64) AND NOT (push_bit (pos mod 64) 1)]) = bits_set b - {pos}"
    unfolding bits_set_upd [OF m] using m by (auto simp: chunk_bound bits_set_def bit_simps index_split [of _ pos])
  with m show ?thesis by (simp add: bitset_clear_def bitsetIndex_def)
qed

lemma bits_set_get:
  assumes "pos < 64 * length b"
  shows "bitset_get b pos = Some (pos \<in> bits_set b)"
proof -
  have m: "pos div 64 < length b" using assms by (simp add: chunk_bound)
  have "w AND push_bit k 1 \<noteq> 0 \<longleftrightarrow> bit w k" if "k < 64" for w :: "64 word" and k
  proof -
    have "bit (w AND push_bit k 1) j \<longleftrightarrow> j = k \<and> bit w k" for j
      using that by (auto simp: bit_simps)
    then show ?thesis by (metis bit_0_eq bot_apply bot_bool_def bit_eqI)
  qed
  then have "b ! (pos div 64) AND push_bit (pos mod 64) 1 \<noteq> 0 \<longleftrightarrow> bit (b ! (pos div 64)) (pos mod 64)" by simp
  with m assms show ?thesis by (simp add: bitset_get_def bitsetIndex_def bit_chunk)
qed

lemma bits_set_inj:
  assumes "length b = length c" and "bits_set b = bits_set c"
  shows "b = c"
proof (rule nth_equalityI [OF assms(1)])
  fix k assume k: "k < length b"
  show "b ! k = c ! k"
  proof (rule bit_word_eqI)
    fix j assume "j < LENGTH(64)"
    then have j: "(64 * k + j) div 64 = k" "(64 * k + j) mod 64 = j" by simp_all
    have "64 * k + j \<in> bits_set b \<longleftrightarrow> 64 * k + j \<in> bits_set c" using assms(2) by simp
    with k j assms(1) show "bit (b ! k) j \<longleftrightarrow> bit (c ! k) j" by (simp add: bit_chunk chunk_bound)
  qed
qed

lemma bitset_equals_iff: "bitset_equals b c \<longleftrightarrow> b = c"
  by (auto simp: bitset_equals_def list_all_iff intro: nth_equalityI)

text \<open>The number of ones is the size of the set.\<close>

lemma bits_set_Cons: "bits_set (v # b) = {i. i < 64 \<and> bit v i} \<union> (\<lambda>i. i + 64) ` bits_set b"
proof (intro set_eqI iffI)
  fix i assume i: "i \<in> bits_set (v # b)"
  show "i \<in> {i. i < 64 \<and> bit v i} \<union> (\<lambda>i. i + 64) ` bits_set b"
  proof (cases "i < 64")
    case True
    with i show ?thesis by (simp add: bits_set_def)
  next
    case False
    then have "i = (i - 64) + 64" "i div 64 = Suc ((i - 64) div 64)" "(i - 64) mod 64 = i mod 64"
      by (simp_all add: le_div_geq le_mod_geq)
    with i False have "i - 64 \<in> bits_set b" by (auto simp: bits_set_def)
    with \<open>i = (i - 64) + 64\<close> show ?thesis by blast
  qed
qed (auto simp: bits_set_def div_add_self2)

lemma popcnt_Cons: "popcnt (v # b) = OnesCount64 v + popcnt b"
proof -
  have "foldl (\<lambda>total v. total + OnesCount64 v) k b = k + foldl (\<lambda>total v. total + OnesCount64 v) 0 b" for k
  proof (induction b arbitrary: k)
    case (Cons v b)
    show ?case using Cons.IH [of "k + OnesCount64 v"] Cons.IH [of "OnesCount64 v"] by simp
  qed simp
  from this [of "OnesCount64 v"] show ?thesis by (simp add: popcnt_def)
qed

lemma OnesCount64_card: "OnesCount64 v = card {i. i < 64 \<and> bit v i}"
proof -
  have "OnesCount64 v = card (set (filter (bit v) [0..<64]))"
    unfolding OnesCount64_def by (rule distinct_card [symmetric]) simp
  also have "set (filter (bit v) [0..<64]) = {i. i < 64 \<and> bit v i}" by auto
  finally show ?thesis .
qed

lemma popcnt_card: "popcnt b = card (bits_set b)"
proof (induction b)
  case Nil
  then show ?case by (simp add: popcnt_def bits_set_def)
next
  case (Cons v b)
  have "finite (bits_set b)" by (rule finite_subset [OF bits_set_bound]) simp
  then have "card (bits_set (v # b)) = card {i. i < 64 \<and> bit v i} + card ((\<lambda>i. i + 64) ` bits_set b)"
    unfolding bits_set_Cons by (intro card_Un_disjoint) auto
  also have "\<dots> = OnesCount64 v + card (bits_set b)" by (simp add: OnesCount64_card card_image inj_on_def)
  finally show ?case using Cons by (simp add: popcnt_Cons)
qed

interpretation bitset: index_set newBitset bitset_set bitset_clear bitset_equals bitset_hash "\<lambda>b. 64 * length b" bits_set
proof
  show "n \<le> 64 * length (newBitset n)" "bits_set (newBitset n) = {}" for n by (rule length_new bits_set_new)+
qed (use bits_set_set bits_set_clear in \<open>auto simp: bitset_equals_iff dest: bits_set_inj\<close>)

text \<open>
  C28: the words implement a set. Below the capacity, setting, clearing and reading a bit are
  insertion, removal and membership in the set of the positions of the ones, and the population
  count is the size of that set.
\<close>

theorem bitset_refines_set:
  assumes "pos < 64 * length b"
  shows "\<exists>b1 b2. bitset_set b pos = Some b1 \<and> bits_set b1 = insert pos (bits_set b) \<and>
    bitset_clear b pos = Some b2 \<and> bits_set b2 = bits_set b - {pos} \<and>
    bitset_get b pos = Some (pos \<in> bits_set b) \<and>
    popcnt b1 = card (insert pos (bits_set b)) \<and> bitset_equals b1 b = (pos \<in> bits_set b)"
proof -
  obtain b1 where b1: "bitset_set b pos = Some b1" "bits_set b1 = insert pos (bits_set b)" "length b1 = length b"
    using bits_set_set [OF assms] by blast
  obtain b2 where b2: "bitset_clear b pos = Some b2" "bits_set b2 = bits_set b - {pos}"
    using bits_set_clear [OF assms] by blast
  have "bitset_equals b1 b = (pos \<in> bits_set b)"
    using b1 bitset.eq [of b1 b] by (auto simp: insert_absorb)
  with b1 b2 bits_set_get [OF assms] popcnt_card [of b1] show ?thesis by simp
qed

theorem bitset_refines_set_witness:
  "\<exists>b1. bitset_set [0, 0] 70 = Some b1 \<and> bits_set b1 = insert 70 (bits_set [0, 0])"
  using bitset_refines_set [of 70 "[0, 0]"] by auto

end
