(* ===== verification/Porcupine_Checker.thy ===== *)
theory Porcupine_Checker
  imports Porcupine_List Porcupine_Bitset
begin

text \<open>
  The search of the linearizability checker (\<open>checkSingle\<close> of
  \<^verbatim>\<open>Lab3/src/porcupine/checker.go\<close>), a depth-first search with backtracking over the linked
  list of entries and a hash table of the configurations that were seen. \<open>Porcupine_Search\<close>
  shows that on the entries of any history the search ends, without a panic, and answers true
  exactly when the history is linearizable.
\<close>

section \<open>Definitions\<close>

type_synonym 's cacheEntry = "bitset \<times> 's"

definition cacheContains :: "('s \<Rightarrow> 's \<Rightarrow> bool) \<Rightarrow> (64 word \<Rightarrow> 's cacheEntry list) \<Rightarrow> 's cacheEntry \<Rightarrow> bool" where
  "cacheContains eq cache entry =
     list_ex (\<lambda>elem. bitset_equals (fst entry) (fst elem) \<and> eq (snd entry) (snd elem))
       (cache (bitset_hash (fst entry)))"

record ('s, 'v) search =
  heap :: "'v heap"
  cur :: "nat option"
  linearized :: bitset
  cache :: "64 word \<Rightarrow> 's cacheEntry list"
  calls :: "(nat \<times> 's) list"
  longest :: "int list option list"
  state :: 's

text \<open>A negative id becomes a huge index: no slice is that long.\<close>

definition set_id :: "bitset \<Rightarrow> int \<Rightarrow> bitset option" where
  "set_id b i = (if 0 \<le> i then bitset_set b (nat i) else None)"

definition clear_id :: "bitset \<Rightarrow> int \<Rightarrow> bitset option" where
  "clear_id b i = (if 0 \<le> i then bitset_clear b (nat i) else None)"

text \<open>The longest prefixes, for the report; \<open>None\<close> is an index out of range.\<close>

fun update_longest :: "int list \<Rightarrow> int list \<Rightarrow> int list option list \<Rightarrow> int list option list option" where
  "update_longest seq [] l = Some l"
| "update_longest seq (i # is) l =
     (if 0 \<le> i \<and> nat i < length l
      then update_longest seq is
        (case l ! nat i of
           None \<Rightarrow> l[nat i := Some seq]
         | Some old \<Rightarrow> if length old < length seq then l[nat i := Some seq] else l)
      else None)"

datatype ('s, 'v) outcome = Panicked | Returned bool | Continue "('s, 'v) search"

definition call_ids :: "('s, 'v) search \<Rightarrow> int list" where
  "call_ids s = map (\<lambda>(e, _). n_id (heap s e)) (calls s)"

text \<open>One round of the loop at a call entry whose step the model accepts.\<close>

definition check_accepted :: "('s \<Rightarrow> 's \<Rightarrow> bool) \<Rightarrow> nat \<Rightarrow> ('s, 'v) search \<Rightarrow> nat \<Rightarrow> 's \<Rightarrow> ('s, 'v) outcome" where
  "check_accepted eq headEntry s entry newState =
     (case set_id (linearized s) (n_id (heap s entry)) of
        None \<Rightarrow> Panicked
      | Some newLinearized \<Rightarrow>
          if \<not> cacheContains eq (cache s) (newLinearized, newState) then
            (case lift (heap s) entry of
               None \<Rightarrow> Panicked
             | Some h \<Rightarrow>
                 let hash = bitset_hash newLinearized in
                 Continue (s\<lparr>cache := (cache s)(hash := cache s hash @ [(newLinearized, newState)]),
                   calls := calls s @ [(entry, state s)], state := newState,
                   linearized := newLinearized, heap := h, cur := n_next (h headEntry)\<rparr>))
          else Continue (s\<lparr>cur := n_next (heap s entry)\<rparr>))"

text \<open>One round at a return entry: back to the last choice.\<close>

definition check_backtrack :: "bool \<Rightarrow> ('s, 'v) search \<Rightarrow> ('s, 'v) outcome" where
  "check_backtrack computePartial s =
     (if calls s = [] then Returned False
      else
        (case (if computePartial then update_longest (call_ids s) (call_ids s) (longest s) else Some (longest s)) of
           None \<Rightarrow> Panicked
         | Some l \<Rightarrow>
             let (entry, old) = last (calls s) in
             (case clear_id (linearized s) (n_id (heap s entry)) of
                None \<Rightarrow> Panicked
              | Some b \<Rightarrow>
                  (case unlift (heap s) entry of
                     None \<Rightarrow> Panicked
                   | Some h \<Rightarrow> Continue (s\<lparr>longest := l, state := old, linearized := b,
                       calls := butlast (calls s), heap := h, cur := n_next (h entry)\<rparr>)))))"

text \<open>Only the head of the list has no value; the model's step would panic on it.\<close>

definition check_round ::
  "('s \<Rightarrow> 'v \<Rightarrow> 'v \<Rightarrow> bool \<times> 's) \<Rightarrow> ('s \<Rightarrow> 's \<Rightarrow> bool) \<Rightarrow> bool \<Rightarrow> nat \<Rightarrow> ('s, 'v) search \<Rightarrow> ('s, 'v) outcome" where
  "check_round step eq computePartial headEntry s =
     (case cur s of
        None \<Rightarrow> Panicked
      | Some entry \<Rightarrow>
          (case n_match (heap s entry) of
             None \<Rightarrow> check_backtrack computePartial s
           | Some matching \<Rightarrow>
               (case (n_value (heap s entry), n_value (heap s matching)) of
                  (Some x, Some y) \<Rightarrow>
                    (case step (state s) x y of (ok, newState) \<Rightarrow>
                       if ok then check_accepted eq headEntry s entry newState
                       else Continue (s\<lparr>cur := n_next (heap s entry)\<rparr>))
                | _ \<Rightarrow> Panicked)))"

text \<open>
  The loop: \<open>None\<close> is a search that never ends, \<open>Some None\<close> a panic.
  \<open>kill k\<close> says whether the kill flag is set when round \<open>k\<close> reads it.
\<close>

partial_function (option) check_loop ::
  "('s \<Rightarrow> 'v \<Rightarrow> 'v \<Rightarrow> bool \<times> 's) \<Rightarrow> ('s \<Rightarrow> 's \<Rightarrow> bool) \<Rightarrow> bool \<Rightarrow> (nat \<Rightarrow> bool) \<Rightarrow> nat \<Rightarrow> nat \<Rightarrow> ('s, 'v) search \<Rightarrow>
     (bool \<times> int list option list) option option" where
  "check_loop step eq computePartial kill headEntry k s =
     (if n_next (heap s headEntry) = None
      then Some (Some (True, map (\<lambda>_. Some (call_ids s)) (longest s)))
      else if kill k then Some (Some (False, longest s))
      else
        (case check_round step eq computePartial headEntry s of
           Panicked \<Rightarrow> Some None
         | Returned b \<Rightarrow> Some (Some (b, longest s))
         | Continue s' \<Rightarrow> check_loop step eq computePartial kill headEntry (k + 1) s'))"

text \<open>The head gets the address after those of the entries.\<close>

definition start_search :: "'s \<Rightarrow> 'v heap \<Rightarrow> nat option \<Rightarrow> nat \<Rightarrow> nat \<Rightarrow> ('s, 'v) search" where
  "start_search init h entry headEntry n =
     \<lparr>heap = insertBefore (h(headEntry := new_node None None (-1))) headEntry entry, cur = entry,
      linearized = newBitset n, cache = (\<lambda>_. []), calls = [], longest = replicate n None, state = init\<rparr>"

definition checkSingle ::
  "('s, 'v) Model \<Rightarrow> 'v entry list \<Rightarrow> bool \<Rightarrow> (nat \<Rightarrow> bool) \<Rightarrow> (bool \<times> int list option list) option option" where
  "checkSingle m history computePartial kill =
     (let (h, entry) = makeLinkedEntries history in
      case list_length h entry 0 of
        None \<Rightarrow> None
      | Some len \<Rightarrow>
          check_loop (Step m) (or_default (Equal m) ShallowEqual) computePartial kill (length history) 0
            (start_search (Init m) h entry (length history) (len div 2)))"

end
