(* ===== verification/Porcupine_Search.thy ===== *)
theory Porcupine_Search
  imports Porcupine_Checker
begin

text \<open>
  The correctness of the search of \<^verbatim>\<open>Lab3/src/porcupine/checker.go\<close>. The invariant has three
  parts: the heap holds the entries of the operations that are not linearized, and the lifted
  nodes remember their places; the stack of calls is a sequence of accepted choices in which
  every earlier alternative is hopeless; and a configuration in the hash table is on the stack
  or hopeless. The search ends because the table grows within a finite set of configurations.
\<close>

section \<open>Configurations\<close>

abbreviation ops :: "'v entry list \<Rightarrow> nat set" where
  "ops es \<equiv> {..<length es div 2}"

definition cinp :: "'v entry list \<Rightarrow> nat \<Rightarrow> 'v" where
  "cinp es i = e_value (es ! callp es i)"

definition cout :: "'v entry list \<Rightarrow> nat \<Rightarrow> 'v" where
  "cout es i = e_value (es ! retp es i)"

definition precedes :: "'v entry list \<Rightarrow> nat \<Rightarrow> nat \<Rightarrow> bool" where
  "precedes es i j \<longleftrightarrow> retp es i < callp es j"

text \<open>With the operations of \<open>L\<close> done and the model in state \<open>s\<close>, the rest can be linearized.\<close>

definition completable :: "'v entry list \<Rightarrow> ('s \<Rightarrow> 'v \<Rightarrow> 'v \<Rightarrow> bool \<times> 's) \<Rightarrow> nat set \<Rightarrow> 's \<Rightarrow> bool" where
  "completable es step L s \<longleftrightarrow> (\<exists>is. linearization step (cinp es) (cout es) (precedes es) s (ops es - L) is)"

definition minimal :: "'v entry list \<Rightarrow> nat set \<Rightarrow> nat \<Rightarrow> bool" where
  "minimal es L i \<longleftrightarrow> i \<in> ops es \<and> i \<notin> L \<and> (\<forall>j \<in> ops es - L. \<not> precedes es j i)"

definition next_state :: "'v entry list \<Rightarrow> ('s \<Rightarrow> 'v \<Rightarrow> 'v \<Rightarrow> bool \<times> 's) \<Rightarrow> 's \<Rightarrow> nat \<Rightarrow> bool \<times> 's" where
  "next_state es step s i = step s (cinp es i) (cout es i)"

lemma completable_step:
  assumes "minimal es L i" and "next_state es step s i = (True, s')" and "completable es step (insert i L) s'"
  shows "completable es step L s"
proof -
  obtain js where js: "linearization step (cinp es) (cout es) (precedes es) s' (ops es - insert i L) js"
    using assms(3) by (auto simp: completable_def)
  then have "linearization step (cinp es) (cout es) (precedes es) s (ops es - L) (i # js)"
    using assms(1,2) by (auto simp: linearization_def minimal_def next_state_def)
  then show ?thesis by (auto simp: completable_def)
qed

lemma completable_choice:
  assumes "completable es step L s" and "\<not> ops es \<subseteq> L" and "\<And>i. i \<in> ops es \<Longrightarrow> \<not> precedes es i i"
  obtains i s' where "minimal es L i" "next_state es step s i = (True, s')" "completable es step (insert i L) s'"
proof -
  obtain "is" where lin: "linearization step (cinp es) (cout es) (precedes es) s (ops es - L) is"
    using assms(1) by (auto simp: completable_def)
  have "is \<noteq> []" using lin assms(2) unfolding linearization_def by (metis Diff_eq_empty_iff list.set(1))
  then obtain i js where "is = i # js" by (cases "is") simp_all
  with lin have i: "linearization step (cinp es) (cout es) (precedes es) s (ops es - L) (i # js)" by simp
  then have set_i: "insert i (set js) = ops es - L" "i \<notin> set js" by (simp_all add: linearization_def)
  then have rest: "set js = ops es - insert i L" by blast
  have srt: "\<not> precedes es j i" if "j \<in> set js" for j using i that by (simp add: linearization_def)
  have iL: "i \<in> ops es - L" using set_i(1) by blast
  then have ii: "\<not> precedes es i i" using assms(3) by blast
  have "\<not> precedes es j i" if "j \<in> ops es - L" for j
    using that srt ii unfolding set_i(1) [symmetric] by blast
  then have m: "minimal es L i" using iL by (simp add: minimal_def)
  obtain s' where s': "next_state es step s i = (True, s')" "legal step (cinp es) (cout es) s' js"
    using i by (cases "step s (cinp es i) (cout es i)") (simp add: linearization_def next_state_def)
  have "linearization step (cinp es) (cout es) (precedes es) s' (ops es - insert i L) js"
    using i s'(2) rest by (simp add: linearization_def)
  then have "completable es step (insert i L) s'" unfolding completable_def by blast
  with m s'(1) show ?thesis by (rule that)
qed

lemma completable_all: "ops es \<subseteq> L \<Longrightarrow> completable es step L s"
  by (auto simp: completable_def linearization_def intro!: exI [of _ "[]"])

lemma completable_eq:
  assumes "state_equality step eq" and "eq s t"
  shows "completable es step L s = completable es step L t"
  using state_equality.linearization_eq [OF assms] by (simp add: completable_def)

section \<open>The remaining entries\<close>

definition remaining :: "'v entry list \<Rightarrow> nat set \<Rightarrow> nat list" where
  "remaining es L = filter (\<lambda>p. eid es p \<notin> L) [0..<length es]"

lemma remaining_simps [simp]:
  "p \<in> set (remaining es L) \<longleftrightarrow> p < length es \<and> eid es p \<notin> L" "distinct (remaining es L)" "sorted (remaining es L)"
  by (auto simp: remaining_def sorted_wrt_filter)

lemma wf_ops: "wf_entries es n \<Longrightarrow> ops es = {..<n}"
  using wf_length by fastforce

lemma remaining_Nil:
  assumes "wf_entries es n"
  shows "remaining es L = [] \<longleftrightarrow> ops es \<subseteq> L"
proof
  assume r: "remaining es L = []"
  show "ops es \<subseteq> L"
  proof
    fix i assume "i \<in> ops es"
    then have "i < n" using wf_ops [OF assms] by auto
    then have "callp es i < length es" "eid es (callp es i) = i"
      using posn(1) [OF assms] posn_fields(3) [OF assms] by auto
    with r remaining_simps(1) [of "callp es i" es L] show "i \<in> L" by auto
  qed
next
  assume "ops es \<subseteq> L"
  then have "eid es p \<in> L" if "p < length es" for p
    using eid(1) [OF assms that] wf_ops [OF assms] by auto
  then show "remaining es L = []" by (auto simp: remaining_def filter_empty_conv)
qed

lemma remaining_insert: "remaining es (insert i L) = filter (\<lambda>p. eid es p \<noteq> i) (remaining es L)"
  by (auto simp: remaining_def intro: filter_cong)

lemma eid_cases:
  assumes "wf_entries es n" and "p < length es" and "eid es p = i"
  shows "p = callp es i \<or> p = retp es i"
  using eid(3) [OF assms(1,2)] assms(3) by (cases "e_kind (es ! p)") auto

text \<open>An operation that is left has its call and, later, its return in the list.\<close>

lemma remaining_split:
  assumes "wf_entries es n" and "i < n" and "i \<notin> L"
  obtains as bs cs where "remaining es L = as @ callp es i # bs @ retp es i # cs"
    and "remaining es (insert i L) = as @ bs @ cs"
proof -
  let ?c = "callp es i" and ?r = "retp es i"
  have pos: "?c < length es" "?r < length es" "?c < ?r" "eid es ?c = i" "eid es ?r = i"
    using posn(1) [OF assms(1,2)] call_before_return [OF assms(1,2)] posn_fields(3) [OF assms(1,2)] by auto
  have "?c \<in> set (remaining es L)" using pos assms(3) by simp
  then obtain as vs where s1: "remaining es L = as @ ?c # vs" by (auto simp: in_set_conv_decomp)
  have "?r \<in> set (remaining es L)" using pos assms(3) by simp
  then have "?r \<in> set as \<or> ?r \<in> set vs" using pos(3) by (auto simp: s1)
  moreover have "x < ?c" if "x \<in> set as" for x
    using remaining_simps(2,3) [of es L] that unfolding s1 by (auto simp: sorted_append order.strict_iff_order)
  ultimately have "?r \<in> set vs" using pos(3) by force
  then obtain bs cs where s2: "vs = bs @ ?r # cs" by (auto simp: in_set_conv_decomp)
  have rem: "remaining es L = as @ ?c # bs @ ?r # cs" by (simp add: s1 s2)
  have "eid es p \<noteq> i" if "p \<in> set (as @ bs @ cs)" for p
  proof
    assume "eid es p = i"
    moreover have "p < length es" "p \<noteq> ?c" "p \<noteq> ?r"
      using that remaining_simps(1) [of p es L] remaining_simps(2) [of es L] unfolding rem by auto
    ultimately show False using eid_cases [OF assms(1)] by blast
  qed
  then have "filter (\<lambda>p. eid es p \<noteq> i) (as @ bs @ cs) = as @ bs @ cs" by (intro filter_True) auto
  then have "remaining es (insert i L) = as @ bs @ cs"
    by (simp add: remaining_insert rem pos(4,5))
  with rem show ?thesis by (rule that)
qed

section \<open>The invariant\<close>

text \<open>The stack of calls, top first, as the set of its operations.\<close>

abbreviation done_ids :: "'v entry list \<Rightarrow> (nat \<times> 's) list \<Rightarrow> nat set" where
  "done_ids es cs \<equiv> (\<lambda>c. eid es (fst c)) ` set cs"

text \<open>The entries before \<open>p\<close> are calls, and starting with one of them leads nowhere.\<close>

definition passed :: "'v entry list \<Rightarrow> ('s \<Rightarrow> 'v \<Rightarrow> 'v \<Rightarrow> bool \<times> 's) \<Rightarrow> nat set \<Rightarrow> 's \<Rightarrow> nat \<Rightarrow> bool" where
  "passed es step L s p \<longleftrightarrow> (\<forall>q \<in> set (remaining es L). q < p \<longrightarrow> e_kind (es ! q) = callEntry \<and>
     (\<forall>s'. next_state es step s (eid es q) = (True, s') \<longrightarrow> \<not> completable es step (insert (eid es q) L) s'))"

fun stack_ok :: "'v entry list \<Rightarrow> ('s \<Rightarrow> 'v \<Rightarrow> 'v \<Rightarrow> bool \<times> 's) \<Rightarrow> 's \<Rightarrow> (nat \<times> 's) list \<Rightarrow> 's \<Rightarrow> bool" where
  "stack_ok es step init [] s \<longleftrightarrow> s = init"
| "stack_ok es step init ((a, s0) # cs) s \<longleftrightarrow>
     a \<in> set (remaining es (done_ids es cs)) \<and> e_kind (es ! a) = callEntry \<and>
     next_state es step s0 (eid es a) = (True, s) \<and> passed es step (done_ids es cs) s0 a \<and>
     stack_ok es step init cs s0"

fun heap_ok :: "'v entry list \<Rightarrow> 'v heap \<Rightarrow> (nat \<times> 's) list \<Rightarrow> bool" where
  "heap_ok es h [] \<longleftrightarrow> True"
| "heap_ok es h (c # cs) \<longleftrightarrow>
     (\<exists>us bs vs. length es # remaining es (done_ids es cs) = us @ fst c # bs @ retp es (eid es (fst c)) # vs \<and>
        length es # remaining es (done_ids es (c # cs)) = us @ bs @ vs \<and>
        remembers h us (fst c) (bs @ retp es (eid es (fst c)) # vs) \<and>
        remembers h (us @ bs) (retp es (eid es (fst c))) vs) \<and>
     heap_ok es h cs"

fun stack_confs :: "'v entry list \<Rightarrow> (nat \<times> 's) list \<Rightarrow> 's \<Rightarrow> (nat set \<times> 's) set" where
  "stack_confs es [] s = {}"
| "stack_confs es (c # cs) s = insert (done_ids es (c # cs), s) (stack_confs es cs (snd c))"

text \<open>The configurations that some sequence of operations leads to.\<close>

fun run_ids :: "'v entry list \<Rightarrow> ('s \<Rightarrow> 'v \<Rightarrow> 'v \<Rightarrow> bool \<times> 's) \<Rightarrow> 's \<Rightarrow> nat list \<Rightarrow> 's" where
  "run_ids es step s [] = s"
| "run_ids es step s (i # is) = run_ids es step (snd (next_state es step s i)) is"

definition configs :: "'v entry list \<Rightarrow> ('s \<Rightarrow> 'v \<Rightarrow> 'v \<Rightarrow> bool \<times> 's) \<Rightarrow> 's \<Rightarrow> (nat set \<times> 's) set" where
  "configs es step init = (\<lambda>is. (set is, run_ids es step init is)) ` {is. distinct is \<and> set is \<subseteq> ops es}"

definition seen :: "(64 word \<Rightarrow> 's cacheEntry list) \<Rightarrow> (nat set \<times> 's) set" where
  "seen c = (\<Union>k. (\<lambda>(b, t). (bits_set b, t)) ` set (c k))"

definition cache_ok ::
  "'v entry list \<Rightarrow> ('s \<Rightarrow> 'v \<Rightarrow> 'v \<Rightarrow> bool \<times> 's) \<Rightarrow> 's \<Rightarrow> (nat \<times> 's) list \<Rightarrow> 's \<Rightarrow> (64 word \<Rightarrow> 's cacheEntry list) \<Rightarrow> bool" where
  "cache_ok es step init cs s c \<longleftrightarrow>
     (\<forall>k b t. (b, t) \<in> set (c k) \<longrightarrow> bitset_hash b = k \<and> length b = length (newBitset (length es div 2))) \<and>
     (\<forall>L t. (L, t) \<in> seen c \<longrightarrow> (L, t) \<in> configs es step init \<and>
        ((L, t) \<in> stack_confs es cs s \<or> \<not> completable es step L t))"

definition cur_ok :: "'v entry list \<Rightarrow> ('s \<Rightarrow> 'v \<Rightarrow> 'v \<Rightarrow> bool \<times> 's) \<Rightarrow> nat set \<Rightarrow> 's \<Rightarrow> nat option \<Rightarrow> bool" where
  "cur_ok es step L s c \<longleftrightarrow>
     (case c of None \<Rightarrow> remaining es L = [] | Some p \<Rightarrow> p \<in> set (remaining es L) \<and> passed es step L s p)"

definition search_inv ::
  "'v entry list \<Rightarrow> ('s \<Rightarrow> 'v \<Rightarrow> 'v \<Rightarrow> bool \<times> 's) \<Rightarrow> 's \<Rightarrow> ('s, 'v) search \<Rightarrow> bool" where
  "search_inv es step init s \<longleftrightarrow>
     (let cs = rev (calls s); L = done_ids es cs in
      (\<forall>p < length es. node_ok es (heap s) p) \<and> dll (heap s) (length es # remaining es L) \<and> heap_ok es (heap s) cs \<and>
      stack_ok es step init cs (state s) \<and> cache_ok es step init cs (state s) (cache s) \<and>
      bits_set (linearized s) = L \<and> length (linearized s) = length (newBitset (length es div 2)) \<and>
      length (longest s) = length es div 2 \<and>
      cur_ok es step L (state s) (cur s))"

section \<open>Finitely many configurations\<close>

lemma finite_configs: "finite (configs es step init)"
  using finite_subset_distinct [of "ops es"] by (simp add: configs_def conj_commute)

lemma run_ids_append: "run_ids es step s (is @ js) = run_ids es step (run_ids es step s is) js"
  by (induction "is" arbitrary: s) simp_all

lemma stack_distinct:
  assumes "stack_ok es step init cs s"
  shows "distinct (map (\<lambda>c. eid es (fst c)) cs) \<and> s = run_ids es step init (rev (map (\<lambda>c. eid es (fst c)) cs))"
  using assms
proof (induction cs arbitrary: s)
  case (Cons c cs)
  obtain a s0 where c: "c = (a, s0)" by (cases c)
  with Cons.prems Cons.IH [of s0] show ?case by (auto simp: run_ids_append)
qed simp

lemma stack_in_ops:
  assumes "wf_entries es n" and "stack_ok es step init cs s"
  shows "done_ids es cs \<subseteq> ops es"
  using assms(2)
proof (induction cs arbitrary: s)
  case (Cons c cs)
  obtain a s0 where c: "c = (a, s0)" by (cases c)
  with Cons.prems have "eid es a \<in> ops es" using eid(1) [OF assms(1)] wf_ops [OF assms(1)] by simp
  with Cons.prems Cons.IH [of s0] show ?case by (simp add: c)
qed simp

lemma stack_entries: "stack_ok es step init cs s \<Longrightarrow> c \<in> set cs \<Longrightarrow> fst c < length es"
  by (induction es step init cs s rule: stack_ok.induct) auto

lemma stack_config:
  assumes "wf_entries es n" and "stack_ok es step init cs s"
  shows "(done_ids es cs, s) \<in> configs es step init"
proof -
  let ?is = "rev (map (\<lambda>c. eid es (fst c)) cs)"
  have "distinct ?is \<and> s = run_ids es step init ?is" using stack_distinct [OF assms(2)] by simp
  moreover have "set ?is = done_ids es cs" by simp
  moreover have "set ?is \<subseteq> ops es" using stack_in_ops [OF assms] by simp
  ultimately show ?thesis unfolding configs_def by (intro image_eqI [of _ _ ?is]) (simp_all only: mem_Collect_eq)
qed

text \<open>The configurations on the stack are within the operations that are done.\<close>

lemma stack_confs_subset: "(L, t) \<in> stack_confs es cs s \<Longrightarrow> L \<subseteq> done_ids es cs"
  by (induction cs arbitrary: s) auto

section \<open>Candidates\<close>

lemma call_position:
  assumes "wf_entries es n" and "p < length es" and "e_kind (es ! p) = callEntry"
  shows "p = callp es (eid es p)" and "eid es p < n"
  using eid [OF assms(1,2)] assms(3) by auto

lemma passed_minimal:
  assumes "wf_entries es n" and "a \<in> set (remaining es L)" and "e_kind (es ! a) = callEntry" and "passed es step L s a"
  shows "minimal es L (eid es a)"
proof -
  have a: "a < length es" "eid es a \<notin> L" using assms(2) by simp_all
  note c = call_position [OF assms(1) a(1) assms(3)]
  have "\<not> precedes es j (eid es a)" if "j \<in> ops es - L" for j
  proof
    assume "precedes es j (eid es a)"
    then have lt: "retp es j < a" using c(1) by (simp add: precedes_def)
    have j: "j < n" using that wf_ops [OF assms(1)] by auto
    have "retp es j \<in> set (remaining es L)"
      using that posn(1) [OF assms(1) j] posn_fields(3) [OF assms(1) j] by simp
    with assms(4) lt have "e_kind (es ! retp es j) = callEntry" by (simp add: passed_def)
    then show False using posn_fields(1) [OF assms(1) j, of returnEntry] by simp
  qed
  then show ?thesis using a c(2) wf_ops [OF assms(1)] by (simp add: minimal_def)
qed

lemma precedes_irrefl: "wf_entries es n \<Longrightarrow> i \<in> ops es \<Longrightarrow> \<not> precedes es i i"
  using call_before_return [of es n i] wf_ops [of es n] by (auto simp: precedes_def)

text \<open>A configuration whose first entry left is a return that all candidates were tried for.\<close>

lemma hopeless_at_return:
  assumes "wf_entries es n" and "p \<in> set (remaining es L)" and "e_kind (es ! p) = returnEntry" and "passed es step L s p"
  shows "\<not> completable es step L s"
proof
  assume comp: "completable es step L s"
  have p: "p < length es" "eid es p \<notin> L" using assms(2) by simp_all
  have pr: "p = retp es (eid es p)" "eid es p \<in> ops es"
    using eid [OF assms(1) p(1)] assms(3) wf_ops [OF assms(1)] by auto
  obtain i s' where i: "minimal es L i" "next_state es step s i = (True, s')" "completable es step (insert i L) s'"
    by (rule completable_choice [OF comp]) (use p(2) pr(2) precedes_irrefl [OF assms(1)] in blast)+
  have lt: "i < n" "i \<notin> L" using i(1) wf_ops [OF assms(1)] by (auto simp: minimal_def)
  note pc = posn(1) [OF assms(1) lt(1), of callEntry] posn_fields [OF assms(1) lt(1), of callEntry]
  have "\<not> precedes es (eid es p) i" using i(1) pr(2) p(2) by (simp add: minimal_def)
  then have "\<not> p < callp es i" unfolding precedes_def using pr(1) by metis
  moreover have "p \<noteq> callp es i" using assms(3) pc(2) by auto
  ultimately have "callp es i < p" by simp
  with assms(4) pc lt(2) i(2,3) show False by (auto simp: passed_def)
qed

lemma passed_next:
  assumes "passed es step L s p" and "p \<in> set (remaining es L)" and "e_kind (es ! p) = callEntry"
    and "\<And>s'. next_state es step s (eid es p) = (True, s') \<Longrightarrow> \<not> completable es step (insert (eid es p) L) s'"
    and "\<And>x. x \<in> set (remaining es L) \<Longrightarrow> x < q \<Longrightarrow> x \<le> p"
  shows "passed es step L s q"
  unfolding passed_def
proof (intro ballI impI)
  fix x assume x: "x \<in> set (remaining es L)" "x < q"
  then have "x \<le> p" by (rule assms(5))
  then consider "x < p" | "x = p" by linarith
  then show "e_kind (es ! x) = callEntry \<and>
      (\<forall>s'. next_state es step s (eid es x) = (True, s') \<longrightarrow> \<not> completable es step (insert (eid es x) L) s')"
    using assms(1,3,4) x(1) by cases (auto simp: passed_def)
qed

text \<open>After a call the list goes on.\<close>

lemma next_entry:
  assumes "wf_entries es n" and "dll h (length es # remaining es L)" and "p \<in> set (remaining es L)" and "e_kind (es ! p) = callEntry"
  shows "\<exists>q. n_next (h p) = Some q \<and> q \<in> set (remaining es L) \<and> p < q \<and> (\<forall>x \<in> set (remaining es L). x < q \<longrightarrow> x \<le> p)"
proof -
  have p: "p < length es" "eid es p \<notin> L" using assms(3) by simp_all
  note c = call_position [OF assms(1) p(1) assms(4)]
  obtain as bs cs where rem: "remaining es L = as @ p # bs @ retp es (eid es p) # cs"
    by (rule remaining_split [OF assms(1) c(2) p(2)]) (use c(1) in auto)
  obtain q ws where q: "bs @ retp es (eid es p) # cs = q # ws" by (cases "bs @ retp es (eid es p) # cs") auto
  have rem': "remaining es L = as @ p # q # ws" using rem q by simp
  have "n_next (h p) = Some q"
    using dll_remembers [of h "length es # as" p "q # ws"] assms(2) by (simp add: rem' remembers_def)
  moreover have "sorted (as @ p # q # ws)" "distinct (as @ p # q # ws)"
    using remaining_simps(2,3) [of es L] unfolding rem' by simp_all
  then have "p < q \<and> (\<forall>x \<in> set (remaining es L). x < q \<longrightarrow> x \<le> p)" unfolding rem' by (auto simp: sorted_append)
  ultimately show ?thesis unfolding rem' by auto
qed

section \<open>Lifting and unlifting in the heap\<close>

lemma heap_ok_cong:
  assumes "wf_entries es n" and "stack_ok es step init cs s"
    and "\<And>x. x < length es \<Longrightarrow> eid es x \<in> done_ids es cs \<Longrightarrow> n_next (g x) = n_next (h x) \<and> n_prev (g x) = n_prev (h x)"
  shows "heap_ok es g cs = heap_ok es h cs"
  using assms(2,3)
proof (induction cs arbitrary: s)
  case (Cons c cs)
  obtain a s0 where c: "c = (a, s0)" by (cases c)
  have a: "a < length es" "stack_ok es step init cs s0" using Cons.prems(1) by (simp_all add: c)
  have IH: "heap_ok es g cs = heap_ok es h cs"
    by (rule Cons.IH [OF a(2)]) (use Cons.prems(2) in simp)
  note i = eid(1) [OF assms(1) a(1)]
  have "remembers g us x vs = remembers h us x vs" if "x = a \<or> x = retp es (eid es a)" for us x vs
    using that Cons.prems(2) [of a] Cons.prems(2) [of "retp es (eid es a)"] a(1) posn(1) [OF assms(1) i, of returnEntry]
      posn_fields(3) [OF assms(1) i, of returnEntry] by (auto simp: remembers_def c)
  then show ?case by (simp add: IH c)
qed simp

definition same_fields :: "'v heap \<Rightarrow> 'v heap \<Rightarrow> bool" where
  "same_fields g h \<longleftrightarrow> (\<forall>x. n_value (g x) = n_value (h x) \<and> n_match (g x) = n_match (h x) \<and> n_id (g x) = n_id (h x))"

lemma same_fields_node_ok: "same_fields g h \<Longrightarrow> node_ok es g p = node_ok es h p"
  by (simp add: same_fields_def node_ok_def)

lemma same_fields_unlink: "same_fields (unlink h a us vs) h"
  by (simp add: same_fields_def unlink_fields)

lemma same_fields_trans: "same_fields f g \<Longrightarrow> same_fields g h \<Longrightarrow> same_fields f h"
  by (simp add: same_fields_def)

lemma lift_ok:
  assumes "wf_entries es n" and "\<forall>p < length es. node_ok es h p" and "stack_ok es step init cs s"
    and "dll h (length es # remaining es (done_ids es cs))" and "heap_ok es h cs"
    and "a \<in> set (remaining es (done_ids es cs))" and "e_kind (es ! a) = callEntry"
  shows "\<exists>g. lift h a = Some g \<and> same_fields g h \<and>
    dll g (length es # remaining es (done_ids es ((a, t) # cs))) \<and> heap_ok es g ((a, t) # cs)"
proof -
  let ?L = "done_ids es cs" and ?i = "eid es a"
  have a: "a < length es" "?i \<notin> ?L" using assms(6) by simp_all
  note c = call_position [OF assms(1) a(1) assms(7)]
  obtain as bs vs where rem: "remaining es ?L = as @ a # bs @ retp es ?i # vs"
      and rem': "remaining es (insert ?i ?L) = as @ bs @ vs"
    by (rule remaining_split [OF assms(1) c(2) a(2)]) (use c(1) in auto)
  let ?us = "length es # as" and ?m = "retp es ?i"
  let ?g = "unlink (unlink h a ?us (bs @ ?m # vs)) ?m (?us @ bs) vs"
  have d: "dll h (?us @ a # bs @ ?m # vs)" "?us \<noteq> []" using assms(4) by (simp_all add: rem)
  have dis: "distinct (?us @ a # bs @ ?m # vs)" unfolding append_Cons rem [symmetric] by simp
  have mt: "n_match (h a) = Some ?m" using assms(2,7) a(1) by (simp add: node_ok_def)
  note two = unlink_twice [OF d dis]
  have "heap_ok es ?g cs = heap_ok es h cs"
  proof (rule heap_ok_cong [OF assms(1,3)])
    fix x assume x: "x < length es" "eid es x \<in> ?L"
    then have "x \<notin> set (length es # remaining es ?L)" by simp
    then have "x \<notin> set (?us @ bs @ ?m # vs)" by (auto simp: rem)
    then show "n_next (?g x) = n_next (h x) \<and> n_prev (?g x) = n_prev (h x)" by (rule two(4))
  qed
  moreover have "heap_ok es ?g ((a, t) # cs) \<longleftrightarrow> heap_ok es ?g cs"
    unfolding heap_ok.simps
    by (rule iffI, simp, rule conjI, rule exI [of _ ?us], rule exI [of _ bs], rule exI [of _ vs])
      (use two(2,3) rem rem' in simp_all)
  moreover have "dll ?g (length es # remaining es (done_ids es ((a, t) # cs)))" using two(1) by (simp add: rem')
  ultimately show ?thesis
    using lift_spec [OF d dis mt] same_fields_trans [OF same_fields_unlink same_fields_unlink] assms(5) by blast
qed

lemma unlift_ok:
  assumes "wf_entries es n" and "\<forall>p < length es. node_ok es h p" and "stack_ok es step init ((a, t) # cs) s"
    and "dll h (length es # remaining es (done_ids es ((a, t) # cs)))" and "heap_ok es h ((a, t) # cs)"
  shows "\<exists>g. unlift h a = Some g \<and> same_fields g h \<and>
    dll g (length es # remaining es (done_ids es cs)) \<and> heap_ok es g cs"
proof -
  let ?L = "done_ids es cs" and ?i = "eid es a"
  let ?m = "retp es ?i"
  have a: "a < length es" "e_kind (es ! a) = callEntry" "stack_ok es step init cs t" using assms(3) by simp_all
  obtain us bs vs where rem: "length es # remaining es ?L = us @ a # bs @ ?m # vs"
      and rem': "length es # remaining es (done_ids es ((a, t) # cs)) = us @ bs @ vs"
      and r: "remembers h us a (bs @ ?m # vs)" "remembers h (us @ bs) ?m vs"
    using assms(5) by auto
  have dis: "distinct (us @ a # bs @ ?m # vs)" unfolding rem [symmetric] by simp
  have mt: "n_match (h a) = Some ?m" using assms(2) a(1,2) by (simp add: node_ok_def)
  have d: "dll h (us @ bs @ vs)" using assms(4) by (simp only: rem')
  obtain g where g: "unlift h a = Some g" "dll g (us @ a # bs @ ?m # vs)"
      "\<forall>x. x \<notin> set (us @ bs @ ?m # vs) \<longrightarrow> n_next (g x) = n_next (h x) \<and> n_prev (g x) = n_prev (h x)" "same_fields g h"
    using unlift_spec [OF d r(2,1) dis mt] by (auto simp: same_fields_def)
  have "heap_ok es g cs = heap_ok es h cs"
  proof (rule heap_ok_cong [OF assms(1) a(3)])
    fix x assume x: "x < length es" "eid es x \<in> ?L"
    then have "x \<notin> set (length es # remaining es ?L)" by simp
    then have "x \<notin> set (us @ bs @ ?m # vs)" unfolding rem by simp
    then show "n_next (g x) = n_next (h x) \<and> n_prev (g x) = n_prev (h x)" using g(3) by blast
  qed
  with g assms(5) show ?thesis unfolding rem by auto
qed

section \<open>The hash table\<close>

lemma seen_insert: "seen (c(k := c k @ [(b, t)])) = insert (bits_set b, t) (seen c)"
proof -
  have "set ((c(k := c k @ [(b, t)])) j) = set (c j) \<union> (if j = k then {(b, t)} else {})" for j by simp
  then have "seen (c(k := c k @ [(b, t)])) = (\<Union>j. (\<lambda>(b, t). (bits_set b, t)) ` (set (c j) \<union> (if j = k then {(b, t)} else {})))"
    unfolding seen_def by (simp only:)
  also have "\<dots> = insert (bits_set b, t) (seen c)" unfolding seen_def image_Un UN_Un_distrib
    by (auto split: if_splits)
  finally show ?thesis .
qed

lemma seen_iff: "(L, u) \<in> seen c \<longleftrightarrow> (\<exists>k b. (b, u) \<in> set (c k) \<and> L = bits_set b)"
  by (force simp: seen_def)

lemma cacheContains_iff:
  assumes "cache_ok es step init cs s c" and "length b = length (newBitset (length es div 2))"
  shows "cacheContains eq c (b, t) \<longleftrightarrow> (\<exists>u. (bits_set b, u) \<in> seen c \<and> eq t u)"
proof
  assume "cacheContains eq c (b, t)"
  then show "\<exists>u. (bits_set b, u) \<in> seen c \<and> eq t u"
    by (force simp: cacheContains_def list_ex_iff bitset_equals_iff seen_iff)
next
  assume "\<exists>u. (bits_set b, u) \<in> seen c \<and> eq t u"
  then obtain u b' k where u: "bits_set b' = bits_set b" "(b', u) \<in> set (c k)" "eq t u" by (auto simp: seen_iff)
  then have "length b' = length (newBitset (length es div 2))" "bitset_hash b' = k"
    using assms(1) unfolding cache_ok_def by blast+
  with u(1) assms(2) bits_set_inj [of b' b] have "b' = b" "k = bitset_hash b" by simp_all
  with u show "cacheContains eq c (b, t)" by (force simp: cacheContains_def list_ex_iff bitset_equals_iff)
qed

text \<open>A configuration found in the table is hopeless: those on the stack are smaller.\<close>

lemma cached_hopeless:
  assumes "state_equality step eq" and "cache_ok es step init cs s c" and "length b = length (newBitset (length es div 2))"
    and "cacheContains eq c (b, t)" and "bits_set b = insert i (done_ids es cs)" and "i \<notin> done_ids es cs"
  shows "\<not> completable es step (insert i (done_ids es cs)) t"
proof -
  obtain u where u: "(bits_set b, u) \<in> seen c" "eq t u" using assms(4) cacheContains_iff [OF assms(2,3)] by blast
  have "(bits_set b, u) \<notin> stack_confs es cs s"
  proof
    assume "(bits_set b, u) \<in> stack_confs es cs s"
    from stack_confs_subset [OF this] show False unfolding assms(5) using assms(6) by blast
  qed
  with u(1) assms(2) have "\<not> completable es step (bits_set b) u" by (auto simp: cache_ok_def)
  with completable_eq [OF assms(1) u(2)] show ?thesis by (simp add: assms(5))
qed

lemma cache_push:
  assumes "wf_entries es n" and "cache_ok es step init cs s c" and "stack_ok es step init ((a, s) # cs) t"
    and "length b = length (newBitset (length es div 2))" and "bits_set b = done_ids es ((a, s) # cs)"
  shows "cache_ok es step init ((a, s) # cs) t (c(bitset_hash b := c (bitset_hash b) @ [(b, t)]))"
proof -
  have "(bits_set b, t) \<in> configs es step init" using stack_config [OF assms(1,3)] by (simp only: assms(5))
  moreover have "(bits_set b, t) \<in> stack_confs es ((a, s) # cs) t" by (simp add: assms(5))
  moreover have "stack_confs es cs s \<subseteq> stack_confs es ((a, s) # cs) t" by auto
  ultimately show ?thesis
    using assms(2,4) unfolding cache_ok_def seen_insert by (auto split: if_splits)
qed

lemma cache_pop:
  assumes "cache_ok es step init ((a, s0) # cs) s c" and "\<not> completable es step (done_ids es ((a, s0) # cs)) s"
  shows "cache_ok es step init cs s0 c"
  using assms unfolding cache_ok_def by auto

section \<open>The longest prefixes\<close>

lemma update_longest_length:
  assumes "\<forall>i \<in> set is. 0 \<le> i \<and> nat i < length l"
  shows "\<exists>l'. update_longest seq is l = Some l' \<and> length l' = length l"
  using assms
proof (induction "is" arbitrary: l)
  case (Cons i js)
  let ?l = "case l ! nat i of None \<Rightarrow> l[nat i := Some seq]
      | Some old \<Rightarrow> if length old < length seq then l[nat i := Some seq] else l"
  have len: "length ?l = length l" by (simp split: option.split)
  then have "\<exists>l'. update_longest seq js ?l = Some l' \<and> length l' = length ?l"
    by (intro Cons.IH) (use Cons.prems in simp)
  with Cons.prems len show ?case by simp
qed simp

section \<open>The rounds of the loop\<close>

definition search_measure :: "'v entry list \<Rightarrow> ('s \<Rightarrow> 'v \<Rightarrow> 'v \<Rightarrow> bool \<times> 's) \<Rightarrow> 's \<Rightarrow> (('s, 'v) search \<times> ('s, 'v) search) set" where
  "search_measure es step init = measures
     [\<lambda>s. card (configs es step init) - card (seen (cache s)), \<lambda>s. length (calls s),
      \<lambda>s. length es - (case cur s of None \<Rightarrow> length es | Some p \<Rightarrow> p)]"

lemma wf_search_measure: "wf (search_measure es step init)"
  by (simp add: search_measure_def)

lemma seen_grows:
  assumes "cache_ok es step init cs s (c(k := c k @ [(b, t)]))" and "(bits_set b, t) \<notin> seen c"
  shows "card (configs es step init) - card (seen (c(k := c k @ [(b, t)]))) < card (configs es step init) - card (seen c)"
proof -
  have sub: "insert (bits_set b, t) (seen c) \<subseteq> configs es step init"
    using assms(1) unfolding cache_ok_def seen_insert by auto
  then have "card (insert (bits_set b, t) (seen c)) \<le> card (configs es step init)"
    by (rule card_mono [OF finite_configs])
  moreover have "finite (seen c)" by (rule finite_subset [OF _ finite_configs]) (use sub in auto)
  ultimately show ?thesis using assms(2) by (simp add: seen_insert)
qed

lemma search_invD:
  assumes "search_inv es step init s"
  shows "\<forall>p < length es. node_ok es (heap s) p" "dll (heap s) (length es # remaining es (done_ids es (rev (calls s))))"
    "heap_ok es (heap s) (rev (calls s))" "stack_ok es step init (rev (calls s)) (state s)"
    "cache_ok es step init (rev (calls s)) (state s) (cache s)"
    "bits_set (linearized s) = done_ids es (rev (calls s))"
    "length (linearized s) = length (newBitset (length es div 2))" "length (longest s) = length es div 2"
    "cur s = None \<Longrightarrow> remaining es (done_ids es (rev (calls s))) = []"
    "cur s = Some p \<Longrightarrow> p \<in> set (remaining es (done_ids es (rev (calls s)))) \<and> passed es step (done_ids es (rev (calls s))) (state s) p"
  using assms by (auto simp: search_inv_def cur_ok_def Let_def split: option.splits)

text \<open>Moving on to the next entry.\<close>

lemma advance_ok:
  assumes "wf_entries es n" and "search_inv es step init s" and "cur s = Some p" and "e_kind (es ! p) = callEntry"
    and "\<And>s'. next_state es step (state s) (eid es p) = (True, s') \<Longrightarrow>
      \<not> completable es step (insert (eid es p) (done_ids es (rev (calls s)))) s'"
  shows "search_inv es step init (s\<lparr>cur := n_next (heap s p)\<rparr>) \<and> (s\<lparr>cur := n_next (heap s p)\<rparr>, s) \<in> search_measure es step init"
proof -
  note inv = search_invD [OF assms(2)]
  let ?R = "remaining es (done_ids es (rev (calls s)))"
  have p: "p \<in> set ?R" "passed es step (done_ids es (rev (calls s))) (state s) p" using inv(10) [OF assms(3)] by simp_all
  obtain q where q: "n_next (heap s p) = Some q" "q \<in> set ?R" "p < q" "\<forall>x \<in> set ?R. x < q \<longrightarrow> x \<le> p"
    using next_entry [OF assms(1) inv(2) p(1) assms(4)] by blast
  have "passed es step (done_ids es (rev (calls s))) (state s) q"
    by (rule passed_next [OF p(2,1) assms(4,5)]) (use q(4) in auto)
  moreover have "q < length es" using q(2) remaining_simps(1) by blast
  ultimately show ?thesis
    using assms(2,3) q(1-3) by (auto simp: search_inv_def cur_ok_def search_measure_def Let_def)
qed

lemma cur_in_list:
  assumes "dll h (length es # remaining es L)"
  shows "n_next (h (length es)) = hd_opt (remaining es L)"
  using assms by (simp add: dll_Cons)

lemma search_invI:
  assumes "\<forall>p < length es. node_ok es (heap s) p" "dll (heap s) (length es # remaining es (done_ids es (rev (calls s))))"
    "heap_ok es (heap s) (rev (calls s))" "stack_ok es step init (rev (calls s)) (state s)"
    "cache_ok es step init (rev (calls s)) (state s) (cache s)"
    "bits_set (linearized s) = done_ids es (rev (calls s))"
    "length (linearized s) = length (newBitset (length es div 2))" "length (longest s) = length es div 2"
    "cur_ok es step (done_ids es (rev (calls s))) (state s) (cur s)"
  shows "search_inv es step init s"
  using assms by (simp add: search_inv_def Let_def)

lemma passed_first:
  assumes "hd_opt (remaining es L) = Some p"
  shows "passed es step L s p"
proof -
  obtain ps where ps: "remaining es L = p # ps" using assms by (cases "remaining es L") auto
  have "p \<le> q" if "q \<in> set (remaining es L)" for q
    using remaining_simps(3) [of es L] that unfolding ps by auto
  then show ?thesis unfolding passed_def by (meson leD)
qed

lemma cur_first:
  "cur_ok es step L s (hd_opt (remaining es L))"
  using passed_first [of es L _ step s] hd_optD [of "remaining es L"] by (cases "remaining es L") (simp_all add: cur_ok_def)

lemma set_id_ok:
  assumes "i < n" and "n \<le> 64 * length b"
  shows "\<exists>b'. set_id b (int i) = Some b' \<and> bits_set b' = insert i (bits_set b) \<and> length b' = length b"
    and "\<exists>b'. clear_id b (int i) = Some b' \<and> bits_set b' = bits_set b - {i} \<and> length b' = length b"
  using assms bits_set_set [of i b] bits_set_clear [of i b] by (simp_all add: set_id_def clear_id_def)

lemma wf_room: "wf_entries es n \<Longrightarrow> n \<le> 64 * length (newBitset (length es div 2))"
  using wf_length [of es n] length_new [of n] by simp

text \<open>Choosing an operation: the table grows.\<close>

lemma push_ok:
  assumes "wf_entries es n" and "state_equality step eq" and "search_inv es step init s" and "cur s = Some p"
    and "e_kind (es ! p) = callEntry" and "next_state es step (state s) (eid es p) = (True, t)"
    and "set_id (linearized s) (n_id (heap s p)) = Some b" and "\<not> cacheContains eq (cache s) (b, t)"
  shows "\<exists>s'. check_accepted eq (length es) s p t = Continue s' \<and> search_inv es step init s' \<and> (s', s) \<in> search_measure es step init"
proof -
  note inv = search_invD [OF assms(3)]
  let ?cs = "rev (calls s)"
  let ?cs' = "(p, state s) # ?cs"
  have p: "p \<in> set (remaining es (done_ids es ?cs))" "passed es step (done_ids es ?cs) (state s) p" using inv(10) [OF assms(4)] by simp_all
  have lt: "p < length es" using p(1) remaining_simps(1) by blast
  note i = eid [OF assms(1) lt]
  have id: "n_id (heap s p) = int (eid es p)" using inv(1) lt i(2) by (simp add: node_ok_def)
  have b: "bits_set b = done_ids es ?cs'" "length b = length (newBitset (length es div 2))"
    using set_id_ok(1) [OF i(1), of "linearized s"] wf_room [OF assms(1)] assms(7) inv(6,7) id by auto
  obtain g where g: "lift (heap s) p = Some g" "same_fields g (heap s)" "dll g (length es # remaining es (done_ids es ?cs'))" "heap_ok es g ?cs'"
    using lift_ok [OF assms(1) inv(1) inv(4) inv(2,3) p(1) assms(5)] by blast
  have st: "stack_ok es step init ?cs' t" using p assms(5,6) inv(4) by simp
  let ?c = "(cache s)(bitset_hash b := cache s (bitset_hash b) @ [(b, t)])"
  have co: "cache_ok es step init ?cs' t ?c" by (rule cache_push [OF assms(1) inv(5) st b(2,1)])
  have "(bits_set b, t) \<notin> seen (cache s)"
    using assms(8) cacheContains_iff [OF inv(5) b(2)] state_equality.eq_refl [OF assms(2)] by blast
  note grow = seen_grows [OF co this]
  let ?s = "s\<lparr>cache := ?c, calls := calls s @ [(p, state s)], state := t, linearized := b, heap := g, cur := n_next (g (length es))\<rparr>"
  have "check_accepted eq (length es) s p t = Continue ?s"
    using assms(7,8) g(1) by (simp add: check_accepted_def Let_def)
  moreover have "search_inv es step init ?s"
  proof (rule search_invI)
    show "\<forall>p < length es. node_ok es (heap ?s) p" using inv(1) same_fields_node_ok [OF g(2)] by simp
    show "cur_ok es step (done_ids es (rev (calls ?s))) (state ?s) (cur ?s)"
      using cur_in_list [OF g(3)] cur_first [where L = "done_ids es ?cs'" and step = step and s = t and es = es] by simp
  qed (use g(3,4) st co b inv(8) in simp_all)
  moreover have "(?s, s) \<in> search_measure es step init" using grow by (simp add: search_measure_def)
  ultimately show ?thesis by blast
qed

text \<open>Backtracking: the configuration that is left is hopeless.\<close>

lemma pop_ok:
  assumes "wf_entries es n" and "search_inv es step init s" and "cur s = Some p" and "e_kind (es ! p) = returnEntry"
    and "calls s \<noteq> []"
  shows "\<exists>s'. check_backtrack cp s = Continue s' \<and> search_inv es step init s' \<and> (s', s) \<in> search_measure es step init"
proof -
  note inv = search_invD [OF assms(2)]
  obtain a s0 where last: "last (calls s) = (a, s0)" by (cases "last (calls s)")
  let ?cs = "rev (butlast (calls s))"
  have rev: "rev (calls s) = (a, s0) # ?cs"
    using append_butlast_last_id [OF assms(5)] last by (metis rev.simps(2) rev_append rev_rev_ident append_Cons append_Nil)
  have p: "p \<in> set (remaining es (done_ids es ((a, s0) # ?cs)))" "passed es step (done_ids es ((a, s0) # ?cs)) (state s) p"
    using inv(10) [OF assms(3)] unfolding rev by simp_all
  have dead: "\<not> completable es step (done_ids es ((a, s0) # ?cs)) (state s)"
    by (rule hopeless_at_return [OF assms(1) p(1) assms(4) p(2)])
  have st: "stack_ok es step init ((a, s0) # ?cs) (state s)" using inv(4) unfolding rev .
  have a: "a \<in> set (remaining es (done_ids es ?cs))" "e_kind (es ! a) = callEntry" "stack_ok es step init ?cs s0"
      "next_state es step s0 (eid es a) = (True, state s)" "passed es step (done_ids es ?cs) s0 a"
    using st by simp_all
  have lt: "a < length es" "eid es a \<notin> done_ids es ?cs" using a(1) by simp_all
  note i = eid [OF assms(1) lt(1)]
  have id: "n_id (heap s a) = int (eid es a)" using inv(1) lt(1) i(2) by (simp add: node_ok_def)
  obtain b where b: "clear_id (linearized s) (n_id (heap s a)) = Some b" "bits_set b = done_ids es ?cs"
      "length b = length (newBitset (length es div 2))"
    using set_id_ok(2) [OF i(1), of "linearized s"] wf_room [OF assms(1)] inv(6,7) lt(2) unfolding rev id by auto
  have "0 \<le> x \<and> nat x < length (longest s)" if "x \<in> set (call_ids s)" for x
  proof -
    from that obtain c where c: "c \<in> set (calls s)" "x = n_id (heap s (fst c))" by (auto simp: call_ids_def)
    have "eid es (fst c) \<in> ops es" using stack_in_ops [OF assms(1) inv(4)] c(1) by auto
    moreover have "fst c < length es"
      using stack_entries [OF inv(4)] c(1) by simp
    ultimately show ?thesis using inv(1,8) c(2) eid(2) [OF assms(1)] by (simp add: node_ok_def)
  qed
  then obtain l where l: "update_longest (call_ids s) (call_ids s) (longest s) = Some l" "length l = length (longest s)"
    using update_longest_length by blast
  let ?l = "if cp then l else longest s"
  obtain g where g: "unlift (heap s) a = Some g" "same_fields g (heap s)" "dll g (length es # remaining es (done_ids es ?cs))" "heap_ok es g ?cs"
    using unlift_ok [OF assms(1) inv(1) st] inv(2,3) unfolding rev by blast
  obtain q where q: "n_next (g a) = Some q" "q \<in> set (remaining es (done_ids es ?cs))" "\<forall>x \<in> set (remaining es (done_ids es ?cs)). x < q \<longrightarrow> x \<le> a"
    using next_entry [OF assms(1) g(3) a(1,2)] by blast
  have "passed es step (done_ids es ?cs) s0 q"
    by (rule passed_next [OF a(5,1,2)]) (use q(3) dead a(4) in auto)
  with q(1,2) have cur: "cur_ok es step (done_ids es ?cs) s0 (n_next (g a))" by (simp add: cur_ok_def)
  let ?s = "s\<lparr>longest := ?l, state := s0, linearized := b, calls := butlast (calls s), heap := g, cur := n_next (g a)\<rparr>"
  have "check_backtrack cp s = Continue ?s" using assms(5) l(1) last b(1) g(1) by (simp add: check_backtrack_def)
  moreover have "search_inv es step init ?s"
  proof (rule search_invI)
    show "\<forall>p < length es. node_ok es (heap ?s) p" using inv(1) same_fields_node_ok [OF g(2)] by simp
    show "cache_ok es step init (rev (calls ?s)) (state ?s) (cache ?s)"
      using cache_pop [OF inv(5) [unfolded rev] dead] by simp
  qed (use g(3,4) a(3) b(2,3) inv(8) l(2) cur in simp_all)
  moreover have "(?s, s) \<in> search_measure es step init" using assms(5) by (simp add: search_measure_def)
  ultimately show ?thesis by blast
qed

text \<open>One round keeps the invariant and makes progress, or gives the right answer.\<close>

lemma round_ok:
  assumes "wf_entries es n" and "state_equality step eq" and "search_inv es step init s"
    and "remaining es (done_ids es (rev (calls s))) \<noteq> []"
  shows "(\<exists>s'. check_round step eq cp (length es) s = Continue s' \<and> search_inv es step init s' \<and> (s', s) \<in> search_measure es step init) \<or>
    (check_round step eq cp (length es) s = Returned False \<and> \<not> completable es step {} init)"
proof -
  note inv = search_invD [OF assms(3)]
  obtain p where cur: "cur s = Some p" using inv(9) assms(4) by (cases "cur s") auto
  let ?L = "done_ids es (rev (calls s))"
  have p: "p \<in> set (remaining es ?L)" "passed es step ?L (state s) p" using inv(10) [OF cur] by simp_all
  then have lt: "p < length es" "eid es p \<notin> ?L" by simp_all
  note i = eid [OF assms(1) lt(1)]
  have nd: "node_ok es (heap s) p" using inv(1) lt(1) by simp
  show ?thesis
  proof (cases "e_kind (es ! p)")
    case returnEntry
    then have round: "check_round step eq cp (length es) s = check_backtrack cp s"
      using nd cur by (simp add: check_round_def node_ok_def)
    show ?thesis
    proof (cases "calls s = []")
      case True
      then have "\<not> completable es step {} init"
        using hopeless_at_return [OF assms(1) p(1) returnEntry p(2)] inv(4) by simp
      with True round show ?thesis by (simp add: check_backtrack_def)
    next
      case False
      with pop_ok [OF assms(1,3) cur returnEntry] round show ?thesis by auto
    qed
  next
    case callEntry
    let ?m = "retp es (eid es p)"
    have m: "node_ok es (heap s) ?m" using inv(1) posn(1) [OF assms(1) i(1)] by simp
    have c: "p = callp es (eid es p)" using i(3) callEntry by simp
    have vals: "n_match (heap s p) = Some ?m" "n_value (heap s p) = Some (cinp es (eid es p))" "n_value (heap s ?m) = Some (cout es (eid es p))"
      using nd m callEntry c by (simp_all add: node_ok_def cinp_def cout_def)
    obtain ok t where ns: "next_state es step (state s) (eid es p) = (ok, t)" by (cases "next_state es step (state s) (eid es p)")
    have round: "check_round step eq cp (length es) s =
        (if ok then check_accepted eq (length es) s p t else Continue (s\<lparr>cur := n_next (heap s p)\<rparr>))"
      using cur vals ns by (simp add: check_round_def next_state_def)
    have id: "n_id (heap s p) = int (eid es p)" using nd i(2) by (simp add: node_ok_def)
    obtain b where b: "set_id (linearized s) (n_id (heap s p)) = Some b" "bits_set b = insert (eid es p) ?L"
        "length b = length (newBitset (length es div 2))"
      using set_id_ok(1) [OF i(1), of "linearized s"] wf_room [OF assms(1)] inv(6,7) id by auto
    consider "\<not> ok" | "ok" "cacheContains eq (cache s) (b, t)" | "ok" "\<not> cacheContains eq (cache s) (b, t)" by blast
    then show ?thesis
    proof cases
      case 1
      with advance_ok [OF assms(1,3) cur callEntry] ns round show ?thesis by auto
    next
      case 2
      have "\<not> completable es step (insert (eid es p) ?L) t"
        by (rule cached_hopeless [OF assms(2) inv(5) b(3) 2(2) b(2) lt(2)])
      with advance_ok [OF assms(1,3) cur callEntry] ns have "search_inv es step init (s\<lparr>cur := n_next (heap s p)\<rparr>)"
        "(s\<lparr>cur := n_next (heap s p)\<rparr>, s) \<in> search_measure es step init" by auto
      moreover have "check_round step eq cp (length es) s = Continue (s\<lparr>cur := n_next (heap s p)\<rparr>)"
        using round 2 b(1) by (simp add: check_accepted_def)
      ultimately show ?thesis by blast
    next
      case 3
      with push_ok [OF assms(1-3) cur callEntry _ b(1)] ns round show ?thesis by auto
    qed
  qed
qed

section \<open>The whole search\<close>

lemma stack_sound:
  assumes "wf_entries es n" and "stack_ok es step init cs s" and "completable es step (done_ids es cs) s"
  shows "completable es step {} init"
  using assms(2,3)
proof (induction cs arbitrary: s)
  case (Cons c cs)
  obtain a s0 where c: "c = (a, s0)" by (cases c)
  have a: "a \<in> set (remaining es (done_ids es cs))" "e_kind (es ! a) = callEntry" "passed es step (done_ids es cs) s0 a"
      "next_state es step s0 (eid es a) = (True, s)" "stack_ok es step init cs s0"
    using Cons.prems(1) by (simp_all add: c)
  have "completable es step (done_ids es cs) s0"
    by (rule completable_step [OF passed_minimal [OF assms(1) a(1-3)] a(4)]) (use Cons.prems(2) in \<open>simp add: c\<close>)
  then show ?case by (rule Cons.IH [OF a(5)])
qed simp

lemma check_loop_ok:
  assumes "wf_entries es n" and "state_equality step eq" and "search_inv es step init s"
  shows "\<exists>b l. check_loop step eq cp kill (length es) k s = Some (Some (b, l)) \<and>
    (b \<longrightarrow> completable es step {} init) \<and> ((\<forall>j. \<not> kill j) \<longrightarrow> b = completable es step {} init)"
  using wf_search_measure [of es step init] assms(3)
proof (induction s arbitrary: k rule: wf_induct_rule)
  case (less s)
  note inv = search_invD [OF less.prems]
  let ?R = "remaining es (done_ids es (rev (calls s)))"
  have hd: "n_next (heap s (length es)) = hd_opt ?R" by (rule cur_in_list [OF inv(2)])
  show ?case
  proof (cases "?R = []")
    case True
    then have "completable es step {} init"
      using stack_sound [OF assms(1) inv(4) completable_all] remaining_Nil [OF assms(1)] by blast
    with True hd show ?thesis by (intro exI [of _ True]) (subst check_loop.simps, simp)
  next
    case False
    then obtain y where ne: "n_next (heap s (length es)) = Some y" using hd by (cases ?R) simp_all
    show ?thesis
    proof (cases "kill k")
      case True
      with ne show ?thesis by (intro exI [of _ False]) (subst check_loop.simps, auto)
    next
      case nk: False
      from round_ok [OF assms(1,2) less.prems False, of cp] show ?thesis
      proof
        assume "\<exists>s'. check_round step eq cp (length es) s = Continue s' \<and> search_inv es step init s' \<and> (s', s) \<in> search_measure es step init"
        then obtain s' where s': "check_round step eq cp (length es) s = Continue s'" "search_inv es step init s'" "(s', s) \<in> search_measure es step init"
          by blast
        from less.IH [OF s'(3,2), of "k + 1"] show ?thesis
          by (subst check_loop.simps) (use ne nk s'(1) in simp)
      next
        assume "check_round step eq cp (length es) s = Returned False \<and> \<not> completable es step {} init"
        with ne nk show ?thesis by (intro exI [of _ False]) (subst check_loop.simps, simp)
      qed
    qed
  qed
qed

lemma start_search_inv:
  assumes "wf_entries es n" and "makeLinkedEntries es = (h, entry)"
  shows "list_length h entry 0 = Some (length es)" and "search_inv es step init (start_search init h entry (length es) (length es div 2))"
proof -
  obtain h0 where h0: "makeLinkedEntries es = (h0, hd_opt [0..<length es])" "dll h0 [0..<length es]"
      "0 < length es \<longrightarrow> n_prev (h0 0) = None" "\<forall>p < length es. node_ok es h0 p"
    using makeLinkedEntries_ok [OF assms(1)] by blast
  then have h: "h = h0" "entry = hd_opt [0..<length es]" using assms(2) by auto
  show "list_length h entry 0 = Some (length es)" using list_length_dll [OF h0(2), of 0] by (simp add: h)
  let ?h = "h0(length es := new_node None None (-1))"
  let ?s = "start_search init h entry (length es) (length es div 2)"
  have dl: "dll ?h [0..<length es]" using h0(2) by (rule iffD1 [OF dll_cong, rotated -1]) (auto dest: set_tlD)
  have rem: "remaining es {} = [0..<length es]" by (simp add: remaining_def)
  have "dll (heap ?s) (length es # [0..<length es])"
  proof (cases "0 < length es")
    case True
    then have xs: "[0..<length es] = 0 # [Suc 0..<length es]" by (simp add: upt_conv_Cons)
    have "distinct (length es # [0..<length es])" "n_prev (?h 0) = None" using h0(3) True by auto
    then show ?thesis using insertBefore_front(1) [of ?h 0 "[Suc 0..<length es]" "length es"] dl
      unfolding xs by (simp add: start_search_def h xs)
  qed (simp add: start_search_def h insertBefore_def new_node_def)
  moreover have "node_ok es (heap ?s) p" if "p < length es" for p
    using h0(4) that by (simp add: start_search_def h node_ok_def insertBefore_fields)
  moreover have "cur_ok es step {} init (cur ?s)"
    using cur_first [where L = "{}" and es = es and step = step and s = init] by (simp add: start_search_def h rem)
  ultimately show "search_inv es step init ?s"
    by (intro search_invI)
      (simp_all add: start_search_def cache_ok_def seen_def rem bits_set_new)
qed

lemma checkSingle_ok:
  assumes "wf_entries es n" and "state_equality (Step m) (or_default (Equal m) ShallowEqual)"
  shows "\<exists>b l. checkSingle m es cp kill = Some (Some (b, l)) \<and>
    (b \<longrightarrow> completable es (Step m) {} (Init m)) \<and> ((\<forall>j. \<not> kill j) \<longrightarrow> b = completable es (Step m) {} (Init m))"
proof -
  obtain h entry where mk: "makeLinkedEntries es = (h, entry)" by (cases "makeLinkedEntries es")
  note st = start_search_inv [OF assms(1) mk]
  from check_loop_ok [OF assms st(2) [of "Step m" "Init m"], of cp kill 0] show ?thesis
    by (simp add: checkSingle_def mk st(1))
qed

lemma completable_linearizable:
  assumes "sorts_byTime sorter" and "ordered_history h"
  shows "completable (makeEntries sorter h) (Step m) {} (Init m) \<longleftrightarrow> linearizable m h"
proof -
  let ?es = "makeEntries sorter h"
  note wf = makeEntries_wf [OF assms] and nth = makeEntries_nth [OF assms]
  have "linearization (Step m) (cinp ?es) (cout ?es) (precedes ?es) (Init m) {..<length h} is \<longleftrightarrow>
      linearization (Step m) (\<lambda>i. Input (h ! i)) (\<lambda>i. Output (h ! i)) (\<lambda>i j. Return (h ! i) < Call (h ! j)) (Init m) {..<length h} is"
    (is "?A \<longleftrightarrow> ?B") for "is"
  proof -
    have leg: "legal (Step m) (cinp ?es) (cout ?es) s js = legal (Step m) (\<lambda>i. Input (h ! i)) (\<lambda>i. Output (h ! i)) s js"
      if "set js \<subseteq> {..<length h}" for js s
      using that by (induction js arbitrary: s) (simp_all add: cinp_def cout_def nth op_entry_def split: prod.split)
    have srt: "sorted_wrt (\<lambda>i j. \<not> precedes ?es j i) js = sorted_wrt (\<lambda>i j. \<not> Return (h ! j) < Call (h ! i)) js"
      if "set js \<subseteq> {..<length h}" for js
      using that makeEntries_before [OF assms] by (induction js) (auto simp: precedes_def subset_iff)
    show ?thesis unfolding linearization_def using leg [of "is"] srt [of "is"] by blast
  qed
  then show ?thesis using wf_length [OF wf] by (simp add: completable_def linearizable_def)
qed

end
