(* ===== verification/Porcupine_Parallel.thy ===== *)
theory Porcupine_Parallel
  imports Porcupine_Search
begin

text \<open>
  The parallel check of the partitions of a history (\<open>checkParallel\<close>,
  \<open>checkOperations\<close> and \<open>checkEvents\<close> of \<^verbatim>\<open>Lab3/src/porcupine/checker.go\<close>)
  and the entry points of \<^verbatim>\<open>porcupine.go\<close>. A schedule says in which order the goroutines of
  the partitions deliver their results and when the timer fires. The kill flag is set only when
  the receiving loop is left, so every result that the loop receives was computed with the flag
  unset. The linearization info for the visualisation is in \<open>Porcupine_Visualize\<close>.
\<close>

section \<open>Definitions\<close>

datatype parEvent = Finished nat | TimerFired

text \<open>What a goroutine sends: \<open>None\<close> if it panics or does not end.\<close>

definition sent_result :: "('s, 'v) Model \<Rightarrow> 'v entry list list \<Rightarrow> bool \<Rightarrow> nat \<Rightarrow> bool option" where
  "sent_result m history computeInfo i =
     (case checkSingle m (history ! i) computeInfo (\<lambda>_. False) of
        Some (Some (ok, _)) \<Rightarrow> Some ok
      | _ \<Rightarrow> None)"

text \<open>
  The receiving loop gives \<open>(ok, timedOut)\<close>; \<open>None\<close> is a loop that is still
  waiting when the schedule ends. Without a timeout the timer channel is nil and never ready.
\<close>

fun par_loop :: "(nat \<Rightarrow> bool option) \<Rightarrow> nat \<Rightarrow> bool \<Rightarrow> int \<Rightarrow> bool \<Rightarrow> nat \<Rightarrow> parEvent list \<Rightarrow> (bool \<times> bool) option" where
  "par_loop results parts computeInfo timeout ok cnt [] = None"
| "par_loop results parts computeInfo timeout ok cnt (Finished i # evs) =
     (case results i of
        None \<Rightarrow> None
      | Some result \<Rightarrow>
          (let cnt = cnt + 1; ok = (ok \<and> result) in
           if \<not> ok \<and> \<not> computeInfo then Some (ok, False)
           else if parts \<le> cnt then Some (ok, False)
           else par_loop results parts computeInfo timeout ok cnt evs))"
| "par_loop results parts computeInfo timeout ok cnt (TimerFired # evs) =
     (if 0 < timeout then Some (ok, True)
      else par_loop results parts computeInfo timeout ok cnt evs)"

definition check_result :: "bool \<Rightarrow> bool \<Rightarrow> CheckResult" where
  "check_result ok timedOut = (if \<not> ok then Illegal else if timedOut then Unknown else Ok)"

definition checkParallel ::
  "('s, 'v) Model \<Rightarrow> 'v entry list list \<Rightarrow> bool \<Rightarrow> int \<Rightarrow> parEvent list \<Rightarrow> CheckResult option" where
  "checkParallel m history computeInfo timeout evs =
     map_option (\<lambda>(ok, timedOut). check_result ok timedOut)
       (par_loop (sent_result m history computeInfo) (length history) computeInfo timeout True 0 evs)"

definition checkEvents :: "('s, 'v) Model \<Rightarrow> 'v Event list \<Rightarrow> bool \<Rightarrow> int \<Rightarrow> parEvent list \<Rightarrow> CheckResult option" where
  "checkEvents m history verbose timeout evs =
     (let m = fillDefault m;
          partitions = or_default (PartitionEvent m) NoPartitionEvent history;
          l = map (\<lambda>subhistory. convertEntries (renumber subhistory)) partitions
      in checkParallel m l verbose timeout evs)"

definition checkOperations ::
  "('v entry list \<Rightarrow> 'v entry list) \<Rightarrow> ('s, 'v) Model \<Rightarrow> 'v Operation list \<Rightarrow> bool \<Rightarrow> int \<Rightarrow> parEvent list \<Rightarrow> CheckResult option" where
  "checkOperations sorter m history verbose timeout evs =
     (let m = fillDefault m;
          partitions = or_default (Partition m) NoPartition history;
          l = map (makeEntries sorter) partitions
      in checkParallel m l verbose timeout evs)"

definition CheckOperations ::
  "('v entry list \<Rightarrow> 'v entry list) \<Rightarrow> ('s, 'v) Model \<Rightarrow> 'v Operation list \<Rightarrow> parEvent list \<Rightarrow> bool option" where
  "CheckOperations sorter m history evs = map_option (\<lambda>res. res = Ok) (checkOperations sorter m history False 0 evs)"

definition CheckOperationsTimeout ::
  "('v entry list \<Rightarrow> 'v entry list) \<Rightarrow> ('s, 'v) Model \<Rightarrow> 'v Operation list \<Rightarrow> int \<Rightarrow> parEvent list \<Rightarrow> CheckResult option" where
  "CheckOperationsTimeout sorter m history timeout evs = checkOperations sorter m history False timeout evs"

definition CheckOperationsVerbose ::
  "('v entry list \<Rightarrow> 'v entry list) \<Rightarrow> ('s, 'v) Model \<Rightarrow> 'v Operation list \<Rightarrow> int \<Rightarrow> parEvent list \<Rightarrow> CheckResult option" where
  "CheckOperationsVerbose sorter m history timeout evs = checkOperations sorter m history True timeout evs"

definition CheckEvents :: "('s, 'v) Model \<Rightarrow> 'v Event list \<Rightarrow> parEvent list \<Rightarrow> bool option" where
  "CheckEvents m history evs = map_option (\<lambda>res. res = Ok) (checkEvents m history False 0 evs)"

definition CheckEventsTimeout :: "('s, 'v) Model \<Rightarrow> 'v Event list \<Rightarrow> int \<Rightarrow> parEvent list \<Rightarrow> CheckResult option" where
  "CheckEventsTimeout m history timeout evs = checkEvents m history False timeout evs"

definition CheckEventsVerbose :: "('s, 'v) Model \<Rightarrow> 'v Event list \<Rightarrow> int \<Rightarrow> parEvent list \<Rightarrow> CheckResult option" where
  "CheckEventsVerbose m history timeout evs = checkEvents m history True timeout evs"

section \<open>Schedules\<close>

fun finished :: "parEvent list \<Rightarrow> nat list" where
  "finished [] = []"
| "finished (Finished i # evs) = i # finished evs"
| "finished (TimerFired # evs) = finished evs"

text \<open>Each goroutine delivers once; in a complete schedule all of them do.\<close>

definition schedule :: "nat \<Rightarrow> parEvent list \<Rightarrow> bool" where
  "schedule n evs \<longleftrightarrow> distinct (finished evs) \<and> set (finished evs) \<subseteq> {..<n}"

definition complete_schedule :: "nat \<Rightarrow> parEvent list \<Rightarrow> bool" where
  "complete_schedule n evs \<longleftrightarrow> distinct (finished evs) \<and> set (finished evs) = {..<n}"

lemma some_false:
  assumes "\<forall>i < parts. results i \<noteq> None" and "A \<subseteq> {..<parts}" and "\<not> (\<forall>i \<in> A. results i = Some True)"
  shows "\<exists>j < parts. results j = Some False"
proof -
  obtain j where j: "j \<in> A" "results j \<noteq> Some True" using assms(3) by blast
  with assms(1,2) have "j < parts" "results j \<noteq> None" by auto
  with j(2) have "results j = Some False" by (cases "results j") auto
  with \<open>j < parts\<close> show ?thesis by blast
qed

text \<open>Whatever the schedule, a verdict is right.\<close>

lemma par_loop_sound:
  assumes "par_loop results parts cp timeout ok cnt evs = Some (ok', timedOut)"
    and "distinct got" and "length got = cnt" and "schedule parts evs" and "set got \<inter> set (finished evs) = {}"
    and "set got \<subseteq> {..<parts}" and "ok \<longleftrightarrow> (\<forall>i \<in> set got. results i = Some True)" and "\<forall>i < parts. results i \<noteq> None"
  shows "(\<not> ok' \<longrightarrow> (\<exists>i < parts. results i = Some False)) \<and> (ok' \<and> \<not> timedOut \<longrightarrow> (\<forall>i < parts. results i = Some True))"
  using assms(1-7)
proof (induction evs arbitrary: ok cnt got)
  case (Cons ev evs)
  show ?case
  proof (cases ev)
    case (Finished i)
    have i: "i < parts" "i \<notin> set got" "i \<notin> set (finished evs)" "schedule parts evs" "set (i # got) \<inter> set (finished evs) = {}"
      using Cons.prems(4,5) by (auto simp: schedule_def Finished)
    obtain r where r: "results i = Some r" using assms(8) i(1) by auto
    have ok: "ok \<and> r \<longleftrightarrow> (\<forall>i \<in> set (i # got). results i = Some True)" using Cons.prems(7) r by auto
    have sub: "set (i # got) \<subseteq> {..<parts}" "distinct (i # got)" using Cons.prems(2,6) i(1,2) by auto
    define v where "v \<longleftrightarrow> ok \<and> r"
    have step: "(if \<not> v \<and> \<not> cp then Some (v, False) else if parts \<le> Suc cnt then Some (v, False)
        else par_loop results parts cp timeout v (Suc cnt) evs) = Some (ok', timedOut)"
      using Cons.prems(1) by (simp only: Finished par_loop.simps r option.case Let_def v_def Suc_eq_plus1)
    note ok = ok [folded v_def]
    consider "\<not> v" "\<not> cp" | "v \<or> cp" "parts \<le> Suc cnt" | "v \<or> cp" "\<not> parts \<le> Suc cnt" by blast
    then show ?thesis
    proof cases
      case 1
      then have "\<not> ok'" using step by simp
      moreover have "\<not> (\<forall>i \<in> set (i # got). results i = Some True)" using 1(1) ok by blast
      ultimately show ?thesis using some_false [OF assms(8) sub(1)] by blast
    next
      case 2
      then have res: "ok' = v" "\<not> timedOut" using step by auto
      have "card (set (i # got)) = Suc cnt" using distinct_card [OF sub(2)] Cons.prems(3) by simp
      moreover have "card (set (i # got)) \<le> parts" using card_mono [OF finite_lessThan sub(1)] by simp
      ultimately have "card (set (i # got)) = card {..<parts}" using 2(2) by simp
      then have all: "set (i # got) = {..<parts}" by (rule card_subset_eq [OF finite_lessThan sub(1)])
      have "\<not> ok' \<longrightarrow> (\<exists>j < parts. results j = Some False)"
        using res(1) ok some_false [OF assms(8) sub(1)] by blast
      moreover have "ok' \<longrightarrow> (\<forall>j < parts. results j = Some True)" using res(1) ok unfolding all by auto
      ultimately show ?thesis using res(2) by blast
    next
      case 3
      then have "par_loop results parts cp timeout v (Suc cnt) evs = Some (ok', timedOut)" using step by auto
      moreover have "length (i # got) = Suc cnt" using Cons.prems(3) by simp
      ultimately show ?thesis by (rule Cons.IH [OF _ sub(2) _ i(4,5) sub(1) ok])
    qed
  next
    case TimerFired
    show ?thesis
    proof (cases "0 < timeout")
      case True
      then have "ok' = ok" "timedOut" using Cons.prems(1) by (auto simp: TimerFired)
      moreover have "\<exists>j < parts. results j = Some False" if "\<not> ok"
        using that Cons.prems(7) some_false [OF assms(8) Cons.prems(6)] by blast
      ultimately show ?thesis by blast
    next
      case False
      then have rest: "par_loop results parts cp timeout ok cnt evs = Some (ok', timedOut)" using Cons.prems(1) by (simp add: TimerFired)
      have "schedule parts evs" "set got \<inter> set (finished evs) = {}"
        using Cons.prems(4,5) by (simp_all add: TimerFired schedule_def)
      then show ?thesis by (rule Cons.IH [OF rest Cons.prems(2,3) _ _ Cons.prems(6,7)])
    qed
  qed
qed simp

text \<open>The loop ends when all goroutines deliver, if there is at least one.\<close>

lemma par_loop_returns:
  assumes "\<forall>i < parts. results i \<noteq> None" and "set (finished evs) \<subseteq> {..<parts}"
    and "cnt < parts" and "parts \<le> cnt + length (finished evs)"
  shows "\<exists>r. par_loop results parts cp timeout ok cnt evs = Some r"
  using assms(2-4)
proof (induction evs arbitrary: ok cnt)
  case (Cons ev evs)
  show ?case
  proof (cases ev)
    case (Finished i)
    then obtain r where r: "results i = Some r" using assms(1) Cons.prems(1) by auto
    then show ?thesis using Cons.IH [of "Suc cnt"] Cons.prems by (auto simp: Finished Let_def)
  next
    case TimerFired
    then show ?thesis using Cons.IH [of cnt] Cons.prems by auto
  qed
qed simp

lemma par_loop_no_timeout: "par_loop results parts cp timeout ok cnt evs = Some (r, tm) \<Longrightarrow> timeout \<le> 0 \<Longrightarrow> \<not> tm"
  by (induction results parts cp timeout ok cnt evs rule: par_loop.induct) (auto simp: Let_def split: if_splits option.splits)

lemma checkParallel_decides:
  assumes "\<forall>i < length hs. sent_result m hs cp i = Some (P i)" and "schedule (length hs) evs"
  shows "checkParallel m hs cp timeout evs = Some Ok \<Longrightarrow> \<forall>i < length hs. P i"
    and "checkParallel m hs cp timeout evs = Some Illegal \<Longrightarrow> \<exists>i < length hs. \<not> P i"
    and "complete_schedule (length hs) evs \<Longrightarrow> hs \<noteq> [] \<Longrightarrow> timeout \<le> 0 \<Longrightarrow>
      checkParallel m hs cp timeout evs = Some (if \<forall>i < length hs. P i then Ok else Illegal)"
proof -
  let ?r = "sent_result m hs cp" and ?n = "length hs"
  have sound: "(\<not> ok \<longrightarrow> (\<exists>i < ?n. \<not> P i)) \<and> (ok \<and> \<not> to \<longrightarrow> (\<forall>i < ?n. P i))"
    if "par_loop ?r ?n cp timeout True 0 evs = Some (ok, to)" for ok to
    using par_loop_sound [OF that, of "[]"] assms by auto
  show "checkParallel m hs cp timeout evs = Some Ok \<Longrightarrow> \<forall>i < ?n. P i"
    and "checkParallel m hs cp timeout evs = Some Illegal \<Longrightarrow> \<exists>i < ?n. \<not> P i"
    using sound by (auto simp: checkParallel_def check_result_def split: if_splits)
  assume cs: "complete_schedule ?n evs" and "hs \<noteq> []" and to: "timeout \<le> 0"
  then have "length (finished evs) = ?n" "0 < ?n" unfolding complete_schedule_def by (metis distinct_card card_lessThan, simp)
  then obtain ok tm where r: "par_loop ?r ?n cp timeout True 0 evs = Some (ok, tm)"
    using par_loop_returns [of ?n ?r evs 0 cp timeout True] assms(1) cs by (auto simp: complete_schedule_def)
  with to have "\<not> tm" using par_loop_no_timeout by blast
  with r sound [OF r] show "checkParallel m hs cp timeout evs = Some (if \<forall>i < ?n. P i then Ok else Illegal)"
    by (auto simp: checkParallel_def check_result_def)
qed

section \<open>What the checker decides\<close>

text \<open>
  C2: the search decides linearizability. On the entries of any history whose operations return
  after they were called, \<open>checkSingle\<close> ends without a panic and answers whether the
  history is linearizable, for every model whose equality of states is compatible with its
  steps, however the unstable sort leaves entries of equal time.
\<close>

theorem checkSingle_decides:
  assumes "sorts_byTime sorter" and "ordered_history h" and "state_equality (Step m) (or_default (Equal m) ShallowEqual)"
  shows "\<exists>l. checkSingle m (makeEntries sorter h) cp (\<lambda>_. False) = Some (Some (linearizable m h, l))"
  using checkSingle_ok [OF makeEntries_wf [OF assms(1,2)] assms(3), of cp "\<lambda>_. False"]
    completable_linearizable [OF assms(1,2), of m] by auto

text \<open>
  A search that is killed half-way still ends, without a panic, and never claims that a
  history is linearizable when it is not.
\<close>

theorem killed_search_sound:
  assumes "sorts_byTime sorter" and "ordered_history h" and "state_equality (Step m) (or_default (Equal m) ShallowEqual)"
  shows "\<exists>b l. checkSingle m (makeEntries sorter h) cp kill = Some (Some (b, l)) \<and> (b \<longrightarrow> linearizable m h)"
  using checkSingle_ok [OF makeEntries_wf [OF assms(1,2)] assms(3), of cp kill]
    completable_linearizable [OF assms(1,2), of m] by auto

lemma linearizable_fillDefault: "linearizable (fillDefault m) h = linearizable m h"
  by (simp add: linearizable_def fillDefault_def)

lemma sent_result_operations:
  assumes "sorts_byTime sorter" and "state_equality (Step m) (or_default (Equal m) ShallowEqual)"
    and "i < length hs" and "ordered_history (hs ! i)"
  shows "sent_result (fillDefault m) (map (makeEntries sorter) hs) cp i = Some (linearizable m (hs ! i))"
proof -
  have "state_equality (Step (fillDefault m)) (or_default (Equal (fillDefault m)) ShallowEqual)"
    using assms(2) by (simp add: fillDefault_def or_default_def)
  from checkSingle_ok [OF makeEntries_wf [OF assms(1,4)] this, of cp "\<lambda>_. False"] completable_linearizable [OF assms(1,4), of "fillDefault m"]
  show ?thesis using assms(3) by (auto simp: sent_result_def linearizable_fillDefault)
qed

definition partitions_of :: "('s, 'v) Model \<Rightarrow> 'v Operation list \<Rightarrow> 'v Operation list list" where
  "partitions_of m h = or_default (Partition m) NoPartition h"

lemma checkOperations_parallel:
  "checkOperations sorter m h verbose timeout evs =
     checkParallel (fillDefault m) (map (makeEntries sorter) (partitions_of m h)) verbose timeout evs"
  by (simp add: checkOperations_def partitions_of_def fillDefault_def or_default_def Let_def)


lemma CheckOperations_ok:
  assumes "sorts_byTime sorter" and "state_equality (Step m) (or_default (Equal m) ShallowEqual)"
    and "list_all ordered_history (partitions_of m h)" and "complete_schedule (length (partitions_of m h)) evs"
    and "partitions_of m h \<noteq> []"
  shows "CheckOperations sorter m h evs = Some (list_all (linearizable m) (partitions_of m h))"
proof -
  let ?hs = "partitions_of m h"
  have "\<forall>i < length (map (makeEntries sorter) ?hs).
      sent_result (fillDefault m) (map (makeEntries sorter) ?hs) False i = Some (linearizable m (?hs ! i))"
    using sent_result_operations [OF assms(1,2)] assms(3) by (simp add: list_all_length)
  from checkParallel_decides(3) [OF this] assms(4,5) show ?thesis
    by (auto simp: CheckOperations_def checkOperations_parallel list_all_length schedule_def complete_schedule_def)
qed

lemma par_loop_waits: "timeout \<le> 0 \<Longrightarrow> finished evs = [] \<Longrightarrow> par_loop results 0 cp timeout ok cnt evs = None"
  by (induction evs rule: finished.induct) auto

text \<open>A history without partitions is waited for forever: no goroutine is started.\<close>

lemma no_partition_hangs:
  assumes "partitions_of m h = []" and "schedule 0 evs"
  shows "CheckOperations sorter m h evs = None"
  using assms par_loop_waits [of 0 evs]
  by (simp add: CheckOperations_def checkOperations_parallel checkParallel_def schedule_def)

end
