(* ===== verification/Porcupine_Kv.thy ===== *)
theory Porcupine_Kv
  imports Porcupine_Parallel
begin

text \<open>
  The key-value model of \<^verbatim>\<open>Lab3/src/models/kv.go\<close>: one string per key, and the partition of
  a history by key. The comment in \<^verbatim>\<open>model.go\<close> asks of a partition function that a history
  is linearizable if and only if every part is; here this is proved for the key-value store, so
  the checker's answer is about the whole store.
\<close>

section \<open>Definitions\<close>

record KvInput =
  kv_Op :: "8 word"
  kv_in_Key :: string
  kv_in_Value :: string

record KvOutput =
  kv_out_Value :: string

datatype KvValue = KvIn KvInput | KvOut KvOutput

text \<open>
  A failed type assertion panics in the program; \<open>well_typed\<close> histories have none, and on
  other values these functions are not used.
\<close>

definition kv_key :: "KvValue Operation \<Rightarrow> string" where
  "kv_key op = (case Input op of KvIn inp \<Rightarrow> kv_in_Key inp | KvOut _ \<Rightarrow> [])"

definition well_typed :: "KvValue Operation list \<Rightarrow> bool" where
  "well_typed h \<longleftrightarrow> list_all (\<lambda>op. (case Input op of KvIn _ \<Rightarrow> True | _ \<Rightarrow> False) \<and> (case Output op of KvOut _ \<Rightarrow> True | _ \<Rightarrow> False)) h"

definition kv_group :: "KvValue Operation list \<Rightarrow> (string \<times> KvValue Operation list) list" where
  "kv_group history =
     foldl (\<lambda>m v. AList.update (kv_key v) (or_default (map_of m (kv_key v)) [] @ [v]) m) [] history"

definition KvPartition :: "KvValue Operation list \<Rightarrow> KvValue Operation list list" where
  "KvPartition history =
     (let m = kv_group history; keys = sort (map fst m) in map (\<lambda>k. or_default (map_of m k) []) keys)"

definition KvStep :: "string \<Rightarrow> KvValue \<Rightarrow> KvValue \<Rightarrow> bool \<times> string" where
  "KvStep st input output =
     (case (input, output) of
        (KvIn inp, KvOut out) \<Rightarrow>
          if kv_Op inp = 0 then (kv_out_Value out = st, st)
          else if kv_Op inp = 1 then (True, kv_in_Value inp)
          else (True, st @ kv_in_Value inp)
      | _ \<Rightarrow> (False, st))"

definition KvModel :: "(string, KvValue) Model" where
  "KvModel = \<lparr>Partition = Some KvPartition, PartitionEvent = None, Init = '''', Step = KvStep, Equal = None\<rparr>"

section \<open>The store as a whole\<close>

text \<open>What the model stands for: a store of all keys, every key empty at first.\<close>

definition KvStoreStep :: "(string \<Rightarrow> string) \<Rightarrow> KvValue \<Rightarrow> KvValue \<Rightarrow> bool \<times> (string \<Rightarrow> string)" where
  "KvStoreStep st input output =
     (case input of
        KvIn inp \<Rightarrow> (case KvStep (st (kv_in_Key inp)) input output of (ok, v) \<Rightarrow> (ok, st(kv_in_Key inp := v)))
      | KvOut _ \<Rightarrow> (False, st))"

definition KvStoreModel :: "(string \<Rightarrow> string, KvValue) Model" where
  "KvStoreModel = \<lparr>Partition = None, PartitionEvent = None, Init = (\<lambda>_. ''''), Step = KvStoreStep, Equal = None\<rparr>"

interpretation kv: state_equality "Step KvModel" "or_default (Equal KvModel) ShallowEqual"
  by unfold_locales (simp_all add: KvModel_def or_default_def ShallowEqual_def)

section \<open>The partition\<close>

lemma kv_group_loop:
  "map_of (foldl (\<lambda>m v. AList.update (kv_key v) (or_default (map_of m (kv_key v)) [] @ [v]) m) m h) k =
     (if filter (\<lambda>v. kv_key v = k) h = [] then map_of m k
      else Some (or_default (map_of m k) [] @ filter (\<lambda>v. kv_key v = k) h))"
  by (induction h arbitrary: m) (auto simp: update_conv' or_default_def)

lemma kv_group_keys:
  "distinct (map fst m) \<Longrightarrow>
   distinct (map fst (foldl (\<lambda>m v. AList.update (kv_key v) (or_default (map_of m (kv_key v)) [] @ [v]) m) m h))"
  by (induction h arbitrary: m) (simp_all add: distinct_update)

lemma set_KvPartition: "set (KvPartition h) = (\<lambda>k. filter (\<lambda>v. kv_key v = k) h) ` kv_key ` set h"
proof -
  have g: "map_of (kv_group h) k = (if filter (\<lambda>v. kv_key v = k) h = [] then None else Some (filter (\<lambda>v. kv_key v = k) h))" for k
    unfolding kv_group_def kv_group_loop by (simp add: or_default_def)
  have "fst ` set (kv_group h) = kv_key ` set h"
  proof (intro set_eqI)
    fix k
    have "k \<in> fst ` set (kv_group h) \<longleftrightarrow> map_of (kv_group h) k \<noteq> None" by (simp add: map_of_eq_None_iff)
    also have "\<dots> \<longleftrightarrow> k \<in> kv_key ` set h" by (auto simp: g filter_empty_conv)
    finally show "k \<in> fst ` set (kv_group h) \<longleftrightarrow> k \<in> kv_key ` set h" .
  qed
  moreover have "or_default (map_of (kv_group h) k) [] = filter (\<lambda>v. kv_key v = k) h" for k
    by (simp add: g or_default_def)
  ultimately show ?thesis by (simp add: KvPartition_def Let_def)
qed

section \<open>Locality\<close>

text \<open>Operations with a call and a return time, each on one key.\<close>

abbreviation no_inversion :: "(nat \<Rightarrow> int) \<Rightarrow> (nat \<Rightarrow> int) \<Rightarrow> nat list \<Rightarrow> bool" where
  "no_inversion c r \<equiv> sorted_wrt (\<lambda>i j. \<not> r j < c i)"

text \<open>Some key has a first operation that no remaining operation had to precede.\<close>

lemma first_choice:
  fixes S :: "'k \<Rightarrow> nat list" and r c :: "nat \<Rightarrow> int"
  assumes "finite K" and "\<exists>k \<in> K. S k \<noteq> []" and "\<And>k. no_inversion c r (S k)" and "\<And>i. c i \<le> r i"
  obtains k i js where "k \<in> K" "S k = i # js" "\<forall>k' \<in> K. \<forall>j \<in> set (S k'). \<not> r j < c i"
proof -
  let ?A = "\<Union>k \<in> K. set (S k)"
  have "finite ?A" "?A \<noteq> {}" using assms(1,2) by auto
  then obtain x where x: "x \<in> ?A" "\<forall>y \<in> ?A. r x \<le> r y"
    using arg_min_if_finite [of ?A r] by (meson linorder_not_less)
  then obtain k where k: "k \<in> K" "x \<in> set (S k)" by blast
  then obtain i js where i: "S k = i # js" by (cases "S k") auto
  have "\<not> r x < c i" using assms(3) [of k] assms(4) [of i] k(2) by (auto simp: i)
  then have "\<forall>k' \<in> K. \<forall>j \<in> set (S k'). \<not> r j < c i" using x(2) by force
  with k(1) i show ?thesis by (rule that)
qed

text \<open>Linearizations of the single keys merge into one of the whole.\<close>

lemma merge_linearizations:
  fixes S :: "'k \<Rightarrow> nat list"
  assumes "finite K" and "\<And>i. c i \<le> r i"
    and "\<And>k i st. k \<in> K \<Longrightarrow> key i = k \<Longrightarrow> i \<in> A \<Longrightarrow>
      gstep st (inp i) (out i) = (case lstep (st k) (inp i) (out i) of (ok, v) \<Rightarrow> (ok, st(k := v)))"
    and "\<And>k. k \<in> K \<Longrightarrow> legal lstep inp out (st k) (S k)"
    and "\<And>k. no_inversion c r (S k)" and "\<And>k. distinct (S k)"
    and "\<And>k i. k \<in> K \<Longrightarrow> i \<in> set (S k) \<Longrightarrow> key i = k \<and> i \<in> A"
  shows "\<exists>is. distinct is \<and> set is = (\<Union>k \<in> K. set (S k)) \<and> legal gstep inp out st is \<and> no_inversion c r is"
  using assms(4-7)
proof (induction "\<Sum>k \<in> K. length (S k)" arbitrary: S st)
  case 0
  then have "\<forall>k \<in> K. S k = []" using assms(1) by simp
  then show ?case by (intro exI [of _ "[]"]) simp
next
  case (Suc n)
  have "\<exists>k \<in> K. S k \<noteq> []"
  proof (rule ccontr)
    assume "\<not> (\<exists>k \<in> K. S k \<noteq> [])"
    then have "(\<Sum>k \<in> K. length (S k)) = 0" by (intro sum.neutral) auto
    with Suc.hyps(2) show False by simp
  qed
  from first_choice [OF assms(1) this Suc.prems(2) assms(2)]
  obtain k i js where k: "k \<in> K" "S k = i # js" "\<forall>k' \<in> K. \<forall>j \<in> set (S k'). \<not> r j < c i" by metis
  have key: "key i = k" "i \<in> A" using Suc.prems(4) [OF k(1), of i] k(2) by auto
  obtain v where v: "lstep (st k) (inp i) (out i) = (True, v)" "legal lstep inp out v js"
    using Suc.prems(1) [OF k(1)] k(2) by (cases "lstep (st k) (inp i) (out i)") auto
  let ?S = "S(k := js)" and ?st = "st(k := v)"
  have "(\<Sum>l \<in> K. length (S l)) = length (S k) + (\<Sum>l \<in> K - {k}. length (S l))"
    by (rule sum.remove [OF assms(1) k(1)])
  moreover have "(\<Sum>l \<in> K. length (?S l)) = length js + (\<Sum>l \<in> K - {k}. length (?S l))"
    using sum.remove [OF assms(1) k(1), of "\<lambda>l. length (?S l)"] by simp
  moreover have "(\<Sum>l \<in> K - {k}. length (?S l)) = (\<Sum>l \<in> K - {k}. length (S l))" by (rule sum.cong) auto
  ultimately have "n = (\<Sum>l \<in> K. length (?S l))" using Suc.hyps(2) k(2) by simp
  moreover have "legal lstep inp out (?st l) (?S l)" if "l \<in> K" for l using Suc.prems(1) [OF that] v(2) by simp
  moreover have "no_inversion c r (?S l)" "distinct (?S l)" for l
    using Suc.prems(2,3) [of k] Suc.prems(2,3) [of l] k(2) by auto
  moreover have "key j = l \<and> j \<in> A" if "l \<in> K" "j \<in> set (?S l)" for l j
    using Suc.prems(4) [OF that(1), of j] that k(2) by (auto split: if_splits)
  ultimately obtain js' where js': "distinct js'" "set js' = (\<Union>l \<in> K. set (?S l))" "legal gstep inp out ?st js'" "no_inversion c r js'"
    using Suc.hyps(1) [of ?S ?st] by blast
  have sub: "set (?S l) \<subseteq> set (S l)" for l using k(2) by auto
  have "i \<notin> set (?S l)" if "l \<in> K" for l
    using Suc.prems(3) [of k] Suc.prems(4) [OF that, of i] key(1) k(2) by auto
  then have ni: "i \<notin> set js'" using js'(2) by blast
  have "set (S l) \<subseteq> insert i (\<Union>l \<in> K. set (?S l))" if "l \<in> K" for l
    using that k(1,2) by (cases "l = k") auto
  then have "(\<Union>l \<in> K. set (S l)) \<subseteq> insert i (set js')" unfolding js'(2) by blast
  moreover have "i \<in> set (S k)" by (simp add: k(2))
  then have "insert i (set js') \<subseteq> (\<Union>l \<in> K. set (S l))" using sub k(1) unfolding js'(2) by blast
  ultimately have "insert i (set js') = (\<Union>l \<in> K. set (S l))" by (rule equalityI [rotated])
  moreover note ni
  moreover have "legal gstep inp out st (i # js')" using assms(3) [OF k(1) key] v(1) js'(3) by simp
  moreover have "\<forall>j \<in> set js'. \<not> r j < c i" using js'(2) sub k(3) by blast
  ultimately show ?case using js'(1,4) by (intro exI [of _ "i # js'"]) simp
qed

text \<open>And a linearization of the whole restricts to one of every key.\<close>

lemma legal_restrict:
  assumes "\<And>i st. i \<in> set is \<Longrightarrow> gstep st (inp i) (out i) = (case lstep (st (key i)) (inp i) (out i) of (ok, v) \<Rightarrow> (ok, st(key i := v)))"
    and "legal gstep inp out st is"
  shows "legal lstep inp out (st k) (filter (\<lambda>i. key i = k) is)"
  using assms
proof (induction "is" arbitrary: st)
  case (Cons i js)
  obtain ok v where v: "lstep (st (key i)) (inp i) (out i) = (ok, v)" by (cases "lstep (st (key i)) (inp i) (out i)")
  with Cons.prems(2) Cons.prems(1) [of i st] have l: "ok" "legal gstep inp out (st(key i := v)) js"
    by (simp_all add: fun_upd_def)
  have "legal lstep inp out ((st(key i := v)) k) (filter (\<lambda>i. key i = k) js)"
    by (rule Cons.IH [OF Cons.prems(1) l(2)]) simp
  with v l(1) show ?case by (cases "key i = k") simp_all
qed simp

section \<open>Renumbering the operations of a part\<close>

lemma legal_map: "legal step inp out s (map f js) = legal step (\<lambda>j. inp (f j)) (\<lambda>j. out (f j)) s js"
  by (induction js arbitrary: s) (auto split: prod.split)

lemma legal_cong:
  assumes "\<And>i. i \<in> set js \<Longrightarrow> inp i = inp' i \<and> out i = out' i"
  shows "legal step inp out s js = legal step inp' out' s js"
  using assms by (induction js arbitrary: s) (auto split: prod.split)

lemma sorted_wrt_same: "(\<And>x y. x \<in> set js \<Longrightarrow> y \<in> set js \<Longrightarrow> P x y = Q x y) \<Longrightarrow> sorted_wrt P js = sorted_wrt Q js"
  by (induction js) auto

lemma linearization_cong:
  assumes "\<And>i. i \<in> A \<Longrightarrow> inp i = inp' i \<and> out i = out' i"
    and "\<And>i j. i \<in> A \<Longrightarrow> j \<in> A \<Longrightarrow> before i j = before' i j"
  shows "linearization step inp out before s A js = linearization step inp' out' before' s A js"
proof (cases "set js = A")
  case True
  then have "legal step inp out s js = legal step inp' out' s js" using assms(1) by (intro legal_cong) simp
  moreover have "sorted_wrt (\<lambda>i j. \<not> before j i) js = sorted_wrt (\<lambda>i j. \<not> before' j i) js"
    using True assms(2) by (intro sorted_wrt_same) simp
  ultimately show ?thesis by (simp add: linearization_def)
qed (simp add: linearization_def)

lemma linearization_renumber:
  assumes "distinct pos"
  shows "(\<exists>js. linearization step (\<lambda>j. inp (pos ! j)) (\<lambda>j. out (pos ! j)) (\<lambda>i j. before (pos ! i) (pos ! j)) s {..<length pos} js) \<longleftrightarrow>
    (\<exists>is. linearization step inp out before s (set pos) is)"
proof -
  let ?f = "\<lambda>j. pos ! j" and ?A = "{..<length pos}"
  have img: "?f ` ?A = set pos" by (auto simp: set_conv_nth)
  have inj: "inj_on ?f ?A" using assms by (auto simp: inj_on_def nth_eq_iff_index_eq)
  have *: "linearization step (\<lambda>j. inp (?f j)) (\<lambda>j. out (?f j)) (\<lambda>i j. before (?f i) (?f j)) s ?A js \<longleftrightarrow>
      linearization step inp out before s (set pos) (map ?f js)" if "set js \<subseteq> ?A" for js
  proof -
    have "set js = ?A \<longleftrightarrow> ?f ` set js = ?f ` ?A" using inj that by (simp add: inj_on_image_eq_iff)
    moreover have "distinct (map ?f js) \<longleftrightarrow> distinct js" using inj_on_subset [OF inj that] by (simp add: distinct_map)
    ultimately show ?thesis by (simp add: linearization_def legal_map sorted_wrt_map img)
  qed
  show ?thesis
  proof
    assume "\<exists>js. linearization step (\<lambda>j. inp (?f j)) (\<lambda>j. out (?f j)) (\<lambda>i j. before (?f i) (?f j)) s ?A js"
    then obtain js where js: "linearization step (\<lambda>j. inp (?f j)) (\<lambda>j. out (?f j)) (\<lambda>i j. before (?f i) (?f j)) s ?A js" by blast
    then have "set js \<subseteq> ?A" by (simp add: linearization_def)
    from * [OF this] js show "\<exists>is. linearization step inp out before s (set pos) is" by blast
  next
    assume "\<exists>is. linearization step inp out before s (set pos) is"
    then obtain "is" where l: "linearization step inp out before s (set pos) is" by blast
    then have "is \<in> lists (?f ` ?A)" by (auto simp: linearization_def img)
    then obtain js where js: "is = map ?f js" "set js \<subseteq> ?A" unfolding lists_image by auto
    with * [OF js(2)] l show "\<exists>js. linearization step (\<lambda>j. inp (?f j)) (\<lambda>j. out (?f j)) (\<lambda>i j. before (?f i) (?f j)) s ?A js"
      by blast
  qed
qed

lemma filter_positions: "filter P h = map (\<lambda>i. h ! i) (filter (\<lambda>i. P (h ! i)) [0..<length h])"
proof -
  have "filter P h = filter P (map (\<lambda>i. h ! i) [0..<length h])" by (simp add: map_nth)
  then show ?thesis by (simp add: filter_map o_def)
qed

text \<open>The part of a key, by the numbers that its operations have in the whole history.\<close>

lemma part_linearizable:
  "linearizable m (filter P h) \<longleftrightarrow>
    (\<exists>is. linearization (Step m) (\<lambda>i. Input (h ! i)) (\<lambda>i. Output (h ! i)) (\<lambda>i j. Return (h ! i) < Call (h ! j))
       (Init m) {i. i < length h \<and> P (h ! i)} is)"
proof -
  let ?pos = "filter (\<lambda>i. P (h ! i)) [0..<length h]"
  have nth: "filter P h ! j = h ! (?pos ! j)" if "j < length ?pos" for j
    using that by (subst filter_positions) simp
  have len: "length (filter P h) = length ?pos" by (subst filter_positions) simp
  have set: "set ?pos = {i. i < length h \<and> P (h ! i)}" by auto
  have eq: "linearization (Step m) (\<lambda>i. Input (filter P h ! i)) (\<lambda>i. Output (filter P h ! i))
      (\<lambda>i j. Return (filter P h ! i) < Call (filter P h ! j)) (Init m) {..<length ?pos} js \<longleftrightarrow>
    linearization (Step m) (\<lambda>i. Input (h ! (?pos ! i))) (\<lambda>i. Output (h ! (?pos ! i)))
      (\<lambda>i j. Return (h ! (?pos ! i)) < Call (h ! (?pos ! j))) (Init m) {..<length ?pos} js" for js
    by (rule linearization_cong) (simp_all add: nth)
  show ?thesis unfolding linearizable_def len set [symmetric] eq by (rule linearization_renumber) simp
qed

lemma KvStoreStep_key:
  "well_typed h \<Longrightarrow> i < length h \<Longrightarrow>
   KvStoreStep st (Input (h ! i)) y = (case KvStep (st (kv_key (h ! i))) (Input (h ! i)) y of (ok, v) \<Rightarrow> (ok, st(kv_key (h ! i) := v)))"
  by (cases "Input (h ! i)") (auto simp: well_typed_def list_all_length KvStoreStep_def kv_key_def)

lemma ordered_nth: "ordered_history h \<Longrightarrow> i < length h \<Longrightarrow> Call (h ! i) \<le> Return (h ! i)"
  by (simp add: ordered_history_def list_all_length)

lemma store_from_keys:
  assumes "well_typed h" and "ordered_history h"
    and "\<And>k. k \<in> kv_key ` set h \<Longrightarrow> linearizable KvModel (filter (\<lambda>v. kv_key v = k) h)"
  shows "linearizable KvStoreModel h"
proof -
  let ?K = "kv_key ` set h" and ?inp = "\<lambda>i. Input (h ! i)" and ?out = "\<lambda>i. Output (h ! i)"
  let ?key = "\<lambda>i. kv_key (h ! i)" and ?A = "{..<length h}"
  let ?c = "\<lambda>i. if i < length h then Call (h ! i) else 0" and ?r = "\<lambda>i. if i < length h then Return (h ! i) else 0"
  have "\<forall>k \<in> ?K. \<exists>is. linearization KvStep ?inp ?out (\<lambda>i j. Return (h ! i) < Call (h ! j)) '''' {i. i < length h \<and> ?key i = k} is"
    using assms(3) unfolding part_linearizable by (simp add: KvModel_def)
  then obtain T where T: "\<And>k. k \<in> ?K \<Longrightarrow> linearization KvStep ?inp ?out (\<lambda>i j. Return (h ! i) < Call (h ! j)) '''' {i. i < length h \<and> ?key i = k} (T k)"
    unfolding bchoice_iff by blast
  define S where "S k = (if k \<in> ?K then T k else [])" for k
  have S: "distinct (S k)" "k \<in> ?K \<Longrightarrow> set (S k) = {i. i < length h \<and> ?key i = k}" "k \<in> ?K \<Longrightarrow> legal KvStep ?inp ?out '''' (S k)"
      "sorted_wrt (\<lambda>i j. \<not> Return (h ! j) < Call (h ! i)) (S k)" for k
    using T [of k] by (auto simp: S_def linearization_def)
  have ni: "no_inversion ?c ?r (S k)" for k
  proof (cases "k \<in> ?K")
    case True
    then show ?thesis using S(4) [of k] S(2) [OF True] by (subst sorted_wrt_same [of _ _ "\<lambda>i j. \<not> Return (h ! j) < Call (h ! i)"]) auto
  qed (simp add: S_def)
  have "\<exists>is. distinct is \<and> set is = (\<Union>k \<in> ?K. set (S k)) \<and> legal KvStoreStep ?inp ?out (\<lambda>_. '''') is \<and> no_inversion ?c ?r is"
  proof (rule merge_linearizations [where key = ?key and A = ?A and lstep = KvStep])
    show "?c i \<le> ?r i" for i using ordered_nth [OF assms(2), of i] by simp
    show "KvStoreStep st (?inp i) (?out i) = (case KvStep (st k) (?inp i) (?out i) of (ok, v) \<Rightarrow> (ok, st(k := v)))"
      if "?key i = k" "i \<in> ?A" for k i st using KvStoreStep_key [OF assms(1), of i] that by auto
    show "?key i = k \<and> i \<in> ?A" if "k \<in> ?K" "i \<in> set (S k)" for k i using S(2) [OF that(1)] that(2) by auto
  qed (use S(1,3) ni in auto)
  moreover have "(\<Union>k \<in> ?K. set (S k)) = (\<Union>k \<in> ?K. {i. i < length h \<and> ?key i = k})" using S(2) by (intro SUP_cong) auto
  moreover have "\<dots> = ?A" using nth_mem [of _ h] by blast
  ultimately obtain "is" where lin: "distinct is" "set is = ?A" "legal KvStoreStep ?inp ?out (\<lambda>_. '''') is" "no_inversion ?c ?r is" by auto
  then have "sorted_wrt (\<lambda>i j. \<not> Return (h ! j) < Call (h ! i)) is"
    by (subst (asm) sorted_wrt_same [of _ _ "\<lambda>i j. \<not> Return (h ! j) < Call (h ! i)"]) auto
  with lin(1-3) show ?thesis by (auto simp: linearizable_def linearization_def KvStoreModel_def)
qed

lemma keys_from_store:
  assumes "well_typed h" and "linearizable KvStoreModel h"
  shows "linearizable KvModel (filter (\<lambda>v. kv_key v = k) h)"
proof -
  let ?inp = "\<lambda>i. Input (h ! i)" and ?out = "\<lambda>i. Output (h ! i)" and ?key = "\<lambda>i. kv_key (h ! i)"
  obtain "is" where lin: "distinct is" "set is = {..<length h}" "legal KvStoreStep ?inp ?out (\<lambda>_. '''') is"
      "sorted_wrt (\<lambda>i j. \<not> Return (h ! j) < Call (h ! i)) is"
    using assms(2) by (auto simp: linearizable_def linearization_def KvStoreModel_def)
  have "legal KvStep ?inp ?out '''' (filter (\<lambda>i. ?key i = k) is)"
    by (rule legal_restrict [where gstep = KvStoreStep, OF _ lin(3)]) (use lin(2) KvStoreStep_key [OF assms(1)] in auto)
  then have "linearization KvStep ?inp ?out (\<lambda>i j. Return (h ! i) < Call (h ! j)) '''' {i. i < length h \<and> ?key i = k} (filter (\<lambda>i. ?key i = k) is)"
    using lin(1,2,4) by (auto simp: linearization_def sorted_wrt_filter)
  then show ?thesis unfolding part_linearizable by (auto simp: KvModel_def)
qed

lemma Kv_parts_iff:
  assumes "well_typed h" and "ordered_history h"
  shows "list_all (linearizable KvModel) (KvPartition h) \<longleftrightarrow> linearizable KvStoreModel h"
proof
  assume "list_all (linearizable KvModel) (KvPartition h)"
  then show "linearizable KvStoreModel h"
    by (intro store_from_keys [OF assms]) (auto simp: list_all_iff set_KvPartition)
next
  assume "linearizable KvStoreModel h"
  then show "list_all (linearizable KvModel) (KvPartition h)"
    using keys_from_store [OF assms(1)] by (auto simp: list_all_iff set_KvPartition)
qed

text \<open>
  C26: the partition of the key-value model is what the comment in \<^verbatim>\<open>model.go\<close> asks for: a
  history of the whole store is linearizable if and only if the history of every key is.
\<close>

theorem KvPartition_local:
  assumes "well_typed h" and "ordered_history h"
  shows "list_all (linearizable KvModel) (KvPartition h) \<longleftrightarrow> linearizable KvStoreModel h"
  by (rule Kv_parts_iff [OF assms])

lemma KvPartition_ordered: "ordered_history h \<Longrightarrow> list_all ordered_history (KvPartition h)"
  by (auto simp: list_all_iff set_KvPartition ordered_history_def)

lemma partitions_of_Kv: "partitions_of KvModel h = KvPartition h"
  by (simp add: partitions_of_def KvModel_def or_default_def)

text \<open>
  C1: the checker decides for a non-empty history of a key-value service, in which every
  operation returns after it was called, whether the service behaved as one store: the answer
  comes, whatever the order in which the keys are finished, and is right.
\<close>

theorem CheckOperations_kv:
  assumes "sorts_byTime sorter" and "well_typed h" and "ordered_history h" and "h \<noteq> []"
    and "complete_schedule (length (KvPartition h)) evs"
  shows "CheckOperations sorter KvModel h evs = Some (linearizable KvStoreModel h)"
proof -
  have "KvPartition h \<noteq> []" using assms(4) set_KvPartition [of h] by fastforce
  then have "CheckOperations sorter KvModel h evs = Some (list_all (linearizable KvModel) (KvPartition h))"
    using CheckOperations_ok [OF assms(1) kv.state_equality_axioms, of h evs] assms(5) KvPartition_ordered [OF assms(3)]
    by (simp add: partitions_of_Kv)
  then show ?thesis using Kv_parts_iff [OF assms(2,3)] by simp
qed

text \<open>
  An empty history is waited for forever. The partition by key has no part, so no goroutine is
  started and no result arrives, and without a timeout the loop has nothing else to wait for.
\<close>

theorem empty_history_hangs:
  assumes "schedule 0 evs"
  shows "CheckOperations sorter KvModel [] evs = None"
  by (rule no_partition_hangs [OF _ assms]) (simp add: partitions_of_Kv KvPartition_def kv_group_def)

end
