(* ===== verification/Porcupine_Example.thy ===== *)
theory Porcupine_Example
  imports Porcupine_Kv
begin

text \<open>
  A concrete history of the key-value service, on which the theorems about the checker are
  applied: a put and an overlapping get of one key, and a get of another key.
\<close>

section \<open>A sort\<close>

definition byTime_key :: "'v entry \<Rightarrow> int" where
  "byTime_key e = 2 * e_time e + (if e_kind e = callEntry then 0 else 1)"

lemma byTime_Less_key: "byTime_Less a b \<longleftrightarrow> byTime_key a < byTime_key b"
  by (cases "e_kind a"; cases "e_kind b") (auto simp: byTime_Less_def byTime_key_def; presburger)+

lemma sort_key_sorts: "sorts_byTime (sort_key (byTime_key :: 'v entry \<Rightarrow> int))"
proof -
  have "sorted_wrt (\<lambda>a b. \<not> byTime_Less b a) (sort_key byTime_key es)" for es :: "'v entry list"
    using sorted_sort_key [of byTime_key es] by (simp add: byTime_Less_key sorted_map not_less)
  then show ?thesis by (simp add: sorts_byTime_def)
qed

section \<open>A history\<close>

definition put_op :: "string \<Rightarrow> string \<Rightarrow> int \<Rightarrow> int \<Rightarrow> KvValue Operation" where
  "put_op k v c r = \<lparr>op_ClientId = 0, Input = KvIn \<lparr>kv_Op = 1, kv_in_Key = k, kv_in_Value = v\<rparr>, Call = c,
     Output = KvOut \<lparr>kv_out_Value = ''''\<rparr>, Return = r\<rparr>"

definition get_op :: "string \<Rightarrow> string \<Rightarrow> int \<Rightarrow> int \<Rightarrow> KvValue Operation" where
  "get_op k v c r = \<lparr>op_ClientId = 1, Input = KvIn \<lparr>kv_Op = 0, kv_in_Key = k, kv_in_Value = ''''\<rparr>, Call = c,
     Output = KvOut \<lparr>kv_out_Value = v\<rparr>, Return = r\<rparr>"

definition exH :: "KvValue Operation list" where
  "exH = [put_op ''x'' ''1'' 0 10, get_op ''x'' ''1'' 5 15, get_op ''y'' '''' 3 4]"

lemma exH_ok: "ordered_history exH" "well_typed exH" "exH \<noteq> []"
  by (simp_all add: exH_def ordered_history_def well_typed_def put_op_def get_op_def)

lemma exH_parts: "length (KvPartition exH) = 2"
  by (simp add: exH_def KvPartition_def kv_group_def put_op_def get_op_def kv_key_def or_default_def)

lemma exH_linearizable: "linearizable KvStoreModel exH"
  unfolding linearizable_def linearization_def
  by (intro exI [of _ "[2, 0, 1]"])
    (auto simp: exH_def KvStoreModel_def KvStoreStep_def KvStep_def put_op_def get_op_def numeral_3_eq_3 lessThan_Suc numeral_2_eq_2)

lemma ex_schedule: "complete_schedule 2 [Finished 1, TimerFired, Finished 0]"
  by (auto simp: complete_schedule_def)

theorem checkSingle_decides_witness:
  "\<exists>l. checkSingle KvModel (makeEntries (sort_key byTime_key) [put_op ''x'' ''1'' 0 10, get_op ''x'' ''1'' 5 15]) True (\<lambda>_. False) =
     Some (Some (linearizable KvModel [put_op ''x'' ''1'' 0 10, get_op ''x'' ''1'' 5 15], l))"
  by (rule checkSingle_decides [OF sort_key_sorts _ kv.state_equality_axioms])
    (simp add: ordered_history_def put_op_def get_op_def)

theorem killed_search_sound_witness:
  "\<exists>b l. checkSingle KvModel (makeEntries (sort_key byTime_key) exH) False (\<lambda>k. 5 < k) = Some (Some (b, l))"
  using killed_search_sound [OF sort_key_sorts exH_ok(1) kv.state_equality_axioms, of False "\<lambda>k. 5 < k"] by blast


theorem KvPartition_local_witness: "list_all (linearizable KvModel) (KvPartition exH)"
  using KvPartition_local [OF exH_ok(2,1)] exH_linearizable by simp

theorem CheckOperations_kv_witness:
  "CheckOperations (sort_key byTime_key) KvModel exH [Finished 1, TimerFired, Finished 0] = Some True"
  using CheckOperations_kv [OF sort_key_sorts exH_ok(2,1,3), of "[Finished 1, TimerFired, Finished 0]"] ex_schedule exH_linearizable
  by (simp add: exH_parts)

theorem empty_history_hangs_witness:
  "CheckOperations (sort_key byTime_key) KvModel [] [TimerFired, TimerFired] = None"
  by (rule empty_history_hangs) (simp add: schedule_def)

section \<open>A list\<close>

definition exHeap :: "nat heap" where
  "exHeap = (\<lambda>_. new_node None None 0)
     (0 := \<lparr>n_value = Some 7, n_match = Some 1, n_id = 0, n_next = Some 1, n_prev = Some 2\<rparr>,
      1 := \<lparr>n_value = Some 8, n_match = None, n_id = 0, n_next = None, n_prev = Some 0\<rparr>,
      2 := \<lparr>n_value = None, n_match = None, n_id = - 1, n_next = Some 0, n_prev = None\<rparr>)"

theorem lift_unlift_restores_witness:
  "\<exists>g g'. lift exHeap 0 = Some g \<and> dll g [2] \<and> unlift g 0 = Some g' \<and> dll g' [2, 0, 1]"
  using lift_unlift_restores [of exHeap "[2]" 0 "[]" 1 "[]"] by (simp add: exHeap_def)

end
