(* ===== verification/Porcupine_Visualize.thy ===== *)
theory Porcupine_Visualize
  imports Porcupine_Example
begin

text \<open>
  The data for the visualisation of a check (\<^verbatim>\<open>Lab3/src/porcupine/visualization.go\<close>) and the partial
  linearizations that \<open>checkParallel\<close> of \<^verbatim>\<open>checker.go\<close> collects for it. The theorems: every
  sequence that the search keeps is a legal partial linearization, also when it is killed, so that
  \<open>computeVisualizationData\<close> never panics; and the index kept for an operation is that of a longest
  sequence with this operation.
\<close>

section \<open>Definitions\<close>

text \<open>
  The map that \<open>checkParallel\<close> ranges over gives the sequences in some order, \<open>order\<close>. It is keyed by pointers; the
  sequences are taken by their values here.
\<close>

record 'v linearizationInfo =
  li_history :: "'v entry list list"
  partialLinearizations :: "int list list list"

definition unique_linearizations :: "(int list list \<Rightarrow> int list list) \<Rightarrow> int list option list \<Rightarrow> int list list" where
  "unique_linearizations order l = order (remdups (map the (filter (\<lambda>v. v \<noteq> None) l)))"

text \<open>\<open>kill i\<close> is what the goroutine of partition \<open>i\<close> sees of the kill flag; \<open>None\<close> is one that panics or does not end.\<close>

definition collect_info ::
  "(int list list \<Rightarrow> int list list) \<Rightarrow> ('s, 'v) Model \<Rightarrow> 'v entry list list \<Rightarrow> (nat \<Rightarrow> nat \<Rightarrow> bool) \<Rightarrow> 'v linearizationInfo option" where
  "collect_info order m history kill =
     map_option (\<lambda>ps. \<lparr>li_history = history, partialLinearizations = ps\<rparr>)
       (those (map (\<lambda>(i, subhistory).
          case checkSingle m subhistory True (kill i) of
            Some (Some (_, l)) \<Rightarrow> Some (unique_linearizations order l)
          | _ \<Rightarrow> None) (enumerate 0 history)))"

record historyElement =
  h_ClientId :: int
  h_Start :: int
  h_End :: int
  h_Description :: string

record partitionVisualizationData =
  viz_History :: "historyElement list"
  viz_Partials :: "(int \<times> string) list list"
  viz_Largest :: "int \<Rightarrow> nat option"

definition zero_element :: historyElement where
  "zero_element = \<lparr>h_ClientId = 0, h_Start = 0, h_End = 0, h_Description = ''''\<rparr>"

text \<open>
  The loop over the entries; \<open>None\<close> is an index out of range. \<open>descOp\<close> and \<open>descState\<close> are the functions of
  the model that describe operations and states; a call that is not there is nil.
\<close>

fun viz_entries ::
  "('v option \<Rightarrow> 'v \<Rightarrow> string) \<Rightarrow> 'v entry list \<Rightarrow> historyElement list \<Rightarrow> (int \<Rightarrow> 'v option) \<Rightarrow> (int \<Rightarrow> 'v option) \<Rightarrow>
     (historyElement list \<times> (int \<Rightarrow> 'v option) \<times> (int \<Rightarrow> 'v option)) option" where
  "viz_entries descOp [] hist callV retV = Some (hist, callV, retV)"
| "viz_entries descOp (elem # es) hist callV retV =
     (let i = e_id elem in
      if i < 0 \<or> length hist \<le> nat i then None
      else
        (case e_kind elem of
           callEntry \<Rightarrow>
             viz_entries descOp es (hist[nat i := (hist ! nat i)\<lparr>h_ClientId := e_clientId elem, h_Start := e_time elem\<rparr>])
               (callV(i \<mapsto> e_value elem)) retV
         | returnEntry \<Rightarrow>
             viz_entries descOp es
               (hist[nat i := (hist ! nat i)\<lparr>h_End := e_time elem, h_Description := descOp (callV i) (e_value elem)\<rparr>])
               callV (retV(i \<mapsto> e_value elem))))"

text \<open>One partial linearization, number \<open>k\<close> of length \<open>sz\<close>: \<open>None\<close> is the panic, or a step with a nil value.\<close>

fun viz_steps ::
  "('s, 'v) Model \<Rightarrow> ('s \<Rightarrow> string) \<Rightarrow> (int \<Rightarrow> 'v option) \<Rightarrow> (int \<Rightarrow> 'v option) \<Rightarrow> nat \<Rightarrow> nat \<Rightarrow> int list \<Rightarrow> 's \<Rightarrow>
     (int \<Rightarrow> nat option) \<Rightarrow> (int \<Rightarrow> nat) \<Rightarrow> ((int \<times> string) list \<times> (int \<Rightarrow> nat option) \<times> (int \<Rightarrow> nat)) option" where
  "viz_steps m descState callV retV k sz [] s index sizes = Some ([], index, sizes)"
| "viz_steps m descState callV retV k sz (i # is) s index sizes =
     (case (callV i, retV i) of
        (Some x, Some y) \<Rightarrow>
          (case Step m s x y of (ok, s) \<Rightarrow>
             if \<not> ok then None
             else
               (case (if sizes i < sz
                      then viz_steps m descState callV retV k sz is s (index(i \<mapsto> k)) (sizes(i := sz))
                      else viz_steps m descState callV retV k sz is s index sizes) of
                  None \<Rightarrow> None
                | Some (lin, index, sizes) \<Rightarrow> Some ((i, descState s) # lin, index, sizes)))
      | _ \<Rightarrow> None)"

fun viz_partials ::
  "('s, 'v) Model \<Rightarrow> ('s \<Rightarrow> string) \<Rightarrow> (int \<Rightarrow> 'v option) \<Rightarrow> (int \<Rightarrow> 'v option) \<Rightarrow> nat \<Rightarrow> int list list \<Rightarrow>
     (int \<Rightarrow> nat option) \<Rightarrow> (int \<Rightarrow> nat) \<Rightarrow> ((int \<times> string) list list \<times> (int \<Rightarrow> nat option)) option" where
  "viz_partials m descState callV retV k [] index sizes = Some ([], index)"
| "viz_partials m descState callV retV k (p # ps) index sizes =
     (case viz_steps m descState callV retV k (length p) p (Init m) index sizes of
        None \<Rightarrow> None
      | Some (lin, index, sizes) \<Rightarrow>
          (case viz_partials m descState callV retV (k + 1) ps index sizes of
             None \<Rightarrow> None
           | Some (lins, index) \<Rightarrow> Some (lin # lins, index)))"

text \<open>\<open>sort.Slice\<close> is an argument as \<open>sort.Sort\<close> is.\<close>

definition viz_partition ::
  "(int list list \<Rightarrow> int list list) \<Rightarrow> ('s, 'v) Model \<Rightarrow> ('v option \<Rightarrow> 'v \<Rightarrow> string) \<Rightarrow> ('s \<Rightarrow> string) \<Rightarrow> 'v entry list \<Rightarrow> int list list \<Rightarrow>
     partitionVisualizationData option" where
  "viz_partition slice_sort m descOp descState es partials =
     (case viz_entries descOp es (replicate (length es div 2) zero_element) (\<lambda>_. None) (\<lambda>_. None) of
        None \<Rightarrow> None
      | Some (hist, callV, retV) \<Rightarrow>
          (case viz_partials m descState callV retV 0 (slice_sort partials) (\<lambda>_. None) (\<lambda>_. 0) of
             None \<Rightarrow> None
           | Some (lins, index) \<Rightarrow> Some \<lparr>viz_History = hist, viz_Partials = lins, viz_Largest = index\<rparr>))"

definition computeVisualizationData ::
  "(int list list \<Rightarrow> int list list) \<Rightarrow> ('s, 'v) Model \<Rightarrow> ('v option \<Rightarrow> 'v \<Rightarrow> string) \<Rightarrow> ('s \<Rightarrow> string) \<Rightarrow> 'v linearizationInfo \<Rightarrow>
     partitionVisualizationData list option" where
  "computeVisualizationData slice_sort m descOp descState info =
     (let m = fillDefault m in
      those (map (\<lambda>(es, partials). viz_partition slice_sort m descOp descState es partials)
        (zip (li_history info) (partialLinearizations info))))"

text \<open>What \<open>sort.Slice\<close> promises with this comparison, and the range over a map.\<close>

definition sorts_by_length :: "(int list list \<Rightarrow> int list list) \<Rightarrow> bool" where
  "sorts_by_length f \<longleftrightarrow> (\<forall>ps. mset (f ps) = mset ps \<and> sorted_wrt (\<lambda>a b. length b \<le> length a) (f ps))"

definition permutes_lists :: "(int list list \<Rightarrow> int list list) \<Rightarrow> bool" where
  "permutes_lists f \<longleftrightarrow> (\<forall>ps. mset (f ps) = mset ps)"

text \<open>The description of operations in \<^verbatim>\<open>models/kv.go\<close>; a value of another type panics.\<close>

definition KvDescribeOperation :: "KvValue \<Rightarrow> KvValue \<Rightarrow> string option" where
  "KvDescribeOperation input output =
     (case (input, output) of
        (KvIn inp, KvOut out) \<Rightarrow>
          Some (if kv_Op inp = 0 then ''get('' @ [CHR 39] @ kv_in_Key inp @ [CHR 39] @ '') -> '' @ [CHR 39] @ kv_out_Value out @ [CHR 39]
                else if kv_Op inp = 1 then ''put('' @ [CHR 39] @ kv_in_Key inp @ [CHR 39] @ '', '' @ [CHR 39] @ kv_in_Value inp @ [CHR 39] @ '')''
                else if kv_Op inp = 2 then ''append('' @ [CHR 39] @ kv_in_Key inp @ [CHR 39] @ '', '' @ [CHR 39] @ kv_in_Value inp @ [CHR 39] @ '')''
                else ''<invalid>'')
      | _ \<Rightarrow> None)"

section \<open>Partial linearizations\<close>

text \<open>A sequence of different operations that the model accepts and that takes an operation only after all that had returned before its call.\<close>

definition partial_ok :: "'v entry list \<Rightarrow> ('s \<Rightarrow> 'v \<Rightarrow> 'v \<Rightarrow> bool \<times> 's) \<Rightarrow> 's \<Rightarrow> nat list \<Rightarrow> bool" where
  "partial_ok es step init is \<longleftrightarrow> distinct is \<and> set is \<subseteq> ops es \<and> legal step (cinp es) (cout es) init is \<and>
     (\<forall>k < length is. \<forall>j \<in> ops es. precedes es j (is ! k) \<longrightarrow> j \<in> set (take k is))"

lemma legal_append:
  "legal step (cinp es) (cout es) s (is @ js) \<longleftrightarrow>
     legal step (cinp es) (cout es) s is \<and> legal step (cinp es) (cout es) (run_ids es step s is) js"
  by (induction "is" arbitrary: s) (auto simp: next_state_def split: prod.split)

lemma stack_partial:
  assumes "wf_entries es n" and "stack_ok es step init cs s"
  shows "partial_ok es step init (rev (map (\<lambda>c. eid es (fst c)) cs))"
  using assms(2)
proof (induction cs arbitrary: s)
  case Nil
  then show ?case by (simp add: partial_ok_def)
next
  case (Cons c cs)
  obtain a s0 where c: "c = (a, s0)" by (cases c)
  let ?is = "rev (map (\<lambda>c. eid es (fst c)) cs)"
  have a: "a \<in> set (remaining es (done_ids es cs))" "e_kind (es ! a) = callEntry" "passed es step (done_ids es cs) s0 a"
      "next_state es step s0 (eid es a) = (True, s)" "stack_ok es step init cs s0"
    using Cons.prems by (simp_all add: c)
  have ih: "partial_ok es step init ?is" by (rule Cons.IH [OF a(5)])
  have min: "minimal es (done_ids es cs) (eid es a)" by (rule passed_minimal [OF assms(1) a(1-3)])
  have "s0 = run_ids es step init ?is" using stack_distinct [OF a(5)] by simp
  then have "legal step (cinp es) (cout es) init (?is @ [eid es a])"
    using ih a(4) by (simp add: legal_append partial_ok_def next_state_def)
  moreover have "j \<in> set (take k (?is @ [eid es a]))"
    if "k < length (?is @ [eid es a])" "j \<in> ops es" "precedes es j ((?is @ [eid es a]) ! k)" for k j
  proof (cases "k < length ?is")
    case True
    with that ih have "j \<in> set (take k ?is)" by (simp add: partial_ok_def nth_append)
    with True show ?thesis by simp
  next
    case False
    with that(1) have k: "k = length ?is" by simp
    with that(3) have "precedes es j (eid es a)" by (simp add: nth_append)
    with min that(2) have "j \<in> done_ids es cs" by (auto simp: minimal_def)
    then show ?thesis using k by simp
  qed
  ultimately show ?case using ih min by (auto simp: partial_ok_def minimal_def c)
qed

section \<open>What the search keeps\<close>

definition kept :: "'v entry list \<Rightarrow> ('s \<Rightarrow> 'v \<Rightarrow> 'v \<Rightarrow> bool \<times> 's) \<Rightarrow> 's \<Rightarrow> int list option list \<Rightarrow> bool" where
  "kept es step init l \<longleftrightarrow> (\<forall>seq. Some seq \<in> set l \<longrightarrow> (\<exists>is. seq = map int is \<and> partial_ok es step init is))"

lemma call_ids_partial:
  assumes wf: "wf_entries es n" and "search_inv es step init s"
  shows "\<exists>is. call_ids s = map int is \<and> partial_ok es step init is"
proof -
  note inv = search_invD [OF assms(2)]
  have "n_id (heap s (fst c)) = int (eid es (fst c))" if "c \<in> set (calls s)" for c
  proof -
    have "fst c < length es" using stack_entries [OF inv(4)] that by simp
    then show ?thesis using inv(1) eid(2) [OF wf] by (simp add: node_ok_def)
  qed
  then have "call_ids s = map int (rev (map (\<lambda>c. eid es (fst c)) (rev (calls s))))"
    by (auto simp: call_ids_def rev_map split: prod.split)
  with stack_partial [OF wf inv(4)] show ?thesis by blast
qed

lemma update_longest_set: "update_longest seq is l = Some l' \<Longrightarrow> set l' \<subseteq> insert (Some seq) (set l)"
proof (induction seq "is" l rule: update_longest.induct)
  case (2 seq i js l)
  let ?l = "case l ! nat i of None \<Rightarrow> l[nat i := Some seq]
      | Some old \<Rightarrow> if length old < length seq then l[nat i := Some seq] else l"
  from 2(2) have i: "0 \<le> i \<and> nat i < length l" and rest: "update_longest seq js ?l = Some l'" by (auto split: if_splits)
  have "set l' \<subseteq> insert (Some seq) (set ?l)" by (rule 2(1) [OF i rest])
  moreover have "set ?l \<subseteq> insert (Some seq) (set l)"
    using set_update_subset_insert [of l "nat i" "Some seq"] by (auto split: option.split)
  ultimately show ?case by blast
qed auto

lemma accepted_longest: "check_accepted eq a s p t = Continue s' \<Longrightarrow> longest s' = longest s"
  by (auto simp: check_accepted_def Let_def split: option.splits if_splits)

lemma backtrack_longest:
  assumes "check_backtrack cp s = Continue s'"
  shows "set (longest s') \<subseteq> insert (Some (call_ids s)) (set (longest s))"
proof -
  obtain l where l: "(if cp then update_longest (call_ids s) (call_ids s) (longest s) else Some (longest s)) = Some l" "longest s' = l"
    using assms by (auto simp: check_backtrack_def Let_def split: if_splits option.splits prod.splits)
  then show ?thesis using update_longest_set [of "call_ids s" "call_ids s" "longest s" l] by (auto split: if_splits)
qed

lemma round_longest:
  assumes "check_round step eq cp a s = Continue s'"
  shows "set (longest s') \<subseteq> insert (Some (call_ids s)) (set (longest s))"
proof -
  obtain p where p: "cur s = Some p" using assms by (cases "cur s") (simp_all add: check_round_def)
  show ?thesis
  proof (cases "n_match (heap s p)")
    case None
    with assms p have "check_backtrack cp s = Continue s'" by (simp add: check_round_def)
    then show ?thesis by (rule backtrack_longest)
  next
    case (Some q)
    with assms p have "longest s' = longest s"
      by (auto simp: check_round_def split: option.splits prod.splits if_splits dest: accepted_longest)
    then show ?thesis by auto
  qed
qed

lemma check_loop_kept:
  assumes "wf_entries es n" and "state_equality step eq" and "search_inv es step init s" and "kept es step init (longest s)"
    and "check_loop step eq cp kill (length es) k s = Some (Some (b, l))"
  shows "kept es step init l"
  using wf_search_measure [of es step init] assms(3-5)
proof (induction s arbitrary: k rule: wf_induct_rule)
  case (less s)
  note inv = search_invD [OF less.prems(1)]
  let ?R = "remaining es (done_ids es (rev (calls s)))"
  have hd: "n_next (heap s (length es)) = hd_opt ?R" by (rule cur_in_list [OF inv(2)])
  note loop = less.prems(3) [unfolded check_loop.simps [of step eq cp kill _ k s]]
  obtain js where js: "call_ids s = map int js" "partial_ok es step init js" using call_ids_partial [OF assms(1) less.prems(1)] by blast
  show ?case
  proof (cases "?R = []")
    case True
    with loop hd have "l = map (\<lambda>_. Some (call_ids s)) (longest s)" by simp
    with js show ?thesis by (auto simp: kept_def)
  next
    case False
    then obtain y where ne: "n_next (heap s (length es)) = Some y" using hd by (cases ?R) simp_all
    show ?thesis
    proof (cases "kill k")
      case True
      with loop ne less.prems(2) show ?thesis by simp
    next
      case nk: False
      from round_ok [OF assms(1,2) less.prems(1) False, of cp] show ?thesis
      proof
        assume "\<exists>s'. check_round step eq cp (length es) s = Continue s' \<and> search_inv es step init s' \<and> (s', s) \<in> search_measure es step init"
        then obtain s' where s': "check_round step eq cp (length es) s = Continue s'" "search_inv es step init s'" "(s', s) \<in> search_measure es step init"
          by blast
        have "kept es step init (longest s')"
          using round_longest [OF s'(1)] less.prems(2) js unfolding kept_def by blast
        then show ?thesis by (rule less.IH [OF s'(3,2)]) (use loop ne nk s'(1) in simp)
      next
        assume "check_round step eq cp (length es) s = Returned False \<and> \<not> completable es step {} init"
        with loop ne nk less.prems(2) show ?thesis by simp
      qed
    qed
  qed
qed

lemma checkSingle_kept:
  assumes "wf_entries es n" and "state_equality (Step m) (or_default (Equal m) ShallowEqual)"
    and "checkSingle m es cp kill = Some (Some (b, l))"
  shows "kept es (Step m) (Init m) l"
proof -
  obtain h entry where mk: "makeLinkedEntries es = (h, entry)" by (cases "makeLinkedEntries es")
  note st = start_search_inv [OF assms(1) mk]
  have "kept es (Step m) (Init m) (longest (start_search (Init m) h entry (length es) (length es div 2)))"
    by (auto simp: kept_def start_search_def)
  from check_loop_kept [OF assms(1,2) st(2) this] assms(3) show ?thesis by (simp add: checkSingle_def mk st(1))
qed

text \<open>A search that accepts the history keeps one sequence for all operations, which has all of them.\<close>

lemma call_ids_all:
  assumes wf: "wf_entries es n" and inv: "search_inv es step init s" and "remaining es (done_ids es (rev (calls s))) = []"
  shows "length (call_ids s) = n"
proof -
  note st = search_invD(4) [OF inv]
  have "done_ids es (rev (calls s)) = {..<n}"
    using assms(3) remaining_Nil [OF wf] stack_in_ops [OF wf st] unfolding wf_ops [OF wf] by blast
  moreover have "length (calls s) = card (done_ids es (rev (calls s)))"
    using stack_distinct [OF st] distinct_card [of "map (\<lambda>c. eid es (fst c)) (rev (calls s))"] by simp
  ultimately show ?thesis by (simp add: call_ids_def)
qed

lemma check_loop_complete:
  assumes "wf_entries es n" and "state_equality step eq" and "search_inv es step init s"
    and "check_loop step eq cp kill (length es) k s = Some (Some (True, l))"
  shows "length l = n \<and> (\<forall>x \<in> set l. \<exists>seq. x = Some seq \<and> length seq = n)"
  using wf_search_measure [of es step init] assms(3-4)
proof (induction s arbitrary: k rule: wf_induct_rule)
  case (less s)
  note inv = search_invD [OF less.prems(1)]
  let ?R = "remaining es (done_ids es (rev (calls s)))"
  have hd: "n_next (heap s (length es)) = hd_opt ?R" by (rule cur_in_list [OF inv(2)])
  note loop = less.prems(2) [unfolded check_loop.simps [of step eq cp kill _ k s]]
  show ?case
  proof (cases "?R = []")
    case True
    with loop hd have "l = map (\<lambda>_. Some (call_ids s)) (longest s)" by simp
    then show ?thesis using call_ids_all [OF assms(1) less.prems(1) True] inv(8) wf_length [OF assms(1)] by auto
  next
    case False
    then obtain y where ne: "n_next (heap s (length es)) = Some y" using hd by (cases ?R) simp_all
    with loop have nk: "\<not> kill k" by (auto split: if_splits)
    from round_ok [OF assms(1,2) less.prems(1) False, of cp] show ?thesis
    proof
      assume "\<exists>s'. check_round step eq cp (length es) s = Continue s' \<and> search_inv es step init s' \<and> (s', s) \<in> search_measure es step init"
      then obtain s' where s': "check_round step eq cp (length es) s = Continue s'" "search_inv es step init s'" "(s', s) \<in> search_measure es step init"
        by blast
      show ?thesis by (rule less.IH [OF s'(3,2)]) (use loop ne nk s'(1) in simp)
    next
      assume "check_round step eq cp (length es) s = Returned False \<and> \<not> completable es step {} init"
      with loop ne nk show ?thesis by simp
    qed
  qed
qed

lemma checkSingle_complete:
  assumes "wf_entries es n" and "state_equality (Step m) (or_default (Equal m) ShallowEqual)"
    and "checkSingle m es cp kill = Some (Some (True, l))"
  shows "length l = n \<and> (\<forall>x \<in> set l. \<exists>seq. x = Some seq \<and> length seq = n)"
proof -
  obtain h entry where mk: "makeLinkedEntries es = (h, entry)" by (cases "makeLinkedEntries es")
  note st = start_search_inv [OF assms(1) mk]
  from check_loop_complete [OF assms(1,2) st(2)] assms(3) show ?thesis by (simp add: checkSingle_def mk st(1))
qed

section \<open>The history\<close>

text \<open>The values and elements after the loop over the first entries.\<close>

definition viz_so_far ::
  "('v option \<Rightarrow> 'v \<Rightarrow> string) \<Rightarrow> 'v entry list \<Rightarrow> nat \<Rightarrow> historyElement list \<Rightarrow> (int \<Rightarrow> 'v option) \<Rightarrow> (int \<Rightarrow> 'v option) \<Rightarrow> bool" where
  "viz_so_far descOp es k hist callV retV \<longleftrightarrow> length hist = length es div 2 \<and>
     (\<forall>i \<in> ops es. (callp es i < k \<longrightarrow> callV (int i) = Some (cinp es i) \<and>
          h_ClientId (hist ! i) = e_clientId (es ! callp es i) \<and> h_Start (hist ! i) = e_time (es ! callp es i)) \<and>
        (retp es i < k \<longrightarrow> retV (int i) = Some (cout es i) \<and>
          h_End (hist ! i) = e_time (es ! retp es i) \<and> h_Description (hist ! i) = descOp (Some (cinp es i)) (cout es i)))"

lemma viz_entries_ok:
  assumes wf: "wf_entries es n" and "k \<le> length es" and "viz_so_far descOp es k hist callV retV"
  shows "\<exists>hist' callV' retV'. viz_entries descOp (drop k es) hist callV retV = Some (hist', callV', retV') \<and>
    viz_so_far descOp es (length es) hist' callV' retV'"
  using assms(2,3)
proof (induction "length es - k" arbitrary: k hist callV retV)
  case 0
  then show ?case by simp
next
  case (Suc m)
  then have k: "k < length es" by simp
  let ?e = "es ! k" and ?i = "eid es k"
  note i = eid [OF wf k]
  have drop: "drop k es = ?e # drop (Suc k) es" by (rule Cons_nth_drop_Suc [symmetric, OF k])
  have len: "length hist = length es div 2" "?i \<in> ops es" using Suc.prems(2) i(1) wf_ops [OF wf] by (auto simp: viz_so_far_def)
  have other: "posn es kk j = k \<longleftrightarrow> kk = e_kind ?e \<and> j = ?i" if "j \<in> ops es" for kk j
  proof
    assume "posn es kk j = k"
    then show "kk = e_kind ?e \<and> j = ?i" using posn_fields [OF wf, of j kk] that wf_ops [OF wf] by auto
  qed (use i(3) in simp)
  have less: "posn es kk j < Suc k \<longleftrightarrow> posn es kk j < k \<or> kk = e_kind ?e \<and> j = ?i" if "j \<in> ops es" for kk j
    using other [OF that, of kk] by (auto simp: less_Suc_eq)
  show ?case
  proof (cases "e_kind ?e")
    case callEntry
    let ?hist = "hist[?i := (hist ! ?i)\<lparr>h_ClientId := e_clientId ?e, h_Start := e_time ?e\<rparr>]"
    have c: "callp es ?i = k" using i(3) callEntry by simp
    have "viz_so_far descOp es (Suc k) ?hist (callV(int ?i \<mapsto> e_value ?e)) retV"
      using Suc.prems(2) len less callEntry c unfolding viz_so_far_def by (auto simp: nth_list_update cinp_def)
    with Suc.hyps(1) [of "Suc k" ?hist "callV(int ?i \<mapsto> e_value ?e)" retV] Suc.hyps(2) k len i(2) callEntry
    show ?thesis by (simp add: drop Let_def)
  next
    case returnEntry
    let ?hist = "hist[?i := (hist ! ?i)\<lparr>h_End := e_time ?e, h_Description := descOp (callV (int ?i)) (e_value ?e)\<rparr>]"
    have r: "retp es ?i = k" using i(3) returnEntry by simp
    have "callV (int ?i) = Some (cinp es ?i)"
      using Suc.prems(2) call_before_return [OF wf i(1)] len(2) r by (simp add: viz_so_far_def)
    then have "viz_so_far descOp es (Suc k) ?hist callV (retV(int ?i \<mapsto> e_value ?e))"
      using Suc.prems(2) len less returnEntry r unfolding viz_so_far_def by (auto simp: nth_list_update cout_def)
    with Suc.hyps(1) [of "Suc k" ?hist callV "retV(int ?i \<mapsto> e_value ?e)"] Suc.hyps(2) k len i(2) returnEntry
    show ?thesis by (simp add: drop Let_def)
  qed
qed

section \<open>The partial linearizations\<close>

lemma viz_steps_result:
  "viz_steps m d callV retV k sz is s index sizes = Some (lin, index', sizes') \<Longrightarrow>
     map fst lin = is \<and> index' = (\<lambda>x. if x \<in> set is \<and> sizes x < sz then Some k else index x) \<and>
     sizes' = (\<lambda>x. if x \<in> set is \<and> sizes x < sz then sz else sizes x)"
proof (induction m d callV retV k sz "is" s index sizes arbitrary: lin index' sizes' rule: viz_steps.induct)
  case (2 m d callV retV k sz i js s index sizes)
  obtain x y where xy: "callV i = Some x" "retV i = Some y" using 2(3) by (auto split: option.splits)
  obtain s1 where st: "Step m s x y = (True, s1)" using 2(3) xy by (cases "Step m s x y") (auto split: if_splits)
  show ?case
  proof (cases "sizes i < sz")
    case True
    then obtain lin1 where r: "viz_steps m d callV retV k sz js s1 (index(i \<mapsto> k)) (sizes(i := sz)) = Some (lin1, index', sizes')" "lin = (i, d s1) # lin1"
      using 2(3) xy st by (auto split: option.splits prod.splits)
    from 2(1) [OF refl xy st [symmetric] _ True r(1)] show ?thesis using True r(2) by (auto simp: fun_eq_iff)
  next
    case False
    then obtain lin1 where r: "viz_steps m d callV retV k sz js s1 index sizes = Some (lin1, index', sizes')" "lin = (i, d s1) # lin1"
      using 2(3) xy st by (auto split: option.splits prod.splits)
    from 2(2) [OF refl xy st [symmetric] _ False r(1)] show ?thesis using False r(2) by (auto simp: fun_eq_iff)
  qed
qed (auto simp: fun_eq_iff)

lemma viz_steps_succeeds:
  assumes "\<forall>i \<in> ops es. callV (int i) = Some (cinp es i) \<and> retV (int i) = Some (cout es i)"
    and "set is \<subseteq> ops es" and "legal (Step m) (cinp es) (cout es) s is"
  shows "viz_steps m d callV retV k sz (map int is) s index sizes \<noteq> None"
  using assms(2,3)
proof (induction "is" arbitrary: s index sizes)
  case (Cons i js)
  obtain s1 where st: "Step m s (cinp es i) (cout es i) = (True, s1)" "legal (Step m) (cinp es) (cout es) s1 js"
    using Cons.prems(2) by (cases "Step m s (cinp es i) (cout es i)") auto
  have sub: "set js \<subseteq> ops es" and v: "callV (int i) = Some (cinp es i)" "retV (int i) = Some (cout es i)"
    using Cons.prems(1) assms(1) by auto
  note ih = Cons.IH [OF sub st(2)]
  show ?case
    using v st(1) ih [of "index(int i \<mapsto> k)" "sizes(int i := sz)"] ih [of index sizes]
    by (simp only: viz_steps.simps list.map prod.case option.case) (auto simp del: fun_upd_apply split: option.split)
qed simp

text \<open>The index of an operation is that of a longest sequence with it among those looked at.\<close>

definition largest_ok :: "int list list \<Rightarrow> (int \<Rightarrow> nat option) \<Rightarrow> (int \<Rightarrow> nat) \<Rightarrow> bool" where
  "largest_ok pre index sizes \<longleftrightarrow>
     (\<forall>x. (case index x of
             None \<Rightarrow> sizes x = 0 \<and> (\<forall>p \<in> set pre. x \<notin> set p)
           | Some j \<Rightarrow> j < length pre \<and> x \<in> set (pre ! j) \<and> sizes x = length (pre ! j)) \<and>
        (\<forall>p \<in> set pre. x \<in> set p \<longrightarrow> length p \<le> sizes x))"

lemma largest_ok_step:
  assumes "largest_ok pre index sizes"
  shows "largest_ok (pre @ [p]) (\<lambda>x. if x \<in> set p \<and> sizes x < length p then Some (length pre) else index x)
    (\<lambda>x. if x \<in> set p \<and> sizes x < length p then length p else sizes x)"
  unfolding largest_ok_def
proof
  fix x
  have old: "case index x of None \<Rightarrow> sizes x = 0 \<and> (\<forall>p \<in> set pre. x \<notin> set p)
      | Some j \<Rightarrow> j < length pre \<and> x \<in> set (pre ! j) \<and> sizes x = length (pre ! j)"
    and le: "\<forall>p \<in> set pre. x \<in> set p \<longrightarrow> length p \<le> sizes x"
    using assms unfolding largest_ok_def by blast+
  show "(case if x \<in> set p \<and> sizes x < length p then Some (length pre) else index x of
       None \<Rightarrow> (if x \<in> set p \<and> sizes x < length p then length p else sizes x) = 0 \<and> (\<forall>q \<in> set (pre @ [p]). x \<notin> set q)
     | Some j \<Rightarrow> j < length (pre @ [p]) \<and> x \<in> set ((pre @ [p]) ! j) \<and>
         (if x \<in> set p \<and> sizes x < length p then length p else sizes x) = length ((pre @ [p]) ! j)) \<and>
    (\<forall>q \<in> set (pre @ [p]). x \<in> set q \<longrightarrow> length q \<le> (if x \<in> set p \<and> sizes x < length p then length p else sizes x))"
  proof (cases "x \<in> set p \<and> sizes x < length p")
    case True
    then show ?thesis using le by auto
  next
    case False
    have "x \<notin> set p" if "index x = None" using that old False by (cases p) auto
    then show ?thesis using False old le by (cases "index x") (auto simp: nth_append)
  qed
qed

lemma viz_partials_result:
  "viz_partials m d callV retV (length pre) ps index sizes = Some (lins, index') \<Longrightarrow> largest_ok pre index sizes \<Longrightarrow>
     map (map fst) lins = ps \<and> (\<exists>sizes'. largest_ok (pre @ ps) index' sizes')"
proof (induction ps arbitrary: pre index sizes lins)
  case Nil
  then show ?case by auto
next
  case (Cons p ps)
  obtain lin ix sx where s: "viz_steps m d callV retV (length pre) (length p) p (Init m) index sizes = Some (lin, ix, sx)"
    using Cons.prems(1) by (auto split: option.splits)
  obtain lins1 where r: "viz_partials m d callV retV (length (pre @ [p])) ps ix sx = Some (lins1, index')" "lins = lin # lins1"
    using Cons.prems(1) s by (auto split: option.splits)
  have "largest_ok (pre @ [p]) ix sx" using largest_ok_step [OF Cons.prems(2), of p] viz_steps_result [OF s] by simp
  from Cons.IH [OF r(1) this] r(2) viz_steps_result [OF s] show ?case by simp
qed

lemma viz_partials_succeeds:
  assumes "\<forall>i \<in> ops es. callV (int i) = Some (cinp es i) \<and> retV (int i) = Some (cout es i)"
    and "\<forall>p \<in> set ps. \<exists>is. p = map int is \<and> partial_ok es (Step m) (Init m) is"
  shows "viz_partials m d callV retV k ps index sizes \<noteq> None"
  using assms(2)
proof (induction ps arbitrary: k index sizes)
  case (Cons p ps)
  obtain js where js: "p = map int js" "set js \<subseteq> ops es" "legal (Step m) (cinp es) (cout es) (Init m) js"
    using Cons.prems by (auto simp: partial_ok_def)
  obtain r where "viz_steps m d callV retV k (length p) p (Init m) index sizes = Some r"
    using viz_steps_succeeds [OF assms(1) js(2,3), of d k "length p" index sizes] js(1) by auto
  moreover have "viz_partials m d callV retV k' ps ix sx \<noteq> None" for k' ix sx using Cons by simp
  ultimately show ?case by (cases r) (auto split: option.split)
qed simp

lemma viz_partition_ok:
  assumes wf: "wf_entries es n" and ps: "\<forall>p \<in> set ps. \<exists>is. p = map int is \<and> partial_ok es (Step m) (Init m) is" and srt: "sorts_by_length slice_sort"
  shows "\<exists>d. viz_partition slice_sort m descOp descState es ps = Some d \<and> (\<exists>callV retV. viz_so_far descOp es (length es) (viz_History d) callV retV)"
proof -
  have "viz_so_far descOp es 0 (replicate (length es div 2) zero_element) (\<lambda>_. None) (\<lambda>_. None)" by (simp add: viz_so_far_def)
  from viz_entries_ok [OF wf _ this] obtain hist callV retV
    where e: "viz_entries descOp es (replicate (length es div 2) zero_element) (\<lambda>_. None) (\<lambda>_. None) = Some (hist, callV, retV)"
      and so: "viz_so_far descOp es (length es) hist callV retV" by auto
  have "callV (int i) = Some (cinp es i) \<and> retV (int i) = Some (cout es i)" if "i \<in> ops es" for i
    using so that posn(1) [OF wf, of i] wf_ops [OF wf] unfolding viz_so_far_def by auto
  moreover have "set (slice_sort ps) = set ps" using srt by (metis sorts_by_length_def mset_eq_setD)
  ultimately obtain r where "viz_partials m descState callV retV 0 (slice_sort ps) (\<lambda>_. None) (\<lambda>_. 0) = Some r"
    using viz_partials_succeeds [of es callV retV "slice_sort ps" m descState 0] ps by fastforce
  then show ?thesis using so by (cases r) (auto simp: viz_partition_def e)
qed
section \<open>What is visualised\<close>

text \<open>A partial linearization of a history, in terms of its operations.\<close>

definition partial_linearization :: "('s, 'v) Model \<Rightarrow> 'v Operation list \<Rightarrow> nat list \<Rightarrow> bool" where
  "partial_linearization m h is \<longleftrightarrow> distinct is \<and> set is \<subseteq> {..<length h} \<and>
     legal (Step m) (\<lambda>i. Input (h ! i)) (\<lambda>i. Output (h ! i)) (Init m) is \<and>
     (\<forall>k < length is. \<forall>j < length h. Return (h ! j) < Call (h ! (is ! k)) \<longrightarrow> j \<in> set (take k is))"

lemma partial_ok_history:
  assumes "sorts_byTime sorter" and "ordered_history h" and "partial_ok (makeEntries sorter h) (Step m) (Init m) is"
  shows "partial_linearization m h is"
proof -
  let ?es = "makeEntries sorter h"
  note nth = makeEntries_nth [OF assms(1,2)]
  have ops: "ops ?es = {..<length h}" by (rule wf_ops [OF makeEntries_wf [OF assms(1,2)]])
  have leg: "legal (Step m) (cinp ?es) (cout ?es) s js = legal (Step m) (\<lambda>i. Input (h ! i)) (\<lambda>i. Output (h ! i)) s js"
    if "set js \<subseteq> {..<length h}" for js s
    using that by (induction js arbitrary: s) (simp_all add: cinp_def cout_def nth op_entry_def split: prod.split)
  have sub: "set is \<subseteq> {..<length h}" using assms(3) unfolding partial_ok_def ops by blast
  from sub have "is ! k < length h" if "k < length is" for k using that nth_mem [of k "is"] by blast
  then show ?thesis
    using assms(3) makeEntries_before [OF assms(1,2)] leg [OF sub] unfolding partial_ok_def partial_linearization_def ops precedes_def by simp
qed

lemma fillDefault_equality:
  "state_equality (Step m) (or_default (Equal m) ShallowEqual) \<Longrightarrow>
     state_equality (Step (fillDefault m)) (or_default (Equal (fillDefault m)) ShallowEqual)"
  by (simp add: fillDefault_def or_default_def)

lemma collect_partition:
  assumes "sorts_byTime sorter" and "ordered_history h" and "state_equality (Step m) (or_default (Equal m) ShallowEqual)"
    and "permutes_lists order"
  shows "\<exists>b l. checkSingle m (makeEntries sorter h) True kill = Some (Some (b, l)) \<and>
    (\<forall>p \<in> set (unique_linearizations order l). \<exists>is. p = map int is \<and> partial_ok (makeEntries sorter h) (Step m) (Init m) is)"
proof -
  note wf = makeEntries_wf [OF assms(1,2)]
  obtain b l where c: "checkSingle m (makeEntries sorter h) True kill = Some (Some (b, l))"
    using checkSingle_ok [OF wf assms(3)] by blast
  have "set (order ps) = set ps" for ps using assms(4) unfolding permutes_lists_def by (metis mset_eq_setD)
  then have "Some p \<in> set l" if "p \<in> set (unique_linearizations order l)" for p
    using that by (auto simp: unique_linearizations_def)
  then show ?thesis using checkSingle_kept [OF wf assms(3) c] c unfolding kept_def by blast
qed

lemma those_map_Some: "\<forall>x \<in> set xs. f x \<noteq> None \<Longrightarrow> those (map f xs) = Some (map (\<lambda>x. the (f x)) xs)"
  by (induction xs) auto

text \<open>What \<open>checkParallel\<close> collects, one list for each partition.\<close>

lemma collect_info_ok:
  assumes "sorts_byTime sorter" and "state_equality (Step m) (or_default (Equal m) ShallowEqual)" and "list_all ordered_history hs"
    and "permutes_lists order"
  shows "\<exists>ps. collect_info order m (map (makeEntries sorter) hs) kill =
      Some \<lparr>li_history = map (makeEntries sorter) hs, partialLinearizations = ps\<rparr> \<and> length ps = length hs \<and>
    (\<forall>i < length hs. \<forall>p \<in> set (ps ! i). \<exists>is. p = map int is \<and> partial_ok (makeEntries sorter (hs ! i)) (Step m) (Init m) is)"
proof -
  let ?es = "map (makeEntries sorter) hs"
  let ?f = "\<lambda>(i, subhistory). case checkSingle m subhistory True (kill i) of
      Some (Some (_, l)) \<Rightarrow> Some (unique_linearizations order l) | _ \<Rightarrow> None"
  have f: "\<exists>ps. ?f (i, ?es ! i) = Some ps \<and>
      (\<forall>p \<in> set ps. \<exists>is. p = map int is \<and> partial_ok (makeEntries sorter (hs ! i)) (Step m) (Init m) is)" if "i < length hs" for i
    using collect_partition [OF assms(1) _ assms(2,4), of "hs ! i" "kill i"] assms(3) that by (auto simp: list_all_length)
  have "?f x \<noteq> None" if x: "x \<in> set (enumerate 0 ?es)" for x
  proof -
    obtain i where "x = (i, ?es ! i)" "i < length hs" using in_set_enumerate_eq [of x 0 ?es] x by (cases x) auto
    with f [of i] show ?thesis by auto
  qed
  then have "collect_info order m ?es kill =
      Some \<lparr>li_history = ?es, partialLinearizations = map (\<lambda>x. the (?f x)) (enumerate 0 ?es)\<rparr>"
    unfolding collect_info_def by (subst those_map_Some) auto
  moreover have "map (\<lambda>x. the (?f x)) (enumerate 0 ?es) ! i = the (?f (i, ?es ! i))" if "i < length hs" for i
    using that by (simp add: nth_enumerate_eq)
  ultimately show ?thesis using f by (intro exI [of _ "map (\<lambda>x. the (?f x)) (enumerate 0 ?es)"]) fastforce
qed

lemma those_nth: "those xs = Some ys \<Longrightarrow> i < length xs \<Longrightarrow> xs ! i = Some (ys ! i) \<and> i < length ys"
proof (induction xs arbitrary: ys i)
  case (Cons x xs)
  then show ?case by (cases i) (auto split: option.splits)
qed simp

lemma collect_info_nth:
  assumes "collect_info order m history kill = Some info" and "i < length history"
    and "checkSingle m (history ! i) True (kill i) = Some (Some (b, l))"
  shows "partialLinearizations info ! i = unique_linearizations order l"
proof -
  obtain ps where ps: "those (map (\<lambda>(i, subhistory). case checkSingle m subhistory True (kill i) of
      Some (Some (_, l)) \<Rightarrow> Some (unique_linearizations order l) | _ \<Rightarrow> None) (enumerate 0 history)) = Some ps"
    "partialLinearizations info = ps" using assms(1) by (auto simp: collect_info_def)
  from those_nth [OF ps(1), of i] assms(2,3) show ?thesis by (simp add: ps(2) nth_enumerate_eq)
qed

lemma history_elements:
  assumes "sorts_byTime sorter" and "ordered_history h" and "viz_so_far descOp (makeEntries sorter h) (length (makeEntries sorter h)) hist callV retV"
  shows "hist = map (\<lambda>op. \<lparr>h_ClientId = op_ClientId op, h_Start = Call op, h_End = Return op,
    h_Description = descOp (Some (Input op)) (Output op)\<rparr>) h"
proof (rule nth_equalityI)
  let ?es = "makeEntries sorter h"
  note wf = makeEntries_wf [OF assms(1,2)]
  have ops: "ops ?es = {..<length h}" by (rule wf_ops [OF wf])
  have "length ?es div 2 = length h" using wf_length [OF wf] by simp
  then show len: "length hist = length (map (\<lambda>op. \<lparr>h_ClientId = op_ClientId op, h_Start = Call op, h_End = Return op,
      h_Description = descOp (Some (Input op)) (Output op)\<rparr>) h)" using assms(3) by (simp add: viz_so_far_def)
  fix i assume "i < length hist"
  then have i: "i < length h" using len by simp
  then have "posn ?es kk i < length ?es" for kk by (rule posn(1) [OF wf])
  then show "hist ! i = map (\<lambda>op. \<lparr>h_ClientId = op_ClientId op, h_Start = Call op, h_End = Return op,
      h_Description = descOp (Some (Input op)) (Output op)\<rparr>) h ! i"
    using assms(3) i unfolding viz_so_far_def ops
    by (simp add: makeEntries_nth [OF assms(1,2)] cinp_def cout_def op_entry_def historyElement.equality)
qed


text \<open>
  C36: what is shown as a partial linearization is one. Every sequence that the check collects names
  different operations of its history, which the model accepts in this order from its initial state, and an
  operation stands in it only after all operations that had returned before it was called.
\<close>

theorem partial_linearizations_legal:
  assumes "sorts_byTime sorter" and "state_equality (Step m) (or_default (Equal m) ShallowEqual)" and "list_all ordered_history hs"
    and "permutes_lists order" and "collect_info order (fillDefault m) (map (makeEntries sorter) hs) kill = Some info"
    and "i < length hs" and "p \<in> set (partialLinearizations info ! i)"
  shows "\<exists>is. p = map int is \<and> partial_linearization m (hs ! i) is"
proof -
  obtain ps where "partialLinearizations info = ps"
      "\<forall>i < length hs. \<forall>p \<in> set (ps ! i). \<exists>is. p = map int is \<and>
         partial_ok (makeEntries sorter (hs ! i)) (Step (fillDefault m)) (Init (fillDefault m)) is"
    using collect_info_ok [OF assms(1) fillDefault_equality [OF assms(2)] assms(3,4), of kill] assms(5) by auto
  then obtain "is" where p: "p = map int is" "partial_ok (makeEntries sorter (hs ! i)) (Step (fillDefault m)) (Init (fillDefault m)) is"
    using assms(6,7) by blast
  have "ordered_history (hs ! i)" using assms(3,6) by (simp add: list_all_length)
  from partial_ok_history [OF assms(1) this p(2)] p(1) show ?thesis by (auto simp: partial_linearization_def fillDefault_def)
qed

text \<open>
  When a check that is not killed accepts a history with operations, the data show a linearization of all of it.
\<close>

theorem complete_linearization_shown:
  assumes "sorts_byTime sorter" and "state_equality (Step m) (or_default (Equal m) ShallowEqual)" and "list_all ordered_history hs"
    and "permutes_lists order" and "collect_info order (fillDefault m) (map (makeEntries sorter) hs) (\<lambda>_ _. False) = Some info"
    and "i < length hs" and "hs ! i \<noteq> []" and "linearizable m (hs ! i)"
  shows "\<exists>p \<in> set (partialLinearizations info ! i). length p = length (hs ! i)"
proof -
  let ?m = "fillDefault m" and ?es = "makeEntries sorter (hs ! i)"
  have o: "ordered_history (hs ! i)" using assms(3,6) by (simp add: list_all_length)
  note wf = makeEntries_wf [OF assms(1) o] and eq = fillDefault_equality [OF assms(2)]
  obtain l where l: "checkSingle ?m ?es True (\<lambda>_. False) = Some (Some (True, l))"
    using checkSingle_ok [OF wf eq, of True "\<lambda>_. False"] completable_linearizable [OF assms(1) o, of ?m] assms(8)
    by (auto simp: linearizable_fillDefault)
  have len: "length l = length (hs ! i) \<and> (\<forall>x \<in> set l. \<exists>seq. x = Some seq \<and> length seq = length (hs ! i))"
    by (rule checkSingle_complete [OF wf eq l])
  then obtain seq where seq: "Some seq \<in> set l" "length seq = length (hs ! i)" using assms(7) by (cases l) auto
  have "set (order ps) = set ps" for ps using assms(4) unfolding permutes_lists_def by (metis mset_eq_setD)
  then have "seq \<in> set (unique_linearizations order l)" using seq(1) by (force simp: unique_linearizations_def)
  moreover have "partialLinearizations info ! i = unique_linearizations order l" using collect_info_nth [OF assms(5), of i True l] assms(6) l by simp
  ultimately show ?thesis using seq(2) by auto
qed

text \<open>
  The sequence marked for an operation is a longest one. The sequences are shown in the order that
  the sort gives; an operation has a mark iff it occurs in one, and then the marked sequence has it
  and no sequence with it is longer.
\<close>

theorem largest_is_longest:
  assumes "viz_partition slice_sort m descOp descState es ps = Some d" and "sorts_by_length slice_sort"
  shows "map (map fst) (viz_Partials d) = slice_sort ps \<and>
    (\<forall>x. case viz_Largest d x of
       None \<Rightarrow> \<forall>p \<in> set ps. x \<notin> set p
     | Some j \<Rightarrow> j < length ps \<and> x \<in> set (slice_sort ps ! j) \<and> (\<forall>p \<in> set ps. x \<in> set p \<longrightarrow> length p \<le> length (slice_sort ps ! j)))"
proof -
  have eq: "set (slice_sort ps) = set ps" "length (slice_sort ps) = length ps"
    using assms(2) by (metis sorts_by_length_def mset_eq_setD, metis sorts_by_length_def mset_eq_length)
  obtain callV retV where r: "viz_partials m descState callV retV (length ([] :: int list list)) (slice_sort ps) (\<lambda>_. None) (\<lambda>_. 0) =
      Some (viz_Partials d, viz_Largest d)" using assms(1) by (auto simp: viz_partition_def split: option.splits)
  have "largest_ok [] (\<lambda>_. None) (\<lambda>_. 0)" by (simp add: largest_ok_def)
  from viz_partials_result [OF r this] obtain sizes
    where s: "map (map fst) (viz_Partials d) = slice_sort ps" "largest_ok (slice_sort ps) (viz_Largest d) sizes" by auto
  then show ?thesis unfolding largest_ok_def eq by (force split: option.splits)
qed

section \<open>An example\<close>

definition by_length :: "int list list \<Rightarrow> int list list" where
  "by_length = sort_key (\<lambda>p. - int (length p))"

lemma by_length_sorts: "sorts_by_length by_length"
proof -
  have "sorted_wrt (\<lambda>a b. length b \<le> length a) (by_length ps)" for ps
    using sorted_sort_key [of "\<lambda>p. - int (length p)" ps] by (simp add: by_length_def sorted_map)
  then show ?thesis by (simp add: sorts_by_length_def by_length_def)
qed


definition exPut :: "KvValue Operation list" where
  "exPut = [put_op ''x'' ''1'' 0 10, get_op ''x'' ''1'' 5 15]"

declare list_length.simps [code] check_loop.simps [code]

theorem partial_linearizations_legal_witness:
  "\<exists>info is. collect_info rev (fillDefault KvModel) [makeEntries (sort_key byTime_key) exPut] (\<lambda>_ _. False) = Some info \<and>
     partialLinearizations info ! 0 = [[0, 1]] \<and> [0, 1] = map int is \<and> partial_linearization KvModel exPut is"
proof -
  have per: "permutes_lists rev" by (simp add: permutes_lists_def)
  have ord: "list_all ordered_history [exPut]" by (simp add: exPut_def ordered_history_def put_op_def get_op_def)
  have "case collect_info rev (fillDefault KvModel) [makeEntries (sort_key byTime_key) exPut] (\<lambda>_ _. False) of
      None \<Rightarrow> False | Some info \<Rightarrow> partialLinearizations info ! 0 = [[0, 1]]" by code_simp
  then obtain info where i: "collect_info rev (fillDefault KvModel) (map (makeEntries (sort_key byTime_key)) [exPut]) (\<lambda>_ _. False) = Some info"
    and p: "partialLinearizations info ! 0 = [[0, 1]]" by (auto split: option.splits)
  from partial_linearizations_legal [OF sort_key_sorts kv.state_equality_axioms ord per i, of 0 "[0, 1]"] p
  have "\<exists>is. [0, 1] = map int is \<and> partial_linearization KvModel exPut is" by simp
  with i p show ?thesis by (auto simp del: map_eq_Cons_conv Cons_eq_map_conv)
qed

theorem largest_is_longest_witness:
  "\<exists>d. viz_partition by_length KvModel (\<lambda>_ _. ''op'') (\<lambda>_. ''state'') (makeEntries (sort_key byTime_key) exH) [[0], [2, 0, 1]] = Some d \<and>
     map (map fst) (viz_Partials d) = by_length [[0], [2, 0, 1]] \<and> viz_Largest d 0 \<noteq> None"
proof -
  have "viz_partition by_length KvModel (\<lambda>_ _. ''op'') (\<lambda>_. ''state'') (makeEntries (sort_key byTime_key) exH) [[0], [2, 0, 1]] \<noteq> None"
    by code_simp
  then obtain d where d: "viz_partition by_length KvModel (\<lambda>_ _. ''op'') (\<lambda>_. ''state'') (makeEntries (sort_key byTime_key) exH) [[0], [2, 0, 1]] = Some d"
    by blast
  from largest_is_longest [OF d by_length_sorts] d show ?thesis by (auto split: option.splits)
qed

end
