(* ===== verification/HTTP_Common.thy ===== *)
theory HTTP_Common
  imports Go_Disk
begin

text \<open>
  What the programs of \<^verbatim>\<open>Lab1\<close> share: trimming and reading numbers (\<^verbatim>\<open>strings.TrimSpace\<close>,
  \<^verbatim>\<open>strconv.Atoi\<close>), the addresses that the four programs accept, requests and responses of
  \<^verbatim>\<open>net/http\<close> as the handlers see them, the check of the file ending, and the way in which an
  upload or a download gets its file name. \<^verbatim>\<open>net.ParseIP\<close> and \<^verbatim>\<open>http.DetectContentType\<close>
  are arguments.
\<close>

section \<open>Strings and numbers\<close>

definition is_space :: "char \<Rightarrow> bool" where
  "is_space c \<longleftrightarrow> of_char c \<in> {9, 10, 11, 12, 13, 32 :: nat}"

definition TrimSpace :: "string \<Rightarrow> string" where
  "TrimSpace s = rev (dropWhile is_space (rev (dropWhile is_space s)))"

definition ToUpper :: "string \<Rightarrow> string" where
  "ToUpper s = map (\<lambda>c. if CHR ''a'' \<le> c \<and> c \<le> CHR ''z'' then char_of (of_char c - 32 :: nat) else c) s"

definition is_digit :: "char \<Rightarrow> bool" where
  "is_digit c \<longleftrightarrow> 48 \<le> (of_char c :: nat) \<and> (of_char c :: nat) \<le> 57"

definition digits_value :: "string \<Rightarrow> int" where
  "digits_value s = foldl (\<lambda>n c. 10 * n + (int (of_char c) - 48)) 0 s"

text \<open>\<open>None\<close>: a syntax error, or a value that does not fit into 64 bits.\<close>

definition Atoi :: "string \<Rightarrow> int option" where
  "Atoi s =
     (let (neg, ds) = (case s of
            CHR ''-'' # cs \<Rightarrow> (True, cs)
          | CHR ''+'' # cs \<Rightarrow> (False, cs)
          | _ \<Rightarrow> (False, s));
          v = (if neg then - digits_value ds else digits_value ds)
      in if ds \<noteq> [] \<and> list_all is_digit ds \<and> - (2 ^ 63) \<le> v \<and> v < 2 ^ 63 then Some v else None)"

section \<open>Addresses\<close>

definition valid_port :: "string \<Rightarrow> bool" where
  "valid_port s = (case Atoi (TrimSpace s) of None \<Rightarrow> False | Some port \<Rightarrow> \<not> (port < 0 \<or> 65535 < port))"

definition Server_GetAddr :: "(string \<Rightarrow> bool) \<Rightarrow> string list \<Rightarrow> string" where
  "Server_GetAddr ParseIP args =
     (if length args = 1 then ''-1''
      else
        let addr_list = split_on CHR '':'' (args ! 1) in
        if length addr_list = 1 then
          if TrimSpace (addr_list ! 0) = ''docker'' then ''-2''
          else if valid_port (addr_list ! 0) then ''localhost:'' @ addr_list ! 0 else ''-1''
        else if length addr_list = 2 then
          if addr_list ! 0 \<noteq> ''localhost'' \<and> \<not> ParseIP (addr_list ! 0) then ''-1''
          else if valid_port (addr_list ! 1) then args ! 1 else ''-1''
        else ''localhost:8080'')"

definition Proxy_GetAddr :: "(string \<Rightarrow> bool) \<Rightarrow> string list \<Rightarrow> string" where
  "Proxy_GetAddr ParseIP args =
     (if length args \<noteq> 2 then ''localhost:8081''
      else
        let addr_list = split_on CHR '':'' (args ! 1) in
        if length addr_list = 1 then
          if valid_port (addr_list ! 0) then ''localhost:'' @ addr_list ! 0 else ''-1''
        else if length addr_list = 2 then
          if addr_list ! 0 \<noteq> ''localhost'' \<and> \<not> ParseIP (addr_list ! 0) then ''-1''
          else if valid_port (addr_list ! 1) then args ! 1 else ''-1''
        else ''localhost:8081'')"

definition SetProxyAddr :: "(string \<Rightarrow> bool) \<Rightarrow> string \<Rightarrow> string" where
  "SetProxyAddr ParseIP args_str =
     (if length args_str = 0 then ''-1''
      else
        let addr_list = split_on CHR '':'' args_str in
        if length addr_list = 1 then
          if valid_port (addr_list ! 0) then ''localhost:'' @ addr_list ! 0 else ''-1''
        else if length addr_list = 2 then
          if addr_list ! 0 \<noteq> ''localhost'' \<and> \<not> ParseIP (addr_list ! 0) then ''-1''
          else if valid_port (addr_list ! 1) then addr_list ! 0 @ '':'' @ addr_list ! 1 else ''-1''
        else ''localhost:8081'')"

definition GetClientAddr :: "(string \<Rightarrow> bool) \<Rightarrow> string \<Rightarrow> string" where
  "GetClientAddr ParseIP args_str =
     (if length args_str = 0 then ''-1''
      else
        let addr_list = split_on CHR '':'' args_str in
        if length addr_list \<noteq> 1 \<and> length addr_list \<noteq> 2 then ''-1''
        else if length addr_list = 1 then
          if valid_port (addr_list ! 0) then ''localhost:'' @ addr_list ! 0 else ''-1''
        else if length addr_list = 2 then
          if addr_list ! 0 \<noteq> ''localhost'' \<and> \<not> ParseIP (addr_list ! 0) then ''-1''
          else if valid_port (addr_list ! 1) then args_str else ''-1''
        else ''localhost:8080'')"

section \<open>Requests, responses, files\<close>

record Request =
  rq_Method :: string
  rq_Path :: string
  rq_Body :: bytes

text \<open>\<open>None\<close> is a nil body, or no header.\<close>

record Response =
  rs_StatusCode :: nat
  rs_ContentLength :: nat
  rs_Body :: "bytes option"
  rs_ContentType :: "string option"

definition new_Response :: Response where
  "new_Response = \<lparr>rs_StatusCode = 0, rs_ContentLength = 0, rs_Body = None, rs_ContentType = None\<rparr>"

definition CheckFileEnding :: "string \<Rightarrow> string \<times> bool" where
  "CheckFileEnding url =
     (let arrUrl = split_on CHR ''.'' url;
          fileNameEnding = arrUrl ! (length arrUrl - 1)
      in if fileNameEnding = ''html'' \<or> fileNameEnding = ''txt'' \<or> fileNameEnding = ''gif'' \<or>
            fileNameEnding = ''jpeg'' \<or> fileNameEnding = ''jpg'' \<or> fileNameEnding = ''css''
         then (fileNameEnding, True) else (fileNameEnding, False))"

text \<open>The read of an empty file reports the end of the file as an error.\<close>

definition GetFileContentType :: "(bytes \<Rightarrow> string) \<Rightarrow> Disk \<Rightarrow> string \<Rightarrow> string option" where
  "GetFileContentType DetectContentType d p =
     (case ReadAll d p of
        None \<Rightarrow> None
      | Some c \<Rightarrow> if c = [] then None else Some (DetectContentType (take 512 c)))"

text \<open>
  The name for a copy when the file exists: the parts before and after the first dot of the
  whole path. \<open>None\<close>: there is no dot and the index is out of range.
\<close>

definition copy_name :: "string \<Rightarrow> string option" where
  "copy_name fileName =
     (let parts = split_on CHR ''.'' fileName in
      if length parts < 2 then None else Some (parts ! 0 @ ''(1).'' @ parts ! 1))"

definition download_target :: "Disk \<Rightarrow> string \<Rightarrow> string option" where
  "download_target d fileName = (if os_Exists d fileName then copy_name fileName else Some fileName)"

section \<open>Laws\<close>

lemma split_two:
  assumes "split_on c s = [a, b]"
  shows "s = a @ c # b"
  using join_split_on [of c s] assms by simp

text \<open>An address to use: a host that was checked, a colon, and a port in range.\<close>

definition good_address :: "(string \<Rightarrow> bool) \<Rightarrow> string \<Rightarrow> bool" where
  "good_address ParseIP a \<longleftrightarrow>
     (\<exists>host port. a = host @ CHR '':'' # port \<and> (host = ''localhost'' \<or> ParseIP host) \<and> valid_port port)"

lemma good_local: "valid_port p \<Longrightarrow> good_address ParseIP (''localhost:'' @ p)"
  unfolding good_address_def by (intro exI [of _ "''localhost''"] exI [of _ p]) simp

lemma good_pair:
  assumes "length (split_on CHR '':'' s) = 2" and "\<not> (split_on CHR '':'' s ! 0 \<noteq> ''localhost'' \<and> \<not> ParseIP (split_on CHR '':'' s ! 0))"
    and "valid_port (split_on CHR '':'' s ! 1)"
  shows "good_address ParseIP s"
    and "good_address ParseIP (split_on CHR '':'' s ! 0 @ CHR '':'' # split_on CHR '':'' s ! 1)"
proof -
  obtain a b where ab: "split_on CHR '':'' s = [a, b]" using assms(1) by (auto simp: numeral_2_eq_2 length_Suc_conv)
  have "good_address ParseIP (a @ CHR '':'' # b)"
    unfolding good_address_def using assms(2,3) by (intro exI [of _ a] exI [of _ b]) (auto simp: ab)
  with split_two [OF ab] show "good_address ParseIP s"
    and "good_address ParseIP (split_on CHR '':'' s ! 0 @ CHR '':'' # split_on CHR '':'' s ! 1)"
    unfolding ab by simp_all
qed

lemma valid_port_const: "valid_port ''8080''" "valid_port ''8081''"
  by (simp_all add: valid_port_def TrimSpace_def is_space_def Atoi_def digits_value_def is_digit_def)

lemmas good_default = good_local [OF valid_port_const(1), simplified] good_local [OF valid_port_const(2), simplified]

lemmas good_intros = good_local [simplified] good_pair [simplified] good_default

lemma Server_address: "Server_GetAddr ParseIP args \<in> {''-1'', ''-2''} \<or> good_address ParseIP (Server_GetAddr ParseIP args)"
  unfolding Server_GetAddr_def Let_def by (auto intro: good_intros)

lemma Proxy_address: "Proxy_GetAddr ParseIP args = ''-1'' \<or> good_address ParseIP (Proxy_GetAddr ParseIP args)"
  unfolding Proxy_GetAddr_def Let_def by (auto intro: good_intros)

lemma SetProxy_address: "SetProxyAddr ParseIP line = ''-1'' \<or> good_address ParseIP (SetProxyAddr ParseIP line)"
  unfolding SetProxyAddr_def Let_def by (auto intro: good_intros)

lemma Client_address: "GetClientAddr ParseIP line = ''-1'' \<or> good_address ParseIP (GetClientAddr ParseIP line)"
  unfolding GetClientAddr_def Let_def by (auto intro: good_intros)

text \<open>
  The addresses that the server, the proxy and the client go on with are well formed. Whatever
  is typed, the result is the mark for the default address (or for docker), or a checked host
  followed by a port between 0 and 65535.
\<close>

theorem addresses_checked:
  "(Server_GetAddr ParseIP args \<in> {''-1'', ''-2''} \<or> good_address ParseIP (Server_GetAddr ParseIP args)) \<and>
   (Proxy_GetAddr ParseIP args = ''-1'' \<or> good_address ParseIP (Proxy_GetAddr ParseIP args)) \<and>
   (SetProxyAddr ParseIP line = ''-1'' \<or> good_address ParseIP (SetProxyAddr ParseIP line)) \<and>
   (GetClientAddr ParseIP line = ''-1'' \<or> good_address ParseIP (GetClientAddr ParseIP line))"
  using Server_address Proxy_address SetProxy_address Client_address by (intro conjI) simp_all

end
