(* ===== verification/HTTP_Server.thy ===== *)
theory HTTP_Server
  imports HTTP_Common
begin

text \<open>
  The web server of \<^verbatim>\<open>Lab1/Server\<close> (\<^verbatim>\<open>handler.go\<close>, \<^verbatim>\<open>tools.go\<close> and the
  connection loop of \<^verbatim>\<open>main.go\<close>) over the model of the disk. A request is what
  \<^verbatim>\<open>http.ReadRequest\<close> returns, a response what is written back; the bytes on the wire are the
  library's. The loop counts the open connections, and a panic in it ends the whole process.
\<close>

section \<open>Definitions\<close>

definition strip_slashes :: "string \<Rightarrow> string" where
  "strip_slashes p = rev (dropWhile (\<lambda>c. c = CHR ''/'') (rev p))"

text \<open>A directory may be named with a slash at the end.\<close>

definition is_dir :: "Disk \<Rightarrow> string \<Rightarrow> bool" where
  "is_dir d p \<longleftrightarrow> map_of (dfiles d) p = None \<and> strip_slashes p \<in> set (ddirs d)"

definition os_Stat :: "Disk \<Rightarrow> string \<Rightarrow> bool" where
  "os_Stat d p \<longleftrightarrow> map_of (dfiles d) p \<noteq> None \<or> is_dir d p"

text \<open>\<open>Readdir(-1)\<close>: files and directories, in the order the disk has them.\<close>

definition Readdir :: "Disk \<Rightarrow> string \<Rightarrow> string list option" where
  "Readdir d p =
     (if dfault d p = ReadFails then None
      else Some (map basename (filter (\<lambda>q. dirname q = strip_slashes p) (map fst (dfiles d) @ ddirs d))))"

definition reply :: "nat \<Rightarrow> bytes \<Rightarrow> Response" where
  "reply code body = new_Response\<lparr>rs_StatusCode := code, rs_ContentLength := length body, rs_Body := Some body\<rparr>"

definition GetHandler :: "(bytes \<Rightarrow> string) \<Rightarrow> string \<Rightarrow> Disk \<Rightarrow> Request \<Rightarrow> Response" where
  "GetHandler DetectContentType pwd d r =
     (let url = pwd @ rq_Path r in
      if \<not> os_Stat d url then reply 404 ''Resource not found''
      else if dfault d url = OpenFails then reply 404 ''Resource not found''
      else if is_dir d url then
        (case Readdir d url of
           None \<Rightarrow> reply 500 ''Internal server error''
         | Some names \<Rightarrow> reply 200 (concat (map (\<lambda>n. n @ '' '') names)))
      else
        (let contentType = (case GetFileContentType DetectContentType d url of None \<Rightarrow> '''' | Some t \<Rightarrow> t);
             (fileEnding, valid) = CheckFileEnding url;
             contentType = (if fileEnding = ''css'' then ''text/css; charset=utf-8'' else contentType)
         in if valid then
              (case ReadAll d url of
                 None \<Rightarrow> reply 500 ''Internal server error''
               | Some content \<Rightarrow> (reply 200 content)\<lparr>rs_ContentType := Some contentType\<rparr>)
            else reply 400 ''Bad request''))"

text \<open>
  \<open>DownloadFile\<close> of \<^verbatim>\<open>Server/tools.go\<close>: whether the write succeeded, and the disk. A write
  to the nil file of a failed creation reports an error. \<open>None\<close>: index out of range.
\<close>

definition Server_DownloadFile :: "Disk \<Rightarrow> bytes \<Rightarrow> string \<Rightarrow> (bool \<times> Disk) option" where
  "Server_DownloadFile d body fileName =
     (case download_target d fileName of
        None \<Rightarrow> None
      | Some p \<Rightarrow> Some (write_file d p body))"

definition PostHandler :: "string \<Rightarrow> Disk \<Rightarrow> Request \<Rightarrow> (Response \<times> Disk) option" where
  "PostHandler pwd d r =
     (let (ending, valid) = CheckFileEnding (rq_Path r) in
      if valid then
        (case Server_DownloadFile d (rq_Body r) (pwd @ rq_Path r) of
           None \<Rightarrow> None
         | Some (ok, d1) \<Rightarrow>
             if \<not> ok then Some (new_Response\<lparr>rs_StatusCode := 500\<rparr>, d1) else Some (reply 200 ''OK'', d1))
      else Some (reply 400 ''Bad request'', d))"

text \<open>The content length stays zero.\<close>

definition UnsupportedMethodHandler :: "Request \<Rightarrow> Response" where
  "UnsupportedMethodHandler r = new_Response\<lparr>rs_StatusCode := 501, rs_Body := Some ''Method not allowed''\<rparr>"

definition handle_request :: "(bytes \<Rightarrow> string) \<Rightarrow> string \<Rightarrow> Disk \<Rightarrow> Request \<Rightarrow> (Response \<times> Disk) option" where
  "handle_request detect pwd d r =
     (if rq_Method r = ''GET'' then Some (GetHandler detect pwd d r, d)
      else if rq_Method r = ''POST'' then PostHandler pwd d r
      else Some (UnsupportedMethodHandler r, d))"

datatype incoming = Req Request | ConnEOF | Malformed

datatype outgoing = Sent Response | Raw string

datatype conn_status = ConnOpen | ConnClosed | Crashed

text \<open>
  The loop over one connection: what is sent, the disk, the number of connections and how it
  ends. Closing the body of a response that has none is a panic.
\<close>

fun HandleConnection ::
  "(bytes \<Rightarrow> string) \<Rightarrow> string \<Rightarrow> Disk \<Rightarrow> int \<Rightarrow> incoming list \<Rightarrow> outgoing list \<times> Disk \<times> int \<times> conn_status" where
  "HandleConnection detect pwd d conns [] = ([], d, conns, ConnOpen)"
| "HandleConnection detect pwd d conns (ConnEOF # evs) = ([], d, conns - 1, ConnClosed)"
| "HandleConnection detect pwd d conns (Malformed # evs) =
     ([Raw (''HTTP/1.1 400 Bad Request'' @ [CHR 0x0D])], d, conns - 1, ConnClosed)"
| "HandleConnection detect pwd d conns (Req r # evs) =
     (case handle_request detect pwd d r of
        None \<Rightarrow> ([], d, conns, Crashed)
      | Some (response, d1) \<Rightarrow>
          if rs_Body response = None then ([Sent response], d1, conns, Crashed)
          else (case HandleConnection detect pwd d1 conns evs of (outs, d2, c, st) \<Rightarrow> (Sent response # outs, d2, c, st)))"

section \<open>Endings and names\<close>

lemma last_split_append: "c \<in> set s \<Longrightarrow> last (split_on c (a @ s)) = last (split_on c s)"
proof -
  assume "c \<in> set s"
  then obtain x y where s: "s = x @ c # y" by (auto simp: in_set_conv_decomp)
  show ?thesis using split_on_append [of c "a @ x" y] split_on_append [of c x y] by (simp add: s)
qed

definition endings :: "string set" where
  "endings = {''html'', ''txt'', ''gif'', ''jpeg'', ''jpg'', ''css''}"

lemma CheckFileEnding_last: "CheckFileEnding url = (last (split_on CHR ''.'' url), last (split_on CHR ''.'' url) \<in> endings)"
  by (simp add: CheckFileEnding_def Let_def endings_def last_conv_nth)

text \<open>A path starts with a slash, so a valid ending comes after a dot.\<close>

lemma valid_ending_dot:
  assumes "snd (CheckFileEnding (CHR ''/'' # p))"
  shows "CHR ''.'' \<in> set p"
proof (rule ccontr)
  assume "CHR ''.'' \<notin> set p"
  then have "split_on CHR ''.'' (CHR ''/'' # p) = [CHR ''/'' # p]" by (intro split_on_no_sep) simp
  with assms show False by (simp add: CheckFileEnding_last endings_def)
qed

lemma CheckFileEnding_append:
  assumes "snd (CheckFileEnding (CHR ''/'' # p))"
  shows "CheckFileEnding (a @ CHR ''/'' # p) = CheckFileEnding (CHR ''/'' # p)"
  using last_split_append [of "CHR ''.''" "CHR ''/'' # p" a] valid_ending_dot [OF assms] by (simp add: CheckFileEnding_last)

lemma copy_name_dot:
  assumes "CHR ''.'' \<notin> set a"
  shows "copy_name (a @ CHR ''.'' # s) = Some (a @ ''(1).'' @ hd (split_on CHR ''.'' s))"
proof -
  have "split_on CHR ''.'' (a @ CHR ''.'' # s) = a # split_on CHR ''.'' s" by (rule split_on_append_sep [OF assms])
  moreover obtain x xs where "split_on CHR ''.'' s = x # xs" by (cases "split_on CHR ''.'' s") auto
  ultimately show ?thesis by (simp add: copy_name_def)
qed

lemma write_file_exists: "fst (write_file d p c) \<Longrightarrow> os_Exists (snd (write_file d p c)) p"
  by (simp add: os_Exists_def map_of_dfiles_write_same)

lemma GetHandler_file:
  assumes "read_file d (pwd @ CHR ''/'' # p) = Some content" and "snd (CheckFileEnding (CHR ''/'' # p))"
    and "rq_Path r = CHR ''/'' # p"
  shows "\<exists>ct. GetHandler detect pwd d r = (reply 200 content)\<lparr>rs_ContentType := Some ct\<rparr>"
  using assms CheckFileEnding_append [OF assms(2), of pwd]
  by (auto simp: GetHandler_def Let_def os_Stat_def is_dir_def read_file_def os_Open_def ReadAll_def split: prod.splits if_splits)

lemma server_post_get:
  assumes "snd (CheckFileEnding (CHR ''/'' # p))" and "\<not> os_Exists d (pwd @ CHR ''/'' # p)"
    and "fst (write_file d (pwd @ CHR ''/'' # p) body)" and "disk_readable d (pwd @ CHR ''/'' # p)"
  shows "\<exists>d' ct. HandleConnection detect pwd d conns
      [Req \<lparr>rq_Method = ''POST'', rq_Path = CHR ''/'' # p, rq_Body = body\<rparr>,
       Req \<lparr>rq_Method = ''GET'', rq_Path = CHR ''/'' # p, rq_Body = ''''\<rparr>] =
    ([Sent (reply 200 ''OK''), Sent ((reply 200 body)\<lparr>rs_ContentType := Some ct\<rparr>)], d', conns, ConnOpen)"
proof -
  let ?url = "pwd @ CHR ''/'' # p" and ?d = "snd (write_file d (pwd @ CHR ''/'' # p) body)"
  have post: "PostHandler pwd d \<lparr>rq_Method = ''POST'', rq_Path = CHR ''/'' # p, rq_Body = body\<rparr> = Some (reply 200 ''OK'', ?d)"
    using assms(1-3) by (cases "write_file d ?url body") (auto simp: PostHandler_def Server_DownloadFile_def download_target_def split: prod.splits)
  have "read_file ?d ?url = Some body" by (rule disk.rd_wr_same [OF assms(3,4)])
  then obtain ct where "GetHandler detect pwd ?d \<lparr>rq_Method = ''GET'', rq_Path = CHR ''/'' # p, rq_Body = ''''\<rparr> =
      (reply 200 body)\<lparr>rs_ContentType := Some ct\<rparr>"
    using GetHandler_file [OF _ assms(1)] by fastforce
  with post show ?thesis by (auto simp: handle_request_def reply_def)
qed

text \<open>
  What is uploaded is served. After a POST to a new path with an accepted ending, on a disk
  that takes the file, a GET for the same path on the same connection is answered with status
  200 and the same content.
\<close>

theorem post_then_get:
  assumes "snd (CheckFileEnding (CHR ''/'' # p))" and "\<not> os_Exists d (pwd @ CHR ''/'' # p)"
    and "fst (write_file d (pwd @ CHR ''/'' # p) body)" and "disk_readable d (pwd @ CHR ''/'' # p)"
  shows "\<exists>d' ct. HandleConnection detect pwd d conns
      [Req \<lparr>rq_Method = ''POST'', rq_Path = CHR ''/'' # p, rq_Body = body\<rparr>,
       Req \<lparr>rq_Method = ''GET'', rq_Path = CHR ''/'' # p, rq_Body = ''''\<rparr>] =
    ([Sent (reply 200 ''OK''), Sent ((reply 200 body)\<lparr>rs_ContentType := Some ct\<rparr>)], d', conns, ConnOpen)"
  by (rule server_post_get [OF assms])

text \<open>
  An upload that cannot be written kills the server. The handler of a failed POST sets no body,
  and the connection loop closes the body without a check, so the process ends in a nil
  dereference: one request for a directory that does not exist is enough.
\<close>

theorem failed_upload_kills_server:
  assumes "snd (CheckFileEnding (rq_Path r))" and "rq_Method r = ''POST''"
    and "\<not> os_Exists d (pwd @ rq_Path r)" and "\<not> fst (write_file d (pwd @ rq_Path r) (rq_Body r))"
  shows "\<exists>outs d'. HandleConnection detect pwd d conns (Req r # evs) = (outs, d', conns, Crashed)"
  using assms
  by (cases "write_file d (pwd @ rq_Path r) (rq_Body r)")
    (auto simp: handle_request_def PostHandler_def Server_DownloadFile_def download_target_def new_Response_def split: prod.splits)

lemma copy_differs: "a @ ''(1).'' @ x \<noteq> a @ CHR ''.'' # y"
  by simp

lemma PostHandler_existing:
  assumes "snd (CheckFileEnding path)" and "pwd @ path = a @ CHR ''.'' # s" and "CHR ''.'' \<notin> set a"
    and "os_Exists d (pwd @ path)" and "fst (write_file d (a @ ''(1).'' @ hd (split_on CHR ''.'' s)) body)"
  shows "PostHandler pwd d \<lparr>rq_Method = ''POST'', rq_Path = path, rq_Body = body\<rparr> =
    Some (reply 200 ''OK'', snd (write_file d (a @ ''(1).'' @ hd (split_on CHR ''.'' s)) body))"
  using assms copy_name_dot [OF assms(3), of s]
  by (cases "write_file d (a @ ''(1).'' @ hd (split_on CHR ''.'' s)) body")
    (auto simp: PostHandler_def Server_DownloadFile_def download_target_def split: prod.splits)

text \<open>
  An acknowledged upload can be lost. When the path exists, an upload goes to the name made of
  the text before the first dot of the whole path, \<^verbatim>\<open>(1).\<close> and the text up to the next
  dot; that name is taken without a look whether it exists. So of two such uploads, both
  answered with 200, only the second is kept, and with another dot in the path (also in the
  working directory) the copy is not even beside the original or loses its ending.
\<close>

theorem repeated_upload_lost:
  assumes "snd (CheckFileEnding path)" and "pwd @ path = a @ CHR ''.'' # s" and "CHR ''.'' \<notin> set a"
    and "os_Exists d (pwd @ path)" and "t = a @ ''(1).'' @ hd (split_on CHR ''.'' s)"
    and "fst (write_file d t b1)" and "fst (write_file d t b2)" and "disk_readable d t"
  shows "\<exists>d'. HandleConnection detect pwd d conns
      [Req \<lparr>rq_Method = ''POST'', rq_Path = path, rq_Body = b1\<rparr>, Req \<lparr>rq_Method = ''POST'', rq_Path = path, rq_Body = b2\<rparr>] =
        ([Sent (reply 200 ''OK''), Sent (reply 200 ''OK'')], d', conns, ConnOpen) \<and>
      read_file d' t = Some b2 \<and> (\<forall>q. q \<noteq> t \<longrightarrow> read_file d' q = read_file d q)"
proof -
  let ?d1 = "snd (write_file d t b1)"
  let ?d2 = "snd (write_file ?d1 t b2)"
  have t: "t \<noteq> pwd @ path" using copy_differs unfolding assms(2,5) .
  have ex1: "os_Exists ?d1 (pwd @ path)"
    using assms(4) t by (simp add: os_Exists_def map_of_dfiles_write_other [OF not_sym [OF t]])
  have w2: "fst (write_file ?d1 t b2)" using assms(7) by (simp add: write_file_ok_iff)
  have "PostHandler pwd d \<lparr>rq_Method = ''POST'', rq_Path = path, rq_Body = b1\<rparr> = Some (reply 200 ''OK'', ?d1)"
    using PostHandler_existing [OF assms(1-4)] assms(5,6) by simp
  moreover have "PostHandler pwd ?d1 \<lparr>rq_Method = ''POST'', rq_Path = path, rq_Body = b2\<rparr> = Some (reply 200 ''OK'', ?d2)"
    using PostHandler_existing [OF assms(1-3) ex1] assms(5) w2 by simp
  moreover have "read_file ?d2 t = Some b2"
    using disk.rd_wr_same [OF w2] assms(8) disk.wr_readable by simp
  moreover have "read_file ?d2 q = read_file d q" if "q \<noteq> t" for q using that by (simp add: disk.rd_wr_other)
  ultimately show ?thesis by (simp add: handle_request_def reply_def)
qed

end
