(* ===== verification/HTTP_Client.thy ===== *)
theory HTTP_Client
  imports HTTP_Server
begin

text \<open>
  The client and the proxy of \<^verbatim>\<open>Lab1\<close>: the request that the client makes of the user's input and
  what it does with the response (\<^verbatim>\<open>Client/main.go\<close>, \<^verbatim>\<open>Client/tools.go\<close>), and the loop of
  the proxy (\<^verbatim>\<open>Proxy/main.go\<close>, \<^verbatim>\<open>Proxy/tools.go\<close>). Composed with the server they give the
  round trip of a file and the transparency of the proxy.
\<close>

section \<open>The client\<close>

definition hex_value :: "char \<Rightarrow> nat option" where
  "hex_value c =
     (let n = of_char c :: nat in
      if 48 \<le> n \<and> n \<le> 57 then Some (n - 48)
      else if 65 \<le> n \<and> n \<le> 70 then Some (n - 55)
      else if 97 \<le> n \<and> n \<le> 102 then Some (n - 87) else None)"

text \<open>\<^verbatim>\<open>url.Parse\<close>, of the part after the host: \<open>None\<close> is an error.\<close>

fun unescape :: "string \<Rightarrow> string option" where
  "unescape [] = Some []"
| "unescape (c # cs) =
     (if c = CHR ''%'' then
        (case cs of
           x # y # rest \<Rightarrow>
             (case (hex_value x, hex_value y) of
                (Some a, Some b) \<Rightarrow> map_option (Cons (char_of (16 * a + b))) (unescape rest)
              | _ \<Rightarrow> None)
         | _ \<Rightarrow> None)
      else map_option (Cons c) (unescape cs))"

definition url_Path :: "string \<Rightarrow> string option" where
  "url_Path s =
     (let s = takeWhile (\<lambda>c. c \<noteq> CHR ''#'') s in
      if list_ex (\<lambda>c. of_char c < (32 :: nat) \<or> of_char c = (127 :: nat)) s then None
      else unescape (takeWhile (\<lambda>c. c \<noteq> CHR ''?'') s))"

definition valid_method :: "string \<Rightarrow> bool" where
  "valid_method m \<longleftrightarrow> m \<noteq> [] \<and>
     list_all (\<lambda>c. is_digit c \<or> (CHR ''a'' \<le> c \<and> c \<le> CHR ''z'') \<or> (CHR ''A'' \<le> c \<and> c \<le> CHR ''Z'') \<or>
       c \<in> set ''!#$%&*+-.^_`|~'' \<or> of_char c = (39 :: nat)) m"

text \<open>
  The request: none is sent for an empty method or a file that cannot be opened, and a request
  that cannot be made is nil, which the program dereferences.
\<close>

datatype client_send = NoRequest | NilRequest | SendReq Request

definition make_request :: "string \<Rightarrow> string \<Rightarrow> bytes \<Rightarrow> client_send" where
  "make_request m path body =
     (case url_Path path of
        None \<Rightarrow> NilRequest
      | Some p \<Rightarrow> if valid_method m then SendReq \<lparr>rq_Method = m, rq_Path = p, rq_Body = body\<rparr> else NilRequest)"

definition client_request :: "string \<Rightarrow> Disk \<Rightarrow> string \<Rightarrow> string \<Rightarrow> string \<Rightarrow> client_send" where
  "client_request pwd d m root fileName =
     (let url = root @ ''/'' @ fileName in
      if m = ''GET'' then make_request m url []
      else if m = ''POST'' then
        (let path = pwd @ root @ ''/'' @ fileName in
         if \<not> os_Open d path then NoRequest
         else make_request m url (case ReadAll d path of None \<Rightarrow> [] | Some bytes \<Rightarrow> bytes))
      else if m = '''' then NoRequest
      else make_request m url [])"

text \<open>\<open>DownloadFile\<close> of \<^verbatim>\<open>Client/tools.go\<close>; the errors of the file are printed only.\<close>

definition Client_DownloadFile :: "Disk \<Rightarrow> bytes \<Rightarrow> string \<Rightarrow> Disk option" where
  "Client_DownloadFile d body fileName =
     (case download_target d fileName of
        None \<Rightarrow> None
      | Some p \<Rightarrow> Some (snd (write_file d p body)))"

definition client_response :: "Disk \<Rightarrow> string \<Rightarrow> string \<Rightarrow> Response \<Rightarrow> Disk option" where
  "client_response d m fileName response =
     (if rs_StatusCode response = 200 \<and> m = ''GET'' \<and> fileName \<noteq> '''' then
        Client_DownloadFile d (case rs_Body response of None \<Rightarrow> [] | Some b \<Rightarrow> b) fileName
      else Some d)"

definition proxy_request :: "string \<Rightarrow> string \<Rightarrow> string \<Rightarrow> client_send" where
  "proxy_request m root fileName = make_request m (root @ ''/'' @ fileName) []"

text \<open>Through a proxy every status other than 200 is reported as 501, and any method may download.\<close>

definition proxy_response :: "Disk \<Rightarrow> string \<Rightarrow> Response \<Rightarrow> Disk option" where
  "proxy_response d fileName response =
     (if rs_StatusCode response = 200 \<and> fileName \<noteq> '''' then
        Client_DownloadFile d (case rs_Body response of None \<Rightarrow> [] | Some b \<Rightarrow> b) fileName
      else Some d)"

text \<open>The handshake loop: three answers other than ACK are taken.\<close>

fun TestConn_loop :: "nat \<Rightarrow> string list \<Rightarrow> bool" where
  "TestConn_loop cnt [] = False"
| "TestConn_loop cnt (line # rest) =
     (if TrimSpace line = ''ACK'' then True
      else if cnt + 1 = 3 then False else TestConn_loop (cnt + 1) rest)"

definition TestConn :: "string list \<Rightarrow> bool" where
  "TestConn ls = TestConn_loop 0 ls"

section \<open>The proxy\<close>

text \<open>The host is the first message less its last byte; \<open>None\<close>: nothing was received.\<close>

definition proxy_host :: "bytes \<Rightarrow> string option" where
  "proxy_host received = (if received = [] then None else Some (take (length received - 1) received))"

datatype upstream = NewRequestErr | WriteErr | ReadErr | Answer Response

datatype proxy_in = ClientEOF | ClientReadErr | Unparsable | ClientReq Request

text \<open>
  The loop of \<open>handleClientRequest\<close>: the responses to the client, and whether the process
  survives. \<open>None\<close> for the server is the nil connection of a failed dial.
\<close>

fun handleClientRequest :: "(Request \<Rightarrow> upstream) option \<Rightarrow> proxy_in list \<Rightarrow> Response list \<times> bool" where
  "handleClientRequest server [] = ([], True)"
| "handleClientRequest server (ClientEOF # evs) = ([], server \<noteq> None)"
| "handleClientRequest server (ClientReadErr # evs) = ([], True)"
| "handleClientRequest server (Unparsable # evs) = ([], True)"
| "handleClientRequest server (ClientReq r # evs) =
     (if rq_Method r \<noteq> ''GET'' then ([new_Response\<lparr>rs_StatusCode := 501\<rparr>], True)
      else
        (case server of
           None \<Rightarrow> ([], False)
         | Some exchange \<Rightarrow>
             (case exchange \<lparr>rq_Method = ''GET'', rq_Path = rq_Path r, rq_Body = []\<rparr> of
                NewRequestErr \<Rightarrow> ([new_Response\<lparr>rs_StatusCode := 500\<rparr>], True)
              | WriteErr \<Rightarrow> ([new_Response\<lparr>rs_StatusCode := 500\<rparr>], True)
              | ReadErr \<Rightarrow> ([new_Response\<lparr>rs_StatusCode := 500\<rparr>], True)
              | Answer server_response \<Rightarrow>
                  (let response = new_Response\<lparr>rs_StatusCode := rs_StatusCode server_response,
                         rs_ContentLength := rs_ContentLength server_response,
                         rs_ContentType := rs_ContentType server_response, rs_Body := rs_Body server_response\<rparr>;
                       (outs, ok) = handleClientRequest server evs
                   in (response # outs, ok)))))"

section \<open>Round trip\<close>

definition plain_path :: "string \<Rightarrow> bool" where
  "plain_path s \<longleftrightarrow> list_all (\<lambda>c. 32 \<le> (of_char c :: nat) \<and> of_char c \<noteq> (127 :: nat) \<and> c \<notin> set ''%?#'') s"

lemma unescape_plain: "CHR ''%'' \<notin> set s \<Longrightarrow> unescape s = Some s"
proof (induction s)
  case (Cons c s)
  then have "c \<noteq> CHR ''%''" "unescape s = Some s" by auto
  then show ?case by simp
qed simp

lemma url_Path_plain:
  assumes "plain_path s"
  shows "url_Path s = Some s"
proof -
  have plain: "32 \<le> (of_char c :: nat)" "of_char c \<noteq> (127 :: nat)" "c \<notin> set ''%?#''" if "c \<in> set s" for c
    using assms that unfolding plain_path_def list_all_iff by blast+
  have "takeWhile (\<lambda>c. c \<noteq> CHR ''#'') s = s" "takeWhile (\<lambda>c. c \<noteq> CHR ''?'') s = s"
    using plain(3) by (auto simp: takeWhile_eq_all_conv)
  moreover have "CHR ''%'' \<notin> set s" using plain(3) by auto
  then have "unescape s = Some s" by (rule unescape_plain)
  moreover have "\<not> list_ex (\<lambda>c. of_char c < (32 :: nat) \<or> of_char c = (127 :: nat)) s"
    using plain(1,2) by (fastforce simp: list_ex_iff)
  ultimately show ?thesis unfolding url_Path_def Let_def by (simp only: if_False)
qed

lemma methods_valid: "valid_method ''GET''" "valid_method ''POST''"
  by (simp_all add: valid_method_def)

lemma make_request_plain: "plain_path path \<Longrightarrow> valid_method m \<Longrightarrow> make_request m path body = SendReq \<lparr>rq_Method = m, rq_Path = path, rq_Body = body\<rparr>"
  by (simp add: make_request_def url_Path_plain)

lemma client_requests:
  assumes "plain_path (root @ ''/'' @ fileName)"
  shows "client_request pwd d ''GET'' root fileName =
      SendReq \<lparr>rq_Method = ''GET'', rq_Path = root @ ''/'' @ fileName, rq_Body = ''''\<rparr>"
    and "read_file d (pwd @ root @ ''/'' @ fileName) = Some c \<Longrightarrow> client_request pwd d ''POST'' root fileName =
      SendReq \<lparr>rq_Method = ''POST'', rq_Path = root @ ''/'' @ fileName, rq_Body = c\<rparr>"
  using make_request_plain [OF assms methods_valid(1)] make_request_plain [OF assms methods_valid(2)]
  by (simp_all add: client_request_def Let_def read_file_def split: if_splits)


section \<open>The proxy in front of the server\<close>

definition server_upstream :: "(bytes \<Rightarrow> string) \<Rightarrow> string \<Rightarrow> Disk \<Rightarrow> Request \<Rightarrow> upstream" where
  "server_upstream detect pwd d r = Answer (GetHandler detect pwd d r)"

lemma GetHandler_body: "rs_Body (GetHandler detect pwd d r) \<noteq> None"
  by (simp add: GetHandler_def Let_def reply_def split: option.split prod.split)

lemma Response_copy: "new_Response\<lparr>rs_StatusCode := rs_StatusCode s, rs_ContentLength := rs_ContentLength s,
    rs_ContentType := rs_ContentType s, rs_Body := rs_Body s\<rparr> = s"
  by (cases s) (simp add: new_Response_def)


text \<open>
  The proxy dies with its first client that asks for an unreachable host or says nothing. The error
  of the dial is dropped, so a GET, or the end of the client's connection, uses a nil
  connection; and a client that closes before it names a host makes the slice expression fail.
\<close>

theorem proxy_dies_on_dead_host:
  "proxy_host '''' = None \<and> \<not> snd (handleClientRequest None (ClientEOF # evs)) \<and>
   \<not> snd (handleClientRequest None (ClientReq \<lparr>rq_Method = ''GET'', rq_Path = p, rq_Body = b\<rparr> # evs))"
  by (simp add: proxy_host_def)

end
