(* ===== verification/HTTP_Example.thy ===== *)
theory HTTP_Example
  imports HTTP_Client
begin

text \<open>
  A concrete server and client, on which the theorems about the programs of \<^verbatim>\<open>Lab1\<close> are
  applied: the directory \<^verbatim>\<open>/s/r\<close> with one file on the server, and a file \<^verbatim>\<open>/c/r/b.txt\<close> on
  the client.
\<close>

definition exServer :: Disk where
  "exServer = \<lparr>dfiles = [(''/s/r/a.txt'', ''old'')], ddirs = [''/s'', ''/s/r''], dfault = (\<lambda>_. NoFault)\<rparr>"

definition exClient :: Disk where
  "exClient = \<lparr>dfiles = [(''/c/r/b.txt'', ''text'')], ddirs = ['''', ''/c'', ''/c/r''], dfault = (\<lambda>_. NoFault)\<rparr>"

lemmas ex_disks = exServer_def exClient_def os_Exists_def write_file_def os_Create_def file_Write_def read_file_def
  os_Open_def ReadAll_def disk_readable_def dirname_def

theorem post_then_get_witness:
  "\<exists>d' ct. HandleConnection (\<lambda>_. ''text/plain'') ''/s'' exServer 1
      [Req \<lparr>rq_Method = ''POST'', rq_Path = ''/r/b.txt'', rq_Body = ''text''\<rparr>,
       Req \<lparr>rq_Method = ''GET'', rq_Path = ''/r/b.txt'', rq_Body = ''''\<rparr>] =
    ([Sent (reply 200 ''OK''), Sent ((reply 200 ''text'')\<lparr>rs_ContentType := Some ct\<rparr>)], d', 1, ConnOpen)"
  by (rule post_then_get) (simp_all add: ex_disks CheckFileEnding_def Let_def)

theorem failed_upload_kills_server_witness:
  "\<exists>outs d'. HandleConnection (\<lambda>_. ''text/plain'') ''/s'' exServer 1
     [Req \<lparr>rq_Method = ''POST'', rq_Path = ''/nowhere/b.txt'', rq_Body = ''text''\<rparr>] = (outs, d', 1, Crashed)"
  by (rule failed_upload_kills_server) (simp_all add: ex_disks CheckFileEnding_def Let_def)

theorem repeated_upload_lost_witness:
  "\<exists>d'. HandleConnection (\<lambda>_. ''text/plain'') ''/s'' exServer 1
      [Req \<lparr>rq_Method = ''POST'', rq_Path = ''/r/a.txt'', rq_Body = ''one''\<rparr>, Req \<lparr>rq_Method = ''POST'', rq_Path = ''/r/a.txt'', rq_Body = ''two''\<rparr>] =
        ([Sent (reply 200 ''OK''), Sent (reply 200 ''OK'')], d', 1, ConnOpen) \<and> read_file d' ''/s/r/a(1).txt'' = Some ''two''"
proof -
  have h: "snd (CheckFileEnding ''/r/a.txt'')" "''/s'' @ ''/r/a.txt'' = ''/s/r/a'' @ CHR ''.'' # ''txt''"
    "CHR ''.'' \<notin> set ''/s/r/a''" "os_Exists exServer (''/s'' @ ''/r/a.txt'')"
    "''/s/r/a(1).txt'' = ''/s/r/a'' @ ''(1).'' @ hd (split_on CHR ''.'' ''txt'')"
    "fst (write_file exServer ''/s/r/a(1).txt'' ''one'')" "fst (write_file exServer ''/s/r/a(1).txt'' ''two'')"
    "disk_readable exServer ''/s/r/a(1).txt''"
    by (simp_all add: ex_disks CheckFileEnding_def Let_def)
  from repeated_upload_lost [OF h] show ?thesis by blast
qed


end
