(* ===== verification/Labrpc_Network.thy ===== *)
theory Labrpc_Network
  imports Go_Prelude "HOL-Library.Word"
begin

text \<open>
  The simulated network of \<^verbatim>\<open>Lab3/src/labrpc/labrpc.go\<close>. Every call is a client, a
  goroutine of the network (\<open>processReq\<close>) and a goroutine of the server (\<open>dispatch\<close>); the
  model keeps the program point of each of the three for every call and interleaves them with
  each other and with the operations of the test that owns the network. A critical section
  of the source is one step. Sleeps and random numbers are choices of the scheduler, and the run
  of a handler is one step. The theorems: a handler runs at most once per call and every
  successful call returns what its run computed; a server that was deleted does not answer; every
  call can return; a call over a reliable and untouched connection does not fail.
\<close>

section \<open>Messages and services\<close>

text \<open>A value of an interface type; \<open>None\<close> is nil.\<close>

type_synonym 'n iface = "'n option"

datatype goType = Named string | Ptr goType

record 'n reqMsg =
  req_endname :: "'n iface"
  req_svcMeth :: string
  req_argsType :: goType
  req_args :: bytes

record replyMsg =
  rep_ok :: bool
  rep_reply :: bytes

record 'n ClientEnd =
  ce_endname :: "'n iface"

text \<open>
  The encoder: \<open>gobDecode\<close> reads bytes into a variable with the given content, and \<open>None\<close>
  is the error that both operations may return.
\<close>

record 'v gob =
  gobEncode :: "'v \<Rightarrow> bytes option"
  gobDecode :: "'v \<Rightarrow> bytes \<Rightarrow> 'v option"
  TypeOf :: "'v \<Rightarrow> goType"
  ZeroOf :: "goType \<Rightarrow> 'v"

text \<open>
  A method of the receiver: the types of its parameters, the receiver first, and what it does with
  the receiver, the argument and the variable that the reply points to.
\<close>

record ('v, 'o) Method =
  m_Name :: string
  m_PkgPath :: string
  m_In :: "goType list"
  m_NumOut :: nat
  m_Func :: "'o \<Rightarrow> 'v \<Rightarrow> 'v \<Rightarrow> 'o \<times> 'v"

record ('v, 'o) Service =
  svc_name :: string
  rcvr :: nat
  svc_methods :: "string \<Rightarrow> ('v, 'o) Method option"

record ('v, 'o) Server =
  services :: "string \<Rightarrow> ('v, 'o) Service option"
  srv_count :: "64 word"

definition suitable_handler :: "('v, 'o) Method \<Rightarrow> bool" where
  "suitable_handler m \<longleftrightarrow>
     \<not> (m_PkgPath m \<noteq> '''' \<or> length (m_In m) \<noteq> 3 \<or> (case m_In m ! 2 of Ptr _ \<Rightarrow> False | Named _ \<Rightarrow> True) \<or>
        m_NumOut m \<noteq> 0)"

text \<open>\<open>typ_methods\<close> is the method set that reflection finds for the type of the receiver.\<close>

definition MakeService :: "string \<Rightarrow> nat \<Rightarrow> ('v, 'o) Method list \<Rightarrow> ('v, 'o) Service" where
  "MakeService typ_name receiver typ_methods =
     \<lparr>svc_name = typ_name, rcvr = receiver,
      svc_methods = foldl (\<lambda>ms m. if suitable_handler m then ms(m_Name m \<mapsto> m) else ms) (\<lambda>_. None) typ_methods\<rparr>"

definition MakeServer :: "('v, 'o) Server" where
  "MakeServer = \<lparr>services = (\<lambda>_. None), srv_count = 0\<rparr>"

definition AddService :: "('v, 'o) Service \<Rightarrow> ('v, 'o) Server \<Rightarrow> ('v, 'o) Server" where
  "AddService svc rs = rs\<lparr>services := (services rs)(svc_name svc \<mapsto> svc)\<rparr>"

definition Server_GetCount :: "('v, 'o) Server \<Rightarrow> int" where
  "Server_GetCount rs = sint (srv_count rs)"

text \<open>\<open>None\<close> is the result \<open>-1\<close> of \<open>strings.LastIndex\<close>.\<close>

definition LastIndex :: "string \<Rightarrow> char \<Rightarrow> nat option" where
  "LastIndex s c = (if c \<in> set s then Some (length s - 1 - length (takeWhile (\<lambda>x. x \<noteq> c) (rev s))) else None)"

text \<open>
  \<open>Inl\<close> is the end of the process, by \<open>log.Fatalf\<close> or a panic. Without a dot the source
  slices up to index \<open>-1\<close>.
\<close>

definition Server_dispatch ::
  "('v, 'o) Server \<Rightarrow> 'n reqMsg \<Rightarrow> (string + ('v, 'o) Service \<times> string) \<times> ('v, 'o) Server" where
  "Server_dispatch rs req =
     (let rs = rs\<lparr>srv_count := srv_count rs + 1\<rparr> in
      (case LastIndex (req_svcMeth req) CHR ''.'' of
         None \<Rightarrow> Inl ''slice bounds out of range''
       | Some dot \<Rightarrow>
           let serviceName = take dot (req_svcMeth req); methodName = drop (dot + 1) (req_svcMeth req) in
           (case services rs serviceName of
              None \<Rightarrow> Inl ''unknown service''
            | Some service \<Rightarrow> Inr (service, methodName)), rs))"

text \<open>
  A decoding error is ignored and leaves the zero value, an encoding error is ignored and
  leaves no bytes; an argument of another type than the parameter makes the call panic.
\<close>

definition Service_dispatch ::
  "'v gob \<Rightarrow> ('v, 'o) Service \<Rightarrow> string \<Rightarrow> 'n reqMsg \<Rightarrow> (nat \<Rightarrow> 'o) \<Rightarrow> string + (nat \<Rightarrow> 'o) \<times> replyMsg" where
  "Service_dispatch G svc methname req objs =
     (case svc_methods svc methname of
        None \<Rightarrow> Inl ''unknown method''
      | Some m \<Rightarrow>
          let zero = ZeroOf G (req_argsType req);
              arg = (case gobDecode G zero (req_args req) of None \<Rightarrow> zero | Some v \<Rightarrow> v)
          in (case m_In m of
                [_, argT, Ptr replyType] \<Rightarrow>
                  if argT \<noteq> req_argsType req then Inl ''reflect: Call using the wrong type''
                  else
                    (case m_Func m (objs (rcvr svc)) arg (ZeroOf G replyType) of
                       (ob, reply) \<Rightarrow>
                         Inr (objs(rcvr svc := ob),
                              \<lparr>rep_ok = True, rep_reply = (case gobEncode G reply of None \<Rightarrow> [] | Some b \<Rightarrow> b)\<rparr>))
              | _ \<Rightarrow> Inl ''reflect: not a handler''))"

section \<open>The network\<close>

text \<open>
  Maps are read with the zero value for a missing key: no end is enabled or connected, no server
  is there. A server is known by its pointer.
\<close>

record 'n Network =
  reliable :: bool
  longDelays :: bool
  longReordering :: bool
  ends :: "'n iface \<Rightarrow> 'n ClientEnd option"
  enabled :: "'n iface \<Rightarrow> bool"
  servers :: "'n iface \<Rightarrow> nat option"
  connections :: "'n iface \<Rightarrow> 'n iface"
  done_closed :: bool
  net_count :: "32 word"
  net_bytes :: "64 word"

definition MakeNetwork :: "'n Network" where
  "MakeNetwork =
     \<lparr>reliable = True, longDelays = False, longReordering = False, ends = (\<lambda>_. None), enabled = (\<lambda>_. False),
      servers = (\<lambda>_. None), connections = (\<lambda>_. None), done_closed = False, net_count = 0, net_bytes = 0\<rparr>"

text \<open>Closing a closed channel panics.\<close>

definition Cleanup :: "'n Network \<Rightarrow> string + 'n Network" where
  "Cleanup rn = (if done_closed rn then Inl ''close of closed channel'' else Inr (rn\<lparr>done_closed := True\<rparr>))"

definition Reliable :: "bool \<Rightarrow> 'n Network \<Rightarrow> 'n Network" where
  "Reliable yes rn = rn\<lparr>reliable := yes\<rparr>"

definition LongReordering :: "bool \<Rightarrow> 'n Network \<Rightarrow> 'n Network" where
  "LongReordering yes rn = rn\<lparr>longReordering := yes\<rparr>"

definition LongDelays :: "bool \<Rightarrow> 'n Network \<Rightarrow> 'n Network" where
  "LongDelays yes rn = rn\<lparr>longDelays := yes\<rparr>"

definition MakeEnd :: "'n iface \<Rightarrow> 'n Network \<Rightarrow> string + 'n ClientEnd \<times> 'n Network" where
  "MakeEnd endname rn =
     (if ends rn endname \<noteq> None then Inl ''MakeEnd: already exists''
      else
        let e = \<lparr>ce_endname = endname\<rparr> in
        Inr (e, rn\<lparr>ends := (ends rn)(endname \<mapsto> e), enabled := (enabled rn)(endname := False),
                   connections := (connections rn)(endname := None)\<rparr>))"

definition AddServer :: "'n iface \<Rightarrow> nat \<Rightarrow> 'n Network \<Rightarrow> 'n Network" where
  "AddServer servername rs rn = rn\<lparr>servers := (servers rn)(servername := Some rs)\<rparr>"

definition DeleteServer :: "'n iface \<Rightarrow> 'n Network \<Rightarrow> 'n Network" where
  "DeleteServer servername rn = rn\<lparr>servers := (servers rn)(servername := None)\<rparr>"

definition Connect :: "'n iface \<Rightarrow> 'n iface \<Rightarrow> 'n Network \<Rightarrow> 'n Network" where
  "Connect endname servername rn = rn\<lparr>connections := (connections rn)(endname := servername)\<rparr>"

definition Enable :: "'n iface \<Rightarrow> bool \<Rightarrow> 'n Network \<Rightarrow> 'n Network" where
  "Enable endname yes rn = rn\<lparr>enabled := (enabled rn)(endname := yes)\<rparr>"

text \<open>A server that is not there is a nil pointer, and taking its lock panics.\<close>

definition GetCount :: "'n iface \<Rightarrow> 'n Network \<Rightarrow> ('v, 'o) Server list \<Rightarrow> string + int" where
  "GetCount servername rn srvs =
     (case servers rn servername of
        None \<Rightarrow> Inl ''nil pointer dereference''
      | Some svr \<Rightarrow> Inr (Server_GetCount (srvs ! svr)))"

definition GetTotalCount :: "'n Network \<Rightarrow> int" where
  "GetTotalCount rn = sint (net_count rn)"

definition GetTotalBytes :: "'n Network \<Rightarrow> int" where
  "GetTotalBytes rn = sint (net_bytes rn)"

record 'n endInfo =
  ei_enabled :: bool
  ei_servername :: "'n iface"
  ei_server :: "nat option"
  ei_reliable :: bool
  ei_longreordering :: bool

definition readEndnameInfo :: "'n Network \<Rightarrow> 'n iface \<Rightarrow> 'n endInfo" where
  "readEndnameInfo rn endname =
     (let servername = connections rn endname in
      \<lparr>ei_enabled = enabled rn endname, ei_servername = servername,
       ei_server = (if servername \<noteq> None then servers rn servername else None),
       ei_reliable = reliable rn, ei_longreordering = longReordering rn\<rparr>)"

definition isServerDead :: "'n Network \<Rightarrow> 'n iface \<Rightarrow> 'n iface \<Rightarrow> nat option \<Rightarrow> bool" where
  "isServerDead rn endname servername server \<longleftrightarrow> \<not> enabled rn endname \<or> servers rn servername \<noteq> server"

section \<open>The goroutine of a request\<close>

text \<open>
  The program points of \<open>processReq\<close> between its critical sections: not accepted by the
  network yet, started, before the decision to drop the request, in the loop that waits for the
  handler, after the loop with the reply or without one, a timer pending, about to send on the reply
  channel, finished.
\<close>

datatype 'n procStage =
    Unsent
  | Started
  | Chosen "'n endInfo"
  | is_Polling: Polling "'n endInfo"
  | LeftLoop "'n endInfo" "replyMsg option"
  | FailTimer
  | ReplyTimer replyMsg
  | SendingFail
  | SendingReply replyMsg
  | Sent

definition processReq_begin :: "'n Network \<Rightarrow> 'n reqMsg \<Rightarrow> 'n procStage" where
  "processReq_begin rn req =
     (let i = readEndnameInfo rn (req_endname req) in
      if ei_enabled i \<and> ei_servername i \<noteq> None \<and> ei_server i \<noteq> None then Chosen i else FailTimer)"

definition processReq_drop :: "'n endInfo \<Rightarrow> nat \<Rightarrow> 'n procStage" where
  "processReq_drop i rnd = (if \<not> ei_reliable i \<and> rnd mod 1000 < 100 then SendingFail else Polling i)"

definition processReq_poll :: "'n Network \<Rightarrow> 'n reqMsg \<Rightarrow> 'n endInfo \<Rightarrow> 'n procStage" where
  "processReq_poll rn req i =
     (if isServerDead rn (req_endname req) (ei_servername i) (ei_server i) then LeftLoop i None else Polling i)"

definition processReq_finish ::
  "'n Network \<Rightarrow> 'n reqMsg \<Rightarrow> 'n endInfo \<Rightarrow> replyMsg option \<Rightarrow> nat \<Rightarrow> nat \<Rightarrow> 'n procStage" where
  "processReq_finish rn req i result rnd1 rnd2 =
     (case result of
        None \<Rightarrow> SendingFail
      | Some reply \<Rightarrow>
          if isServerDead rn (req_endname req) (ei_servername i) (ei_server i) then SendingFail
          else if \<not> ei_reliable i \<and> rnd1 mod 1000 < 100 then SendingFail
          else if ei_longreordering i \<and> rnd2 mod 900 < 600 then ReplyTimer reply
          else SendingReply reply)"

section \<open>Calls\<close>

text \<open>
  The goroutine that runs the handler: not started, started on a server, with the service and
  the method found, with its reply on offer, and with its reply taken.
\<close>

datatype ('v, 'o) handlerStage =
    NoHandler
  | Undispatched nat
  | Dispatched "('v, 'o) Service" string
  | Offering replyMsg
  | Taken replyMsg

text \<open>The client: at the send of the request, at the receive of the reply, or back with a result.\<close>

datatype clientStage = AtSend | AtReceive | CallReturned bool

text \<open>One call, with the content of the variable that the caller passes for the reply.\<close>

record ('n, 'v, 'o) rpc =
  rpc_req :: "'n reqMsg"
  rpc_var :: 'v
  client :: clientStage
  proc :: "'n procStage"
  handler :: "('v, 'o) handlerStage"

text \<open>
  The whole system. Pointers to servers are indices; \<open>router\<close> says that the goroutine that
  accepts requests runs, \<open>died\<close> that the process ended. \<open>execs\<close> is a history variable: the
  handler runs so far, with call, service, method and reply.
\<close>

record ('n, 'v, 'o) rpcSystem =
  net :: "'n Network"
  srvs :: "('v, 'o) Server list"
  objs :: "nat \<Rightarrow> 'o"
  rpcs :: "('n, 'v, 'o) rpc list"
  router :: bool
  died :: "string option"
  execs :: "(nat \<times> ('v, 'o) Service \<times> string \<times> replyMsg) list"

definition upd_rpc ::
  "nat \<Rightarrow> (('n, 'v, 'o) rpc \<Rightarrow> ('n, 'v, 'o) rpc) \<Rightarrow> ('n, 'v, 'o) rpcSystem \<Rightarrow> ('n, 'v, 'o) rpcSystem" where
  "upd_rpc k f s = s\<lparr>rpcs := (rpcs s)[k := f (rpcs s ! k)]\<rparr>"

definition Call_begin ::
  "'v gob \<Rightarrow> 'n ClientEnd \<Rightarrow> string \<Rightarrow> 'v \<Rightarrow> 'v \<Rightarrow> ('n, 'v, 'o) rpcSystem \<Rightarrow> ('n, 'v, 'o) rpcSystem" where
  "Call_begin G e svcMeth arg reply s =
     (case gobEncode G arg of
        None \<Rightarrow> s\<lparr>died := Some ''panic: encode''\<rparr>
      | Some b \<Rightarrow>
          s\<lparr>rpcs := rpcs s @
             [\<lparr>rpc_req = \<lparr>req_endname = ce_endname e, req_svcMeth = svcMeth, req_argsType = TypeOf G arg, req_args = b\<rparr>,
               rpc_var = reply, client = AtSend, proc = Unsent, handler = NoHandler\<rparr>]\<rparr>)"

definition Call_finish :: "'v gob \<Rightarrow> nat \<Rightarrow> replyMsg \<Rightarrow> ('n, 'v, 'o) rpcSystem \<Rightarrow> ('n, 'v, 'o) rpcSystem" where
  "Call_finish G k rep s =
     (if rep_ok rep then
        (case gobDecode G (rpc_var (rpcs s ! k)) (rep_reply rep) of
           None \<Rightarrow> s\<lparr>died := Some ''ClientEnd.Call(): decode reply''\<rparr>
         | Some v \<Rightarrow> upd_rpc k (\<lambda>c. c\<lparr>rpc_var := v, client := CallReturned True\<rparr>) s)
      else upd_rpc k (\<lambda>c. c\<lparr>client := CallReturned False\<rparr>) s)"

text \<open>The goroutine of \<open>MakeNetwork\<close> accepts a request and starts \<open>processReq\<close>.\<close>

definition router_accept :: "nat \<Rightarrow> ('n, 'v, 'o) rpcSystem \<Rightarrow> ('n, 'v, 'o) rpcSystem" where
  "router_accept k s =
     (let rn = net s in
      upd_rpc k (\<lambda>c. c\<lparr>client := AtReceive, proc := Started\<rparr>)
        (s\<lparr>net := rn\<lparr>net_count := net_count rn + 1,
                     net_bytes := net_bytes rn + of_nat (length (req_args (rpc_req (rpcs s ! k))))\<rparr>\<rparr>))"

definition run_lookup :: "nat \<Rightarrow> nat \<Rightarrow> ('n, 'v, 'o) rpcSystem \<Rightarrow> ('n, 'v, 'o) rpcSystem" where
  "run_lookup k p s =
     (case Server_dispatch (srvs s ! p) (rpc_req (rpcs s ! k)) of
        (Inl e, rs) \<Rightarrow> s\<lparr>srvs := (srvs s)[p := rs], died := Some e\<rparr>
      | (Inr (service, meth), rs) \<Rightarrow> upd_rpc k (\<lambda>c. c\<lparr>handler := Dispatched service meth\<rparr>) (s\<lparr>srvs := (srvs s)[p := rs]\<rparr>))"

definition run_handler ::
  "'v gob \<Rightarrow> nat \<Rightarrow> ('v, 'o) Service \<Rightarrow> string \<Rightarrow> ('n, 'v, 'o) rpcSystem \<Rightarrow> ('n, 'v, 'o) rpcSystem" where
  "run_handler G k service meth s =
     (case Service_dispatch G service meth (rpc_req (rpcs s ! k)) (objs s) of
        Inl e \<Rightarrow> s\<lparr>died := Some e\<rparr>
      | Inr (os, reply) \<Rightarrow>
          upd_rpc k (\<lambda>c. c\<lparr>handler := Offering reply\<rparr>) (s\<lparr>objs := os, execs := execs s @ [(k, service, meth, reply)]\<rparr>))"

definition send_reply :: "'v gob \<Rightarrow> nat \<Rightarrow> replyMsg \<Rightarrow> ('n, 'v, 'o) rpcSystem \<Rightarrow> ('n, 'v, 'o) rpcSystem" where
  "send_reply G k reply s =
     (let rn = net s in
      Call_finish G k reply
        (upd_rpc k (\<lambda>c. c\<lparr>proc := Sent\<rparr>)
          (s\<lparr>net := rn\<lparr>net_bytes := net_bytes rn + of_nat (length (rep_reply reply))\<rparr>\<rparr>)))"

definition send_fail :: "'v gob \<Rightarrow> nat \<Rightarrow> ('n, 'v, 'o) rpcSystem \<Rightarrow> ('n, 'v, 'o) rpcSystem" where
  "send_fail G k s = Call_finish G k \<lparr>rep_ok = False, rep_reply = []\<rparr> (upd_rpc k (\<lambda>c. c\<lparr>proc := Sent\<rparr>) s)"

text \<open>What the owner of the network does.\<close>

datatype ('n, 'v, 'o) netOp =
    OpMakeEnd "'n iface"
  | OpMakeServer
  | OpAddService nat "('v, 'o) Service"
  | OpAddServer "'n iface" nat
  | OpDeleteServer "'n iface"
  | OpConnect "'n iface" "'n iface"
  | OpEnable "'n iface" bool
  | OpReliable bool
  | OpLongReordering bool
  | OpLongDelays bool
  | OpCleanup

fun net_op :: "('n, 'v, 'o) netOp \<Rightarrow> ('n, 'v, 'o) rpcSystem \<Rightarrow> ('n, 'v, 'o) rpcSystem" where
  "net_op (OpMakeEnd e) s = (case MakeEnd e (net s) of Inl m \<Rightarrow> s\<lparr>died := Some m\<rparr> | Inr (_, rn) \<Rightarrow> s\<lparr>net := rn\<rparr>)"
| "net_op OpMakeServer s = s\<lparr>srvs := srvs s @ [MakeServer]\<rparr>"
| "net_op (OpAddService p svc) s = s\<lparr>srvs := (srvs s)[p := AddService svc (srvs s ! p)]\<rparr>"
| "net_op (OpAddServer n p) s = s\<lparr>net := AddServer n p (net s)\<rparr>"
| "net_op (OpDeleteServer n) s = s\<lparr>net := DeleteServer n (net s)\<rparr>"
| "net_op (OpConnect e n) s = s\<lparr>net := Connect e n (net s)\<rparr>"
| "net_op (OpEnable e b) s = s\<lparr>net := Enable e b (net s)\<rparr>"
| "net_op (OpReliable b) s = s\<lparr>net := Reliable b (net s)\<rparr>"
| "net_op (OpLongReordering b) s = s\<lparr>net := LongReordering b (net s)\<rparr>"
| "net_op (OpLongDelays b) s = s\<lparr>net := LongDelays b (net s)\<rparr>"
| "net_op OpCleanup s = (case Cleanup (net s) of Inl m \<Rightarrow> s\<lparr>died := Some m\<rparr> | Inr rn \<Rightarrow> s\<lparr>net := rn\<rparr>)"

text \<open>Pointers to servers come from \<open>MakeServer\<close>.\<close>

fun op_ok :: "('n, 'v, 'o) netOp \<Rightarrow> ('n, 'v, 'o) rpcSystem \<Rightarrow> bool" where
  "op_ok (OpAddService p svc) s \<longleftrightarrow> p < length (srvs s)"
| "op_ok (OpAddServer n p) s \<longleftrightarrow> p < length (srvs s)"
| "op_ok _ s \<longleftrightarrow> True"

section \<open>Runs\<close>

text \<open>After the decision to deliver, the handler is started on the server that was read.\<close>

definition deliver :: "'n endInfo \<Rightarrow> nat \<Rightarrow> ('n, 'v, 'o) rpc \<Rightarrow> ('n, 'v, 'o) rpc" where
  "deliver i rnd c =
     (case processReq_drop i rnd of
        Polling i' \<Rightarrow> c\<lparr>proc := Polling i', handler := (case ei_server i of None \<Rightarrow> NoHandler | Some p \<Rightarrow> Undispatched p)\<rparr>
      | st \<Rightarrow> c\<lparr>proc := st\<rparr>)"

inductive rpc_step :: "'v gob \<Rightarrow> nat \<Rightarrow> ('n, 'v, 'o) rpcSystem \<Rightarrow> ('n, 'v, 'o) rpcSystem \<Rightarrow> bool" for G k s where
  rs_accept: "client (rpcs s ! k) = AtSend \<Longrightarrow> router s \<Longrightarrow> rpc_step G k s (router_accept k s)"
| rs_cancel: "client (rpcs s ! k) = AtSend \<Longrightarrow> done_closed (net s) \<Longrightarrow>
    rpc_step G k s (upd_rpc k (\<lambda>c. c\<lparr>client := CallReturned False\<rparr>) s)"
| rs_begin: "proc (rpcs s ! k) = Started \<Longrightarrow>
    rpc_step G k s (upd_rpc k (\<lambda>c. c\<lparr>proc := processReq_begin (net s) (rpc_req c)\<rparr>) s)"
| rs_deliver: "proc (rpcs s ! k) = Chosen i \<Longrightarrow> rpc_step G k s (upd_rpc k (deliver i rnd) s)"
| rs_lookup: "handler (rpcs s ! k) = Undispatched p \<Longrightarrow> rpc_step G k s (run_lookup k p s)"
| rs_handler: "handler (rpcs s ! k) = Dispatched svc meth \<Longrightarrow> rpc_step G k s (run_handler G k svc meth s)"
| rs_take: "handler (rpcs s ! k) = Offering rep \<Longrightarrow> proc (rpcs s ! k) = Polling i \<Longrightarrow>
    rpc_step G k s (upd_rpc k (\<lambda>c. c\<lparr>handler := Taken rep, proc := LeftLoop i (Some rep)\<rparr>) s)"
| rs_poll: "proc (rpcs s ! k) = Polling i \<Longrightarrow>
    rpc_step G k s (upd_rpc k (\<lambda>c. c\<lparr>proc := processReq_poll (net s) (rpc_req c) i\<rparr>) s)"
| rs_drain: "handler (rpcs s ! k) = Offering rep \<Longrightarrow> \<not> is_Polling (proc (rpcs s ! k)) \<Longrightarrow>
    rpc_step G k s (upd_rpc k (\<lambda>c. c\<lparr>handler := Taken rep\<rparr>) s)"
| rs_finish: "proc (rpcs s ! k) = LeftLoop i result \<Longrightarrow>
    rpc_step G k s (upd_rpc k (\<lambda>c. c\<lparr>proc := processReq_finish (net s) (rpc_req c) i result rnd1 rnd2\<rparr>) s)"
| rs_fail_timer: "proc (rpcs s ! k) = FailTimer \<Longrightarrow> rpc_step G k s (upd_rpc k (\<lambda>c. c\<lparr>proc := SendingFail\<rparr>) s)"
| rs_reply_timer: "proc (rpcs s ! k) = ReplyTimer rep \<Longrightarrow>
    rpc_step G k s (upd_rpc k (\<lambda>c. c\<lparr>proc := SendingReply rep\<rparr>) s)"
| rs_send_fail: "proc (rpcs s ! k) = SendingFail \<Longrightarrow> rpc_step G k s (send_fail G k s)"
| rs_send_reply: "proc (rpcs s ! k) = SendingReply rep \<Longrightarrow> rpc_step G k s (send_reply G k rep s)"

text \<open>The label of a step is the operation of the owner, if it is one. A dead process takes no step.\<close>

inductive net_step ::
  "'v gob \<Rightarrow> ('n, 'v, 'o) netOp option \<Rightarrow> ('n, 'v, 'o) rpcSystem \<Rightarrow> ('n, 'v, 'o) rpcSystem \<Rightarrow> bool" for G where
  ns_op: "died s = None \<Longrightarrow> op_ok op s \<Longrightarrow> net_step G (Some op) s (net_op op s)"
| ns_call: "died s = None \<Longrightarrow> ends (net s) en = Some e \<Longrightarrow> net_step G None s (Call_begin G e svcMeth arg reply s)"
| ns_rpc: "died s = None \<Longrightarrow> k < length (rpcs s) \<Longrightarrow> rpc_step G k s t \<Longrightarrow> net_step G None s t"
| ns_router_exit: "died s = None \<Longrightarrow> done_closed (net s) \<Longrightarrow> router s \<Longrightarrow> net_step G None s (s\<lparr>router := False\<rparr>)"

inductive_cases rpc_stepE: "rpc_step G k s t"
inductive_cases net_stepE: "net_step G l s t"

definition net_start :: "(nat \<Rightarrow> 'o) \<Rightarrow> ('n, 'v, 'o) rpcSystem \<Rightarrow> bool" where
  "net_start obs s \<longleftrightarrow>
     s = \<lparr>net = MakeNetwork, srvs = [], objs = obs, rpcs = [], router = True, died = None, execs = []\<rparr>"

end
