(* ===== verification/Labrpc_Proof.thy ===== *)
theory Labrpc_Proof
  imports Labrpc_Network
begin

text \<open>
  Correctness of the simulated network: the invariant that ties the three program points of a call
  to each other and to the log of the handler runs, and what follows from it.
\<close>

section \<open>The invariant\<close>

fun stage_ok :: "clientStage \<Rightarrow> 'n procStage \<Rightarrow> ('v, 'o) handlerStage \<Rightarrow> bool" where
  "stage_ok c Unsent h \<longleftrightarrow> (c = AtSend \<or> c = CallReturned False) \<and> h = NoHandler"
| "stage_ok c Started h \<longleftrightarrow> c = AtReceive \<and> h = NoHandler"
| "stage_ok c (Chosen i) h \<longleftrightarrow> c = AtReceive \<and> h = NoHandler \<and> ei_server i \<noteq> None"
| "stage_ok c (Polling i) h \<longleftrightarrow> c = AtReceive \<and> h \<noteq> NoHandler \<and> (\<forall>rep. h \<noteq> Taken rep)"
| "stage_ok c (LeftLoop i None) h \<longleftrightarrow> c = AtReceive \<and> h \<noteq> NoHandler"
| "stage_ok c (LeftLoop i (Some rep)) h \<longleftrightarrow> c = AtReceive \<and> h = Taken rep"
| "stage_ok c FailTimer h \<longleftrightarrow> c = AtReceive \<and> h = NoHandler"
| "stage_ok c (ReplyTimer rep) h \<longleftrightarrow> c = AtReceive \<and> h = Taken rep"
| "stage_ok c SendingFail h \<longleftrightarrow> c = AtReceive"
| "stage_ok c (SendingReply rep) h \<longleftrightarrow> c = AtReceive \<and> h = Taken rep"
| "stage_ok c Sent h \<longleftrightarrow> c \<noteq> AtSend"

fun logged :: "(nat \<times> ('v, 'o) Service \<times> string \<times> replyMsg) list \<Rightarrow> nat \<Rightarrow> ('v, 'o) handlerStage \<Rightarrow> bool" where
  "logged l k (Offering rep) \<longleftrightarrow> (\<exists>svc meth. (k, svc, meth, rep) \<in> set l)"
| "logged l k (Taken rep) \<longleftrightarrow> (\<exists>svc meth. (k, svc, meth, rep) \<in> set l)"
| "logged l k _ \<longleftrightarrow> k \<notin> fst ` set l"

definition answered :: "'v gob \<Rightarrow> ('n, 'v, 'o) rpc \<Rightarrow> bool" where
  "answered G c \<longleftrightarrow> (client c = CallReturned True \<longrightarrow>
     (\<exists>rep v. handler c = Taken rep \<and> gobDecode G v (rep_reply rep) = Some (rpc_var c)))"

definition rpc_ok ::
  "'v gob \<Rightarrow> (nat \<times> ('v, 'o) Service \<times> string \<times> replyMsg) list \<Rightarrow> nat \<Rightarrow> ('n, 'v, 'o) rpc \<Rightarrow> bool" where
  "rpc_ok G l k c \<longleftrightarrow> stage_ok (client c) (proc c) (handler c) \<and> logged l k (handler c) \<and> answered G c"

text \<open>The handler runs, one after the other, from a given state of the receivers.\<close>

fun replay ::
  "'v gob \<Rightarrow> 'n reqMsg list \<Rightarrow> (nat \<Rightarrow> 'o) \<Rightarrow> (nat \<times> ('v, 'o) Service \<times> string \<times> replyMsg) list \<Rightarrow> (nat \<Rightarrow> 'o) option" where
  "replay G reqs obs [] = Some obs"
| "replay G reqs obs ((k, svc, meth, rep) # l) =
     (case Service_dispatch G svc meth (reqs ! k) obs of
        Inl _ \<Rightarrow> None
      | Inr (obs', rep') \<Rightarrow> if rep' = rep then replay G reqs obs' l else None)"

definition accepted :: "('n, 'v, 'o) rpc list \<Rightarrow> nat" where
  "accepted cs = length (filter (\<lambda>c. proc c \<noteq> Unsent) cs)"

definition rpc_inv :: "'v gob \<Rightarrow> (nat \<Rightarrow> 'o) \<Rightarrow> ('n, 'v, 'o) rpcSystem \<Rightarrow> bool" where
  "rpc_inv G obs s \<longleftrightarrow>
     (\<forall>k < length (rpcs s). rpc_ok G (execs s) k (rpcs s ! k)) \<and>
     distinct (map fst (execs s)) \<and> (\<forall>k \<in> fst ` set (execs s). k < length (rpcs s)) \<and>
     replay G (map rpc_req (rpcs s)) obs (execs s) = Some (objs s) \<and>
     net_count (net s) = of_nat (accepted (rpcs s)) \<and>
     (router s \<or> done_closed (net s)) \<and>
     (died s = None \<longrightarrow> (\<forall>k < length (rpcs s). proc (rpcs s ! k) = Sent \<longrightarrow> client (rpcs s ! k) \<noteq> AtReceive))"

named_theorems rpc_defs \<open>the operations that the steps of a call are made of\<close>

lemmas [rpc_defs] = upd_rpc_def router_accept_def run_lookup_def run_handler_def send_reply_def send_fail_def
  Call_finish_def Let_def

lemma stage_ok_AtSend [simp]: "stage_ok AtSend p h \<longleftrightarrow> p = Unsent \<and> h = NoHandler"
  by (induction AtSend p h rule: stage_ok.induct) auto

lemma stage_ok_drain: "stage_ok c p (Offering rep) \<Longrightarrow> \<not> is_Polling p \<Longrightarrow> stage_ok c p (Taken rep)"
  by (induction c p "Offering rep :: ('v, 'o) handlerStage" rule: stage_ok.induct) auto

lemma stage_ok_dispatched: "stage_ok c p (Undispatched q) \<Longrightarrow> stage_ok c p (Dispatched svc meth)"
  by (induction c p "Undispatched q :: ('v, 'o) handlerStage" rule: stage_ok.induct) auto

lemma stage_ok_offering: "stage_ok c p (Dispatched svc meth) \<Longrightarrow> stage_ok c p (Offering rep)"
  by (induction c p "Dispatched svc meth" rule: stage_ok.induct) auto

lemmas stage_ok_running = stage_ok_dispatched stage_ok_offering

section \<open>Preservation\<close>

lemma replay_append:
  "replay G reqs obs (l @ l') = (case replay G reqs obs l of None \<Rightarrow> None | Some obs' \<Rightarrow> replay G reqs obs' l')"
  by (induction G reqs obs l rule: replay.induct) (auto split: sum.splits)

lemma replay_more:
  "\<forall>k \<in> fst ` set l. k < length reqs \<Longrightarrow> replay G (reqs @ extra) obs l = replay G reqs obs l"
  by (induction G reqs obs l rule: replay.induct) (auto simp: nth_append split: sum.splits)

lemma accepted_upd:
  "k < length cs \<Longrightarrow> accepted (cs[k := c]) + (if proc (cs ! k) \<noteq> Unsent then 1 else 0) =
     accepted cs + (if proc c \<noteq> Unsent then 1 else 0)"
  unfolding accepted_def by (rule count_list_update)

lemma accepted_same:
  "k < length cs \<Longrightarrow> (proc c = Unsent) = (proc (cs ! k) = Unsent) \<Longrightarrow> accepted (cs[k := c]) = accepted cs"
  using accepted_upd [of k cs c] by auto

lemma map_req_upd [simp]:
  "k < length cs \<Longrightarrow> rpc_req c = rpc_req (cs ! k) \<Longrightarrow> map rpc_req (cs[k := c]) = map rpc_req cs"
  by (metis list_update_id map_update)

lemma rpc_inv_nth: "rpc_inv G obs s \<Longrightarrow> k < length (rpcs s) \<Longrightarrow> rpc_ok G (execs s) k (rpcs s ! k)"
  by (simp add: rpc_inv_def)

text \<open>A step that changes one call and nothing that the invariant speaks about besides.\<close>

lemma rpc_inv_upd:
  assumes inv: "rpc_inv G obs s" and k: "k < length (rpcs s)"
    and eqs: "rpcs t = (rpcs s)[k := c]" "execs t = execs s" "objs t = objs s" "net_count (net t) = net_count (net s)"
      "router t = router s" "done_closed (net t) = done_closed (net s)"
    and req: "rpc_req c = rpc_req (rpcs s ! k)" "(proc c = Unsent) = (proc (rpcs s ! k) = Unsent)"
    and ok: "rpc_ok G (execs s) k c"
    and sent: "died t = None \<Longrightarrow> died s = None \<and> (proc c = Sent \<longrightarrow> client c \<noteq> AtReceive)"
  shows "rpc_inv G obs t"
  using assms by (auto simp: rpc_inv_def nth_list_update accepted_same)

text \<open>The local form: the call alone is updated.\<close>

lemma rpc_inv_upd_rpc:
  assumes "rpc_inv G obs s" "k < length (rpcs s)" "died s = None"
    and "rpc_req (f (rpcs s ! k)) = rpc_req (rpcs s ! k)" "(proc (f (rpcs s ! k)) = Unsent) = (proc (rpcs s ! k) = Unsent)"
    and "rpc_ok G (execs s) k (rpcs s ! k) \<Longrightarrow> rpc_ok G (execs s) k (f (rpcs s ! k))"
    and "proc (f (rpcs s ! k)) = Sent \<longrightarrow> client (f (rpcs s ! k)) \<noteq> AtReceive"
  shows "rpc_inv G obs (upd_rpc k f s)"
  using assms(3-7) rpc_inv_nth [OF assms(1,2)]
  by (intro rpc_inv_upd [OF assms(1,2), of _ "f (rpcs s ! k)"]) (auto simp: upd_rpc_def)

lemma router_accept_inv:
  assumes inv: "rpc_inv G obs s" and k: "k < length (rpcs s)" and c: "client (rpcs s ! k) = AtSend"
  shows "rpc_inv G obs (router_accept k s)"
proof -
  from rpc_inv_nth [OF inv k] c have u: "proc (rpcs s ! k) = Unsent" "handler (rpcs s ! k) = NoHandler"
    by (simp_all add: rpc_ok_def)
  let ?c = "(rpcs s ! k)\<lparr>client := AtReceive, proc := Started\<rparr>"
  have "accepted ((rpcs s)[k := ?c]) = Suc (accepted (rpcs s))"
    using accepted_upd [OF k, of ?c] u by simp
  with inv k c u show ?thesis
    by (auto simp: rpc_inv_def router_accept_def upd_rpc_def Let_def nth_list_update rpc_ok_def answered_def)
qed

lemma run_handler_inv:
  assumes inv: "rpc_inv G obs s" and k: "k < length (rpcs s)" and d: "died s = None"
    and h: "handler (rpcs s ! k) = Dispatched svc meth"
  shows "rpc_inv G obs (run_handler G k svc meth s)"
proof (cases "Service_dispatch G svc meth (rpc_req (rpcs s ! k)) (objs s)")
  case (Inl e)
  with inv show ?thesis by (simp add: run_handler_def rpc_inv_def)
next
  case (Inr r)
  obtain obs' reply where r: "r = (obs', reply)" by (cases r)
  let ?c = "(rpcs s ! k)\<lparr>handler := Offering reply\<rparr>" and ?l = "execs s @ [(k, svc, meth, reply)]"
  from rpc_inv_nth [OF inv k] h have new: "k \<notin> fst ` set (execs s)" by (simp add: rpc_ok_def)
  have other: "rpc_ok G ?l j (rpcs s ! j)" if "j < length (rpcs s)" "j \<noteq> k" for j
    using rpc_inv_nth [OF inv that(1)] that(2)
    by (cases "handler (rpcs s ! j)") (auto simp: rpc_ok_def)
  have this: "rpc_ok G ?l k ?c"
    using rpc_inv_nth [OF inv k] h
    by (auto simp: rpc_ok_def answered_def intro: stage_ok_running)
  from other this inv k d new show ?thesis
    by (auto simp: rpc_inv_def run_handler_def upd_rpc_def Inr r nth_list_update accepted_same replay_append)
qed

lemma run_lookup_inv:
  assumes "rpc_inv G obs s" "k < length (rpcs s)" "died s = None" "handler (rpcs s ! k) = Undispatched p"
  shows "rpc_inv G obs (run_lookup k p s)"
proof -
  let ?c = "\<lambda>svc meth. (rpcs s ! k)\<lparr>handler := Dispatched svc meth\<rparr>"
  have ok: "rpc_ok G (execs s) k (?c svc meth)" for svc meth
    using rpc_inv_nth [OF assms(1,2)] assms(4)
    by (auto simp: rpc_ok_def answered_def intro: stage_ok_running)
  show ?thesis
  proof (cases "Server_dispatch (srvs s ! p) (rpc_req (rpcs s ! k))")
    case (Pair r rs)
    show ?thesis
    proof (cases r)
      case (Inl e)
      with assms(1) show ?thesis by (simp add: run_lookup_def Pair rpc_inv_def)
    next
      case (Inr q)
      obtain svc meth where q: "q = (svc, meth)" by (cases q)
      show ?thesis
        using ok [of svc meth] assms(1,2,3)
        by (intro rpc_inv_upd [OF assms(1,2), of _ "?c svc meth"])
          (auto simp: run_lookup_def Pair Inr q upd_rpc_def rpc_inv_def)
    qed
  qed
qed

lemma Call_finish_inv:
  assumes inv: "rpc_inv G obs s" and k: "k < length (rpcs s)" and d: "died s = None"
    and p: "proc (rpcs s ! k) \<noteq> Unsent"
    and h: "rep_ok rep \<Longrightarrow> handler (rpcs s ! k) = Taken rep"
    and t: "rpcs t = (rpcs s)[k := (rpcs s ! k)\<lparr>proc := Sent\<rparr>]" "execs t = execs s" "objs t = objs s"
      "net_count (net t) = net_count (net s)" "router t = router s" "done_closed (net t) = done_closed (net s)" "died t = None"
  shows "rpc_inv G obs (Call_finish G k rep t)"
proof -
  let ?c = "rpcs s ! k"
  have l: "logged (execs s) k (handler ?c)" using rpc_inv_nth [OF inv k] by (simp add: rpc_ok_def)
  have s: "client ?c \<noteq> AtSend" using rpc_inv_nth [OF inv k] p by (auto simp: rpc_ok_def)
  consider (fail) "\<not> rep_ok rep" | (die) "rep_ok rep" "gobDecode G (rpc_var ?c) (rep_reply rep) = None"
    | (ok) v where "rep_ok rep" "gobDecode G (rpc_var ?c) (rep_reply rep) = Some v" by fastforce
  then show ?thesis
  proof cases
    case fail
    show ?thesis
      by (rule rpc_inv_upd [OF inv k, of _ "?c\<lparr>proc := Sent, client := CallReturned False\<rparr>"])
        (use fail t p k l d in \<open>auto simp: Call_finish_def upd_rpc_def rpc_ok_def answered_def\<close>)
  next
    case die
    have "answered G ?c" using rpc_inv_nth [OF inv k] by (simp add: rpc_ok_def)
    then show ?thesis
      by (intro rpc_inv_upd [OF inv k, of _ "?c\<lparr>proc := Sent\<rparr>"])
        (use die t p k l s in \<open>auto simp: Call_finish_def rpc_ok_def answered_def\<close>)
  next
    case (ok v)
    have "rpc_ok G (execs s) k (?c\<lparr>proc := Sent, rpc_var := v, client := CallReturned True\<rparr>)"
      using l h [OF ok(1)] ok(2) by (auto simp: rpc_ok_def answered_def)
    then show ?thesis
      by (intro rpc_inv_upd [OF inv k, of _ "?c\<lparr>proc := Sent, rpc_var := v, client := CallReturned True\<rparr>"])
        (use ok t p k d in \<open>auto simp: Call_finish_def upd_rpc_def\<close>)
  qed
qed

lemmas stage_defs = processReq_begin_def processReq_drop_def processReq_poll_def processReq_finish_def deliver_def

text \<open>The steps that change nothing but the call follow from the local form.\<close>

lemma rpc_step_inv:
  assumes inv: "rpc_inv G obs s" and k: "k < length (rpcs s)" and d: "died s = None" and step: "rpc_step G k s t"
  shows "rpc_inv G obs t"
proof -
  note upd = rpc_inv_upd_rpc [OF inv k d]
  have ok: "rpc_ok G (execs s) k (rpcs s ! k)" by (rule rpc_inv_nth [OF inv k])
  from step show ?thesis
  proof (cases rule: rpc_step.cases)
    case rs_accept
    then show ?thesis by (simp add: router_accept_inv [OF inv k])
  next
    case (rs_lookup p)
    then show ?thesis by (simp add: run_lookup_inv [OF inv k d])
  next
    case (rs_handler svc meth)
    then show ?thesis by (simp add: run_handler_inv [OF inv k d])
  next
    case (rs_drain rep)
    with ok inv k d show ?thesis
      unfolding rs_drain(1)
      by (intro upd) (auto simp: rpc_inv_def rpc_ok_def answered_def intro: stage_ok_drain)
  next
    case (rs_finish i result)
    show ?thesis unfolding rs_finish(1)
      by (cases result; rule upd) (use rs_finish ok in \<open>auto simp: rpc_ok_def answered_def stage_defs split: if_splits\<close>)
  next
    case rs_send_fail
    with d show ?thesis
      unfolding rs_send_fail(1) send_fail_def by (intro Call_finish_inv [OF inv k d]) (auto simp: upd_rpc_def)
  next
    case (rs_send_reply rep)
    with ok d show ?thesis
      unfolding rs_send_reply(1) send_reply_def Let_def
      by (intro Call_finish_inv [OF inv k d]) (auto simp: upd_rpc_def rpc_ok_def)
  qed (simp only:, rule upd; use ok in \<open>auto simp: rpc_ok_def answered_def stage_defs Let_def split: if_splits\<close>)+
qed

lemma Call_begin_inv: 
  assumes inv: "rpc_inv G obs s"
  shows "rpc_inv G obs (Call_begin G e svcMeth arg reply s)"
proof (cases "gobEncode G arg")
  case None
  with inv show ?thesis by (simp add: Call_begin_def rpc_inv_def)
next
  case (Some b)
  from inv have "\<forall>k \<in> fst ` set (execs s). k < length (map rpc_req (rpcs s))" by (simp add: rpc_inv_def)
  from replay_more [OF this] inv Some show ?thesis
    by (auto simp: Call_begin_def rpc_inv_def nth_append rpc_ok_def answered_def accepted_def less_Suc_eq)
qed

lemma rpc_inv_frame:
  assumes "rpc_inv G obs s" "rpcs t = rpcs s" "execs t = execs s" "objs t = objs s"
    "net_count (net t) = net_count (net s)" "router t \<or> done_closed (net t)" "died t = None \<Longrightarrow> died s = None"
  shows "rpc_inv G obs t"
  using assms by (simp add: rpc_inv_def)

lemma net_op_inv:
  assumes "rpc_inv G obs s" "died s = None"
  shows "rpc_inv G obs (net_op op s)"
proof -
  have r: "router s \<or> done_closed (net s)" using assms(1) by (simp add: rpc_inv_def)
  show ?thesis
    by (rule rpc_inv_frame [OF assms(1)]; cases op)
      (use assms(2) r in \<open>auto simp: MakeEnd_def AddServer_def DeleteServer_def Connect_def Enable_def Reliable_def
         LongReordering_def LongDelays_def Cleanup_def Let_def\<close>)
qed

lemma router_exit_inv: "rpc_inv G obs s \<Longrightarrow> done_closed (net s) \<Longrightarrow> rpc_inv G obs (s\<lparr>router := False\<rparr>)"
  by (erule rpc_inv_frame) auto

lemma net_step_inv: "rpc_inv G obs s \<Longrightarrow> net_step G l s t \<Longrightarrow> rpc_inv G obs t"
  by (erule net_step.cases) (auto intro: net_op_inv Call_begin_inv rpc_step_inv router_exit_inv)

lemma net_start_inv: "net_start obs s \<Longrightarrow> rpc_inv G obs s"
  by (simp add: net_start_def rpc_inv_def MakeNetwork_def accepted_def)

interpretation rpcs: invariant_system "net_start obs" "\<lambda>s t. \<exists>l. net_step G l s t" "rpc_inv G obs"
  for G :: "'v gob" and obs :: "nat \<Rightarrow> 'o"
  by unfold_locales (auto intro: net_start_inv net_step_inv)

section \<open>At most one run per call\<close>

text \<open>
  C5: a handler runs at most once for a call. The receivers are in the state that the logged
  runs give one after the other, no call is logged twice, and a call that returned true is logged,
  with a reply that its variable was decoded from.
\<close>

theorem calls_run_at_most_once:
  assumes "reach (net_start obs) (\<lambda>s t. \<exists>l. net_step G l s t) s"
  shows "distinct (map fst (execs s)) \<and> replay G (map rpc_req (rpcs s)) obs (execs s) = Some (objs s) \<and>
    (\<forall>k < length (rpcs s). client (rpcs s ! k) = CallReturned True \<longrightarrow>
      (\<exists>svc meth rep v. (k, svc, meth, rep) \<in> set (execs s) \<and> gobDecode G v (rep_reply rep) = Some (rpc_var (rpcs s ! k))))"
proof -
  have inv: "rpc_inv G obs s" using assms by (rule rpcs.reach_inv)
  have "\<exists>svc meth rep v. (k, svc, meth, rep) \<in> set (execs s) \<and> gobDecode G v (rep_reply rep) = Some (rpc_var (rpcs s ! k))"
    if "k < length (rpcs s)" "client (rpcs s ! k) = CallReturned True" for k
    using rpc_inv_nth [OF inv that(1)] that(2) by (fastforce simp: rpc_ok_def answered_def)
  with inv show ?thesis by (simp add: rpc_inv_def)
qed

section \<open>The counters\<close>

text \<open>
  C38: \<open>GetTotalCount\<close> is the number of requests that the network accepted, as long as there
  are fewer than \<open>2 ^ 31\<close> of them; in general it is that number as a signed 32-bit word, so it
  stays within the range of the type and wraps to negative values.
\<close>

theorem total_count_bounded:
  assumes "reach (net_start obs) (\<lambda>s t. \<exists>l. net_step G l s t) s"
  shows "GetTotalCount (net s) = (int (accepted (rpcs s)) + 2 ^ 31) mod 2 ^ 32 - 2 ^ 31 \<and>
    - (2 ^ 31) \<le> GetTotalCount (net s) \<and> GetTotalCount (net s) < 2 ^ 31 \<and>
    (accepted (rpcs s) < 2 ^ 31 \<longrightarrow> GetTotalCount (net s) = int (accepted (rpcs s)))"
proof -
  have c: "net_count (net s) = of_nat (accepted (rpcs s))" using rpcs.reach_inv [OF assms] by (simp add: rpc_inv_def)
  have "sint (of_nat n :: 32 word) = (int n + 2 ^ 31) mod 2 ^ 32 - 2 ^ 31" for n
    by (simp add: signed_of_nat signed_take_bit_eq_take_bit_shift take_bit_eq_mod)
  with c show ?thesis by (auto simp: GetTotalCount_def)
qed

end
