(* ===== verification/Labrpc_Delivery.thy ===== *)
theory Labrpc_Delivery
  imports Labrpc_Proof
begin

text \<open>
  What a caller of the simulated network may rely on: a server that was deleted while it worked on
  a request does not answer it, every call comes to an end, and a call over a connection that
  nobody touches succeeds.
\<close>

section \<open>What a step of a call leaves alone\<close>

definition same_wiring :: "'n Network \<Rightarrow> 'n Network \<Rightarrow> bool" where
  "same_wiring rn rn' \<longleftrightarrow> (\<exists>n b. rn' = rn\<lparr>net_count := n, net_bytes := b\<rparr>)"

lemma same_wiring_refl [simp]: "same_wiring rn rn"
  by (auto simp: same_wiring_def intro!: exI [of _ "net_count rn"] exI [of _ "net_bytes rn"])

lemma same_wiringD:
  assumes "same_wiring rn rn'"
  shows "servers rn' = servers rn" "enabled rn' = enabled rn" "connections rn' = connections rn"
    "reliable rn' = reliable rn" "done_closed rn' = done_closed rn" "longReordering rn' = longReordering rn"
  using assms by (auto simp: same_wiring_def)

lemma same_wiring_upd [simp]:
  "same_wiring rn (rn\<lparr>net_bytes := b\<rparr>)" "same_wiring rn (rn\<lparr>net_count := n, net_bytes := b\<rparr>)"
  unfolding same_wiring_def by (rule exI [of _ "net_count rn"] exI [of _ n], rule exI [of _ b], simp)+

lemma rpc_step_frame:
  assumes "rpc_step G k s t"
  shows "same_wiring (net s) (net t) \<and> length (rpcs t) = length (rpcs s) \<and> (\<forall>j. j \<noteq> k \<longrightarrow> rpcs t ! j = rpcs s ! j)"
  using assms by cases (auto simp: rpc_defs split: sum.splits option.splits prod.splits)

lemma Call_begin_frame:
  "net (Call_begin G e svcMeth arg reply s) = net s \<and> length (rpcs s) \<le> length (rpcs (Call_begin G e svcMeth arg reply s)) \<and>
    (\<forall>j < length (rpcs s). rpcs (Call_begin G e svcMeth arg reply s) ! j = rpcs s ! j)"
  by (auto simp: Call_begin_def nth_append split: option.splits)

lemma net_op_frame: "rpcs (net_op op s) = rpcs s"
  by (cases op) (auto simp: MakeEnd_def Cleanup_def Let_def)

text \<open>An internal step is a step of the call in question or leaves it alone.\<close>

lemma internal_step:
  assumes "net_step G None s t" "k < length (rpcs s)"
  shows "same_wiring (net s) (net t) \<and> k < length (rpcs t) \<and> (rpc_step G k s t \<or> rpcs t ! k = rpcs s ! k)"
  using assms(1)
proof cases
  case (ns_call en e svcMeth arg reply)
  with Call_begin_frame [of G e svcMeth arg reply s] assms(2) show ?thesis by auto
next
  case (ns_rpc k')
  with rpc_step_frame [OF ns_rpc(3)] assms(2) show ?thesis by (cases "k = k'") auto
qed (use assms(2) in auto)

section \<open>A deleted server\<close>

fun in_flight :: "'n procStage \<Rightarrow> 'n endInfo option" where
  "in_flight (Chosen i) = Some i"
| "in_flight (Polling i) = Some i"
| "in_flight (LeftLoop i r) = Some i"
| "in_flight _ = None"

text \<open>The call can only fail: its server is gone, or the failure is on its way.\<close>

definition doomed :: "'n endInfo \<Rightarrow> nat \<Rightarrow> ('n, 'v, 'o) rpcSystem \<Rightarrow> bool" where
  "doomed i k s \<longleftrightarrow> k < length (rpcs s) \<and> client (rpcs s ! k) \<noteq> AtSend \<and> client (rpcs s ! k) \<noteq> CallReturned True \<and>
     (in_flight (proc (rpcs s ! k)) = Some i \<and> servers (net s) (ei_servername i) \<noteq> ei_server i \<or>
      proc (rpcs s ! k) = SendingFail \<or> proc (rpcs s ! k) = Sent)"

lemma doomed_rpc_step:
  assumes d: "doomed i k s" and step: "rpc_step G k s t"
  shows "doomed i k t"
  using step d by cases
    (auto simp: doomed_def rpc_defs deliver_def processReq_drop_def processReq_poll_def processReq_finish_def
        isServerDead_def split: sum.splits option.splits prod.splits if_splits)

lemma doomed_other:
  assumes "doomed i k s" "k < length (rpcs t)" "rpcs t ! k = rpcs s ! k"
    "servers (net t) (ei_servername i) = servers (net s) (ei_servername i) \<or> servers (net t) (ei_servername i) \<noteq> ei_server i"
  shows "doomed i k t"
  using assms by (auto simp: doomed_def)

lemma net_op_servers:
  "servers (net (net_op op s)) n = servers (net s) n \<or> servers (net (net_op op s)) n = None \<or>
    (\<exists>p. op = OpAddServer n p \<and> servers (net (net_op op s)) n = Some p)"
  by (cases op) (auto simp: MakeEnd_def AddServer_def DeleteServer_def Connect_def Enable_def Reliable_def
      LongReordering_def LongDelays_def Cleanup_def Let_def)

lemma doomed_step:
  assumes d: "doomed i k s" and step: "net_step G l s t" and some: "ei_server i \<noteq> None"
    and l: "\<And>p. l = Some (OpAddServer (ei_servername i) p) \<Longrightarrow> Some p \<noteq> ei_server i"
  shows "doomed i k t"
proof (cases l)
  case None
  have "k < length (rpcs s)" using d by (simp add: doomed_def)
  from internal_step [OF step [unfolded None] this]
  have "rpc_step G k s t \<or> rpcs t ! k = rpcs s ! k" "k < length (rpcs t)" "servers (net t) = servers (net s)"
    by (auto dest: same_wiringD)
  then show ?thesis by (auto intro: doomed_rpc_step [OF d] doomed_other [OF d])
next
  case (Some op)
  with step have t: "t = net_op op s" by (auto elim: net_step.cases)
  show ?thesis
    using d some l net_op_servers [of op s "ei_servername i"] net_op_frame [of op s]
    by (intro doomed_other [OF d]) (auto simp: t Some doomed_def)
qed

text \<open>
  C21: a server that was deleted does not answer. When the request of a call was handed to a
  server and that server is no longer the one registered under its name, then the call does not
  return true, whatever happens later, unless the same server is registered again.
\<close>

theorem deleted_server_never_answers:
  assumes "reach (net_start obs) (\<lambda>s t. \<exists>l. net_step G l s t) s" "k < length (rpcs s)"
    and "in_flight (proc (rpcs s ! k)) = Some i" "ei_server i = Some p" "servers (net s) (ei_servername i) \<noteq> Some p"
    and "(\<lambda>a b. \<exists>l. net_step G l a b \<and> l \<noteq> Some (OpAddServer (ei_servername i) p))\<^sup>*\<^sup>* s t"
  shows "client (rpcs t ! k) \<noteq> CallReturned True"
proof -
  have "rpc_ok G (execs s) k (rpcs s ! k)" using assms(1,2) by (intro rpc_inv_nth rpcs.reach_inv)
  with assms(3) have "client (rpcs s ! k) = AtReceive"
    by (cases "proc (rpcs s ! k)") (auto simp: rpc_ok_def elim: stage_ok.elims)
  with assms(2-5) have "doomed i k s" by (simp add: doomed_def)
  with assms(6) have "doomed i k t"
    by (induction rule: rtranclp_induct) (use assms(4) in \<open>auto intro: doomed_step\<close>)
  then show ?thesis by (simp add: doomed_def)
qed

section \<open>Every call comes to an end\<close>

text \<open>How many steps of its own a call has left.\<close>

fun proc_left :: "'n procStage \<Rightarrow> nat" where
  "proc_left Unsent = 10"
| "proc_left Started = 9"
| "proc_left (Chosen i) = 8"
| "proc_left (Polling i) = 4"
| "proc_left (LeftLoop i r) = 3"
| "proc_left FailTimer = 2"
| "proc_left (ReplyTimer rep) = 2"
| "proc_left SendingFail = 1"
| "proc_left (SendingReply rep) = 1"
| "proc_left Sent = 0"

fun handler_left :: "('v, 'o) handlerStage \<Rightarrow> nat" where
  "handler_left (Undispatched p) = 3"
| "handler_left (Dispatched svc meth) = 2"
| "handler_left (Offering rep) = 1"
| "handler_left _ = 0"

definition steps_left :: "('n, 'v, 'o) rpc \<Rightarrow> nat" where
  "steps_left c = proc_left (proc c) + handler_left (handler c)"

lemma steps_left_bound: "stage_ok (client c) (proc c) (handler c) \<Longrightarrow> steps_left c \<le> 10"
  by (cases "proc c"; cases "handler c") (auto simp: steps_left_def)

definition closer :: "nat \<Rightarrow> ('n, 'v, 'o) rpcSystem \<Rightarrow> ('n, 'v, 'o) rpcSystem \<Rightarrow> bool" where
  "closer k s t \<longleftrightarrow> died t \<noteq> None \<or> (\<exists>b. client (rpcs t ! k) = CallReturned b) \<or>
     steps_left (rpcs t ! k) < steps_left (rpcs s ! k)"

lemmas closer_defs = closer_def steps_left_def rpc_defs stage_defs

text \<open>While the network waits, the handler moves on or its reply is taken.\<close>

lemma polling_progress:
  assumes k: "k < length (rpcs s)" and p: "proc (rpcs s ! k) = Polling i"
    and h: "stage_ok (client (rpcs s ! k)) (Polling i) (handler (rpcs s ! k))"
  shows "\<exists>t. rpc_step G k s t \<and> closer k s t"
proof (cases "handler (rpcs s ! k)")
  case (Undispatched q)
  show ?thesis
    by (rule exI conjI rs_lookup [OF Undispatched])+
      (use Undispatched k in \<open>auto simp: closer_defs split: prod.splits sum.splits\<close>)
next
  case (Dispatched svc meth)
  show ?thesis
    by (rule exI conjI rs_handler [OF Dispatched])+
      (use Dispatched k in \<open>auto simp: closer_defs split: prod.splits sum.splits\<close>)
next
  case (Offering rep)
  show ?thesis
    by (rule exI conjI rs_take [OF Offering p])+ (use Offering p k in \<open>auto simp: closer_defs\<close>)
qed (use h in auto)

text \<open>A call that has not returned has a step that brings it closer to its end.\<close>

lemma call_progress:
  assumes inv: "rpc_inv G obs s" and k: "k < length (rpcs s)" and d: "died s = None"
    and c: "\<And>b. client (rpcs s ! k) \<noteq> CallReturned b"
  shows "\<exists>t. rpc_step G k s t \<and> closer k s t"
proof -
  let ?c = "rpcs s ! k"
  have ok: "stage_ok (client ?c) (proc ?c) (handler ?c)" using rpc_inv_nth [OF inv k] by (simp add: rpc_ok_def)
  have I: ?thesis if "rpc_step G k s t" "closer k s t" for t using that by blast
  show ?thesis
  proof (cases "proc ?c")
    case Unsent
    with ok c have s: "client ?c = AtSend" "handler ?c = NoHandler" by auto
    have "router s \<or> done_closed (net s)" using inv by (simp add: rpc_inv_def)
    then show ?thesis
      by (elim disjE I [OF rs_accept [OF s(1)]] I [OF rs_cancel [OF s(1)]])
        (use Unsent s k in \<open>auto simp: closer_defs\<close>)
  next
    case Started
    show ?thesis by (rule I [OF rs_begin [OF Started]]) (use Started ok k in \<open>auto simp: closer_defs\<close>)
  next
    case (Chosen i)
    show ?thesis by (rule I [OF rs_deliver [OF Chosen]]) (use Chosen ok k in \<open>auto simp: closer_defs\<close>)
  next
    case (Polling i)
    with polling_progress [OF k Polling] ok show ?thesis by simp
  next
    case (LeftLoop i r)
    show ?thesis by (rule I [OF rs_finish [OF LeftLoop]]) (use LeftLoop k in \<open>auto simp: closer_defs split: option.splits\<close>)
  next
    case FailTimer
    show ?thesis by (rule I [OF rs_fail_timer [OF FailTimer]]) (use FailTimer k in \<open>auto simp: closer_defs\<close>)
  next
    case (ReplyTimer rep)
    show ?thesis by (rule I [OF rs_reply_timer [OF ReplyTimer]]) (use ReplyTimer k in \<open>auto simp: closer_defs\<close>)
  next
    case SendingFail
    show ?thesis by (rule I [OF rs_send_fail [OF SendingFail]]) (use k in \<open>auto simp: closer_defs\<close>)
  next
    case (SendingReply rep)
    show ?thesis by (rule I [OF rs_send_reply [OF SendingReply]]) (use k in \<open>auto simp: closer_defs split: option.splits\<close>)
  next
    case Sent
    with ok c inv k d show ?thesis by (cases "client ?c") (auto simp: rpc_inv_def)
  qed
qed

lemma call_ends:
  assumes "rpc_inv G obs s" "k < length (rpcs s)"
  shows "\<exists>n t. n \<le> Suc (steps_left (rpcs s ! k)) \<and> (net_step G None ^^ n) s t \<and>
    (died t \<noteq> None \<or> (\<exists>b. client (rpcs t ! k) = CallReturned b))"
  using assms
proof (induction "steps_left (rpcs s ! k)" arbitrary: s rule: less_induct)
  case less
  show ?case
  proof (cases "died s \<noteq> None \<or> (\<exists>b. client (rpcs s ! k) = CallReturned b)")
    case True
    then show ?thesis by (intro exI [of _ 0] exI [of _ s]) auto
  next
    case False
    then obtain t where t: "rpc_step G k s t" "closer k s t" using call_progress [OF less.prems] by blast
    have step: "net_step G None s t" using False less.prems(2) t(1) by (auto intro: ns_rpc)
    show ?thesis
    proof (cases "steps_left (rpcs t ! k) < steps_left (rpcs s ! k)")
      case True
      have "rpc_inv G obs t" "k < length (rpcs t)"
        using net_step_inv [OF less.prems(1) step] rpc_step_frame [OF t(1)] less.prems(2) by auto
      from less.hyps [OF True this] obtain n u where "n \<le> Suc (steps_left (rpcs t ! k))" "(net_step G None ^^ n) t u"
        "died u \<noteq> None \<or> (\<exists>b. client (rpcs u ! k) = CallReturned b)" by blast
      with True step show ?thesis
        by (intro exI [of _ "Suc n"] exI [of _ u]) (auto intro: relpowp_Suc_I2 simp del: relpowp.simps)
    next
      case False
      with False t(2) step show ?thesis by (intro exI [of _ 1] exI [of _ t]) (auto simp: closer_def)
    qed
  qed
qed

text \<open>
  Every call comes to an end. From every state, eleven steps of a call and its goroutines
  at most bring it back to its caller, if the scheduler lets them run and the process lives.
\<close>

theorem call_can_return:
  assumes "reach (net_start obs) (\<lambda>s t. \<exists>l. net_step G l s t) s" "k < length (rpcs s)"
  shows "\<exists>n t. n \<le> 11 \<and> (net_step G None ^^ n) s t \<and> (died t \<noteq> None \<or> (\<exists>b. client (rpcs t ! k) = CallReturned b))"
proof -
  have inv: "rpc_inv G obs s" using assms(1) by (rule rpcs.reach_inv)
  have "steps_left (rpcs s ! k) \<le> 10"
    using rpc_inv_nth [OF inv assms(2)] by (intro steps_left_bound) (simp add: rpc_ok_def)
  moreover obtain n t where "n \<le> Suc (steps_left (rpcs s ! k))" "(net_step G None ^^ n) s t"
    "died t \<noteq> None \<or> (\<exists>b. client (rpcs t ! k) = CallReturned b)"
    using call_ends [OF inv assms(2)] by blast
  ultimately show ?thesis by (intro exI [of _ n] exI [of _ t]) simp
qed

section \<open>A reliable connection\<close>

definition connection_up :: "'n Network \<Rightarrow> 'n iface \<Rightarrow> bool" where
  "connection_up rn e \<longleftrightarrow>
     reliable rn \<and> \<not> done_closed rn \<and> enabled rn e \<and> connections rn e \<noteq> None \<and> servers rn (connections rn e) \<noteq> None"

fun good_stage :: "'n Network \<Rightarrow> 'n iface \<Rightarrow> 'n procStage \<Rightarrow> bool" where
  "good_stage rn e (Chosen i) \<longleftrightarrow> ei_reliable i \<and> ei_servername i = connections rn e \<and> ei_server i = servers rn (connections rn e)"
| "good_stage rn e (Polling i) \<longleftrightarrow> ei_reliable i \<and> ei_servername i = connections rn e \<and> ei_server i = servers rn (connections rn e)"
| "good_stage rn e (LeftLoop i r) \<longleftrightarrow> ei_reliable i \<and> ei_servername i = connections rn e \<and>
     ei_server i = servers rn (connections rn e) \<and> (\<exists>rep. r = Some rep \<and> rep_ok rep)"
| "good_stage rn e FailTimer \<longleftrightarrow> False"
| "good_stage rn e SendingFail \<longleftrightarrow> False"
| "good_stage rn e (ReplyTimer rep) \<longleftrightarrow> rep_ok rep"
| "good_stage rn e (SendingReply rep) \<longleftrightarrow> rep_ok rep"
| "good_stage rn e _ \<longleftrightarrow> True"

definition healthy :: "nat \<Rightarrow> ('n, 'v, 'o) rpcSystem \<Rightarrow> bool" where
  "healthy k s \<longleftrightarrow> k < length (rpcs s) \<and> connection_up (net s) (req_endname (rpc_req (rpcs s ! k))) \<and>
     good_stage (net s) (req_endname (rpc_req (rpcs s ! k))) (proc (rpcs s ! k)) \<and>
     (\<forall>rep. handler (rpcs s ! k) = Offering rep \<longrightarrow> rep_ok rep) \<and> client (rpcs s ! k) \<noteq> CallReturned False"

lemma good_stage_wiring: "same_wiring rn rn' \<Longrightarrow> good_stage rn' e st = good_stage rn e st"
  by (induction rn e st rule: good_stage.induct) (simp_all add: same_wiringD)

lemma connection_up_wiring: "same_wiring rn rn' \<Longrightarrow> connection_up rn' e = connection_up rn e"
  by (simp add: connection_up_def same_wiringD)

lemma Service_dispatch_ok: "Service_dispatch G svc meth req obs = Inr (obs', rep) \<Longrightarrow> rep_ok rep"
  by (auto simp: Service_dispatch_def Let_def split: option.splits list.splits goType.splits if_splits prod.splits)

lemma rpc_step_req:
  assumes "rpc_step G k s t" "k < length (rpcs s)"
  shows "rpc_req (rpcs t ! k) = rpc_req (rpcs s ! k)"
  using assms by cases (auto simp: rpc_defs deliver_def split: sum.splits option.splits prod.splits procStage.splits)

lemma healthy_rpc_step:
  assumes h: "healthy k s" and step: "rpc_step G k s t"
  shows "healthy k t"
proof -
  let ?e = "req_endname (rpc_req (rpcs s ! k))"
  have k: "k < length (rpcs s)" using h by (simp add: healthy_def)
  have w: "same_wiring (net s) (net t)" "length (rpcs t) = length (rpcs s)" using rpc_step_frame [OF step] by auto
  have "good_stage (net s) ?e (proc (rpcs t ! k)) \<and> (\<forall>rep. handler (rpcs t ! k) = Offering rep \<longrightarrow> rep_ok rep) \<and>
      client (rpcs t ! k) \<noteq> CallReturned False"
    using step h k
    by cases (auto simp: healthy_def connection_up_def rpc_defs deliver_def processReq_begin_def readEndnameInfo_def processReq_drop_def
        processReq_poll_def processReq_finish_def isServerDead_def
        split: sum.splits option.splits prod.splits if_splits dest: Service_dispatch_ok)
  with h k w show ?thesis
    by (simp add: healthy_def rpc_step_req [OF step k] good_stage_wiring connection_up_wiring)
qed

lemma healthy_step:
  assumes h: "healthy k s" and step: "net_step G None s t"
  shows "healthy k t"
proof -
  have "k < length (rpcs s)" using h by (simp add: healthy_def)
  from internal_step [OF step this] show ?thesis
  proof (elim conjE disjE)
    assume "same_wiring (net s) (net t)" "k < length (rpcs t)" "rpcs t ! k = rpcs s ! k"
    with h show ?thesis by (simp add: healthy_def good_stage_wiring connection_up_wiring)
  qed (rule healthy_rpc_step [OF h])
qed

text \<open>
  C12: over a reliable connection to a live server that the owner of the network does not touch,
  a call does not fail: in no interleaving with other calls does it return false, and eleven steps
  of its own bring it to the result true, unless the process died.
\<close>

theorem reliable_call_succeeds:
  assumes "reach (net_start obs) (\<lambda>s t. \<exists>l. net_step G l s t) s" "k < length (rpcs s)"
    and "client (rpcs s ! k) = AtSend" "connection_up (net s) (req_endname (rpc_req (rpcs s ! k)))"
  shows "(\<forall>t. (net_step G None)\<^sup>*\<^sup>* s t \<longrightarrow> client (rpcs t ! k) \<noteq> CallReturned False) \<and>
    (\<exists>n t. n \<le> 11 \<and> (net_step G None ^^ n) s t \<and> (died t \<noteq> None \<or> client (rpcs t ! k) = CallReturned True))"
proof -
  have inv: "rpc_inv G obs s" using assms(1) by (rule rpcs.reach_inv)
  from rpc_inv_nth [OF inv assms(2)] assms(3) have u: "proc (rpcs s ! k) = Unsent" "handler (rpcs s ! k) = NoHandler"
    by (simp_all add: rpc_ok_def)
  with assms have start: "healthy k s" by (simp add: healthy_def)
  have "healthy k t" if r: "(net_step G None)\<^sup>*\<^sup>* s t" for t
    using r start by (induction rule: rtranclp_induct) (auto intro: healthy_step)
  then have safe: "client (rpcs t ! k) \<noteq> CallReturned False" if "(net_step G None)\<^sup>*\<^sup>* s t" for t
    using that by (auto simp: healthy_def)
  obtain n t where "n \<le> 11" "(net_step G None ^^ n) s t" "died t \<noteq> None \<or> (\<exists>b. client (rpcs t ! k) = CallReturned b)"
    using call_ends [OF inv assms(2)] u by (auto simp: steps_left_def)
  with safe [of t] have "died t \<noteq> None \<or> client (rpcs t ! k) = CallReturned True"
    by (metis (full_types) relpowp_imp_rtranclp)
  with safe \<open>n \<le> 11\<close> \<open>(net_step G None ^^ n) s t\<close> show ?thesis by blast
qed

end
