(* ===== verification/Labrpc_Example.thy ===== *)
theory Labrpc_Example
  imports Labrpc_Delivery
begin

text \<open>
  A concrete network with one client end, one server and one service whose method answers with its
  argument twice; the theorems on the network are applied to states of a run of it.
\<close>

definition exG :: "string gob" where
  "exG = \<lparr>gobEncode = Some, gobDecode = (\<lambda>_ b. Some b), TypeOf = (\<lambda>_. Named ''string''), ZeroOf = (\<lambda>_. '''')\<rparr>"

definition exMethod :: "(string, string list) Method" where
  "exMethod = \<lparr>m_Name = ''M'', m_PkgPath = '''', m_In = [Ptr (Named ''S''), Named ''string'', Ptr (Named ''string'')],
     m_NumOut = 0, m_Func = (\<lambda>ob arg _. (ob @ [arg], arg @ arg))\<rparr>"

definition exService :: "(string, string list) Service" where
  "exService = MakeService ''S'' 0 [exMethod]"

definition exOps :: "(nat, string, string list) netOp list" where
  "exOps = [OpMakeEnd (Some 3), OpMakeServer, OpAddService 0 exService, OpAddServer (Some 2) 0,
     OpConnect (Some 3) (Some 2), OpEnable (Some 3) True]"

definition exInit :: "(nat, string, string list) rpcSystem" where
  "exInit = \<lparr>net = MakeNetwork, srvs = [], objs = (\<lambda>_. []), rpcs = [], router = True, died = None, execs = []\<rparr>"

fun ops_run :: "('n, 'v, 'o) netOp list \<Rightarrow> ('n, 'v, 'o) rpcSystem \<Rightarrow> bool" where
  "ops_run [] s \<longleftrightarrow> True"
| "ops_run (op # ops) s \<longleftrightarrow> died s = None \<and> op_ok op s \<and> ops_run ops (net_op op s)"

definition exUp :: "(nat, string, string list) rpcSystem" where
  "exUp = foldl (\<lambda>s op. net_op op s) exInit exOps"

definition exCalled :: "(nat, string, string list) rpcSystem" where
  "exCalled = Call_begin exG \<lparr>ce_endname = Some 3\<rparr> ''S.M'' ''ab'' '''' exUp"

definition exStarted :: "(nat, string, string list) rpcSystem" where
  "exStarted = router_accept 0 exCalled"

definition exChosen :: "(nat, string, string list) rpcSystem" where
  "exChosen = upd_rpc 0 (\<lambda>c. c\<lparr>proc := processReq_begin (net exStarted) (rpc_req c)\<rparr>) exStarted"

definition exInfo :: "nat endInfo" where
  "exInfo = \<lparr>ei_enabled = True, ei_servername = Some 2, ei_server = Some 0, ei_reliable = True, ei_longreordering = False\<rparr>"

definition exPolling :: "(nat, string, string list) rpcSystem" where
  "exPolling = upd_rpc 0 (deliver exInfo 0) exChosen"

definition exDeleted :: "(nat, string, string list) rpcSystem" where
  "exDeleted = net_op (OpDeleteServer (Some 2)) exPolling"

definition exRun :: "(nat, string, string list) rpcSystem" where
  "exRun = run_handler exG 0 exService ''M'' (run_lookup 0 0 exPolling)"

definition exReply :: replyMsg where
  "exReply = \<lparr>rep_ok = True, rep_reply = ''abab''\<rparr>"

definition exLeft :: "(nat, string, string list) rpcSystem" where
  "exLeft = upd_rpc 0 (\<lambda>c. c\<lparr>handler := Taken exReply, proc := LeftLoop exInfo (Some exReply)\<rparr>) exRun"

definition exDone :: "(nat, string, string list) rpcSystem" where
  "exDone = send_reply exG 0 exReply
     (upd_rpc 0 (\<lambda>c. c\<lparr>proc := processReq_finish (net exLeft) (rpc_req c) exInfo (Some exReply) 0 0\<rparr>) exLeft)"

section \<open>The states of the run\<close>

lemma ops_reach:
  "reach init (\<lambda>s t. \<exists>l. net_step G l s t) s \<Longrightarrow> ops_run ops s \<Longrightarrow>
    reach init (\<lambda>s t. \<exists>l. net_step G l s t) (foldl (\<lambda>s op. net_op op s) s ops)"
proof (induction ops arbitrary: s)
  case (Cons op ops)
  from Cons.prems(2) have "net_step G (Some op) s (net_op op s)" by (auto intro: ns_op)
  with Cons.prems(1) have "reach init (\<lambda>s t. \<exists>l. net_step G l s t) (net_op op s)" by (blast intro: reach_step)
  with Cons.IH Cons.prems(2) show ?case by simp
qed simp

lemmas ex_ops = exOps_def exInit_def MakeNetwork_def MakeEnd_def AddServer_def AddService_def MakeServer_def Connect_def
  Enable_def exService_def MakeService_def suitable_handler_def exMethod_def Let_def

lemma exUp_fields:
  "ends (net exUp) (Some 3) = Some \<lparr>ce_endname = Some 3\<rparr>" "died exUp = None" "router exUp" "rpcs exUp = []" "execs exUp = []"
  "reliable (net exUp)" "\<not> longReordering (net exUp)" "\<not> done_closed (net exUp)" "enabled (net exUp) (Some 3)"
  "connections (net exUp) (Some 3) = Some 2" "servers (net exUp) (Some 2) = Some 0" "length (srvs exUp) = 1"
  "services (srvs exUp ! 0) ''S'' = Some exService" "objs exUp = (\<lambda>_. [])"
  by (simp_all add: exUp_def ex_ops)

lemma exUp_reach: "reach (net_start (\<lambda>_. [])) (\<lambda>s t. \<exists>l. net_step exG l s t) exUp"
  unfolding exUp_def
  by (rule ops_reach [OF reach_init]) (simp_all add: net_start_def ex_ops)

lemma exCalled_fields:
  "died exCalled = None" "router exCalled" "execs exCalled = []" "net exCalled = net exUp" "srvs exCalled = srvs exUp"
  "objs exCalled = (\<lambda>_. [])"
  "rpcs exCalled =
    [\<lparr>rpc_req = \<lparr>req_endname = Some 3, req_svcMeth = ''S.M'', req_argsType = Named ''string'', req_args = ''ab''\<rparr>,
      rpc_var = '''', client = AtSend, proc = Unsent, handler = NoHandler\<rparr>]"
  by (simp_all add: exCalled_def Call_begin_def exG_def exUp_fields)

lemma exCalled_reach: "reach (net_start (\<lambda>_. [])) (\<lambda>s t. \<exists>l. net_step exG l s t) exCalled"
  unfolding exCalled_def
  by (rule reach_step [OF exUp_reach]) (blast intro: ns_call [OF exUp_fields(2,1)])

lemma ex_rpc_step:
  "reach (net_start (\<lambda>_. [])) (\<lambda>s t. \<exists>l. net_step exG l s t) s \<Longrightarrow> died s = None \<Longrightarrow> length (rpcs s) = 1 \<Longrightarrow>
    rpc_step exG 0 s t \<Longrightarrow> reach (net_start (\<lambda>_. [])) (\<lambda>s t. \<exists>l. net_step exG l s t) t"
  by (rule reach_step) (use ns_rpc [of s 0 exG t] in auto)

lemma exPolling_fields:
  "died exPolling = None" "router exPolling" "execs exPolling = []" "srvs exPolling = srvs exUp" "objs exPolling = (\<lambda>_. [])"
  "servers (net exPolling) = servers (net exUp)" "enabled (net exPolling) = enabled (net exUp)"
  "rpcs exPolling =
    [\<lparr>rpc_req = \<lparr>req_endname = Some 3, req_svcMeth = ''S.M'', req_argsType = Named ''string'', req_args = ''ab''\<rparr>,
      rpc_var = '''', client = AtReceive, proc = Polling exInfo, handler = Undispatched 0\<rparr>]"
  by (simp_all add: exPolling_def exChosen_def exStarted_def upd_rpc_def router_accept_def Let_def exCalled_fields exUp_fields
      processReq_begin_def readEndnameInfo_def deliver_def processReq_drop_def exInfo_def)

lemma exPolling_reach: "reach (net_start (\<lambda>_. [])) (\<lambda>s t. \<exists>l. net_step exG l s t) exPolling"
proof -
  have "reach (net_start (\<lambda>_. [])) (\<lambda>s t. \<exists>l. net_step exG l s t) exStarted"
    unfolding exStarted_def
    by (rule ex_rpc_step [OF exCalled_reach _ _ rs_accept]) (simp_all add: exCalled_fields)
  then have "reach (net_start (\<lambda>_. [])) (\<lambda>s t. \<exists>l. net_step exG l s t) exChosen"
    unfolding exChosen_def
    by (rule ex_rpc_step [OF _ _ _ rs_begin]) (simp_all add: exStarted_def router_accept_def upd_rpc_def Let_def exCalled_fields)
  then show ?thesis
    unfolding exPolling_def
    by (rule ex_rpc_step [OF _ _ _ rs_deliver])
      (simp_all add: exChosen_def exStarted_def router_accept_def upd_rpc_def Let_def exCalled_fields exUp_fields
        processReq_begin_def readEndnameInfo_def exInfo_def)
qed

lemma exRun_fields:
  "died exRun = None" "servers (net exRun) = servers (net exUp)" "enabled (net exRun) = enabled (net exUp)"
  "execs exRun = [(0, exService, ''M'', exReply)]"
  "rpcs exRun =
    [\<lparr>rpc_req = \<lparr>req_endname = Some 3, req_svcMeth = ''S.M'', req_argsType = Named ''string'', req_args = ''ab''\<rparr>,
      rpc_var = '''', client = AtReceive, proc = Polling exInfo, handler = Offering exReply\<rparr>]"
  by (simp_all add: exRun_def run_handler_def run_lookup_def Server_dispatch_def LastIndex_def upd_rpc_def exPolling_fields
      exUp_fields Service_dispatch_def exService_def MakeService_def suitable_handler_def exMethod_def exG_def exReply_def Let_def)

lemma exRun_reach: "reach (net_start (\<lambda>_. [])) (\<lambda>s t. \<exists>l. net_step exG l s t) exRun"
proof -
  have "reach (net_start (\<lambda>_. [])) (\<lambda>s t. \<exists>l. net_step exG l s t) (run_lookup 0 0 exPolling)"
    by (rule ex_rpc_step [OF exPolling_reach _ _ rs_lookup]) (simp_all add: exPolling_fields)
  then show ?thesis
    unfolding exRun_def
    by (rule ex_rpc_step [OF _ _ _ rs_handler])
      (simp_all add: run_lookup_def Server_dispatch_def LastIndex_def upd_rpc_def exPolling_fields exUp_fields Let_def)
qed

lemma exDone_fields:
  "died exDone = None" "execs exDone = [(0, exService, ''M'', exReply)]" "length (rpcs exDone) = 1"
  "client (rpcs exDone ! 0) = CallReturned True" "rpc_var (rpcs exDone ! 0) = ''abab''" "proc (rpcs exDone ! 0) = Sent"
  by (simp_all add: exDone_def exLeft_def send_reply_def Call_finish_def upd_rpc_def Let_def exRun_fields exReply_def exG_def)

lemma exDone_reach: "reach (net_start (\<lambda>_. [])) (\<lambda>s t. \<exists>l. net_step exG l s t) exDone"
proof -
  have "reach (net_start (\<lambda>_. [])) (\<lambda>s t. \<exists>l. net_step exG l s t) exLeft"
    unfolding exLeft_def by (rule ex_rpc_step [OF exRun_reach _ _ rs_take]) (simp_all add: exRun_fields)
  then have "reach (net_start (\<lambda>_. [])) (\<lambda>s t. \<exists>l. net_step exG l s t)
     (upd_rpc 0 (\<lambda>c. c\<lparr>proc := processReq_finish (net exLeft) (rpc_req c) exInfo (Some exReply) 0 0\<rparr>) exLeft)"
    by (rule ex_rpc_step [OF _ _ _ rs_finish]) (simp_all add: exLeft_def upd_rpc_def exRun_fields)
  then show ?thesis
    unfolding exDone_def
    by (rule ex_rpc_step [OF _ _ _ rs_send_reply])
      (simp_all add: exLeft_def upd_rpc_def exRun_fields processReq_finish_def isServerDead_def exInfo_def exUp_fields)
qed

lemma exDeleted_reach: "reach (net_start (\<lambda>_. [])) (\<lambda>s t. \<exists>l. net_step exG l s t) exDeleted"
  unfolding exDeleted_def
  by (rule reach_step [OF exPolling_reach]) (use ns_op [OF exPolling_fields(1), of "OpDeleteServer (Some 2)" exG] in auto)

section \<open>The theorems on these states\<close>

theorem calls_run_at_most_once_witness:
  "client (rpcs exDone ! 0) = CallReturned True \<and> replay exG (map rpc_req (rpcs exDone)) (\<lambda>_. []) (execs exDone) = Some (objs exDone) \<and>
    (\<exists>svc meth rep v. (0, svc, meth, rep) \<in> set (execs exDone) \<and> gobDecode exG v (rep_reply rep) = Some ''abab'')"
  using calls_run_at_most_once [OF exDone_reach] exDone_fields by auto

theorem total_count_bounded_witness: "GetTotalCount (net exDone) = 1"
  using total_count_bounded [OF exDone_reach] exDone_fields by (cases "rpcs exDone") (auto simp: accepted_def)

theorem deleted_server_never_answers_witness:
  "servers (net exDeleted) (Some 2) = None \<and> client (rpcs exDeleted ! 0) \<noteq> CallReturned True"
  using deleted_server_never_answers [OF exDeleted_reach, of 0 exInfo 0 exDeleted]
  by (auto simp: exDeleted_def exPolling_fields DeleteServer_def exInfo_def)

theorem call_can_return_witness:
  "\<exists>n t. n \<le> 11 \<and> (net_step exG None ^^ n) exPolling t \<and> (died t \<noteq> None \<or> (\<exists>b. client (rpcs t ! 0) = CallReturned b))"
  using call_can_return [OF exPolling_reach, of 0] by (simp add: exPolling_fields)

theorem reliable_call_succeeds_witness:
  "client (rpcs exCalled ! 0) \<noteq> CallReturned False \<and>
    (\<exists>n t. n \<le> 11 \<and> (net_step exG None ^^ n) exCalled t \<and> (died t \<noteq> None \<or> client (rpcs t ! 0) = CallReturned True))"
  using reliable_call_succeeds [OF exCalled_reach, of 0] by (auto simp: exCalled_fields connection_up_def exUp_fields)

end
