(* ===== verification/Labgob.thy ===== *)
theory Labgob
  imports Go_Prelude
begin

text \<open>
  The wrapper around the encoder of the standard library
  (\<^verbatim>\<open>Lab3/src/labgob/labgob.go\<close>): a traversal of the type of every value that is encoded or
  decoded, which reports fields that the encoder would drop, and a check that a variable that is decoded
  into is still zero. Types may refer to themselves, so they are entries of a table. The main
  result: the traversal ends on every table, visits exactly the types that are reachable and were not
  visited before, and counts each of their lower-case fields once.
\<close>

section \<open>Definitions\<close>

datatype goKind = Struct "(string \<times> nat) list" | Slice nat | Array nat | Pointer nat | MapOf nat nat | OtherKind

type_synonym typeTable = "goKind list"

text \<open>The package variables, and the lines that were printed (the names they complain about).\<close>

record gobState =
  errorCount :: int
  checked :: "nat list"
  printed :: "string list"

text \<open>On names of ASCII characters.\<close>

definition IsUpper :: "string \<Rightarrow> bool" where
  "IsUpper name \<longleftrightarrow> (case name of [] \<Rightarrow> False | c # _ \<Rightarrow> CHR ''A'' \<le> c \<and> c \<le> CHR ''Z'')"

text \<open>
  The first argument bounds the depth of the recursion; \<open>None\<close> is a recursion that is deeper.
\<close>

fun checkType :: "nat \<Rightarrow> typeTable \<Rightarrow> nat \<Rightarrow> gobState \<Rightarrow> gobState option"
  and checkFields :: "nat \<Rightarrow> typeTable \<Rightarrow> (string \<times> nat) list \<Rightarrow> gobState \<Rightarrow> gobState option" where
  "checkType 0 ts t s = None"
| "checkType (Suc n) ts t s =
     (if t \<in> set (checked s) then Some s
      else
        let s = s\<lparr>checked := t # checked s\<rparr> in
        (case ts ! t of
           Struct fs \<Rightarrow> checkFields n ts fs s
         | Slice e \<Rightarrow> checkType n ts e s
         | Array e \<Rightarrow> checkType n ts e s
         | Pointer e \<Rightarrow> checkType n ts e s
         | MapOf key e \<Rightarrow> (case checkType n ts e s of None \<Rightarrow> None | Some s \<Rightarrow> checkType n ts key s)
         | OtherKind \<Rightarrow> Some s))"
| "checkFields n ts [] s = Some s"
| "checkFields n ts ((name, ft) # fs) s =
     (let s = (if \<not> IsUpper name then s\<lparr>errorCount := errorCount s + 1, printed := printed s @ [name]\<rparr> else s) in
      (case checkType n ts ft s of None \<Rightarrow> None | Some s \<Rightarrow> checkFields n ts fs s))"

text \<open>Enough for every table: a path of the recursion meets a type at most once.\<close>

definition checkValue :: "typeTable \<Rightarrow> nat \<Rightarrow> gobState \<Rightarrow> gobState option" where
  "checkValue ts t s = checkType (Suc (length ts)) ts t s"

text \<open>
  The values that \<open>checkDefault\<close> looks at: structures without embedded fields, pointers, and
  basic values with the name of their type and whether they are zero. \<open>None\<close> is a panic:
  \<open>Interface\<close> refuses a value that was reached through a field that is not exported.
\<close>

datatype goValue = VStruct "(string \<times> goValue) list" | VPtr "goValue option" | VBasic string bool | VOther

fun checkDefault1 :: "goValue \<Rightarrow> bool \<Rightarrow> nat \<Rightarrow> string \<Rightarrow> gobState \<Rightarrow> gobState option"
  and checkDefaults :: "(string \<times> goValue) list \<Rightarrow> bool \<Rightarrow> nat \<Rightarrow> string \<Rightarrow> gobState \<Rightarrow> gobState option" where
  "checkDefault1 (VStruct fs) ro depth name s = (if 3 < depth then Some s else checkDefaults fs ro depth name s)"
| "checkDefault1 (VPtr None) ro depth name s = Some s"
| "checkDefault1 (VPtr (Some v)) ro depth name s = (if 3 < depth then Some s else checkDefault1 v ro (depth + 1) name s)"
| "checkDefault1 (VBasic tname zero) ro depth name s =
     (if 3 < depth then Some s
      else if ro then None
      else if zero then Some s
      else
        let what = (if name = '''' then tname else name) in
        Some (s\<lparr>errorCount := errorCount s + 1, printed := (if errorCount s < 1 then printed s @ [what] else printed s)\<rparr>))"
| "checkDefault1 VOther ro depth name s = Some s"
| "checkDefaults [] ro depth name s = Some s"
| "checkDefaults ((f, v) # fs) ro depth name s =
     (case checkDefault1 v (ro \<or> \<not> IsUpper f) (depth + 1) (if name \<noteq> '''' then name @ ''.'' @ f else f) s of
        None \<Rightarrow> None
      | Some s \<Rightarrow> checkDefaults fs ro depth name s)"

definition checkDefault :: "goValue option \<Rightarrow> gobState \<Rightarrow> gobState option" where
  "checkDefault value s = (case value of None \<Rightarrow> Some s | Some v \<Rightarrow> checkDefault1 v False 1 '''' s)"

text \<open>The wrappers around an encoder \<open>enc\<close> and a decoder \<open>dec\<close>.\<close>

definition Encode :: "typeTable \<Rightarrow> ('v \<Rightarrow> bytes option) \<Rightarrow> nat \<Rightarrow> 'v \<Rightarrow> gobState \<Rightarrow> (bytes option \<times> gobState) option" where
  "Encode ts enc t e s = (case checkValue ts t s of None \<Rightarrow> None | Some s \<Rightarrow> Some (enc e, s))"

definition Decode :: "typeTable \<Rightarrow> (bytes \<Rightarrow> 'v option) \<Rightarrow> nat \<Rightarrow> goValue \<Rightarrow> bytes \<Rightarrow> gobState \<Rightarrow> ('v option \<times> gobState) option" where
  "Decode ts dec t e b s =
     (case checkValue ts t s of
        None \<Rightarrow> None
      | Some s \<Rightarrow> (case checkDefault (Some e) s of None \<Rightarrow> None | Some s \<Rightarrow> Some (dec b, s)))"

section \<open>The types that a type refers to\<close>

fun children :: "goKind \<Rightarrow> nat set" where
  "children (Struct fs) = snd ` set fs"
| "children (Slice e) = {e}"
| "children (Array e) = {e}"
| "children (Pointer e) = {e}"
| "children (MapOf key e) = {key, e}"
| "children OtherKind = {}"

fun lowerFields :: "goKind \<Rightarrow> nat" where
  "lowerFields (Struct fs) = length (filter (\<lambda>(name, _). \<not> IsUpper name) fs)"
| "lowerFields _ = 0"

definition refers :: "typeTable \<Rightarrow> (nat \<times> nat) set" where
  "refers ts = {(t, u). t < length ts \<and> u \<in> children (ts ! t)}"

definition wf_types :: "typeTable \<Rightarrow> bool" where
  "wf_types ts \<longleftrightarrow> (\<forall>k \<in> set ts. children k \<subseteq> {..<length ts})"

definition todo :: "typeTable \<Rightarrow> gobState \<Rightarrow> nat set" where
  "todo ts s = {..<length ts} - set (checked s)"

text \<open>What the traversal from the types \<open>R\<close> does, besides \<open>e\<close> errors of its own.\<close>

definition visited :: "typeTable \<Rightarrow> nat set \<Rightarrow> nat \<Rightarrow> gobState \<Rightarrow> gobState \<Rightarrow> bool" where
  "visited ts R e s s' \<longleftrightarrow>
     (let new = set (checked s') - set (checked s) in
      set (checked s) \<subseteq> set (checked s') \<and> R \<subseteq> set (checked s') \<and> new \<subseteq> {..<length ts} \<and>
      (\<forall>t \<in> new. children (ts ! t) \<subseteq> set (checked s')) \<and> new \<subseteq> (refers ts)\<^sup>* `` R \<and>
      errorCount s' = errorCount s + int e + (\<Sum>t \<in> new. int (lowerFields (ts ! t))))"

lemma visited_refl: "R \<subseteq> set (checked s) \<Longrightarrow> visited ts R 0 s s"
  by (simp add: visited_def)

lemma visited_trans:
  assumes a: "visited ts R e s s'" and b: "visited ts R' e' s' s''"
  shows "visited ts (R \<union> R') (e + e') s s''"
proof -
  let ?n1 = "set (checked s') - set (checked s)" and ?n2 = "set (checked s'') - set (checked s')"
  have sub: "set (checked s) \<subseteq> set (checked s')" "set (checked s') \<subseteq> set (checked s'')"
    using a b by (auto simp: visited_def Let_def)
  then have n: "set (checked s'') - set (checked s) = ?n1 \<union> ?n2" by auto
  have "(\<Sum>t \<in> ?n1 \<union> ?n2. int (lowerFields (ts ! t))) = (\<Sum>t \<in> ?n1. int (lowerFields (ts ! t))) + (\<Sum>t \<in> ?n2. int (lowerFields (ts ! t)))"
    by (rule sum.union_disjoint) auto
  then have "errorCount s'' = errorCount s + int (e + e') + (\<Sum>t \<in> ?n1 \<union> ?n2. int (lowerFields (ts ! t)))"
    using a b by (simp add: visited_def Let_def)
  moreover have "?n1 \<union> ?n2 \<subseteq> {..<length ts}" "?n1 \<union> ?n2 \<subseteq> (refers ts)\<^sup>* `` (R \<union> R')" "R \<union> R' \<subseteq> set (checked s'')"
    "\<forall>t \<in> ?n1 \<union> ?n2. children (ts ! t) \<subseteq> set (checked s'')"
    using a b sub unfolding visited_def Let_def by (blast+)
  ultimately show ?thesis using sub unfolding visited_def Let_def n by (simp add: subset_trans)
qed

text \<open>Marking a type and visiting its children visits the type.\<close>

lemma visited_mark:
  assumes t: "t < length ts" "t \<notin> set (checked s)"
    and v: "visited ts (children (ts ! t)) (lowerFields (ts ! t)) (s\<lparr>checked := t # checked s\<rparr>) s'"
  shows "visited ts {t} 0 s s'"
proof -
  let ?old = "set (checked s)" and ?new = "set (checked s')"
  have n: "?new - ?old = insert t (?new - insert t ?old)" "t \<in> ?new"
    using t v by (auto simp: visited_def Let_def)
  have c: "children (ts ! t) \<subseteq> (refers ts) `` {t}" using t(1) by (auto simp: refers_def)
  have "(refers ts)\<^sup>* `` children (ts ! t) \<subseteq> (refers ts)\<^sup>* `` {t}"
    using c by (auto intro: converse_rtrancl_into_rtrancl)
  moreover have "(\<Sum>u \<in> ?new - ?old. int (lowerFields (ts ! u))) =
      int (lowerFields (ts ! t)) + (\<Sum>u \<in> ?new - insert t ?old. int (lowerFields (ts ! u)))"
    unfolding n(1) by (rule sum.insert) auto
  moreover have "?new - ?old \<subseteq> (refers ts)\<^sup>* `` {t}"
  proof -
    have "?new - insert t ?old \<subseteq> (refers ts)\<^sup>* `` children (ts ! t)" using v by (simp add: visited_def Let_def)
    with calculation(1) show ?thesis by blast
  qed
  ultimately show ?thesis using v t n(2) unfolding visited_def Let_def by auto
qed

lemma visited_field:
  assumes "visited ts {ft} 0 (if \<not> IsUpper name then s\<lparr>errorCount := errorCount s + 1, printed := p\<rparr> else s) s'"
  shows "visited ts {ft} (if IsUpper name then 0 else 1) s s'"
  using assms by (auto simp: visited_def Let_def split: if_splits)

lemma todo_mono: "visited ts R e s s' \<Longrightarrow> card (todo ts s') \<le> card (todo ts s)"
  by (rule card_mono) (auto simp: todo_def visited_def Let_def)

lemma todo_mark: "t < length ts \<Longrightarrow> t \<notin> set (checked s) \<Longrightarrow> card (todo ts s) = Suc (card (todo ts (s\<lparr>checked := t # checked s\<rparr>)))"
proof -
  assume "t < length ts" "t \<notin> set (checked s)"
  then have "todo ts s = insert t (todo ts (s\<lparr>checked := t # checked s\<rparr>))" by (auto simp: todo_def)
  moreover have "t \<notin> todo ts (s\<lparr>checked := t # checked s\<rparr>)" "finite (todo ts (s\<lparr>checked := t # checked s\<rparr>))"
    by (simp_all add: todo_def)
  ultimately show ?thesis by (metis card_insert_disjoint)
qed

section \<open>The traversal\<close>

lemma children_wf: "wf_types ts \<Longrightarrow> t < length ts \<Longrightarrow> children (ts ! t) \<subseteq> {..<length ts}"
  by (simp add: wf_types_def)

lemma check_visits:
  assumes "wf_types ts"
  shows "t < length ts \<Longrightarrow> card (todo ts s) < n \<Longrightarrow> \<exists>s'. checkType n ts t s = Some s' \<and> visited ts {t} 0 s s'"
    and "snd ` set fs \<subseteq> {..<length ts} \<Longrightarrow> card (todo ts s) < n \<Longrightarrow>
      \<exists>s'. checkFields n ts fs s = Some s' \<and> visited ts (snd ` set fs) (lowerFields (Struct fs)) s s'"
  using assms
proof (induction n ts t s and n ts fs s rule: checkType_checkFields.induct)
  case (2 n ts t s)
  show ?case
  proof (cases "t \<in> set (checked s)")
    case True
    then show ?thesis by (auto intro: visited_refl)
  next
    case False
    let ?s = "s\<lparr>checked := t # checked s\<rparr>"
    have t: "t < length ts" "wf_types ts" using 2 by simp_all
    have c: "card (todo ts ?s) < n" using todo_mark [OF t(1) False] 2 by simp
    note IH = "2.IH" [OF False refl]
    have "\<exists>s'. checkType (Suc n) ts t s = Some s' \<and> visited ts (children (ts ! t)) (lowerFields (ts ! t)) ?s s'"
    proof (cases "ts ! t")
      case (Struct fs)
      with IH(1) [OF Struct _ c t(2)] children_wf [OF t(2,1)] False show ?thesis by simp
    next
      case (Slice e)
      with IH(2) [OF Slice _ c t(2)] children_wf [OF t(2,1)] False show ?thesis by simp
    next
      case (Array e)
      with IH(3) [OF Array _ c t(2)] children_wf [OF t(2,1)] False show ?thesis by simp
    next
      case (Pointer e)
      with IH(4) [OF Pointer _ c t(2)] children_wf [OF t(2,1)] False show ?thesis by simp
    next
      case (MapOf key e)
      from children_wf [OF t(2,1)] MapOf have ke: "e < length ts" "key < length ts" by auto
      obtain s1 where s1: "checkType n ts e ?s = Some s1" "visited ts {e} 0 ?s s1"
        using IH(5) [OF MapOf ke(1) c t(2)] by blast
      have "card (todo ts s1) < n" using todo_mono [OF s1(2)] c by simp
      from IH(6) [OF MapOf s1(1) ke(2) this t(2)] obtain s2
        where "checkType n ts key s1 = Some s2" "visited ts {key} 0 s1 s2" by blast
      with s1 visited_trans [OF s1(2)] MapOf False show ?thesis by (fastforce simp: insert_commute)
    next
      case OtherKind
      with False show ?thesis by (auto intro: visited_refl)
    qed
    then show ?thesis using visited_mark [OF t(1) False] by blast
  qed
next
  case (4 n ts name ft fs s)
  let ?s = "if \<not> IsUpper name then s\<lparr>errorCount := errorCount s + 1, printed := printed s @ [name]\<rparr> else s"
  have c: "card (todo ts ?s) < n" using 4 by (simp add: todo_def)
  from "4.IH"(1) [OF refl _ c] "4.prems" obtain s1 where s1: "checkType n ts ft ?s = Some s1" "visited ts {ft} 0 ?s s1"
    by auto
  have "card (todo ts s1) < n" using todo_mono [OF s1(2)] c by simp
  from "4.IH"(2) [OF refl s1(1) _ this] "4.prems" obtain s2
    where s2: "checkFields n ts fs s1 = Some s2" "visited ts (snd ` set fs) (lowerFields (Struct fs)) s1 s2" by auto
  have v: "visited ts {ft} (if IsUpper name then 0 else 1) s s1" using s1(2) by (rule visited_field)
  have "checkFields n ts ((name, ft) # fs) s = Some s2" using s1(1) s2(1) by (simp add: Let_def)
  moreover have "visited ts (snd ` set ((name, ft) # fs)) (lowerFields (Struct ((name, ft) # fs))) s s2"
    using visited_trans [OF v s2(2)] by (cases "IsUpper name") simp_all
  ultimately show ?case by blast
qed (auto intro: visited_refl)

text \<open>What was checked is closed: the state of the package before and after every check.\<close>

definition checked_closed :: "typeTable \<Rightarrow> gobState \<Rightarrow> bool" where
  "checked_closed ts s \<longleftrightarrow> set (checked s) \<subseteq> {..<length ts} \<and> (\<forall>t \<in> set (checked s). children (ts ! t) \<subseteq> set (checked s))"

lemma closed_reach:
  assumes "checked_closed ts s" "t \<in> set (checked s)" "(t, u) \<in> (refers ts)\<^sup>*"
  shows "u \<in> set (checked s)"
  using assms(3,2) by (induction rule: rtrancl_induct) (use assms(1) in \<open>auto simp: refers_def checked_closed_def\<close>)

text \<open>
  C30: the check of a type ends, on tables with types that refer to each other in any way, and it
  visits exactly the types that can be reached from it, besides those that were visited before.
  The error count grows by the number of the lower-case fields of the types it visits.
\<close>

theorem checkValue_exact:
  assumes "wf_types ts" "t < length ts" "checked_closed ts s"
  shows "\<exists>s'. checkValue ts t s = Some s' \<and> checked_closed ts s' \<and>
    set (checked s') = set (checked s) \<union> (refers ts)\<^sup>* `` {t} \<and>
    errorCount s' = errorCount s + (\<Sum>u \<in> (refers ts)\<^sup>* `` {t} - set (checked s). int (lowerFields (ts ! u)))"
proof -
  have "card (todo ts s) \<le> card {..<length ts}" by (rule card_mono) (auto simp: todo_def)
  then have "card (todo ts s) < Suc (length ts)" by simp
  from check_visits(1) [OF assms(1,2) this] obtain s' where s': "checkValue ts t s = Some s'" "visited ts {t} 0 s s'"
    by (auto simp: checkValue_def)
  have cl: "checked_closed ts s'"
    using s'(2) assms(3) unfolding checked_closed_def visited_def Let_def by blast
  have "t \<in> set (checked s')" using s'(2) by (simp add: visited_def Let_def)
  then have "(refers ts)\<^sup>* `` {t} \<subseteq> set (checked s')" using closed_reach [OF cl] by blast
  with s'(2) have eq: "set (checked s') = set (checked s) \<union> (refers ts)\<^sup>* `` {t}"
    unfolding visited_def Let_def by blast
  then have "set (checked s') - set (checked s) = (refers ts)\<^sup>* `` {t} - set (checked s)" by auto
  with s' cl eq show ?thesis by (auto simp: visited_def Let_def)
qed

section \<open>The check of variables\<close>

fun height :: "goValue \<Rightarrow> nat" where
  "height (VStruct fs) = Suc (foldr max (map (\<lambda>(_, v). height v) fs) 0)"
| "height (VPtr (Some v)) = Suc (height v)"
| "height _ = 1"

fun all_zero :: "goValue \<Rightarrow> bool" where
  "all_zero (VStruct fs) \<longleftrightarrow> list_all (\<lambda>(_, v). all_zero v) fs"
| "all_zero (VPtr (Some v)) \<longleftrightarrow> all_zero v"
| "all_zero (VBasic _ zero) \<longleftrightarrow> zero"
| "all_zero _ \<longleftrightarrow> True"

fun exported :: "goValue \<Rightarrow> bool" where
  "exported (VStruct fs) \<longleftrightarrow> list_all (\<lambda>(f, v). IsUpper f \<and> exported v) fs"
| "exported (VPtr (Some v)) \<longleftrightarrow> exported v"
| "exported _ \<longleftrightarrow> True"

lemma height_field: "(f, v) \<in> set fs \<Longrightarrow> height v \<le> foldr max (map (\<lambda>(_, v). height v) fs) 0"
  by (induction fs) (auto simp: max_def)

text \<open>The check is silent, it warns, and nothing else.\<close>

definition warns :: "gobState option \<Rightarrow> gobState \<Rightarrow> bool \<Rightarrow> bool" where
  "warns r s quiet \<longleftrightarrow>
     (\<exists>s'. r = Some s' \<and> errorCount s \<le> errorCount s' \<and> (errorCount s' = errorCount s \<longleftrightarrow> quiet) \<and> checked s' = checked s)"

lemma checkDefault1_warns:
  "\<not> ro \<Longrightarrow> exported v \<Longrightarrow> height v + d \<le> 4 \<Longrightarrow> warns (checkDefault1 v ro d name s) s (all_zero v)"
  "\<not> ro \<Longrightarrow> exported (VStruct fs) \<Longrightarrow> \<forall>(_, v) \<in> set fs. height v + d \<le> 3 \<Longrightarrow>
    warns (checkDefaults fs ro d name s) s (list_all (\<lambda>(_, v). all_zero v) fs)"
proof (induction v ro d name s and fs ro d name s rule: checkDefault1_checkDefaults.induct)
  case (1 fs ro d name s)
  have "height v + d \<le> 3" if "(f, v) \<in> set fs" for f v
    using height_field [OF that] "1.prems" by simp
  with 1 show ?case by auto
next
  case (7 f v fs ro d name s)
  then have "warns (checkDefault1 v (ro \<or> \<not> IsUpper f) (d + 1) (if name \<noteq> '''' then name @ ''.'' @ f else f) s) s (all_zero v)"
    by auto
  then obtain s1 where s1: "checkDefault1 v (ro \<or> \<not> IsUpper f) (d + 1) (if name \<noteq> '''' then name @ ''.'' @ f else f) s = Some s1"
    "errorCount s \<le> errorCount s1" "errorCount s1 = errorCount s \<longleftrightarrow> all_zero v" "checked s1 = checked s"
    by (auto simp: warns_def)
  have "warns (checkDefaults fs ro d name s1) s1 (list_all (\<lambda>(_, v). all_zero v) fs)"
    using "7.IH"(2) [OF s1(1)] "7.prems" by auto
  with s1 show ?case by (auto simp: warns_def)
qed (auto simp: warns_def Let_def)

text \<open>
  On a variable whose values are at most three levels deep and whose fields are exported, the
  check does not panic, and it warns unless all basic values in it are zero.
\<close>

theorem checkDefault_warns:
  assumes "exported v" "height v \<le> 3"
  shows "warns (checkDefault (Some v) s) s (all_zero v)"
  using assms checkDefault1_warns(1) [of False v 1] by (simp add: checkDefault_def)

text \<open>One level deeper the check is silent on any value.\<close>

lemma checkDefault_depth_limit:
  "checkDefault (Some (VStruct [(a, VStruct [(b, VStruct [(c, VBasic t False)])])])) s = Some s"
  by (simp add: checkDefault_def)

lemma checkDefaults_panics:
  "(f, VBasic t z) \<in> set fs \<Longrightarrow> \<not> IsUpper f \<Longrightarrow> d \<le> 2 \<Longrightarrow> checkDefaults fs ro d name s = None"
  by (induction fs arbitrary: s) (auto split: option.splits)

text \<open>
  C40: decoding into a pointer to a structure that has a lower-case field of a basic type
  panics in the check, which is there to print a warning about the field.
\<close>

theorem lowercase_field_panics:
  assumes "(f, VBasic t z) \<in> set fs" "\<not> IsUpper f"
  shows "checkDefault (Some (VPtr (Some (VStruct fs)))) s = None \<and> Decode ts dec ty (VPtr (Some (VStruct fs))) b s = None"
  using checkDefaults_panics [OF assms]
  by (auto simp: Decode_def checkDefault_def split: option.splits)

theorem lowercase_field_panics_witness:
  "\<not> IsUpper ''size'' \<and>
    Decode [OtherKind] (\<lambda>b. Some b) 0 (VPtr (Some (VStruct [(''size'', VBasic ''int'' True)]))) ''x''
      \<lparr>errorCount = 0, checked = [], printed = []\<rparr> = None"
  using lowercase_field_panics [of "''size''" "''int''" True "[(''size'', VBasic ''int'' True)]"
    "\<lparr>errorCount = 0, checked = [], printed = []\<rparr>" "[OtherKind]" "\<lambda>b. Some b" 0 "''x''"]
  by (simp add: IsUpper_def)

text \<open>A structure that points to itself and has a lower-case field.\<close>

definition exTypes :: typeTable where
  "exTypes = [Struct [(''Next'', 1), (''size'', 2)], Pointer 0, OtherKind]"

definition exGob :: gobState where
  "exGob = \<lparr>errorCount = 0, checked = [], printed = []\<rparr>"

theorem checkValue_exact_witness:
  "\<exists>s'. checkValue exTypes 0 exGob = Some s' \<and> checked_closed exTypes s' \<and> set (checked s') = (refers exTypes)\<^sup>* `` {0} \<and> errorCount s' = 1"
proof -
  have "wf_types exTypes" "0 < length exTypes" "checked_closed exTypes exGob"
    by (simp_all add: wf_types_def exTypes_def checked_closed_def exGob_def)
  from checkValue_exact [OF this] obtain s' where "checkValue exTypes 0 exGob = Some s'" "checked_closed exTypes s'"
    "set (checked s') = set (checked exGob) \<union> (refers exTypes)\<^sup>* `` {0}" by blast
  moreover from this(1) have "errorCount s' = 1"
    by (auto simp: checkValue_def exTypes_def exGob_def IsUpper_def Let_def numeral_eq_Suc)
  ultimately show ?thesis by (auto simp: exGob_def)
qed

end
