(* ===== verification/Raft_Persister.thy ===== *)
theory Raft_Persister
  imports Go_Prelude
begin

text \<open>
  The store for the state of a Raft server (\<^verbatim>\<open>Lab3/src/raft/persister.go\<close>). Slices are
  references, so the model has a memory of byte arrays, and a client may write to every array that it
  made or was given. The result is a refinement: because the store copies what it takes
  and what it gives, it behaves like a store of values, whatever the clients write to their arrays.
\<close>

section \<open>Definitions\<close>

text \<open>A slice of a whole array, by its address; \<open>None\<close> is nil.\<close>

type_synonym slice = "nat option"

record Persister =
  raftstate :: slice
  snapshot :: slice

definition content :: "bytes list \<Rightarrow> slice \<Rightarrow> bytes" where
  "content arrays sl = (case sl of None \<Rightarrow> [] | Some a \<Rightarrow> arrays ! a)"

definition MakePersister :: Persister where
  "MakePersister = \<lparr>raftstate = None, snapshot = None\<rparr>"

text \<open>The copy goes to a new array.\<close>

definition clone :: "bytes list \<Rightarrow> slice \<Rightarrow> slice \<times> bytes list" where
  "clone arrays orig = (Some (length arrays), arrays @ [content arrays orig])"

definition Persister_Copy :: "Persister \<Rightarrow> Persister" where
  "Persister_Copy ps = MakePersister\<lparr>raftstate := raftstate ps, snapshot := snapshot ps\<rparr>"

definition SaveRaftState :: "slice \<Rightarrow> Persister \<Rightarrow> bytes list \<Rightarrow> Persister \<times> bytes list" where
  "SaveRaftState st ps arrays = (case clone arrays st of (x, arrays) \<Rightarrow> (ps\<lparr>raftstate := x\<rparr>, arrays))"

definition ReadRaftState :: "Persister \<Rightarrow> bytes list \<Rightarrow> slice \<times> bytes list" where
  "ReadRaftState ps arrays = clone arrays (raftstate ps)"

definition RaftStateSize :: "Persister \<Rightarrow> bytes list \<Rightarrow> nat" where
  "RaftStateSize ps arrays = length (content arrays (raftstate ps))"

definition SaveStateAndSnapshot :: "slice \<Rightarrow> slice \<Rightarrow> Persister \<Rightarrow> bytes list \<Rightarrow> Persister \<times> bytes list" where
  "SaveStateAndSnapshot st snap ps arrays =
     (case clone arrays st of (x, arrays) \<Rightarrow>
        (case clone arrays snap of (y, arrays) \<Rightarrow> (ps\<lparr>raftstate := x, snapshot := y\<rparr>, arrays)))"

definition ReadSnapshot :: "Persister \<Rightarrow> bytes list \<Rightarrow> slice \<times> bytes list" where
  "ReadSnapshot ps arrays = clone arrays (snapshot ps)"

definition SnapshotSize :: "Persister \<Rightarrow> bytes list \<Rightarrow> nat" where
  "SnapshotSize ps arrays = length (content arrays (snapshot ps))"

section \<open>Clients\<close>

text \<open>The memory, the persisters by number, and the addresses that clients have.\<close>

record persSystem =
  arrays :: "bytes list"
  persisters :: "Persister list"
  visible :: "nat set"

datatype persOp =
    PMake
  | PCopy nat
  | PAlloc bytes
  | PWrite nat nat char
  | PSave nat slice
  | PSaveBoth nat slice slice
  | PRead nat
  | PReadSnapshot nat

definition sees :: "persSystem \<Rightarrow> slice \<Rightarrow> bool" where
  "sees s sl \<longleftrightarrow> (case sl of None \<Rightarrow> True | Some a \<Rightarrow> a \<in> visible s)"

fun pers_ok :: "persOp \<Rightarrow> persSystem \<Rightarrow> bool" where
  "pers_ok (PCopy p) s \<longleftrightarrow> p < length (persisters s)"
| "pers_ok (PWrite a i c) s \<longleftrightarrow> a \<in> visible s \<and> i < length (arrays s ! a)"
| "pers_ok (PSave p st) s \<longleftrightarrow> p < length (persisters s) \<and> sees s st"
| "pers_ok (PSaveBoth p st snap) s \<longleftrightarrow> p < length (persisters s) \<and> sees s st \<and> sees s snap"
| "pers_ok (PRead p) s \<longleftrightarrow> p < length (persisters s)"
| "pers_ok (PReadSnapshot p) s \<longleftrightarrow> p < length (persisters s)"
| "pers_ok _ s \<longleftrightarrow> True"

text \<open>The operation and the bytes that a client reads with it.\<close>

fun pers_op :: "persOp \<Rightarrow> persSystem \<Rightarrow> bytes option \<times> persSystem" where
  "pers_op PMake s = (None, s\<lparr>persisters := persisters s @ [MakePersister]\<rparr>)"
| "pers_op (PCopy p) s = (None, s\<lparr>persisters := persisters s @ [Persister_Copy (persisters s ! p)]\<rparr>)"
| "pers_op (PAlloc b) s = (None, s\<lparr>arrays := arrays s @ [b], visible := insert (length (arrays s)) (visible s)\<rparr>)"
| "pers_op (PWrite a i c) s = (None, s\<lparr>arrays := (arrays s)[a := (arrays s ! a)[i := c]]\<rparr>)"
| "pers_op (PSave p st) s =
     (case SaveRaftState st (persisters s ! p) (arrays s) of
        (ps, m) \<Rightarrow> (None, s\<lparr>arrays := m, persisters := (persisters s)[p := ps]\<rparr>))"
| "pers_op (PSaveBoth p st snap) s =
     (case SaveStateAndSnapshot st snap (persisters s ! p) (arrays s) of
        (ps, m) \<Rightarrow> (None, s\<lparr>arrays := m, persisters := (persisters s)[p := ps]\<rparr>))"
| "pers_op (PRead p) s =
     (case ReadRaftState (persisters s ! p) (arrays s) of
        (sl, m) \<Rightarrow> (Some (content m sl), s\<lparr>arrays := m, visible := visible s \<union> set_option sl\<rparr>))"
| "pers_op (PReadSnapshot p) s =
     (case ReadSnapshot (persisters s ! p) (arrays s) of
        (sl, m) \<Rightarrow> (Some (content m sl), s\<lparr>arrays := m, visible := visible s \<union> set_option sl\<rparr>))"

section \<open>A store of values\<close>

text \<open>
  The specification: every persister is a pair of byte strings. The first argument gives
  the content of the slices that are saved, at the time of the call.
\<close>

fun value_op :: "(slice \<Rightarrow> bytes) \<Rightarrow> persOp \<Rightarrow> (bytes \<times> bytes) list \<Rightarrow> bytes option \<times> (bytes \<times> bytes) list" where
  "value_op val PMake vs = (None, vs @ [([], [])])"
| "value_op val (PCopy p) vs = (None, vs @ [vs ! p])"
| "value_op val (PSave p st) vs = (None, vs[p := (val st, snd (vs ! p))])"
| "value_op val (PSaveBoth p st snap) vs = (None, vs[p := (val st, val snap)])"
| "value_op val (PRead p) vs = (Some (fst (vs ! p)), vs)"
| "value_op val (PReadSnapshot p) vs = (Some (snd (vs ! p)), vs)"
| "value_op val _ vs = (None, vs)"

definition value_of :: "bytes list \<Rightarrow> Persister \<Rightarrow> bytes \<times> bytes" where
  "value_of m ps = (content m (raftstate ps), content m (snapshot ps))"

definition pers_values :: "persSystem \<Rightarrow> (bytes \<times> bytes) list" where
  "pers_values s = map (value_of (arrays s)) (persisters s)"

text \<open>No client has the address of an array that a persister holds.\<close>

definition held :: "Persister \<Rightarrow> nat set" where
  "held ps = set_option (raftstate ps) \<union> set_option (snapshot ps)"

definition pers_inv :: "persSystem \<Rightarrow> bool" where
  "pers_inv s \<longleftrightarrow> visible s \<subseteq> {..<length (arrays s)} \<and>
     (\<forall>ps \<in> set (persisters s). held ps \<subseteq> {..<length (arrays s)} - visible s)"

lemma content_append: "set_option sl \<subseteq> {..<length m} \<Longrightarrow> content (m @ m') sl = content m sl"
  by (auto simp: content_def nth_append split: option.splits)

lemma value_of_append: "held ps \<subseteq> {..<length m} \<Longrightarrow> value_of (m @ m') ps = value_of m ps"
  by (simp add: value_of_def held_def content_append)

lemma value_of_write: "a \<notin> held ps \<Longrightarrow> value_of (m[a := b]) ps = value_of m ps"
  by (auto simp: value_of_def held_def content_def split: option.splits)

lemma inv_held: "pers_inv s \<Longrightarrow> ps \<in> set (persisters s) \<Longrightarrow> held ps \<subseteq> {..<length (arrays s)} - visible s"
  by (simp add: pers_inv_def)

lemma sees_bound: "pers_inv s \<Longrightarrow> sees s sl \<Longrightarrow> set_option sl \<subseteq> {..<length (arrays s)}"
  by (auto simp: pers_inv_def sees_def)

lemma map_value_append:
  "pers_inv s \<Longrightarrow> map (value_of (arrays s @ m)) (persisters s) = map (value_of (arrays s)) (persisters s)"
  using inv_held by (fastforce intro: value_of_append)

lemmas pers_defs = MakePersister_def Persister_Copy_def SaveRaftState_def SaveStateAndSnapshot_def ReadRaftState_def
  ReadSnapshot_def clone_def

lemma pers_op_inv:
  assumes "pers_inv s" "pers_ok op s"
  shows "pers_inv (snd (pers_op op s))"
  using assms inv_held [OF assms(1)]
  by (cases op) (auto simp: pers_inv_def pers_defs held_def dest!: set_update_subset_insert [THEN subsetD] nth_mem; force)+

lemma content_new [simp]:
  "content (m @ b # m') (Some (length m)) = b" "content (m @ [c, b]) (Some (Suc (length m))) = b"
  by (simp_all add: content_def nth_append)

lemma value_of_pair: "value_of m (ps\<lparr>raftstate := x\<rparr>) = (content m x, content m (snapshot ps))"
  "value_of m (ps\<lparr>raftstate := x, snapshot := y\<rparr>) = (content m x, content m y)"
  by (simp_all add: value_of_def)

lemma pers_op_refines:
  assumes inv: "pers_inv s" and ok: "pers_ok op s"
  shows "value_op (content (arrays s)) op (pers_values s) = (fst (pers_op op s), pers_values (snd (pers_op op s)))"
proof -
  have h: "set_option (raftstate ps) \<subseteq> {..<length (arrays s)}" "set_option (snapshot ps) \<subseteq> {..<length (arrays s)}"
    if "ps \<in> set (persisters s)" for ps using inv_held [OF inv that] by (auto simp: held_def)
  show ?thesis
  proof (cases op)
    case (PWrite a i c)
    have "map (value_of ((arrays s)[a := (arrays s ! a)[i := c]])) (persisters s) = map (value_of (arrays s)) (persisters s)"
      using inv_held [OF inv] ok PWrite by (intro map_cong refl value_of_write) fastforce
    with PWrite show ?thesis by (simp add: pers_values_def)
  next
    case (PSave p st)
    with ok have p: "p < length (persisters s)" by simp
    with h(2) [OF nth_mem] have "content (arrays s @ [content (arrays s) st]) (snapshot (persisters s ! p)) = content (arrays s) (snapshot (persisters s ! p))"
      by (intro content_append) simp
    with PSave p show ?thesis
      by (simp add: map_value_append [OF inv] pers_values_def pers_defs map_update value_of_pair value_of_def [of "arrays s" "persisters s ! p"])
  next
    case (PSaveBoth p st snap)
    with ok have p: "p < length (persisters s)" "sees s snap" by simp_all
    then have "content (arrays s @ [content (arrays s) st]) snap = content (arrays s) snap"
      using sees_bound [OF inv] by (intro content_append) simp
    with PSaveBoth p show ?thesis
      by (simp add: map_value_append [OF inv] pers_values_def pers_defs map_update value_of_pair)
  qed (use map_value_append [OF inv] ok in
    \<open>auto simp: pers_values_def pers_defs value_of_def content_def nth_append\<close>)
qed

section \<open>Runs\<close>

inductive pers_step :: "persSystem \<Rightarrow> persSystem \<Rightarrow> bool" where
  "pers_ok op s \<Longrightarrow> pers_step s (snd (pers_op op s))"

definition pers_start :: "persSystem \<Rightarrow> bool" where
  "pers_start s \<longleftrightarrow> s = \<lparr>arrays = [], persisters = [], visible = {}\<rparr>"

interpretation pers: invariant_system pers_start pers_step pers_inv
  by unfold_locales (auto simp: pers_start_def pers_inv_def [of "\<lparr>arrays = [], persisters = [], visible = {}\<rparr>"]
    elim: pers_step.cases intro: pers_op_inv)

text \<open>
  C22: the store is a store of values. In every state that clients can bring about, every
  operation has the effect and the result that the specification has on pairs of byte
  strings; in particular a client that writes to an array it passed or was given changes
  no stored value.
\<close>

theorem persister_refines_values:
  assumes "reach pers_start pers_step s" "pers_ok op s" "pers_op op s = (result, t)"
  shows "value_op (content (arrays s)) op (pers_values s) = (result, pers_values t)"
  using pers_op_refines [OF pers.reach_inv [OF assms(1)] assms(2)] assms(3) by simp

text \<open>One persister, saved from an array that the client then overwrites.\<close>

definition exPers :: persSystem where
  "exPers = \<lparr>arrays = [''ab'', ''ab''], persisters = [\<lparr>raftstate = Some 1, snapshot = None\<rparr>], visible = {0}\<rparr>"

lemma exPers_reach: "reach pers_start pers_step exPers"
proof -
  let ?s0 = "\<lparr>arrays = [], persisters = [], visible = {}\<rparr>"
  let ?s1 = "snd (pers_op PMake ?s0)" let ?s2 = "snd (pers_op (PAlloc ''ab'') ?s1)"
  have "reach pers_start pers_step ?s0" by (rule reach_init) (simp add: pers_start_def)
  then have "reach pers_start pers_step ?s1" by (rule reach_step) (rule pers_step.intros, simp)
  then have "reach pers_start pers_step ?s2" by (rule reach_step) (rule pers_step.intros, simp)
  then have "reach pers_start pers_step (snd (pers_op (PSave 0 (Some 0)) ?s2))"
    by (rule reach_step) (rule pers_step.intros, simp add: sees_def)
  then show ?thesis by (simp add: exPers_def pers_defs content_def)
qed

theorem persister_refines_values_witness:
  "pers_values (snd (pers_op (PWrite 0 1 CHR ''x'') exPers)) = [(''ab'', '''')]"
  using persister_refines_values [OF exPers_reach, of "PWrite 0 1 CHR ''x''"]
  by (simp add: exPers_def pers_values_def value_of_def content_def)

end
