(* ===== verification/Raft_Config.thy ===== *)
theory Raft_Config
  imports Labrpc_Network Raft_Persister
begin

text \<open>
  The test bed of \<^verbatim>\<open>Lab3/src/raft/config.go\<close> and the Raft object of \<^verbatim>\<open>raft.go\<close>: servers
  on the simulated network that are started, crashed, restarted, attached and detached, each with a
  persister that survives crashes. Pointers to Raft objects, persisters and servers are
  numbers in lists to which objects are only added, so that an object of a crashed instance is still there.
  \<open>Inl\<close> is the end of the process by \<open>log.Fatalf\<close>, a failed test or a panic. The theorems: in every
  state that the operations reach, exactly the links between attached servers are enabled, so that
  an instance that crashed cannot send, and the persisted state of a server survives its crashes and
  changes only by the saves of its present instance (\<open>Raft_Links\<close>, \<open>Raft_Bed\<close>).
\<close>

section \<open>The Raft object\<close>

text \<open>Names on the network: ends have strings, servers numbers or strings.\<close>

datatype netName = StrName string | IntName nat

record Raft =
  peers :: "netName ClientEnd list"
  persister :: nat
  me :: nat
  dead :: "32 word"

record 'c ApplyMsg =
  CommandValid :: bool
  Command :: "'c iface"
  CommandIndex :: int
  SnapshotValid :: bool
  Snapshot :: slice
  SnapshotTerm :: int
  SnapshotIndex :: int

definition GetState :: "Raft \<Rightarrow> int \<times> bool" where
  "GetState rf = (0, False)"

definition readPersist :: "slice \<Rightarrow> Raft \<Rightarrow> Raft" where
  "readPersist data rf = rf"

definition CondInstallSnapshot :: "int \<Rightarrow> int \<Rightarrow> slice \<Rightarrow> Raft \<Rightarrow> bool" where
  "CondInstallSnapshot lastIncludedTerm lastIncludedIndex snap rf = True"

definition Raft_Snapshot :: "int \<Rightarrow> bytes \<Rightarrow> Raft \<Rightarrow> Raft" where
  "Raft_Snapshot index snap rf = rf"

definition Raft_Start :: "'c iface \<Rightarrow> Raft \<Rightarrow> int \<times> int \<times> bool" where
  "Raft_Start command rf = (-1, -1, True)"

definition Kill :: "Raft \<Rightarrow> Raft" where
  "Kill rf = rf\<lparr>dead := 1\<rparr>"

definition killed :: "Raft \<Rightarrow> bool" where
  "killed rf \<longleftrightarrow> dead rf = 1"

text \<open>The new object, and the memory after the persisted state was read.\<close>

definition Raft_Make :: "netName ClientEnd list \<Rightarrow> nat \<Rightarrow> nat \<Rightarrow> Persister list \<Rightarrow> bytes list \<Rightarrow> Raft \<times> bytes list" where
  "Raft_Make es i ps pers m =
     (case ReadRaftState (pers ! ps) m of
        (data, m) \<Rightarrow> (readPersist data \<lparr>peers = es, persister = ps, me = i, dead = 0\<rparr>, m))"

text \<open>
  The methods of a Raft object that reflection finds, with the types of their parameters. The
  handler of the skeleton leaves the reply as it is.
\<close>

definition raft_methods :: "('v, 'o) Method list" where
  "raft_methods =
     [\<lparr>m_Name = ''CondInstallSnapshot'', m_PkgPath = '''',
       m_In = [Ptr (Named ''Raft''), Named ''int'', Named ''int'', Named ''[]uint8''], m_NumOut = 1, m_Func = (\<lambda>ob a r. (ob, r))\<rparr>,
      \<lparr>m_Name = ''GetState'', m_PkgPath = '''', m_In = [Ptr (Named ''Raft'')], m_NumOut = 2, m_Func = (\<lambda>ob a r. (ob, r))\<rparr>,
      \<lparr>m_Name = ''Kill'', m_PkgPath = '''', m_In = [Ptr (Named ''Raft'')], m_NumOut = 0, m_Func = (\<lambda>ob a r. (ob, r))\<rparr>,
      \<lparr>m_Name = ''RequestVote'', m_PkgPath = '''',
       m_In = [Ptr (Named ''Raft''), Ptr (Named ''RequestVoteArgs''), Ptr (Named ''RequestVoteReply'')], m_NumOut = 0,
       m_Func = (\<lambda>ob a r. (ob, r))\<rparr>,
      \<lparr>m_Name = ''Snapshot'', m_PkgPath = '''', m_In = [Ptr (Named ''Raft''), Named ''int'', Named ''[]uint8''], m_NumOut = 0,
       m_Func = (\<lambda>ob a r. (ob, r))\<rparr>,
      \<lparr>m_Name = ''Start'', m_PkgPath = '''', m_In = [Ptr (Named ''Raft''), Named ''interface {}''], m_NumOut = 3,
       m_Func = (\<lambda>ob a r. (ob, r))\<rparr>]"

section \<open>The test bed\<close>

text \<open>
  The struct, and the objects that its pointers refer to. A missing list of end names is nil. The
  times and counters that \<open>begin\<close> and \<open>end\<close> print are in \<open>Raft_Checks\<close>.
\<close>

record ('c, 'v) config =
  net :: "netName Network"
  cfg_n :: nat
  rafts :: "nat option list"
  applyErr :: "string list"
  connected :: "bool list"
  saved :: "nat option list"
  endnames :: "string list option list"
  logs :: "(int \<Rightarrow> 'c iface option) list"
  lastApplied :: "int list"
  maxIndex :: int
  finished :: "32 word"
  raft_objs :: "Raft list"
  persister_objs :: "Persister list"
  server_objs :: "('v, unit) Server list"
  mem :: "bytes list"

definition end_of :: "string list option list \<Rightarrow> nat \<Rightarrow> nat \<Rightarrow> string option" where
  "end_of en i j =
     (if i < length en then (case en ! i of None \<Rightarrow> None | Some xs \<Rightarrow> if j < length xs then Some (xs ! j) else None) else None)"

text \<open>\<open>Enable\<close> for a list of ends; \<open>None\<close> is an index out of range.\<close>

fun enable_ends :: "bool \<Rightarrow> string option list \<Rightarrow> netName Network \<Rightarrow> string + netName Network" where
  "enable_ends yes [] rn = Inr rn"
| "enable_ends yes (None # es) rn = Inl ''index out of range''"
| "enable_ends yes (Some e # es) rn = enable_ends yes es (Enable (Some (StrName e)) yes rn)"

definition connect :: "nat \<Rightarrow> ('c, 'v, 'z) config_scheme \<Rightarrow> string + ('c, 'v, 'z) config_scheme" where
  "connect i cfg =
     (let cfg = cfg\<lparr>connected := (connected cfg)[i := True]\<rparr>;
          js = filter (\<lambda>j. connected cfg ! j) [0..<cfg_n cfg] in
      (case enable_ends True (map (\<lambda>j. end_of (endnames cfg) i j) js) (net cfg) of
         Inl e \<Rightarrow> Inl e
       | Inr rn \<Rightarrow>
           (case enable_ends True (map (\<lambda>j. end_of (endnames cfg) j i) js) rn of
              Inl e \<Rightarrow> Inl e
            | Inr rn \<Rightarrow> Inr (cfg\<lparr>net := rn\<rparr>))))"

definition disconnect :: "nat \<Rightarrow> ('c, 'v, 'z) config_scheme \<Rightarrow> string + ('c, 'v, 'z) config_scheme" where
  "disconnect i cfg =
     (let cfg = cfg\<lparr>connected := (connected cfg)[i := False]\<rparr> in
      (case enable_ends False (if endnames cfg ! i \<noteq> None then map (\<lambda>j. end_of (endnames cfg) i j) [0..<cfg_n cfg] else []) (net cfg) of
         Inl e \<Rightarrow> Inl e
       | Inr rn \<Rightarrow>
           (case enable_ends False (map (\<lambda>j. end_of (endnames cfg) j i) (filter (\<lambda>j. endnames cfg ! j \<noteq> None) [0..<cfg_n cfg])) rn of
              Inl e \<Rightarrow> Inl e
            | Inr rn \<Rightarrow> Inr (cfg\<lparr>net := rn\<rparr>))))"

text \<open>\<open>cfg.saved[i] = cfg.saved[i].Copy()\<close>: a new object with the same slices.\<close>

definition copy_saved :: "nat \<Rightarrow> ('c, 'v, 'z) config_scheme \<Rightarrow> ('c, 'v, 'z) config_scheme" where
  "copy_saved i cfg =
     (case saved cfg ! i of
        None \<Rightarrow> cfg
      | Some p \<Rightarrow>
          cfg\<lparr>persister_objs := persister_objs cfg @ [Persister_Copy (persister_objs cfg ! p)],
              saved := (saved cfg)[i := Some (length (persister_objs cfg))]\<rparr>)"

text \<open>A new object that is given the state that the old one reads out.\<close>

definition renew_saved :: "nat \<Rightarrow> ('c, 'v, 'z) config_scheme \<Rightarrow> ('c, 'v, 'z) config_scheme" where
  "renew_saved i cfg =
     (case saved cfg ! i of
        None \<Rightarrow> cfg
      | Some p \<Rightarrow>
          (case ReadRaftState (persister_objs cfg ! p) (mem cfg) of
             (raftlog, m) \<Rightarrow>
               (case ReadSnapshot (persister_objs cfg ! p) m of
                  (snap, m) \<Rightarrow>
                    (case SaveStateAndSnapshot raftlog snap MakePersister m of
                       (ps, m) \<Rightarrow>
                         cfg\<lparr>mem := m, persister_objs := persister_objs cfg @ [ps],
                             saved := (saved cfg)[i := Some (length (persister_objs cfg))]\<rparr>))))"

definition kill_raft :: "nat \<Rightarrow> ('c, 'v, 'z) config_scheme \<Rightarrow> ('c, 'v, 'z) config_scheme" where
  "kill_raft i cfg =
     (case rafts cfg ! i of
        None \<Rightarrow> cfg
      | Some k \<Rightarrow>
          cfg\<lparr>raft_objs := (raft_objs cfg)[k := Kill (raft_objs cfg ! k)], rafts := (rafts cfg)[i := None]\<rparr>)"

definition crash1 :: "nat \<Rightarrow> ('c, 'v, 'z) config_scheme \<Rightarrow> string + ('c, 'v, 'z) config_scheme" where
  "crash1 i cfg =
     (case disconnect i cfg of
        Inl e \<Rightarrow> Inl e
      | Inr cfg \<Rightarrow>
          let cfg = cfg\<lparr>net := DeleteServer (Some (IntName i)) (net cfg)\<rparr> in
          Inr (renew_saved i (kill_raft i (copy_saved i cfg))))"

text \<open>
  \<open>dec\<close> is the decoding of a snapshot: the last index that it includes and the commands
  from index 0 on. The first component of the result is the error text.
\<close>

definition ingestSnap ::
  "(bytes \<Rightarrow> (int \<times> 'c iface list) option) \<Rightarrow> nat \<Rightarrow> slice \<Rightarrow> int \<Rightarrow> ('c, 'v, 'z) config_scheme \<Rightarrow>
     string + string \<times> ('c, 'v, 'z) config_scheme" where
  "ingestSnap dec i snap index cfg =
     (if snap = None then Inl ''nil snapshot''
      else
        (case dec (content (mem cfg) snap) of
           None \<Rightarrow> Inl ''snapshot decode error''
         | Some (lastIncludedIndex, xlog) \<Rightarrow>
             if index \<noteq> -1 \<and> index \<noteq> lastIncludedIndex then Inr (''snapshot does not match m.SnapshotIndex'', cfg)
             else Inr ('''', cfg\<lparr>logs := (logs cfg)[i := (\<lambda>j. if 0 \<le> j \<and> nat j < length xlog then Some (xlog ! nat j) else None)],
                                 lastApplied := (lastApplied cfg)[i := lastIncludedIndex]\<rparr>)))"

fun make_ends :: "nat \<Rightarrow> string list \<Rightarrow> netName Network \<Rightarrow> string + netName ClientEnd list \<times> netName Network" where
  "make_ends j [] rn = Inr ([], rn)"
| "make_ends j (e # es) rn =
     (case MakeEnd (Some (StrName e)) rn of
        Inl err \<Rightarrow> Inl err
      | Inr (ce, rn) \<Rightarrow>
          (case make_ends (Suc j) es (Connect (Some (StrName e)) (Some (IntName j)) rn) of
             Inl err \<Rightarrow> Inl err
           | Inr (ces, rn) \<Rightarrow> Inr (ce # ces, rn)))"

text \<open>The persister for a new instance, with the snapshot that it holds taken over.\<close>

definition prepare_saved ::
  "(bytes \<Rightarrow> (int \<times> 'c iface list) option) \<Rightarrow> nat \<Rightarrow> ('c, 'v, 'z) config_scheme \<Rightarrow> string + ('c, 'v, 'z) config_scheme" where
  "prepare_saved dec i cfg =
     (case saved cfg ! i of
        None \<Rightarrow>
          Inr (cfg\<lparr>persister_objs := persister_objs cfg @ [MakePersister],
                   saved := (saved cfg)[i := Some (length (persister_objs cfg))]\<rparr>)
      | Some _ \<Rightarrow>
          let cfg = copy_saved i cfg in
          (case ReadSnapshot (persister_objs cfg ! the (saved cfg ! i)) (mem cfg) of
             (snap, m) \<Rightarrow>
               let cfg = cfg\<lparr>mem := m\<rparr> in
               if snap \<noteq> None \<and> content m snap \<noteq> [] then
                 (case ingestSnap dec i snap (-1) cfg of
                    Inl e \<Rightarrow> Inl e
                  | Inr (err, cfg) \<Rightarrow> if err \<noteq> '''' then Inl err else Inr cfg)
               else Inr cfg))"

text \<open>The new Raft object, its server, and their registration.\<close>

definition launch :: "nat \<Rightarrow> netName ClientEnd list \<Rightarrow> ('c, 'v, 'z) config_scheme \<Rightarrow> ('c, 'v, 'z) config_scheme" where
  "launch i es cfg =
     (case Raft_Make es i (the (saved cfg ! i)) (persister_objs cfg) (mem cfg) of
        (rf, m) \<Rightarrow>
          let k = length (raft_objs cfg);
              srv = AddService (MakeService ''Raft'' k raft_methods) MakeServer in
          cfg\<lparr>mem := m, raft_objs := raft_objs cfg @ [rf], rafts := (rafts cfg)[i := Some k],
              server_objs := server_objs cfg @ [srv],
              net := AddServer (Some (IntName i)) (length (server_objs cfg)) (net cfg)\<rparr>)"

text \<open>\<open>names\<close> are the random names of the ends.\<close>

definition start1 ::
  "(bytes \<Rightarrow> (int \<times> 'c iface list) option) \<Rightarrow> string list \<Rightarrow> nat \<Rightarrow> ('c, 'v, 'z) config_scheme \<Rightarrow>
     string + ('c, 'v, 'z) config_scheme" where
  "start1 dec names i cfg =
     (case crash1 i cfg of
        Inl e \<Rightarrow> Inl e
      | Inr cfg \<Rightarrow>
          let cfg = cfg\<lparr>endnames := (endnames cfg)[i := Some names]\<rparr> in
          (case make_ends 0 names (net cfg) of
             Inl e \<Rightarrow> Inl e
           | Inr (es, rn) \<Rightarrow>
               (case prepare_saved dec i (cfg\<lparr>net := rn, lastApplied := (lastApplied cfg)[i := 0]\<rparr>) of
                  Inl e \<Rightarrow> Inl e
                | Inr cfg \<Rightarrow> Inr (launch i es cfg))))"

fun start_all ::
  "(bytes \<Rightarrow> (int \<times> 'c iface list) option) \<Rightarrow> (nat \<Rightarrow> string list) \<Rightarrow> nat list \<Rightarrow> ('c, 'v, 'z) config_scheme \<Rightarrow>
     string + ('c, 'v, 'z) config_scheme" where
  "start_all dec names [] cfg = Inr cfg"
| "start_all dec names (i # is) cfg =
     (case start1 dec (names i) i cfg of Inl e \<Rightarrow> Inl e | Inr cfg \<Rightarrow> start_all dec names is cfg)"

fun connect_all :: "nat list \<Rightarrow> ('c, 'v, 'z) config_scheme \<Rightarrow> string + ('c, 'v, 'z) config_scheme" where
  "connect_all [] cfg = Inr cfg"
| "connect_all (i # is) cfg = (case connect i cfg of Inl e \<Rightarrow> Inl e | Inr cfg \<Rightarrow> connect_all is cfg)"

definition empty_config :: "nat \<Rightarrow> bool \<Rightarrow> ('c, 'v) config" where
  "empty_config n unreliable =
     \<lparr>net = LongDelays True (Reliable (\<not> unreliable) MakeNetwork), cfg_n = n, rafts = replicate n None,
      applyErr = replicate n '''', connected = replicate n False, saved = replicate n None,
      endnames = replicate n None, logs = replicate n (\<lambda>_. None), lastApplied = replicate n 0, maxIndex = 0,
      finished = 0, raft_objs = [], persister_objs = [], server_objs = [], mem = []\<rparr>"

definition make_config ::
  "(bytes \<Rightarrow> (int \<times> 'c iface list) option) \<Rightarrow> (nat \<Rightarrow> string list) \<Rightarrow> nat \<Rightarrow> bool \<Rightarrow> string + ('c, 'v) config" where
  "make_config dec names n unreliable =
     (case start_all dec names [0..<n] (empty_config n unreliable) of
        Inl e \<Rightarrow> Inl e
      | Inr cfg \<Rightarrow> connect_all [0..<n] cfg)"

text \<open>The end of a test; the check of the time limit is left out.\<close>

definition cleanup :: "('c, 'v, 'z) config_scheme \<Rightarrow> string + ('c, 'v, 'z) config_scheme" where
  "cleanup cfg =
     (let cfg = cfg\<lparr>finished := 1,
            raft_objs := foldl (\<lambda>objs r. case r of None \<Rightarrow> objs | Some k \<Rightarrow> objs[k := Kill (objs ! k)]) (raft_objs cfg) (rafts cfg)\<rparr> in
      (case Cleanup (net cfg) of Inl e \<Rightarrow> Inl e | Inr rn \<Rightarrow> Inr (cfg\<lparr>net := rn\<rparr>)))"

definition setunreliable :: "bool \<Rightarrow> ('c, 'v, 'z) config_scheme \<Rightarrow> ('c, 'v, 'z) config_scheme" where
  "setunreliable unrel cfg = cfg\<lparr>net := Reliable (\<not> unrel) (net cfg)\<rparr>"

definition setlongreordering :: "bool \<Rightarrow> ('c, 'v, 'z) config_scheme \<Rightarrow> ('c, 'v, 'z) config_scheme" where
  "setlongreordering longrel cfg = cfg\<lparr>net := LongReordering longrel (net cfg)\<rparr>"

text \<open>A Raft instance, of the present or an earlier start, saves its state.\<close>

definition raft_save :: "nat \<Rightarrow> bytes \<Rightarrow> ('c, 'v, 'z) config_scheme \<Rightarrow> ('c, 'v, 'z) config_scheme" where
  "raft_save k b cfg =
     (let p = persister (raft_objs cfg ! k) in
      (case SaveRaftState (Some (length (mem cfg))) (persister_objs cfg ! p) (mem cfg @ [b]) of
         (ps, m) \<Rightarrow> cfg\<lparr>mem := m, persister_objs := (persister_objs cfg)[p := ps]\<rparr>))"

end
