(* ===== verification/Raft_Links.thy ===== *)
theory Raft_Links
  imports Raft_Config
begin

text \<open>
  The links of the test bed: which ends are enabled after \<open>connect\<close>, \<open>disconnect\<close>,
  \<open>crash1\<close> and \<open>start1\<close>, as an invariant of the four operations.
\<close>

section \<open>Links\<close>

text \<open>
  Exactly the ends between two attached servers are enabled; names of ends are used once, and the
  end from \<open>i\<close> to \<open>j\<close> is connected to server \<open>j\<close>.
\<close>

definition live_ends :: "nat \<Rightarrow> (nat \<Rightarrow> nat \<Rightarrow> string option) \<Rightarrow> bool list \<Rightarrow> netName iface set" where
  "live_ends n E con = {Some (StrName s) | s i j. i < n \<and> j < n \<and> E i j = Some s \<and> con ! i \<and> con ! j}"

definition names_ok :: "nat \<Rightarrow> string list option list \<Rightarrow> netName Network \<Rightarrow> bool" where
  "names_ok n en rn \<longleftrightarrow> length en = n \<and> (\<forall>xs. Some xs \<in> set en \<longrightarrow> length xs = n) \<and>
     (\<forall>i < n. \<forall>k < n. \<forall>j l s. end_of en i j = Some s \<and> end_of en k l = Some s \<longrightarrow> i = k \<and> j = l) \<and>
     (\<forall>i < n. \<forall>j s. end_of en i j = Some s \<longrightarrow>
        ends rn (Some (StrName s)) \<noteq> None \<and> connections rn (Some (StrName s)) = Some (IntName j))"

definition links_ok :: "('c, 'v, 'z) config_scheme \<Rightarrow> bool" where
  "links_ok cfg \<longleftrightarrow>
     length (connected cfg) = cfg_n cfg \<and> names_ok (cfg_n cfg) (endnames cfg) (net cfg) \<and>
     (\<forall>i < cfg_n cfg. connected cfg ! i \<longrightarrow> endnames cfg ! i \<noteq> None) \<and>
     {e. enabled (net cfg) e} = live_ends (cfg_n cfg) (end_of (endnames cfg)) (connected cfg)"

lemma names_ok_frame [simp]:
  "names_ok n en (rn\<lparr>enabled := f\<rparr>) = names_ok n en rn" "names_ok n en (rn\<lparr>servers := g\<rparr>) = names_ok n en rn"
  by (simp_all add: names_ok_def)

definition name_set :: "string option list \<Rightarrow> netName iface set" where
  "name_set es = (\<lambda>s. Some (StrName s)) ` {s. Some s \<in> set es}"

lemma name_set_simps [simp]: "name_set [] = {}" "name_set (Some e # es) = insert (Some (StrName e)) (name_set es)"
  by (auto simp: name_set_def)

lemma name_set_map: "name_set (map f js) = {Some (StrName s) | s j. j \<in> set js \<and> f j = Some s}"
  by (auto simp: name_set_def image_iff) (metis (full_types))+

lemma name_set_append [simp]: "name_set (xs @ ys) = name_set xs \<union> name_set ys"
  by (auto simp: name_set_def)

lemma name_set_none: "(\<And>j. f j = None) \<Longrightarrow> name_set (map f js) = {}"
  by (simp add: name_set_map)

lemma name_set_filter: "(\<And>j. \<not> P j \<Longrightarrow> f j = None) \<Longrightarrow> name_set (map f (filter P js)) = name_set (map f js)"
  unfolding name_set_map by (auto; metis option.distinct(1))

lemma enable_ends_result:
  "enable_ends yes es rn =
     (if None \<in> set es then Inl ''index out of range''
      else Inr (rn\<lparr>enabled := (\<lambda>e. if e \<in> name_set es then yes else enabled rn e)\<rparr>))"
proof (induction yes es rn rule: enable_ends.induct)
  case (3 yes e es rn)
  have "(\<lambda>x. if x \<in> name_set es then yes else enabled (Enable (Some (StrName e)) yes rn) x) =
      (\<lambda>x. if x \<in> name_set (Some e # es) then yes else enabled rn x)" by (auto simp: Enable_def)
  moreover have "Enable e yes rn\<lparr>enabled := f\<rparr> = rn\<lparr>enabled := f\<rparr>" for e f by (simp add: Enable_def)
  ultimately show ?case unfolding enable_ends.simps 3 by (simp del: name_set_simps)
qed simp_all

text \<open>What \<open>connect\<close> and \<open>disconnect\<close> do: the set of attached servers and the enabled ends.\<close>

lemma connect_result:
  assumes "connect i cfg = Inr cfg'"
  defines "js \<equiv> filter (\<lambda>j. (connected cfg)[i := True] ! j) [0..<cfg_n cfg]"
  shows "cfg' = cfg\<lparr>connected := (connected cfg)[i := True], net := (net cfg)\<lparr>enabled := (\<lambda>e.
      e \<in> name_set (map (\<lambda>j. end_of (endnames cfg) j i) js) \<or> e \<in> name_set (map (\<lambda>j. end_of (endnames cfg) i j) js) \<or> enabled (net cfg) e)\<rparr>\<rparr>"
    and "j \<in> set js \<Longrightarrow> end_of (endnames cfg) i j \<noteq> None \<and> end_of (endnames cfg) j i \<noteq> None"
proof -
  have run: "connect i cfg = (case enable_ends True (map (\<lambda>j. end_of (endnames cfg) i j) js) (net cfg) of
      Inl e \<Rightarrow> Inl e | Inr rn \<Rightarrow> (case enable_ends True (map (\<lambda>j. end_of (endnames cfg) j i) js) rn of
        Inl e \<Rightarrow> Inl e | Inr rn \<Rightarrow> Inr (cfg\<lparr>connected := (connected cfg)[i := True], net := rn\<rparr>)))"
    by (simp add: connect_def Let_def js_def cong: sum.case_cong)
  have ok: "None \<notin> set (map (\<lambda>j. end_of (endnames cfg) i j) js)" "None \<notin> set (map (\<lambda>j. end_of (endnames cfg) j i) js)"
    using assms(1) unfolding run enable_ends_result by (auto split: if_splits)
  then show "j \<in> set js \<Longrightarrow> end_of (endnames cfg) i j \<noteq> None \<and> end_of (endnames cfg) j i \<noteq> None" by force
  show "cfg' = cfg\<lparr>connected := (connected cfg)[i := True], net := (net cfg)\<lparr>enabled := (\<lambda>e.
      e \<in> name_set (map (\<lambda>j. end_of (endnames cfg) j i) js) \<or> e \<in> name_set (map (\<lambda>j. end_of (endnames cfg) i j) js) \<or> enabled (net cfg) e)\<rparr>\<rparr>"
    using assms(1) ok unfolding run enable_ends_result by (simp add: if_distrib if_bool_eq_disj cong: disj_cong)
qed

lemma disconnect_result:
  assumes "disconnect i cfg = Inr cfg'"
  defines "es \<equiv> (if endnames cfg ! i \<noteq> None then map (\<lambda>j. end_of (endnames cfg) i j) [0..<cfg_n cfg] else []) @
    map (\<lambda>j. end_of (endnames cfg) j i) (filter (\<lambda>j. endnames cfg ! j \<noteq> None) [0..<cfg_n cfg])"
  shows "cfg' = cfg\<lparr>connected := (connected cfg)[i := False], net := (net cfg)\<lparr>enabled := (\<lambda>e.
      e \<notin> name_set es \<and> enabled (net cfg) e)\<rparr>\<rparr>"
proof -
  define xs where "xs = (if endnames cfg ! i \<noteq> None then map (\<lambda>j. end_of (endnames cfg) i j) [0..<cfg_n cfg] else [])"
  define ys where "ys = map (\<lambda>j. end_of (endnames cfg) j i) (filter (\<lambda>j. endnames cfg ! j \<noteq> None) [0..<cfg_n cfg])"
  have run: "disconnect i cfg = (case enable_ends False xs (net cfg) of
      Inl e \<Rightarrow> Inl e | Inr rn \<Rightarrow> (case enable_ends False ys rn of
        Inl e \<Rightarrow> Inl e | Inr rn \<Rightarrow> Inr (cfg\<lparr>connected := (connected cfg)[i := False], net := rn\<rparr>)))"
    by (simp add: disconnect_def Let_def xs_def ys_def cong: sum.case_cong)
  have ok: "None \<notin> set xs" "None \<notin> set ys"
    using assms(1) unfolding run enable_ends_result by (auto split: if_splits)
  have "name_set es = name_set xs \<union> name_set ys" by (auto simp: name_set_def es_def xs_def ys_def)
  then show ?thesis
    using assms(1) ok unfolding run enable_ends_result by (auto simp: fun_eq_iff cong: if_cong)
qed

lemma live_connect:
  assumes "length con = n" "i < n"
  defines "js \<equiv> filter (\<lambda>j. con[i := True] ! j) [0..<n]"
  shows "live_ends n E (con[i := True]) = name_set (map (\<lambda>j. E j i) js) \<union> name_set (map (\<lambda>j. E i j) js) \<union> live_ends n E con"
proof -
  have con: "con[i := True] ! j \<longleftrightarrow> j = i \<or> con ! j" if "j < n" for j using that assms(1,2) by (auto simp: nth_list_update)
  then have js: "j \<in> set js \<longleftrightarrow> j < n \<and> (j = i \<or> con ! j)" for j by (auto simp: js_def)
  have "live_ends n E (con[i := True]) =
      {Some (StrName s) | s k l. k < n \<and> l < n \<and> E k l = Some s \<and> (k = i \<or> con ! k) \<and> (l = i \<or> con ! l)}"
    unfolding live_ends_def using con by blast
  also have "\<dots> = {Some (StrName s) | s k. (k < n \<and> (k = i \<or> con ! k)) \<and> E k i = Some s} \<union>
      {Some (StrName s) | s l. (l < n \<and> (l = i \<or> con ! l)) \<and> E i l = Some s} \<union> live_ends n E con"
    (is "?L = ?A \<union> ?B \<union> ?C")
  proof (intro equalityI subsetI)
    fix e assume "e \<in> ?L"
    then obtain s k l where e: "e = Some (StrName s)" "k < n" "l < n" "E k l = Some s" "k = i \<or> con ! k" "l = i \<or> con ! l" by blast
    consider "l = i" | "k = i" | "con ! k" "con ! l" using e(5,6) by blast
    then show "e \<in> ?A \<union> ?B \<union> ?C" unfolding live_ends_def using e by cases auto
  qed (use assms(2) in \<open>auto simp: live_ends_def\<close>)
  finally show ?thesis unfolding name_set_map js .
qed

lemma live_disconnect:
  assumes "length con = n" "i < n"
    and inj: "\<And>i k j l s. i < n \<Longrightarrow> k < n \<Longrightarrow> E i j = Some s \<Longrightarrow> E k l = Some s \<Longrightarrow> i = k \<and> j = l"
  shows "live_ends n E (con[i := False]) = live_ends n E con - (name_set (map (E i) [0..<n]) \<union> name_set (map (\<lambda>j. E j i) [0..<n]))"
proof -
  have con: "con[i := False] ! j \<longleftrightarrow> j \<noteq> i \<and> con ! j" if "j < n" for j using that assms(1,2) by (auto simp: nth_list_update)
  have off: "name_set (map (E i) [0..<n]) \<union> name_set (map (\<lambda>j. E j i) [0..<n]) =
      {Some (StrName s) | s k l. k < n \<and> l < n \<and> E k l = Some s \<and> (k = i \<or> l = i)}"
    unfolding name_set_map using assms(2) by (auto; metis)
  have "live_ends n E (con[i := False]) =
      {Some (StrName s) | s k l. k < n \<and> l < n \<and> E k l = Some s \<and> (k \<noteq> i \<and> con ! k) \<and> (l \<noteq> i \<and> con ! l)}"
    unfolding live_ends_def using con by blast
  also have "\<dots> = live_ends n E con - {Some (StrName s) | s k l. k < n \<and> l < n \<and> E k l = Some s \<and> (k = i \<or> l = i)}"
    unfolding live_ends_def using inj by blast
  finally show ?thesis unfolding off .
qed

lemma connect_links:
  assumes ok: "links_ok cfg" and i: "i < cfg_n cfg" and c: "connect i cfg = Inr cfg'"
  shows "links_ok cfg'"
proof -
  note r = connect_result [OF c]
  have len: "length (connected cfg) = cfg_n cfg" using ok by (simp add: links_ok_def)
  have "end_of (endnames cfg) i i \<noteq> None" using r(2) [of i] i len by simp
  then have "endnames cfg ! i \<noteq> None" by (auto simp: end_of_def split: if_splits option.splits)
  moreover have "{e. enabled (net cfg') e} = live_ends (cfg_n cfg) (end_of (endnames cfg)) ((connected cfg)[i := True])"
    unfolding live_connect [OF len i] using ok by (auto simp: r(1) links_ok_def)
  moreover have "connected cfg' = (connected cfg)[i := True]" "endnames cfg' = endnames cfg" "cfg_n cfg' = cfg_n cfg"
    "names_ok (cfg_n cfg) (endnames cfg) (net cfg') = names_ok (cfg_n cfg) (endnames cfg) (net cfg)"
    by (simp_all add: r(1))
  ultimately show ?thesis using ok len i unfolding links_ok_def by (auto simp: nth_list_update)
qed

lemma disconnect_links:
  assumes ok: "links_ok cfg" and i: "i < cfg_n cfg" and d: "disconnect i cfg = Inr cfg'"
  shows "links_ok cfg'"
proof -
  note r = disconnect_result [OF d]
  let ?E = "end_of (endnames cfg)" and ?n = "cfg_n cfg"
  have len: "length (connected cfg) = ?n" using ok by (simp add: links_ok_def)
  have inj: "i = k \<and> j = l" if "i < ?n" "k < ?n" "?E i j = Some s" "?E k l = Some s" for i j k l s
    using ok that unfolding links_ok_def names_ok_def by blast
  have none: "?E j k = None" if "\<not> endnames cfg ! j \<noteq> None" for j k using that by (simp add: end_of_def)
  define es where "es = (if endnames cfg ! i \<noteq> None then map (?E i) [0..<?n] else []) @
      map (\<lambda>j. ?E j i) (filter (\<lambda>j. endnames cfg ! j \<noteq> None) [0..<?n])"
  have "name_set es = name_set (map (?E i) [0..<?n]) \<union> name_set (map (\<lambda>j. ?E j i) [0..<?n])"
    unfolding es_def
    using name_set_filter [of "\<lambda>j. endnames cfg ! j \<noteq> None" "\<lambda>j. ?E j i", OF none] name_set_none [of "?E i"] none [of i]
    by (cases "endnames cfg ! i") simp_all
  moreover have "live_ends ?n ?E ((connected cfg)[i := False]) =
      live_ends ?n ?E (connected cfg) - (name_set (map (?E i) [0..<?n]) \<union> name_set (map (\<lambda>j. ?E j i) [0..<?n]))"
    by (rule live_disconnect [OF len i inj])
  moreover have "{e. enabled (net cfg') e} = {e. enabled (net cfg) e} - name_set es" unfolding r es_def by auto
  ultimately have "{e. enabled (net cfg') e} = live_ends ?n ?E ((connected cfg)[i := False])"
    using ok by (simp add: links_ok_def)
  moreover have "connected cfg' = (connected cfg)[i := False]" "endnames cfg' = endnames cfg" "cfg_n cfg' = cfg_n cfg"
    "names_ok (cfg_n cfg) (endnames cfg) (net cfg') = names_ok (cfg_n cfg) (endnames cfg) (net cfg)"
    by (simp_all add: r)
  ultimately show ?thesis using ok len i unfolding links_ok_def by (auto simp: nth_list_update)
qed

section \<open>Crashes and starts\<close>

lemma copy_saved_frame [simp]:
  "net (copy_saved i cfg) = net cfg" "cfg_n (copy_saved i cfg) = cfg_n cfg" "connected (copy_saved i cfg) = connected cfg"
  "endnames (copy_saved i cfg) = endnames cfg" "rafts (copy_saved i cfg) = rafts cfg"
  "raft_objs (copy_saved i cfg) = raft_objs cfg" "mem (copy_saved i cfg) = mem cfg"
  by (simp_all add: copy_saved_def split: option.split)

lemma kill_raft_frame [simp]:
  "net (kill_raft i cfg) = net cfg" "cfg_n (kill_raft i cfg) = cfg_n cfg" "connected (kill_raft i cfg) = connected cfg"
  "endnames (kill_raft i cfg) = endnames cfg" "saved (kill_raft i cfg) = saved cfg"
  "persister_objs (kill_raft i cfg) = persister_objs cfg" "mem (kill_raft i cfg) = mem cfg"
  by (simp_all add: kill_raft_def split: option.split)

lemma renew_saved_frame [simp]:
  "net (renew_saved i cfg) = net cfg" "cfg_n (renew_saved i cfg) = cfg_n cfg" "connected (renew_saved i cfg) = connected cfg"
  "endnames (renew_saved i cfg) = endnames cfg" "rafts (renew_saved i cfg) = rafts cfg"
  "raft_objs (renew_saved i cfg) = raft_objs cfg"
  by (simp_all add: renew_saved_def split: option.split prod.split)

lemma prepare_saved_frame:
  assumes "prepare_saved dec i cfg = Inr cfg'"
  shows "net cfg' = net cfg" "cfg_n cfg' = cfg_n cfg" "connected cfg' = connected cfg" "endnames cfg' = endnames cfg"
    "rafts cfg' = rafts cfg" "raft_objs cfg' = raft_objs cfg"
  using assms by (auto simp: prepare_saved_def ingestSnap_def Let_def split: option.splits if_splits prod.splits sum.splits)

lemma launch_frame [simp]:
  "cfg_n (launch i es cfg) = cfg_n cfg" "connected (launch i es cfg) = connected cfg" "endnames (launch i es cfg) = endnames cfg"
  "saved (launch i es cfg) = saved cfg" "persister_objs (launch i es cfg) = persister_objs cfg"
  "net (launch i es cfg) = AddServer (Some (IntName i)) (length (server_objs cfg)) (net cfg)"
  "rafts (launch i es cfg) = (rafts cfg)[i := Some (length (raft_objs cfg))]"
  by (simp_all add: launch_def Let_def split: prod.split)

lemma make_ends_result:
  assumes "make_ends j es rn = Inr (ces, rn')"
  defines "names \<equiv> (\<lambda>e. Some (StrName e)) ` set es"
  shows "distinct es" "\<And>e. e \<in> set es \<Longrightarrow> ends rn (Some (StrName e)) = None"
    "ces = map (\<lambda>e. \<lparr>ce_endname = Some (StrName e)\<rparr>) es"
    "\<And>x. ends rn' x \<noteq> None \<longleftrightarrow> ends rn x \<noteq> None \<or> x \<in> names"
    "\<And>k. k < length es \<Longrightarrow> connections rn' (Some (StrName (es ! k))) = Some (IntName (j + k))"
    "\<And>x. x \<notin> names \<Longrightarrow> connections rn' x = connections rn x"
    "\<And>x. enabled rn' x \<longleftrightarrow> x \<notin> names \<and> enabled rn x"
proof -
  have "distinct es \<and> (\<forall>e \<in> set es. ends rn (Some (StrName e)) = None) \<and>
    ces = map (\<lambda>e. \<lparr>ce_endname = Some (StrName e)\<rparr>) es \<and> (\<forall>x. ends rn' x \<noteq> None \<longleftrightarrow> ends rn x \<noteq> None \<or> x \<in> names) \<and>
    (\<forall>k < length es. connections rn' (Some (StrName (es ! k))) = Some (IntName (j + k))) \<and>
    (\<forall>x. x \<notin> names \<longrightarrow> connections rn' x = connections rn x) \<and> (\<forall>x. enabled rn' x \<longleftrightarrow> x \<notin> names \<and> enabled rn x)"
    using assms(1) unfolding names_def
  proof (induction j es rn arbitrary: ces rn' rule: make_ends.induct)
    case (2 j e es rn)
    let ?e = "Some (StrName e)"
    let ?rn = "Connect ?e (Some (IntName j)) (rn\<lparr>ends := (ends rn)(?e \<mapsto> \<lparr>ce_endname = ?e\<rparr>), enabled := (enabled rn)(?e := False),
                   connections := (connections rn)(?e := None)\<rparr>)"
    obtain ces1 where fresh: "ends rn ?e = None" and rest: "make_ends (Suc j) es ?rn = Inr (ces1, rn')" "ces = \<lparr>ce_endname = ?e\<rparr> # ces1"
      using 2(2) by (auto simp: MakeEnd_def Let_def split: if_splits sum.splits)
    have mk: "MakeEnd ?e rn = Inr (\<lparr>ce_endname = ?e\<rparr>, rn\<lparr>ends := (ends rn)(?e \<mapsto> \<lparr>ce_endname = ?e\<rparr>), enabled := (enabled rn)(?e := False),
                   connections := (connections rn)(?e := None)\<rparr>)" using fresh by (simp add: MakeEnd_def Let_def)
    have R: "ends ?rn x = (if x = ?e then Some \<lparr>ce_endname = ?e\<rparr> else ends rn x)" "enabled ?rn x \<longleftrightarrow> x \<noteq> ?e \<and> enabled rn x"
      "connections ?rn x = (if x = ?e then Some (IntName j) else connections rn x)" for x by (simp_all add: Connect_def)
    note IH = 2(1) [OF mk refl rest(1), unfolded R]
    have e: "e \<notin> set es" using IH by (metis option.distinct(1))
    have "ends rn (Some (StrName x)) = None" if "x \<in> set es" for x
      using IH e that by (metis netName.inject(1) option.inject)
    moreover have con: "connections rn' x = (if x = ?e then Some (IntName j) else connections rn x)" if "x \<notin> (\<lambda>e. Some (StrName e)) ` set es" for x
      using IH that by blast
    moreover have "connections rn' ?e = Some (IntName j)" using con [of ?e] e by auto
    moreover have "connections rn' (Some (StrName ((e # es) ! k))) = Some (IntName (j + k))" if "k < length (e # es)" for k
      using IH that calculation(3) by (cases k) simp_all
    moreover have "ends rn' x \<noteq> None \<longleftrightarrow> ends rn x \<noteq> None \<or> x \<in> (\<lambda>e. Some (StrName e)) ` set (e # es)" for x
      using IH by (cases "x = ?e") auto
    moreover have "connections rn' x = connections rn x" if "x \<notin> (\<lambda>e. Some (StrName e)) ` set (e # es)" for x
      using con [of x] that by simp
    moreover have "enabled rn' x \<longleftrightarrow> x \<notin> (\<lambda>e. Some (StrName e)) ` set (e # es) \<and> enabled rn x" for x
      using IH by auto
    ultimately show ?case using IH e fresh rest(2) by simp
  qed simp
  then show "distinct es" "\<And>e. e \<in> set es \<Longrightarrow> ends rn (Some (StrName e)) = None"
    "ces = map (\<lambda>e. \<lparr>ce_endname = Some (StrName e)\<rparr>) es"
    "\<And>x. ends rn' x \<noteq> None \<longleftrightarrow> ends rn x \<noteq> None \<or> x \<in> names"
    "\<And>k. k < length es \<Longrightarrow> connections rn' (Some (StrName (es ! k))) = Some (IntName (j + k))"
    "\<And>x. x \<notin> names \<Longrightarrow> connections rn' x = connections rn x"
    "\<And>x. enabled rn' x \<longleftrightarrow> x \<notin> names \<and> enabled rn x" by blast+
qed

lemma make_ends_servers: "make_ends j es rn = Inr (ces, rn') \<Longrightarrow> servers rn' = servers rn"
  by (induction j es rn arbitrary: ces rn' rule: make_ends.induct)
    (fastforce simp: MakeEnd_def Connect_def Let_def split: if_splits sum.splits prod.splits)+

lemma end_of_row: "i < length en \<Longrightarrow> end_of (en[i := Some names]) k j =
    (if k = i then (if j < length names then Some (names ! j) else None) else end_of en k j)"
  by (simp add: end_of_def nth_list_update)

lemma names_ok_start:
  assumes ok: "names_ok n en rn" and i: "i < n" and len: "length names = n" and mk: "make_ends 0 names rn = Inr (es, rn')"
  shows "names_ok n (en[i := Some names]) rn'"
proof -
  note r = make_ends_result [OF mk]
  have en: "length en = n" using ok by (simp add: names_ok_def)
  have old: "ends rn (Some (StrName s)) \<noteq> None" "connections rn (Some (StrName s)) = Some (IntName j)" "s \<notin> set names"
    if "k < n" "end_of en k j = Some s" for k j s
    using ok that r(2) [of s] unfolding names_ok_def by blast+
  have "length xs = n" if "Some xs \<in> set (en[i := Some names])" for xs
    using set_update_subset_insert [of en i "Some names"] that ok len unfolding names_ok_def by blast
  moreover have "a = b \<and> j = l"
    if ab: "a < n" "b < n" "end_of (en[i := Some names]) a j = Some s" "end_of (en[i := Some names]) b l = Some s" for a b j l s
  proof (cases "a = i \<or> b = i")
    case True
    have new: "end_of (en[i := Some names]) k j = Some s \<Longrightarrow> k < n \<Longrightarrow> s \<in> set names \<longleftrightarrow> k = i" for k j s
      using old(3) [of k j s] i en by (auto simp: end_of_row split: if_splits)
    have "a = i" "b = i" using True new [OF ab(3,1)] new [OF ab(4,2)] by blast+
    with ab r(1) i en show ?thesis by (auto simp: end_of_row nth_eq_iff_index_eq split: if_splits)
  next
    case False
    with ab i en have "end_of en a j = Some s" "end_of en b l = Some s" by (simp_all add: end_of_row)
    with ab ok show ?thesis unfolding names_ok_def by blast
  qed
  moreover have "ends rn' (Some (StrName s)) \<noteq> None \<and> connections rn' (Some (StrName s)) = Some (IntName j)"
    if a: "a < n" "end_of (en[i := Some names]) a j = Some s" for a j s
  proof (cases "a = i")
    case True
    with a i en have "j < length names" "s = names ! j" by (auto simp: end_of_row split: if_splits)
    with r(4,5) show ?thesis by auto
  next
    case False
    with a i en have "end_of en a j = Some s" by (simp add: end_of_row)
    with old [OF a(1) this] r(4) r(6) [of "Some (StrName s)"] show ?thesis by auto
  qed
  ultimately show ?thesis using en unfolding names_ok_def by (metis length_list_update)
qed

lemma crash1_split:
  assumes "crash1 i cfg = Inr cfg'"
  obtains cfg1 where "disconnect i cfg = Inr cfg1"
    "cfg' = renew_saved i (kill_raft i (copy_saved i (cfg1\<lparr>net := DeleteServer (Some (IntName i)) (net cfg1)\<rparr>)))"
  using assms by (auto simp: crash1_def Let_def split: sum.splits)

lemma start1_split:
  assumes "start1 dec names i cfg = Inr cfg'"
  obtains cfg1 es rn cfg2 where "crash1 i cfg = Inr cfg1" "make_ends 0 names (net cfg1) = Inr (es, rn)"
    "prepare_saved dec i (cfg1\<lparr>endnames := (endnames cfg1)[i := Some names], net := rn, lastApplied := (lastApplied cfg1)[i := 0]\<rparr>) = Inr cfg2"
    "cfg' = launch i es cfg2"
  using assms by (auto simp: start1_def Let_def split: sum.splits)

lemma links_ok_frame:
  assumes "links_ok cfg" "cfg_n cfg' = cfg_n cfg" "connected cfg' = connected cfg" "endnames cfg' = endnames cfg"
    "ends (net cfg') = ends (net cfg)" "connections (net cfg') = connections (net cfg)" "enabled (net cfg') = enabled (net cfg)"
  shows "links_ok cfg'"
  using assms by (simp add: links_ok_def names_ok_def)

lemma enabled_iff: "links_ok cfg \<Longrightarrow> enabled (net cfg) e \<longleftrightarrow> e \<in> live_ends (cfg_n cfg) (end_of (endnames cfg)) (connected cfg)"
  unfolding links_ok_def by blast

lemma crash1_links:
  assumes ok: "links_ok cfg" and i: "i < cfg_n cfg" and c: "crash1 i cfg = Inr cfg'"
  shows "links_ok cfg' \<and> \<not> connected cfg' ! i \<and> cfg_n cfg' = cfg_n cfg"
proof -
  from c obtain cfg1 where d: "disconnect i cfg = Inr cfg1"
    and cfg': "cfg' = renew_saved i (kill_raft i (copy_saved i (cfg1\<lparr>net := DeleteServer (Some (IntName i)) (net cfg1)\<rparr>)))"
    by (rule crash1_split)
  have "links_ok cfg1" by (rule disconnect_links [OF ok i d])
  then have "links_ok cfg'" by (rule links_ok_frame) (simp_all add: cfg' DeleteServer_def)
  moreover have "connected cfg' = (connected cfg)[i := False]" "cfg_n cfg' = cfg_n cfg"
    using disconnect_result [OF d] by (simp_all add: cfg')
  moreover have "length (connected cfg) = cfg_n cfg" using ok by (simp add: links_ok_def)
  ultimately show ?thesis using i by simp
qed

lemma start1_links:
  assumes ok: "links_ok cfg" and i: "i < cfg_n cfg" and len: "length names = cfg_n cfg"
    and s: "start1 dec names i cfg = Inr cfg'"
  shows "links_ok cfg' \<and> cfg_n cfg' = cfg_n cfg"
proof -
  from s obtain cfg1 es rn cfg2 where c: "crash1 i cfg = Inr cfg1" and mk: "make_ends 0 names (net cfg1) = Inr (es, rn)"
    and p: "prepare_saved dec i (cfg1\<lparr>endnames := (endnames cfg1)[i := Some names], net := rn, lastApplied := (lastApplied cfg1)[i := 0]\<rparr>) = Inr cfg2"
    and cfg': "cfg' = launch i es cfg2" by (rule start1_split)
  from crash1_links [OF ok i c] have ok1: "links_ok cfg1" and off: "\<not> connected cfg1 ! i" and n: "cfg_n cfg1 = cfg_n cfg" by simp_all
  have names: "names_ok (cfg_n cfg) (endnames cfg1) (net cfg1)" using ok1 n by (simp add: links_ok_def)
  then have en: "length (endnames cfg1) = cfg_n cfg" by (simp add: names_ok_def)
  have "{e. enabled rn e} = live_ends (cfg_n cfg) (end_of ((endnames cfg1)[i := Some names])) (connected cfg1)"
  proof -
    have "{e. enabled rn e} = {e. enabled (net cfg1) e}"
    proof -
      have "\<not> enabled (net cfg1) (Some (StrName x))" if "x \<in> set names" for x
      proof
        assume "enabled (net cfg1) (Some (StrName x))"
        then have "\<exists>k < cfg_n cfg. \<exists>j. end_of (endnames cfg1) k j = Some x" using n by (auto simp: enabled_iff [OF ok1] live_ends_def)
        then have "ends (net cfg1) (Some (StrName x)) \<noteq> None" using names unfolding names_ok_def by blast
        with make_ends_result(2) [OF mk that] show False by simp
      qed
      with make_ends_result(7) [OF mk] show ?thesis by blast
    qed
    also have "\<dots> = live_ends (cfg_n cfg) (end_of (endnames cfg1)) (connected cfg1)" using ok1 n by (simp add: links_ok_def)
    also have "\<dots> = live_ends (cfg_n cfg) (end_of ((endnames cfg1)[i := Some names])) (connected cfg1)"
      unfolding live_ends_def using off i en by (auto simp: end_of_row; metis)
    finally show ?thesis .
  qed
  with names_ok_start [OF names i len mk] ok1 n i en
  have "links_ok (cfg1\<lparr>endnames := (endnames cfg1)[i := Some names], net := rn, lastApplied := (lastApplied cfg1)[i := 0]\<rparr>)"
    by (simp add: links_ok_def nth_list_update)
  then show ?thesis
    using prepare_saved_frame [OF p] n unfolding cfg' by (auto intro: links_ok_frame simp: AddServer_def)
qed

end
