(* ===== verification/Raft_Bed.thy ===== *)
theory Raft_Bed
  imports Raft_Links
begin

text \<open>
  The runs of the test bed: persisters and instances, the step relation of everything that a test and the
  servers do, its invariant, and the theorems on links, crashed instances and persisted state. Making a
  test bed is shown to succeed.
\<close>

section \<open>Instances and what they persist\<close>

definition persisted :: "('c, 'v, 'z) config_scheme \<Rightarrow> nat \<Rightarrow> (bytes \<times> bytes) option" where
  "persisted cfg i = map_option (\<lambda>p. value_of (mem cfg) (persister_objs cfg ! p)) (saved cfg ! i)"

text \<open>
  The persister of a server is that of its present instance, and of no other server and no earlier
  instance.
\<close>

definition inst_ok :: "('c, 'v, 'z) config_scheme \<Rightarrow> bool" where
  "inst_ok cfg \<longleftrightarrow> length (saved cfg) = cfg_n cfg \<and> length (rafts cfg) = cfg_n cfg \<and>
     (\<forall>i < cfg_n cfg. \<forall>p. saved cfg ! i = Some p \<longrightarrow>
        p < length (persister_objs cfg) \<and> (\<forall>j < cfg_n cfg. saved cfg ! j = Some p \<longrightarrow> j = i)) \<and>
     (\<forall>i < cfg_n cfg. \<forall>k. rafts cfg ! i = Some k \<longrightarrow> k < length (raft_objs cfg)) \<and>
     (\<forall>k < length (raft_objs cfg). persister (raft_objs cfg ! k) < length (persister_objs cfg) \<and>
        (\<forall>i < cfg_n cfg. rafts cfg ! i = Some k \<longleftrightarrow> saved cfg ! i = Some (persister (raft_objs cfg ! k)))) \<and>
     (\<forall>ps \<in> set (persister_objs cfg). held ps \<subseteq> {..<length (mem cfg)})"

lemma saved_held:
  "inst_ok cfg \<Longrightarrow> i < cfg_n cfg \<Longrightarrow> saved cfg ! i = Some p \<Longrightarrow> p < length (persister_objs cfg) \<and> held (persister_objs cfg ! p) \<subseteq> {..<length (mem cfg)}"
  unfolding inst_ok_def by (metis nth_mem)

lemma inst_raft: "inst_ok cfg \<Longrightarrow> i < cfg_n cfg \<Longrightarrow> rafts cfg ! i = Some k \<Longrightarrow> k < length (raft_objs cfg)"
  by (simp add: inst_ok_def)

lemma inst_obj: "inst_ok cfg \<Longrightarrow> k < length (raft_objs cfg) \<Longrightarrow> persister (raft_objs cfg ! k) < length (persister_objs cfg)"
  "inst_ok cfg \<Longrightarrow> k < length (raft_objs cfg) \<Longrightarrow> i < cfg_n cfg \<Longrightarrow>
     rafts cfg ! i = Some k \<longleftrightarrow> saved cfg ! i = Some (persister (raft_objs cfg ! k))"
  by (simp_all add: inst_ok_def)

lemma persisted_extend:
  assumes "inst_ok cfg" "i < cfg_n cfg" "saved cfg' ! i = saved cfg ! i" "mem cfg' = mem cfg @ m"
    "persister_objs cfg' = persister_objs cfg @ ps"
  shows "persisted cfg' i = persisted cfg i"
  using saved_held [OF assms(1,2)] assms(3-5) by (cases "saved cfg ! i") (simp_all add: persisted_def nth_append value_of_append)

lemma Kill_same [simp]: "persister (Kill rf) = persister rf" "peers (Kill rf) = peers rf"
  by (simp_all add: Kill_def)

lemma nth_Kill: "xs[k := Kill (xs ! k)] ! l = (if l = k \<and> k < length xs then Kill (xs ! k) else xs ! l)"
  by (cases "k < length xs") (simp_all add: nth_list_update list_update_beyond not_less)

lemma save_both_new:
  "SaveStateAndSnapshot (Some (length m)) (Some (Suc (length m))) MakePersister (m @ [a, b]) =
     (\<lparr>raftstate = Some (length m + 2), snapshot = Some (length m + 3)\<rparr>, m @ [a, b, a, b])"
  by (simp add: pers_defs content_def nth_append)

lemma kill_raft_objs:
  "length (raft_objs (kill_raft i cfg)) = length (raft_objs cfg)"
  "persister (raft_objs (kill_raft i cfg) ! k) = persister (raft_objs cfg ! k)" "peers (raft_objs (kill_raft i cfg) ! k) = peers (raft_objs cfg ! k)"
  "rafts (kill_raft i cfg) = (rafts cfg)[i := None]"
  by (simp_all add: kill_raft_def nth_Kill split: option.split) (metis list_update_id)

text \<open>A server without an instance gets a new persister.\<close>

lemma inst_renew:
  assumes ok: "inst_ok cfg" and i: "i < cfg_n cfg" and n: "cfg_n cfg' = cfg_n cfg"
    and raf: "rafts cfg' = (rafts cfg)[i := None]"
    and robj: "length (raft_objs cfg') = length (raft_objs cfg)" "\<And>k. persister (raft_objs cfg' ! k) = persister (raft_objs cfg ! k)"
    and sav: "saved cfg' = (saved cfg)[i := Some p']"
    and objs: "persister_objs cfg' = persister_objs cfg @ ps" and p': "length (persister_objs cfg) \<le> p'" "p' < length (persister_objs cfg')"
    and m: "mem cfg' = mem cfg @ ms" and held: "\<And>q. q \<in> set ps \<Longrightarrow> held q \<subseteq> {..<length (mem cfg')}"
  shows "inst_ok cfg'"
  unfolding inst_ok_def n robj raf
proof (intro conjI allI impI ballI)
  have len: "length (saved cfg) = cfg_n cfg" "length (rafts cfg) = cfg_n cfg" using ok by (simp_all add: inst_ok_def)
  show "length (saved cfg') = cfg_n cfg" using len by (simp add: sav)
  show "length ((rafts cfg)[i := None]) = cfg_n cfg" using len by simp
  show "k < length (raft_objs cfg)" if "j < cfg_n cfg" "(rafts cfg)[i := None] ! j = Some k" for j k
    using that inst_raft [OF ok] i len by (cases "j = i") simp_all
  have bound: "x = i \<longleftrightarrow> q = p'" if "x < cfg_n cfg" "saved cfg' ! x = Some q" for x q
    using that saved_held [OF ok that(1), of q] p'(1) len i by (cases "x = i") (auto simp: sav)
  have old: "saved cfg ! x = Some q" if "x < cfg_n cfg" "saved cfg' ! x = Some q" "x \<noteq> i" for x q
    using that len i by (simp add: sav)
  {
    fix j q assume j: "j < cfg_n cfg" "saved cfg' ! j = Some q"
    show "q < length (persister_objs cfg')"
      using bound [OF j] old [OF j] saved_held [OF ok j(1), of q] p'(2) by (cases "j = i") (simp_all add: objs)
    fix l assume l: "l < cfg_n cfg" "saved cfg' ! l = Some q"
    show "l = j"
    proof (cases "l = i")
      case True
      with bound [OF l] bound [OF j] show ?thesis by simp
    next
      case False
      with bound [OF l] bound [OF j] have "j \<noteq> i" by simp
      with False old [OF l] old [OF j] l j ok show ?thesis unfolding inst_ok_def by blast
    qed
  }
  {
    fix k assume k: "k < length (raft_objs cfg)"
    then have kp: "persister (raft_objs cfg ! k) < length (persister_objs cfg)" by (rule inst_obj(1) [OF ok])
    then show "persister (raft_objs cfg ! k) < length (persister_objs cfg')" by (simp add: objs)
    show "(rafts cfg)[i := None] ! j = Some k \<longleftrightarrow> saved cfg' ! j = Some (persister (raft_objs cfg ! k))" if "j < cfg_n cfg" for j
      using that kp inst_obj(2) [OF ok k that] i len p'(1) by (cases "j = i") (simp_all add: sav)
  }
  fix q assume "q \<in> set (persister_objs cfg')"
  then consider "q \<in> set (persister_objs cfg)" | "q \<in> set ps" by (auto simp: objs)
  then show "held q \<subseteq> {..<length (mem cfg')}"
  proof cases
    case 1
    then have "held q \<subseteq> {..<length (mem cfg)}" using ok by (simp add: inst_ok_def)
    then show ?thesis by (auto simp: m)
  qed (rule held)
qed

lemma crash_core:
  assumes ok: "inst_ok cfg" and i: "i < cfg_n cfg"
  defines "cfg' \<equiv> renew_saved i (kill_raft i (copy_saved i cfg))"
  shows "inst_ok cfg'" "j < cfg_n cfg \<Longrightarrow> persisted cfg' j = persisted cfg j" "rafts cfg' = (rafts cfg)[i := None]"
proof -
  have len: "length (saved cfg) = cfg_n cfg" "length (rafts cfg) = cfg_n cfg" using ok by (simp_all add: inst_ok_def)
  show raf: "rafts cfg' = (rafts cfg)[i := None]" by (simp add: cfg'_def kill_raft_objs)
  have "inst_ok cfg' \<and> (\<forall>j < cfg_n cfg. persisted cfg' j = persisted cfg j)"
  proof (cases "saved cfg ! i")
    case None
    then have "rafts cfg ! i = None" using ok i unfolding inst_ok_def by (metis not_Some_eq)
    then have "cfg' = cfg" using None by (simp add: cfg'_def renew_saved_def kill_raft_def copy_saved_def)
    with ok show ?thesis by simp
  next
    case (Some p)
    let ?P = "length (persister_objs cfg)" and ?M = "length (mem cfg)"
    let ?v = "value_of (mem cfg) (persister_objs cfg ! p)"
    have p: "p < ?P" "held (persister_objs cfg ! p) \<subseteq> {..<?M}" using saved_held [OF ok i Some] by simp_all
    let ?fresh = "\<lparr>raftstate = Some (?M + 2), snapshot = Some (?M + 3)\<rparr>"
    define cfg2 where "cfg2 = kill_raft i (copy_saved i cfg)"
    have c2: "saved cfg2 ! i = Some ?P" "mem cfg2 = mem cfg" "saved cfg2 = (saved cfg)[i := Some ?P]"
      "persister_objs cfg2 = persister_objs cfg @ [Persister_Copy (persister_objs cfg ! p)]"
      using Some i len by (simp_all add: cfg2_def copy_saved_def)
    let ?q = "Persister_Copy (persister_objs cfg ! p)"
    have r: "ReadRaftState ?q (mem cfg) = (Some ?M, mem cfg @ [fst ?v])"
      "ReadSnapshot ?q (mem cfg @ [fst ?v]) = (Some (Suc ?M), mem cfg @ [fst ?v, snd ?v])"
      using p(2) by (simp_all add: pers_defs value_of_def held_def content_append)
    have "persister_objs cfg2 ! ?P = ?q" by (simp add: c2)
    then have "renew_saved i cfg2 = cfg2\<lparr>mem := mem cfg @ [fst ?v, snd ?v, fst ?v, snd ?v], persister_objs := persister_objs cfg2 @ [?fresh],
        saved := (saved cfg2)[i := Some (length (persister_objs cfg2))]\<rparr>"
      by (simp only: renew_saved_def c2(1,2) option.case r prod.case save_both_new)
    then have m: "mem cfg' = mem cfg @ [fst ?v, snd ?v, fst ?v, snd ?v]"
      and objs: "persister_objs cfg' = persister_objs cfg @ [Persister_Copy (persister_objs cfg ! p), ?fresh]"
      and sav: "saved cfg' = (saved cfg)[i := Some (Suc ?P)]"
      by (simp_all add: cfg'_def c2 flip: cfg2_def)
    have n: "cfg_n cfg' = cfg_n cfg" by (simp add: cfg'_def)
    have robj: "length (raft_objs cfg') = length (raft_objs cfg)" "persister (raft_objs cfg' ! k) = persister (raft_objs cfg ! k)" for k
      by (simp_all add: cfg'_def kill_raft_objs)
    have "persisted cfg' j = persisted cfg j" if "j < cfg_n cfg" for j
    proof (cases "j = i")
      case True
      then show ?thesis using i len Some by (simp add: persisted_def sav objs m nth_append value_of_def content_def)
    next
      case False
      with persisted_extend [OF ok that _ m objs] show ?thesis by (simp add: sav)
    qed
    moreover have "inst_ok cfg'"
    proof (rule inst_renew [OF ok i n raf robj sav objs _ _ m])
      show "held q \<subseteq> {..<length (mem cfg')}" if "q \<in> set [Persister_Copy (persister_objs cfg ! p), ?fresh]" for q
        using that p(2) by (auto simp: m held_def pers_defs)
    qed (simp_all add: objs)
    ultimately show ?thesis by blast
  qed
  then show "inst_ok cfg'" "j < cfg_n cfg \<Longrightarrow> persisted cfg' j = persisted cfg j" by blast+
qed

lemma prepare_saved_result:
  assumes "prepare_saved dec i cfg = Inr cfg'" "i < length (saved cfg)"
  shows "\<exists>q ms. saved cfg' = (saved cfg)[i := Some (length (persister_objs cfg))] \<and> persister_objs cfg' = persister_objs cfg @ [q] \<and>
    mem cfg' = mem cfg @ ms \<and>
    (case saved cfg ! i of None \<Rightarrow> q = MakePersister | Some p \<Rightarrow> q = Persister_Copy (persister_objs cfg ! p))"
  using assms by (auto simp: prepare_saved_def copy_saved_def ingestSnap_def ReadSnapshot_def clone_def Let_def
      split: option.splits if_splits sum.splits prod.splits)

lemma prepare_inst:
  assumes ok: "inst_ok cfg" and i: "i < cfg_n cfg" and none: "rafts cfg ! i = None" and p: "prepare_saved dec i cfg = Inr cfg'"
  shows "inst_ok cfg'" "saved cfg' ! i \<noteq> None" "j < cfg_n cfg \<Longrightarrow> persisted cfg' j =
      (if j = i \<and> saved cfg ! i = None then Some ([], []) else persisted cfg j)"
proof -
  have len: "length (saved cfg) = cfg_n cfg" using ok by (simp add: inst_ok_def)
  obtain q ms where sav: "saved cfg' = (saved cfg)[i := Some (length (persister_objs cfg))]"
    and objs: "persister_objs cfg' = persister_objs cfg @ [q]" and m: "mem cfg' = mem cfg @ ms"
    and q: "case saved cfg ! i of None \<Rightarrow> q = MakePersister | Some p \<Rightarrow> q = Persister_Copy (persister_objs cfg ! p)"
    using prepare_saved_result [OF p] i len by auto
  note f = prepare_saved_frame [OF p]
  have h: "held q \<subseteq> {..<length (mem cfg)}" "value_of (mem cfg) q = (case persisted cfg i of None \<Rightarrow> ([], []) | Some v \<Rightarrow> v)"
    using q saved_held [OF ok i] by (auto simp: persisted_def held_def value_of_def pers_defs content_def split: option.splits)
  have "rafts cfg' = (rafts cfg)[i := None]" using none f(5) by (metis list_update_id)
  then show "inst_ok cfg'"
    by (rule inst_renew [OF ok i f(2) _ _ _ sav objs _ _ m]) (use f h(1) in \<open>auto simp: objs m\<close>)
  show "saved cfg' ! i \<noteq> None" using i len by (simp add: sav)
  show "persisted cfg' j = (if j = i \<and> saved cfg ! i = None then Some ([], []) else persisted cfg j)" if "j < cfg_n cfg"
  proof (cases "j = i")
    case True
    then have "persisted cfg' j = Some (value_of (mem cfg) q)"
      using i len h(1) by (simp add: persisted_def sav objs m value_of_append)
    then show ?thesis using True h(2) by (auto simp: persisted_def split: option.splits)
  next
    case False
    with persisted_extend [OF ok that _ m objs] show ?thesis by (simp add: sav)
  qed
qed

lemma launch_inst:
  assumes ok: "inst_ok cfg" and i: "i < cfg_n cfg" and none: "rafts cfg ! i = None" and some: "saved cfg ! i \<noteq> None"
  shows "inst_ok (launch i es cfg)" "j < cfg_n cfg \<Longrightarrow> persisted (launch i es cfg) j = persisted cfg j"
    "raft_objs (launch i es cfg) = raft_objs cfg @ [\<lparr>peers = es, persister = the (saved cfg ! i), me = i, dead = 0\<rparr>]"
proof -
  let ?c = "launch i es cfg" and ?K = "length (raft_objs cfg)"
  obtain p where p: "saved cfg ! i = Some p" using some by blast
  obtain x where m: "mem ?c = mem cfg @ [x]" by (simp add: launch_def Raft_Make_def pers_defs Let_def)
  show ro: "raft_objs ?c = raft_objs cfg @ [\<lparr>peers = es, persister = the (saved cfg ! i), me = i, dead = 0\<rparr>]"
    by (simp add: launch_def Raft_Make_def pers_defs Let_def readPersist_def)
  have len: "length (saved cfg) = cfg_n cfg" "length (rafts cfg) = cfg_n cfg" using ok by (simp_all add: inst_ok_def)
  show "j < cfg_n cfg \<Longrightarrow> persisted ?c j = persisted cfg j" by (rule persisted_extend [OF ok _ _ m, of _ "[]"]) simp_all
  have iff: "rafts ?c ! j = Some k \<longleftrightarrow> saved ?c ! j = Some (persister (raft_objs ?c ! k))" if "k < Suc ?K" "j < cfg_n cfg" for j k
  proof (cases "k = ?K")
    case True
    have "rafts cfg ! j \<noteq> Some ?K" using inst_raft [OF ok that(2)] by blast
    moreover have "saved cfg ! j = Some p \<longrightarrow> j = i" using ok i p that(2) unfolding inst_ok_def by blast
    ultimately show ?thesis using True p i len by (auto simp: ro nth_list_update)
  next
    case False
    with that have k: "k < ?K" by simp
    then show ?thesis using False inst_obj(2) [OF ok k that(2)] inst_obj(2) [OF ok k i] none i len
      by (cases "j = i") (simp_all add: ro nth_append)
  qed
  have p_bound: "p < length (persister_objs cfg)" using saved_held [OF ok i p] by simp
  have held: "held q \<subseteq> {..<length (mem cfg)}" if "q \<in> set (persister_objs cfg)" for q
    using ok that by (simp add: inst_ok_def)
  show "inst_ok ?c"
    unfolding inst_ok_def launch_frame ro
  proof (intro conjI allI impI ballI)
    show "q < length (persister_objs cfg)" if "j < cfg_n cfg" "saved cfg ! j = Some q" for j q
      using saved_held [OF ok that] by simp
    show "l = j" if "j < cfg_n cfg" "saved cfg ! j = Some q" "l < cfg_n cfg" "saved cfg ! l = Some q" for j q l
      using ok that unfolding inst_ok_def by blast
    show "k < length (raft_objs cfg @ [\<lparr>peers = es, persister = the (saved cfg ! i), me = i, dead = 0\<rparr>])"
      if "j < cfg_n cfg" "(rafts cfg)[i := Some ?K] ! j = Some k" for j k
      using that inst_raft [OF ok that(1), of k] i len by (cases "j = i") (simp_all add: less_SucI)
    fix k assume k: "k < length (raft_objs cfg @ [\<lparr>peers = es, persister = the (saved cfg ! i), me = i, dead = 0\<rparr>])"
    show "persister ((raft_objs cfg @ [\<lparr>peers = es, persister = the (saved cfg ! i), me = i, dead = 0\<rparr>]) ! k) < length (persister_objs cfg)"
      using k p p_bound inst_obj(1) [OF ok] by (cases "k = ?K") (simp_all add: nth_append)
    show "(rafts cfg)[i := Some ?K] ! j = Some k \<longleftrightarrow>
        saved cfg ! j = Some (persister ((raft_objs cfg @ [\<lparr>peers = es, persister = the (saved cfg ! i), me = i, dead = 0\<rparr>]) ! k))"
      if "j < cfg_n cfg" for j using iff [OF _ that, of k] k by (simp add: ro)
  qed (use len held m in fastforce)+
qed

lemma inst_ok_frame:
  assumes "cfg_n cfg' = cfg_n cfg" "saved cfg' = saved cfg" "rafts cfg' = rafts cfg" "raft_objs cfg' = raft_objs cfg"
    "persister_objs cfg' = persister_objs cfg" "mem cfg' = mem cfg"
  shows "inst_ok cfg' = inst_ok cfg" "persisted cfg' = persisted cfg"
  using assms by (simp_all add: inst_ok_def persisted_def fun_eq_iff)

lemma connect_frame: "connect i cfg = Inr cfg' \<Longrightarrow> inst_ok cfg' = inst_ok cfg \<and> persisted cfg' = persisted cfg \<and> cfg_n cfg' = cfg_n cfg"
  "disconnect i cfg = Inr cfg' \<Longrightarrow> inst_ok cfg' = inst_ok cfg \<and> persisted cfg' = persisted cfg \<and> cfg_n cfg' = cfg_n cfg"
  by (drule connect_result(1) disconnect_result, simp add: inst_ok_def persisted_def fun_eq_iff)+

lemma crash1_inst:
  assumes ok: "inst_ok cfg" and i: "i < cfg_n cfg" and c: "crash1 i cfg = Inr cfg'"
  shows "inst_ok cfg'" "j < cfg_n cfg \<Longrightarrow> persisted cfg' j = persisted cfg j" "rafts cfg' = (rafts cfg)[i := None]"
    "saved cfg' ! i = None \<longleftrightarrow> saved cfg ! i = None" "cfg_n cfg' = cfg_n cfg"
proof -
  from c obtain cfg1 where d: "disconnect i cfg = Inr cfg1"
    and cfg': "cfg' = renew_saved i (kill_raft i (copy_saved i (cfg1\<lparr>net := DeleteServer (Some (IntName i)) (net cfg1)\<rparr>)))"
    by (rule crash1_split)
  let ?c = "cfg1\<lparr>net := DeleteServer (Some (IntName i)) (net cfg1)\<rparr>"
  have f: "cfg_n ?c = cfg_n cfg" "saved ?c = saved cfg" "rafts ?c = rafts cfg" "raft_objs ?c = raft_objs cfg"
    "persister_objs ?c = persister_objs cfg" "mem ?c = mem cfg" using disconnect_result [OF d] by simp_all
  show "cfg_n cfg' = cfg_n cfg" unfolding cfg' using f by simp
  have ok1: "inst_ok ?c" using inst_ok_frame(1) [OF f] ok by simp
  have i1: "i < cfg_n ?c" using f i by simp
  show "inst_ok cfg'" unfolding cfg' by (rule crash_core(1) [OF ok1 i1])
  show per: "persisted cfg' j = persisted cfg j" if "j < cfg_n cfg" for j
    using crash_core(2) [OF ok1 i1, of j] that inst_ok_frame(2) [OF f] f(1) unfolding cfg' by simp
  show "rafts cfg' = (rafts cfg)[i := None]" using crash_core(3) [OF ok1 i1] f unfolding cfg' by simp
  show "saved cfg' ! i = None \<longleftrightarrow> saved cfg ! i = None" using per [OF i] by (auto simp: persisted_def)
qed

lemma start1_inst:
  assumes ok: "inst_ok cfg" and i: "i < cfg_n cfg" and s: "start1 dec names i cfg = Inr cfg'"
  shows "inst_ok cfg'" "j < cfg_n cfg \<Longrightarrow> persisted cfg' j = (if j = i \<and> saved cfg ! i = None then Some ([], []) else persisted cfg j)"
proof -
  from s obtain cfg1 es rn cfg2 where c: "crash1 i cfg = Inr cfg1"
    and p: "prepare_saved dec i (cfg1\<lparr>endnames := (endnames cfg1)[i := Some names], net := rn, lastApplied := (lastApplied cfg1)[i := 0]\<rparr>) = Inr cfg2"
    and cfg': "cfg' = launch i es cfg2" by (rule start1_split)
  let ?c = "cfg1\<lparr>endnames := (endnames cfg1)[i := Some names], net := rn, lastApplied := (lastApplied cfg1)[i := 0]\<rparr>"
  note r = crash1_inst [OF ok i c]
  have n: "cfg_n ?c = cfg_n cfg" using r(5) by simp
  have ok1: "inst_ok ?c" using r(1) by (subst inst_ok_frame(1) [of ?c cfg1]) simp_all
  have i1: "i < cfg_n ?c" using n i by simp
  have "length (rafts cfg) = cfg_n cfg" using ok by (simp add: inst_ok_def)
  then have none: "rafts ?c ! i = None" using r(3) i by simp
  note q = prepare_inst [OF ok1 i1 none p]
  have n2: "cfg_n cfg2 = cfg_n cfg" using prepare_saved_frame(2) [OF p] n by simp
  have none2: "rafts cfg2 ! i = None" using prepare_saved_frame(5) [OF p] none by simp
  have i2: "i < cfg_n cfg2" using n2 i by simp
  note l = launch_inst [where es = es, OF q(1) i2 none2 q(2)]
  show "inst_ok cfg'" unfolding cfg' by (rule l(1))
  show "persisted cfg' j = (if j = i \<and> saved cfg ! i = None then Some ([], []) else persisted cfg j)" if "j < cfg_n cfg"
    using l(2) [of j] q(3) [of j] r(2) [OF that] r(4) n n2 that unfolding cfg' by (simp add: persisted_def)
qed

lemma raft_save_result:
  assumes ok: "inst_ok cfg" and k: "k < length (raft_objs cfg)"
  shows "inst_ok (raft_save k b cfg)" "j < cfg_n cfg \<Longrightarrow> persisted (raft_save k b cfg) j =
    (if rafts cfg ! j = Some k then map_option (\<lambda>v. (b, snd v)) (persisted cfg j) else persisted cfg j)"
proof -
  let ?c = "raft_save k b cfg" and ?p = "persister (raft_objs cfg ! k)" and ?M = "length (mem cfg)"
  let ?q = "(persister_objs cfg ! ?p)\<lparr>raftstate := Some (Suc ?M)\<rparr>"
  have p: "?p < length (persister_objs cfg)" by (rule inst_obj(1) [OF ok k])
  have c: "?c = cfg\<lparr>mem := mem cfg @ [b, b], persister_objs := (persister_objs cfg)[?p := ?q]\<rparr>"
    by (simp add: raft_save_def pers_defs Let_def)
  have held: "held q \<subseteq> {..<?M}" if "q \<in> set (persister_objs cfg)" for q using ok that by (simp add: inst_ok_def)
  have hq: "held ?q \<subseteq> {..<Suc (Suc ?M)}" using held [OF nth_mem [OF p]] by (auto simp: held_def)
  have "held q \<subseteq> {..<Suc (Suc ?M)}" if "q \<in> set ((persister_objs cfg)[?p := ?q])" for q
    using set_update_subset_insert [of "persister_objs cfg" ?p ?q] that held [of q] hq by fastforce
  then have "\<forall>q \<in> set (persister_objs ?c). held q \<subseteq> {..<length (mem ?c)}" by (simp add: c)
  moreover have eq: "cfg_n ?c = cfg_n cfg" "saved ?c = saved cfg" "rafts ?c = rafts cfg" "raft_objs ?c = raft_objs cfg"
    "length (persister_objs ?c) = length (persister_objs cfg)" by (simp_all add: c)
  ultimately show "inst_ok ?c" using ok unfolding inst_ok_def eq by blast
  have v: "value_of (mem cfg @ [b, b]) ?q = (b, snd (value_of (mem cfg) (persister_objs cfg ! ?p)))"
    using held [OF nth_mem [OF p]] content_append [of "snapshot (persister_objs cfg ! ?p)" "mem cfg" "[b, b]"]
    by (simp add: value_of_def content_def [of _ "Some x" for x] nth_append held_def)
  show "persisted ?c j = (if rafts cfg ! j = Some k then map_option (\<lambda>v. (b, snd v)) (persisted cfg j) else persisted cfg j)"
    if j: "j < cfg_n cfg"
  proof (cases "saved cfg ! j")
    case None
    with inst_obj(2) [OF ok k j] show ?thesis by (simp add: persisted_def c)
  next
    case (Some r)
    have "value_of (mem cfg @ [b, b]) (persister_objs cfg ! r) = value_of (mem cfg) (persister_objs cfg ! r)"
      using saved_held [OF ok j Some] by (intro value_of_append) simp
    with Some inst_obj(2) [OF ok k j] p v show ?thesis by (auto simp: persisted_def c nth_list_update)
  qed
qed

section \<open>The ends of an instance\<close>

text \<open>An instance has the ends that were made for it, which no later instance uses.\<close>

definition peers_ok :: "('c, 'v, 'z) config_scheme \<Rightarrow> bool" where
  "peers_ok cfg \<longleftrightarrow>
     (\<forall>k < length (raft_objs cfg). \<forall>ce \<in> set (peers (raft_objs cfg ! k)).
        ends (net cfg) (ce_endname ce) \<noteq> None \<and>
        (\<forall>i < cfg_n cfg. \<forall>j s. end_of (endnames cfg) i j = Some s \<and> ce_endname ce = Some (StrName s) \<longrightarrow>
           rafts cfg ! i = Some k \<or> rafts cfg ! i = None)) \<and>
     (\<forall>i < cfg_n cfg. \<forall>k. rafts cfg ! i = Some k \<longrightarrow>
        (\<exists>xs. endnames cfg ! i = Some xs \<and> peers (raft_objs cfg ! k) = map (\<lambda>e. \<lparr>ce_endname = Some (StrName e)\<rparr>) xs))"

lemma peers_ok_frame:
  assumes "peers_ok cfg" "cfg_n cfg' = cfg_n cfg" "endnames cfg' = endnames cfg" "ends (net cfg') = ends (net cfg)"
    "length (raft_objs cfg') = length (raft_objs cfg)" "\<And>k. peers (raft_objs cfg' ! k) = peers (raft_objs cfg ! k)"
    "\<And>i. i < cfg_n cfg \<Longrightarrow> rafts cfg' ! i = rafts cfg ! i \<or> rafts cfg' ! i = None"
  shows "peers_ok cfg'"
  using assms(1,7) unfolding peers_ok_def assms(2-6) by (metis option.distinct(1))

lemma crash1_peers:
  assumes ok: "peers_ok cfg" and len: "length (rafts cfg) = cfg_n cfg" and c: "crash1 i cfg = Inr cfg'"
  shows "peers_ok cfg'"
proof -
  from c obtain cfg1 where d: "disconnect i cfg = Inr cfg1"
    and cfg': "cfg' = renew_saved i (kill_raft i (copy_saved i (cfg1\<lparr>net := DeleteServer (Some (IntName i)) (net cfg1)\<rparr>)))"
    by (rule crash1_split)
  note f = disconnect_result [OF d]
  have r: "rafts cfg' = (rafts cfg)[i := None]" by (simp add: cfg' kill_raft_objs f)
  have "rafts cfg' ! j = rafts cfg ! j \<or> rafts cfg' ! j = None" if "j < cfg_n cfg" for j
    using that len by (cases "j = i") (simp_all add: r)
  then show ?thesis
    by (intro peers_ok_frame [OF ok]) (simp_all add: cfg' kill_raft_objs f DeleteServer_def)
qed

lemma start1_peers:
  assumes ok: "peers_ok cfg" and inst: "inst_ok cfg" and links: "links_ok cfg" and i: "i < cfg_n cfg"
    and s: "start1 dec names i cfg = Inr cfg'"
  shows "peers_ok cfg'"
proof -
  from s obtain cfg1 es rn cfg2 where c: "crash1 i cfg = Inr cfg1" and mk: "make_ends 0 names (net cfg1) = Inr (es, rn)"
    and p: "prepare_saved dec i (cfg1\<lparr>endnames := (endnames cfg1)[i := Some names], net := rn, lastApplied := (lastApplied cfg1)[i := 0]\<rparr>) = Inr cfg2"
    and cfg': "cfg' = launch i es cfg2" by (rule start1_split)
  note r = crash1_inst [OF inst i c]
  have lenr: "length (rafts cfg) = cfg_n cfg" using inst by (simp add: inst_ok_def)
  have ok1: "peers_ok cfg1" by (rule crash1_peers [OF ok lenr c])
  have "links_ok cfg1" using crash1_links [OF links i c] by simp
  then have en: "length (endnames cfg1) = cfg_n cfg" using r(5) by (simp add: links_ok_def names_ok_def)
  note f = prepare_saved_frame [OF p, simplified]
  let ?K = "length (raft_objs cfg1)" and ?E = "end_of ((endnames cfg1)[i := Some names])"
  have new: "raft_objs cfg' = raft_objs cfg1 @ [\<lparr>peers = es, persister = the (saved cfg2 ! i), me = i, dead = 0\<rparr>]"
    using f(6) by (simp add: cfg' launch_def Raft_Make_def pers_defs Let_def readPersist_def)
  have raf: "rafts cfg' = (rafts cfg1)[i := Some ?K]" "cfg_n cfg' = cfg_n cfg" "endnames cfg' = (endnames cfg1)[i := Some names]"
    "ends (net cfg') = ends rn" using f r(5) by (simp_all add: cfg' AddServer_def)
  have li: "length (rafts cfg1) = cfg_n cfg" using r(3) lenr by simp
  note m = make_ends_result [OF mk]
  have es: "es = map (\<lambda>e. \<lparr>ce_endname = Some (StrName e)\<rparr>) names" by (rule m(3))
  have old: "ends (net cfg1) (ce_endname ce) \<noteq> None"
    "x < cfg_n cfg \<Longrightarrow> end_of (endnames cfg1) x j = Some s \<Longrightarrow> ce_endname ce = Some (StrName s) \<Longrightarrow> rafts cfg1 ! x = Some k \<or> rafts cfg1 ! x = None"
    if "k < ?K" "ce \<in> set (peers (raft_objs cfg1 ! k))" for k ce x j s
    using ok1 that r(5) unfolding peers_ok_def by metis+
  have "ends rn (ce_endname ce) \<noteq> None \<and> (\<forall>x < cfg_n cfg. \<forall>j s. ?E x j = Some s \<and> ce_endname ce = Some (StrName s) \<longrightarrow>
      (rafts cfg1)[i := Some ?K] ! x = Some k \<or> (rafts cfg1)[i := Some ?K] ! x = None)"
    if k: "k < Suc ?K" "ce \<in> set (peers (raft_objs cfg' ! k))" for k ce
  proof (cases "k = ?K")
    case True
    then obtain e where e: "e \<in> set names" "ce = \<lparr>ce_endname = Some (StrName e)\<rparr>" using k(2) by (auto simp: new es)
    have "x = i" if "x < cfg_n cfg" "?E x j = Some e" for x j
    proof (rule ccontr)
      assume "x \<noteq> i"
      then have "end_of (endnames cfg1) x j = Some e" using that i en by (simp add: end_of_row)
      then have "ends (net cfg1) (Some (StrName e)) \<noteq> None"
        using \<open>links_ok cfg1\<close> that(1) r(5) unfolding links_ok_def names_ok_def by metis
      with m(2) [OF e(1)] show False by simp
    qed
    then have "(rafts cfg1)[i := Some ?K] ! x = Some k" if "x < cfg_n cfg" "?E x j = Some e" for x j
      using that True i li by (metis nth_list_update_eq)
    moreover have "ends rn (Some (StrName e)) \<noteq> None" using m(4) e(1) by blast
    ultimately show ?thesis using e(2) by simp
  next
    case False
    then have kk: "k < ?K" "ce \<in> set (peers (raft_objs cfg1 ! k))" using k by (simp_all add: new nth_append)
    have "ce_endname ce \<noteq> Some (StrName e)" if "e \<in> set names" for e using old(1) [OF kk] m(2) [OF that] by metis
    then have neq: "s \<notin> set names" if "ce_endname ce = Some (StrName s)" for s using that by blast
    have step: "(rafts cfg1)[i := Some ?K] ! x = Some k \<or> (rafts cfg1)[i := Some ?K] ! x = None"
      if x: "x < cfg_n cfg" "?E x j = Some s" "ce_endname ce = Some (StrName s)" for x j s
    proof -
      have "x \<noteq> i" using x neq [OF x(3)] i en by (auto simp: end_of_row split: if_splits)
      with x old(2) [OF kk x(1) _ x(3)] i en show ?thesis by (simp add: end_of_row)
    qed
    have "ends rn (ce_endname ce) \<noteq> None" using old(1) [OF kk] m(4) [of "ce_endname ce"] by simp
    then show ?thesis
    proof (intro conjI allI impI)
      fix x j s assume "x < cfg_n cfg" "?E x j = Some s \<and> ce_endname ce = Some (StrName s)"
      then show "(rafts cfg1)[i := Some ?K] ! x = Some k \<or> (rafts cfg1)[i := Some ?K] ! x = None" by (elim conjE) (rule step)
    qed
  qed
  moreover have "\<exists>xs. ((endnames cfg1)[i := Some names]) ! x = Some xs \<and> peers (raft_objs cfg' ! k) = map (\<lambda>e. \<lparr>ce_endname = Some (StrName e)\<rparr>) xs"
    if x: "x < cfg_n cfg" "(rafts cfg1)[i := Some ?K] ! x = Some k" for x k
  proof (cases "x = i")
    case True
    with x i li have "k = ?K" by simp
    with True i en show ?thesis by (simp add: new es)
  next
    case False
    with x have "rafts cfg1 ! x = Some k" by simp
    moreover from this have "k < ?K" using inst_raft [OF r(1)] x(1) r(5) by simp
    ultimately show ?thesis using ok1 x(1) False r(5) unfolding peers_ok_def by (simp add: new nth_append)
  qed
  ultimately show ?thesis unfolding peers_ok_def raf by (simp add: new)
qed

text \<open>Exactly the running servers are registered.\<close>

definition reg_ok :: "('c, 'v, 'z) config_scheme \<Rightarrow> bool" where
  "reg_ok cfg \<longleftrightarrow> (\<forall>i < cfg_n cfg. servers (net cfg) (Some (IntName i)) = None \<longleftrightarrow> rafts cfg ! i = None)"

lemma crash1_reg:
  assumes ok: "reg_ok cfg" and inst: "inst_ok cfg" and i: "i < cfg_n cfg" and c: "crash1 i cfg = Inr cfg'"
  shows "reg_ok cfg'" "servers (net cfg') = (servers (net cfg))(Some (IntName i) := None)"
proof -
  from c obtain cfg1 where d: "disconnect i cfg = Inr cfg1"
    and cfg': "cfg' = renew_saved i (kill_raft i (copy_saved i (cfg1\<lparr>net := DeleteServer (Some (IntName i)) (net cfg1)\<rparr>)))"
    by (rule crash1_split)
  show s: "servers (net cfg') = (servers (net cfg))(Some (IntName i) := None)"
    by (simp add: cfg' DeleteServer_def disconnect_result [OF d])
  have len: "length (rafts cfg) = cfg_n cfg" using inst by (simp add: inst_ok_def)
  have "rafts cfg' ! j = (if j = i then None else rafts cfg ! j)" if "j < cfg_n cfg" for j
    using crash1_inst(3) [OF inst i c] that len by (simp add: nth_list_update)
  then show "reg_ok cfg'" using ok crash1_inst(5) [OF inst i c] by (simp add: reg_ok_def s)
qed

lemma start1_reg:
  assumes ok: "reg_ok cfg" and inst: "inst_ok cfg" and i: "i < cfg_n cfg" and s: "start1 dec names i cfg = Inr cfg'"
  shows "reg_ok cfg'" "\<exists>K. rafts cfg' = (rafts cfg)[i := Some K]"
proof -
  from s obtain cfg1 es rn cfg2 where c: "crash1 i cfg = Inr cfg1" and mk: "make_ends 0 names (net cfg1) = Inr (es, rn)"
    and p: "prepare_saved dec i (cfg1\<lparr>endnames := (endnames cfg1)[i := Some names], net := rn, lastApplied := (lastApplied cfg1)[i := 0]\<rparr>) = Inr cfg2"
    and cfg': "cfg' = launch i es cfg2" by (rule start1_split)
  note r = crash1_inst [OF inst i c] and g = crash1_reg [OF ok inst i c] and f = prepare_saved_frame [OF p, simplified]
  have len: "length (rafts cfg) = cfg_n cfg" using inst by (simp add: inst_ok_def)
  have raf: "rafts cfg' = (rafts cfg)[i := Some (length (raft_objs cfg1))]" using f r(3) by (simp add: cfg')
  then show "\<exists>K. rafts cfg' = (rafts cfg)[i := Some K]" by blast
  have "servers (net cfg') = (servers (net cfg))(Some (IntName i) \<mapsto> length (server_objs cfg2))"
    using f g(2) make_ends_servers [OF mk] by (simp add: cfg' AddServer_def)
  moreover have "cfg_n cfg' = cfg_n cfg" using f r(5) by (simp add: cfg')
  ultimately show "reg_ok cfg'" using ok len i by (simp add: reg_ok_def raf nth_list_update)
qed

section \<open>Runs of a test\<close>

text \<open>
  What a test and the servers do with the test bed. Raft instances save their state, those that were
  crashed included; the readers of the apply channels change the logs (\<open>Raft_Checks\<close>).
\<close>

inductive bed_step :: "(bytes \<Rightarrow> (int \<times> 'c iface list) option) \<Rightarrow> ('c, 'v) config \<Rightarrow> ('c, 'v) config \<Rightarrow> bool" for dec where
  step_connect: "i < cfg_n cfg \<Longrightarrow> connect i cfg = Inr cfg' \<Longrightarrow> bed_step dec cfg cfg'"
| step_disconnect: "i < cfg_n cfg \<Longrightarrow> disconnect i cfg = Inr cfg' \<Longrightarrow> bed_step dec cfg cfg'"
| step_crash: "i < cfg_n cfg \<Longrightarrow> crash1 i cfg = Inr cfg' \<Longrightarrow> bed_step dec cfg cfg'"
| step_start: "i < cfg_n cfg \<Longrightarrow> length names = cfg_n cfg \<Longrightarrow> start1 dec names i cfg = Inr cfg' \<Longrightarrow> bed_step dec cfg cfg'"
| step_save: "k < length (raft_objs cfg) \<Longrightarrow> bed_step dec cfg (raft_save k b cfg)"
| step_unreliable: "bed_step dec cfg (setunreliable unrel cfg)"
| step_reordering: "bed_step dec cfg (setlongreordering longrel cfg)"
| step_apply: "bed_step dec cfg (cfg\<lparr>logs := l, lastApplied := a, maxIndex := m\<rparr>)"

inductive_cases bed_stepE: "bed_step dec cfg cfg'"

definition bed_start :: "('c, 'v) config \<Rightarrow> bool" where
  "bed_start cfg \<longleftrightarrow> (\<exists>n unreliable. cfg = empty_config n unreliable)"

definition bed_ok :: "('c, 'v) config \<Rightarrow> bool" where
  "bed_ok cfg \<longleftrightarrow> links_ok cfg \<and> inst_ok cfg \<and> peers_ok cfg \<and> reg_ok cfg"

lemma bed_ok_frame:
  assumes "bed_ok cfg" "cfg_n cfg' = cfg_n cfg" "connected cfg' = connected cfg" "endnames cfg' = endnames cfg"
    "ends (net cfg') = ends (net cfg)" "connections (net cfg') = connections (net cfg)" "enabled (net cfg') = enabled (net cfg)"
    "servers (net cfg') = servers (net cfg)" "rafts cfg' = rafts cfg" "raft_objs cfg' = raft_objs cfg" "inst_ok cfg'"
  shows "bed_ok cfg'"
  using assms links_ok_frame [of cfg cfg'] peers_ok_frame [of cfg cfg'] unfolding bed_ok_def by (simp add: reg_ok_def)

lemma bed_ok_step:
  assumes "bed_ok cfg" "bed_step dec cfg cfg'"
  shows "bed_ok cfg'"
  using assms(2)
proof (cases rule: bed_step.cases)
  case (step_connect i)
  note f = connect_result(1) [OF step_connect(2)]
  have "peers_ok cfg'" by (rule peers_ok_frame [of cfg]) (use assms(1) in \<open>simp_all add: bed_ok_def f\<close>)
  moreover have "reg_ok cfg'" using assms(1) by (simp add: bed_ok_def reg_ok_def f)
  ultimately show ?thesis using assms(1) connect_links [of cfg i cfg'] connect_frame(1) [OF step_connect(2)] step_connect by (simp add: bed_ok_def)
next
  case (step_disconnect i)
  note f = disconnect_result [OF step_disconnect(2)]
  have "peers_ok cfg'" by (rule peers_ok_frame [of cfg]) (use assms(1) in \<open>simp_all add: bed_ok_def f\<close>)
  moreover have "reg_ok cfg'" using assms(1) by (simp add: bed_ok_def reg_ok_def f)
  ultimately show ?thesis using assms(1) disconnect_links [of cfg i cfg'] connect_frame(2) [OF step_disconnect(2)] step_disconnect by (simp add: bed_ok_def)
next
  case (step_crash i)
  have "length (rafts cfg) = cfg_n cfg" using assms(1) by (simp add: bed_ok_def inst_ok_def)
  with assms(1) step_crash crash1_links [of cfg i cfg'] crash1_inst(1) [of cfg i cfg'] crash1_peers [of cfg i cfg'] crash1_reg(1) [of cfg i cfg'] show ?thesis
    by (simp add: bed_ok_def)
next
  case (step_start i names)
  with assms(1) start1_links [of cfg i names dec cfg'] start1_inst(1) [of cfg i dec names cfg'] start1_peers [of cfg i dec names cfg']
    start1_reg(1) [of cfg i dec names cfg'] show ?thesis
    by (simp add: bed_ok_def)
next
  case (step_save k b)
  then have "inst_ok cfg'" using assms(1) raft_save_result(1) [of cfg k b] by (simp add: bed_ok_def)
  then show ?thesis by (intro bed_ok_frame [OF assms(1)]) (simp_all add: step_save raft_save_def Let_def SaveRaftState_def clone_def)
next
  case (step_unreliable unrel)
  then have "inst_ok cfg'" using assms(1) inst_ok_frame(1) [of cfg' cfg] by (simp add: bed_ok_def setunreliable_def)
  then show ?thesis by (intro bed_ok_frame [OF assms(1)]) (simp_all add: step_unreliable setunreliable_def Reliable_def)
next
  case (step_reordering longrel)
  then have "inst_ok cfg'" using assms(1) inst_ok_frame(1) [of cfg' cfg] by (simp add: bed_ok_def setlongreordering_def)
  then show ?thesis by (intro bed_ok_frame [OF assms(1)]) (simp_all add: step_reordering setlongreordering_def LongReordering_def)
next
  case (step_apply l a m)
  then have "inst_ok cfg'" using assms(1) inst_ok_frame(1) [of cfg' cfg] by (simp add: bed_ok_def)
  then show ?thesis by (intro bed_ok_frame [OF assms(1)]) (simp_all add: step_apply)
qed

lemma bed_ok_start: "bed_ok (empty_config n unreliable)"
  by (simp add: bed_ok_def links_ok_def names_ok_def inst_ok_def peers_ok_def reg_ok_def empty_config_def live_ends_def LongDelays_def
      Reliable_def MakeNetwork_def end_of_def)

interpretation bed: invariant_system bed_start "bed_step dec" bed_ok for dec
  by unfold_locales (auto simp: bed_start_def intro: bed_ok_start bed_ok_step)

text \<open>
  C13: In every state that tests can bring about, whatever they start, crash, attach and detach, exactly the
  links between attached servers are enabled: a call of the running server \<open>i\<close> to server \<open>j\<close> gets past the
  first check of the network if and only if both are attached and \<open>j\<close> is running, and it
  is then addressed to the server that \<open>j\<close> registered last.
\<close>

theorem attached_servers_linked:
  assumes "reach bed_start (bed_step dec) cfg" and "i < cfg_n cfg" "j < cfg_n cfg" "rafts cfg ! i = Some k"
    and "req_endname req = ce_endname (peers (raft_objs cfg ! k) ! j)"
  shows "processReq_begin (net cfg) req =
    (if connected cfg ! i \<and> connected cfg ! j \<and> rafts cfg ! j \<noteq> None
     then Chosen \<lparr>ei_enabled = True, ei_servername = Some (IntName j), ei_server = servers (net cfg) (Some (IntName j)),
            ei_reliable = reliable (net cfg), ei_longreordering = longReordering (net cfg)\<rparr>
     else FailTimer)"
proof -
  have ok: "links_ok cfg" "peers_ok cfg" and reg: "reg_ok cfg" using bed.reach_inv [OF assms(1)] by (simp_all add: bed_ok_def)
  obtain xs where xs: "endnames cfg ! i = Some xs" "peers (raft_objs cfg ! k) = map (\<lambda>e. \<lparr>ce_endname = Some (StrName e)\<rparr>) xs"
    using ok(2) assms(2,4) unfolding peers_ok_def by blast
  have en: "length (endnames cfg) = cfg_n cfg" using ok(1) by (simp add: links_ok_def names_ok_def)
  then have "length xs = cfg_n cfg"
    using ok(1) xs(1) assms(2) unfolding links_ok_def names_ok_def by (metis nth_mem)
  with xs assms(3) have e: "end_of (endnames cfg) i j = Some (xs ! j)" "req_endname req = Some (StrName (xs ! j))"
    using assms(2,5) en by (simp_all add: end_of_def)
  have "enabled (net cfg) (Some (StrName (xs ! j))) \<longleftrightarrow> connected cfg ! i \<and> connected cfg ! j"
  proof -
    have "k = i \<and> l = j" if "k < cfg_n cfg" "end_of (endnames cfg) k l = Some (xs ! j)" for k l
      using ok(1) that e(1) assms(2) unfolding links_ok_def names_ok_def by blast
    then show ?thesis using e(1) assms(2,3) unfolding enabled_iff [OF ok(1)] live_ends_def by blast
  qed
  moreover have "connections (net cfg) (Some (StrName (xs ! j))) = Some (IntName j)"
    using ok(1) e(1) assms(2) unfolding links_ok_def names_ok_def by blast
  moreover have "servers (net cfg) (Some (IntName j)) = None \<longleftrightarrow> rafts cfg ! j = None" using reg assms(3) by (simp add: reg_ok_def)
  ultimately show ?thesis by (auto simp: processReq_begin_def readEndnameInfo_def e(2) Let_def)
qed


text \<open>
  An instance that was crashed cannot send. As long as no server is attached that is not running, every
  call of an instance that is not the present one of its server fails.
\<close>

theorem crashed_instance_silent:
  assumes "reach bed_start (bed_step dec) cfg" and "\<forall>i < cfg_n cfg. connected cfg ! i \<longrightarrow> rafts cfg ! i \<noteq> None"
    and "k < length (raft_objs cfg)" and "\<forall>i < cfg_n cfg. rafts cfg ! i \<noteq> Some k"
    and "ce \<in> set (peers (raft_objs cfg ! k))" and "req_endname req = ce_endname ce"
  shows "processReq_begin (net cfg) req = FailTimer"
proof -
  have ok: "links_ok cfg" "peers_ok cfg" using bed.reach_inv [OF assms(1)] by (simp_all add: bed_ok_def)
  have "\<not> enabled (net cfg) (ce_endname ce)"
  proof
    assume "enabled (net cfg) (ce_endname ce)"
    then obtain s i j where s: "ce_endname ce = Some (StrName s)" "i < cfg_n cfg" "end_of (endnames cfg) i j = Some s" "connected cfg ! i"
      unfolding enabled_iff [OF ok(1)] live_ends_def by blast
    then have "rafts cfg ! i = None" using ok(2) assms(3-5) unfolding peers_ok_def by blast
    with assms(2) s show False by blast
  qed
  then show ?thesis by (simp add: processReq_begin_def readEndnameInfo_def assms(6) Let_def)
qed


section \<open>Making a test bed\<close>

lemma row_length: "links_ok cfg \<Longrightarrow> i < cfg_n cfg \<Longrightarrow> endnames cfg ! i \<noteq> None \<Longrightarrow> j < cfg_n cfg \<Longrightarrow> end_of (endnames cfg) i j \<noteq> None"
proof -
  assume ok: "links_ok cfg" and i: "i < cfg_n cfg" "endnames cfg ! i \<noteq> None" and j: "j < cfg_n cfg"
  obtain xs where xs: "endnames cfg ! i = Some xs" using i(2) by blast
  have len: "length (endnames cfg) = cfg_n cfg" using ok by (simp add: links_ok_def names_ok_def)
  then have "Some xs \<in> set (endnames cfg)" using i(1) xs by (metis nth_mem)
  then have "length xs = cfg_n cfg" using ok by (simp add: links_ok_def names_ok_def)
  then show ?thesis using xs i j len by (simp add: end_of_def)
qed

lemma connect_succeeds:
  assumes ok: "links_ok cfg" and i: "i < cfg_n cfg" "endnames cfg ! i \<noteq> None"
  shows "\<exists>cfg'. connect i cfg = Inr cfg'"
proof -
  let ?c = "cfg\<lparr>connected := (connected cfg)[i := True]\<rparr>"
  define js where "js = filter (\<lambda>j. connected ?c ! j) [0..<cfg_n cfg]"
  have row: "end_of (endnames cfg) k j \<noteq> None" if "k < cfg_n cfg" "(connected cfg)[i := True] ! k" "j < cfg_n cfg" for k j
  proof -
    have "endnames cfg ! k \<noteq> None" using ok i that unfolding links_ok_def by (cases "k = i") simp_all
    then show ?thesis using row_length [OF ok that(1) _ that(3)] by blast
  qed
  have "None \<notin> set (map (\<lambda>j. end_of (endnames cfg) i j) js)" using row_length [OF ok i] by (auto simp: js_def) (metis option.distinct(1))
  moreover have "None \<notin> set (map (\<lambda>j. end_of (endnames cfg) j i) js)"
    using row [OF _ _ i(1)] unfolding js_def by fastforce
  ultimately show ?thesis
    unfolding connect_def enable_ends_result Let_def js_def by simp
qed

lemma disconnect_succeeds:
  assumes ok: "links_ok cfg" and i: "i < cfg_n cfg"
  shows "\<exists>cfg'. disconnect i cfg = Inr cfg'"
proof -
  have "None \<notin> set (if endnames cfg ! i \<noteq> None then map (\<lambda>j. end_of (endnames cfg) i j) [0..<cfg_n cfg] else [])"
    using row_length [OF ok i] by force
  moreover have "None \<notin> set (map (\<lambda>j. end_of (endnames cfg) j i) (filter (\<lambda>j. endnames cfg ! j \<noteq> None) [0..<cfg_n cfg]))"
    using row_length [OF ok _ _ i] by force
  ultimately show ?thesis unfolding disconnect_def enable_ends_result Let_def by simp
qed

lemma crash1_succeeds: "links_ok cfg \<Longrightarrow> i < cfg_n cfg \<Longrightarrow> \<exists>cfg'. crash1 i cfg = Inr cfg'"
  using disconnect_succeeds [of cfg i] by (auto simp: crash1_def Let_def)

lemma make_ends_succeeds:
  "distinct es \<Longrightarrow> \<forall>e \<in> set es. ends rn (Some (StrName e)) = None \<Longrightarrow> \<exists>ces rn'. make_ends j es rn = Inr (ces, rn')"
proof (induction es arbitrary: j rn)
  case (Cons e es)
  let ?e = "Some (StrName e)"
  let ?rn = "Connect ?e (Some (IntName j)) (rn\<lparr>ends := (ends rn)(?e \<mapsto> \<lparr>ce_endname = ?e\<rparr>), enabled := (enabled rn)(?e := False),
                 connections := (connections rn)(?e := None)\<rparr>)"
  have "\<forall>x \<in> set es. ends ?rn (Some (StrName x)) = None" using Cons.prems by (auto simp: Connect_def)
  with Cons.IH [of ?rn "Suc j"] Cons.prems obtain ces rn' where "make_ends (Suc j) es ?rn = Inr (ces, rn')" by auto
  with Cons.prems show ?case by (simp add: MakeEnd_def Let_def)
qed simp

lemma start1_succeeds:
  assumes ok: "links_ok cfg" "inst_ok cfg" and i: "i < cfg_n cfg" and none: "saved cfg ! i = None"
    and names: "distinct names" "\<And>e. e \<in> set names \<Longrightarrow> ends (net cfg) (Some (StrName e)) = None"
  shows "\<exists>cfg'. start1 dec names i cfg = Inr cfg' \<and> saved cfg' = (saved cfg)[i := Some (length (persister_objs cfg))] \<and>
    (\<forall>x. ends (net cfg') x \<noteq> None \<longleftrightarrow> ends (net cfg) x \<noteq> None \<or> x \<in> (\<lambda>e. Some (StrName e)) ` set names) \<and>
    connected cfg' = (connected cfg)[i := False] \<and> endnames cfg' = (endnames cfg)[i := Some names]"
proof -
  obtain cfg1 where c: "crash1 i cfg = Inr cfg1" using crash1_succeeds [OF ok(1) i] by blast
  then obtain cfg0 where d: "disconnect i cfg = Inr cfg0"
    and cfg1: "cfg1 = renew_saved i (kill_raft i (copy_saved i (cfg0\<lparr>net := DeleteServer (Some (IntName i)) (net cfg0)\<rparr>)))"
    by (rule crash1_split)
  note f = disconnect_result [OF d]
  have e1: "ends (net cfg1) = ends (net cfg)" "saved cfg1 = saved cfg" "persister_objs cfg1 = persister_objs cfg" "connected cfg1 = (connected cfg)[i := False]"
    "endnames cfg1 = endnames cfg"
    using none by (simp_all add: cfg1 f DeleteServer_def renew_saved_def copy_saved_def)
  from make_ends_succeeds [OF names(1), of "net cfg1" 0] names(2) obtain es rn where mk: "make_ends 0 names (net cfg1) = Inr (es, rn)"
    by (auto simp: e1)
  note m = make_ends_result [OF mk]
  have run: "start1 dec names i cfg = Inr (launch i es (cfg1\<lparr>endnames := (endnames cfg1)[i := Some names], net := rn,
      lastApplied := (lastApplied cfg1)[i := 0], persister_objs := persister_objs cfg1 @ [MakePersister],
      saved := (saved cfg1)[i := Some (length (persister_objs cfg1))]\<rparr>))"
    using none by (simp add: start1_def c mk Let_def prepare_saved_def e1)
  show ?thesis unfolding run using m(4) by (simp add: e1 AddServer_def)
qed

lemma start_all_succeeds:
  fixes cfg :: "('c, 'v) config"
  assumes reach: "reach bed_start (bed_step dec) cfg" and n: "cfg_n cfg = n" "\<And>i. i < n \<Longrightarrow> length (names i) = n"
    and order: "distinct (concat (map names is))" "distinct is" "set is \<subseteq> {..<n}"
    and fresh: "\<And>i. i \<in> set is \<Longrightarrow> saved cfg ! i = None" "\<And>e. e \<in> set (concat (map names is)) \<Longrightarrow> ends (net cfg) (Some (StrName e)) = None"
  shows "\<exists>cfg'. start_all dec names is cfg = Inr cfg' \<and> reach bed_start (bed_step dec) cfg' \<and> cfg_n cfg' = n \<and>
    (\<forall>i < n. i \<in> set is \<or> rafts cfg ! i \<noteq> None \<longrightarrow> rafts cfg' ! i \<noteq> None)"
  using assms
proof (induction "is" arbitrary: cfg)
  case Nil
  then show ?case by auto
next
  case (Cons i js)
  have ok: "links_ok cfg" "inst_ok cfg" "reg_ok cfg" using bed.reach_inv [OF Cons.prems(1)] by (simp_all add: bed_ok_def)
  have i: "i < cfg_n cfg" using Cons.prems by simp
  obtain cfg1 where s: "start1 dec (names i) i cfg = Inr cfg1" and sv: "saved cfg1 = (saved cfg)[i := Some (length (persister_objs cfg))]"
    and en: "\<And>x. ends (net cfg1) x \<noteq> None \<longleftrightarrow> ends (net cfg) x \<noteq> None \<or> x \<in> (\<lambda>e. Some (StrName e)) ` set (names i)"
    using start1_succeeds [OF ok(1,2) i, of "names i" dec] Cons.prems(4,7,8) by auto
  have reach1: "reach bed_start (bed_step dec) cfg1"
    by (rule reach_step [OF Cons.prems(1) step_start]) (use Cons.prems(2,3) i s in auto)
  have n1: "cfg_n cfg1 = n" using start1_links [OF ok(1) i _ s] Cons.prems(2,3) i by simp
  obtain K where K: "rafts cfg1 = (rafts cfg)[i := Some K]" using start1_reg(2) [OF ok(3,2) i s] by blast
  have "ends (net cfg1) (Some (StrName e)) = None" if "e \<in> set (concat (map names js))" for e
    using en [of "Some (StrName e)"] Cons.prems(4,8) that by auto
  moreover have "saved cfg1 ! j = None" if "j \<in> set js" for j
  proof -
    have "j \<noteq> i" using that Cons.prems(5) by auto
    with Cons.prems(7) [of j] that show ?thesis by (simp add: sv)
  qed
  ultimately obtain cfg' where "start_all dec names js cfg1 = Inr cfg'" "reach bed_start (bed_step dec) cfg'" "cfg_n cfg' = n"
    and r: "\<forall>i < n. i \<in> set js \<or> rafts cfg1 ! i \<noteq> None \<longrightarrow> rafts cfg' ! i \<noteq> None"
    using Cons.IH [OF reach1 n1 Cons.prems(3)] Cons.prems(4-6) by auto
  moreover have "rafts cfg1 ! j \<noteq> None" if "j = i \<or> rafts cfg ! j \<noteq> None" "j < n" for j
    using that Cons.prems(2) ok(2) by (cases "j = i") (simp_all add: K inst_ok_def)
  ultimately show ?case using s by auto
qed

lemma connect_all_succeeds:
  fixes cfg :: "('c, 'v) config"
  assumes "reach bed_start (bed_step dec) cfg" "cfg_n cfg = n" "set is \<subseteq> {..<n}" "\<forall>i < n. rafts cfg ! i \<noteq> None"
  shows "\<exists>cfg'. connect_all is cfg = Inr cfg' \<and> reach bed_start (bed_step dec) cfg' \<and> cfg_n cfg' = n \<and> rafts cfg' = rafts cfg \<and>
    (\<forall>i < n. connected cfg' ! i \<longleftrightarrow> i \<in> set is \<or> connected cfg ! i)"
  using assms
proof (induction "is" arbitrary: cfg)
  case (Cons i js)
  have ok: "links_ok cfg" "peers_ok cfg" using bed.reach_inv [OF Cons.prems(1)] by (simp_all add: bed_ok_def)
  have i: "i < cfg_n cfg" using Cons.prems by simp
  have "endnames cfg ! i \<noteq> None" using ok(2) Cons.prems(4) i Cons.prems(2) unfolding peers_ok_def by fastforce
  then obtain cfg1 where c: "connect i cfg = Inr cfg1" using connect_succeeds [OF ok(1) i] by blast
  note f = connect_result(1) [OF c]
  have "reach bed_start (bed_step dec) cfg1" by (rule reach_step [OF Cons.prems(1) step_connect [OF i c]])
  moreover have "cfg_n cfg1 = n" "rafts cfg1 = rafts cfg" using Cons.prems(2) by (simp_all add: f)
  ultimately obtain cfg' where r: "connect_all js cfg1 = Inr cfg'" "reach bed_start (bed_step dec) cfg'" "cfg_n cfg' = n" "rafts cfg' = rafts cfg"
    "\<forall>j < n. connected cfg' ! j \<longleftrightarrow> j \<in> set js \<or> connected cfg1 ! j"
    using Cons.IH [of cfg1] Cons.prems(3,4) by auto
  have "connected cfg1 ! j \<longleftrightarrow> j = i \<or> connected cfg ! j" if "j < n" for j
    using that ok(1) Cons.prems(2) by (cases "j = i") (simp_all add: f links_ok_def)
  with r c show ?case by auto
qed auto

lemma make_config_ok:
  assumes "\<forall>i < n. length (names i) = n" and "distinct (concat (map names [0..<n]))"
  shows "\<exists>cfg. make_config dec names n unreliable = Inr (cfg :: ('c, 'v) config) \<and> reach bed_start (bed_step dec) cfg \<and> cfg_n cfg = n \<and>
    (\<forall>i < n. connected cfg ! i \<and> rafts cfg ! i \<noteq> None)"
proof -
  let ?c = "empty_config n unreliable :: ('c, 'v) config"
  have c: "reach bed_start (bed_step dec) ?c" "cfg_n ?c = n" by (rule reach_init, simp add: bed_start_def, blast, simp add: empty_config_def)
  obtain cfg1 where s: "start_all dec names [0..<n] ?c = Inr cfg1" "reach bed_start (bed_step dec) cfg1" "cfg_n cfg1 = n"
    "\<forall>i < n. rafts cfg1 ! i \<noteq> None"
  proof -
    have "\<exists>cfg'. start_all dec names [0..<n] ?c = Inr cfg' \<and> reach bed_start (bed_step dec) cfg' \<and> cfg_n cfg' = n \<and>
        (\<forall>i < n. i \<in> set [0..<n] \<or> rafts ?c ! i \<noteq> None \<longrightarrow> rafts cfg' ! i \<noteq> None)"
      by (rule start_all_succeeds [OF c _ assms(2)])
        (use assms(1) in \<open>auto simp: empty_config_def LongDelays_def Reliable_def MakeNetwork_def\<close>)
    then show ?thesis using that by auto
  qed
  obtain cfg where "connect_all [0..<n] cfg1 = Inr cfg" "reach bed_start (bed_step dec) cfg" "cfg_n cfg = n" "rafts cfg = rafts cfg1"
    "\<forall>i < n. connected cfg ! i"
    using connect_all_succeeds [OF s(2,3) _ s(4), of "[0..<n]"] by (auto simp: atLeast0LessThan)
  with s show ?thesis by (simp add: make_config_def)
qed

text \<open>
  Making a test bed of any size succeeds when the random names of the ends differ, and leaves
  every server running and attached, in a state that the theorems above speak of.
\<close>

theorem make_config_complete:
  assumes "\<forall>i < n. length (names i) = n" and "distinct (concat (map names [0..<n]))"
  shows "\<exists>cfg. make_config dec names n unreliable = Inr (cfg :: ('c, 'v) config) \<and> reach bed_start (bed_step dec) cfg \<and> cfg_n cfg = n \<and>
    (\<forall>i < n. connected cfg ! i \<and> rafts cfg ! i \<noteq> None)"
  by (rule make_config_ok [OF assms])

section \<open>An example\<close>

definition ex_names :: "nat \<Rightarrow> string list" where
  "ex_names i = (if i = 0 then [''aa'', ''ab''] else [''ba'', ''bb''])"

definition ex_bed :: "(nat, unit) config" where
  "ex_bed = projr (make_config (\<lambda>_. None) ex_names 2 False)"

lemma ex_names_ok: "\<forall>i < 2. length (ex_names i) = 2" "distinct (concat (map ex_names [0..<2]))"
  by (simp_all add: ex_names_def numeral_2_eq_2)

theorem make_config_complete_witness:
  "\<exists>cfg. make_config (\<lambda>_. None) ex_names 2 False = Inr (cfg :: (nat, unit) config) \<and>
    reach bed_start (bed_step (\<lambda>_. None)) cfg \<and> cfg_n cfg = 2 \<and> (\<forall>i < 2. connected cfg ! i \<and> rafts cfg ! i \<noteq> None)"
  by (rule make_config_complete) (rule ex_names_ok)+

lemma ex_bed_reach: "make_config (\<lambda>_. None) ex_names 2 False = Inr ex_bed" "reach bed_start (bed_step (\<lambda>_. None)) ex_bed"
proof -
  obtain cfg :: "(nat, unit) config" where "make_config (\<lambda>_. None) ex_names 2 False = Inr cfg" "reach bed_start (bed_step (\<lambda>_. None)) cfg"
    using make_config_ok [OF ex_names_ok] by blast
  then show "make_config (\<lambda>_. None) ex_names 2 False = Inr ex_bed" "reach bed_start (bed_step (\<lambda>_. None)) ex_bed"
    by (simp_all add: ex_bed_def)
qed

lemma ex_bed_parts:
  "rafts ex_bed = [Some 0, Some 1]" "connected ex_bed = [True, True]" "cfg_n ex_bed = 2" "saved ex_bed = [Some 0, Some 1]"
  "map peers (raft_objs ex_bed) = map (map (\<lambda>e. \<lparr>ce_endname = Some (StrName e)\<rparr>)) [[''aa'', ''ab''], [''ba'', ''bb'']]"
  by code_simp+

theorem attached_servers_linked_witness:
  "processReq_begin (net ex_bed) \<lparr>req_endname = Some (StrName ''ab''), req_svcMeth = ''Raft.RequestVote'', req_argsType = Named ''A'', req_args = []\<rparr> =
     Chosen \<lparr>ei_enabled = True, ei_servername = Some (IntName 1), ei_server = servers (net ex_bed) (Some (IntName 1)),
            ei_reliable = reliable (net ex_bed), ei_longreordering = longReordering (net ex_bed)\<rparr>"
proof -
  have "length (raft_objs ex_bed) = 2" by code_simp
  then have "peers (raft_objs ex_bed ! 0) = map (\<lambda>e. \<lparr>ce_endname = Some (StrName e)\<rparr>) [''aa'', ''ab'']"
    using nth_map [of 0 "raft_objs ex_bed" peers] ex_bed_parts(5) by simp
  then show ?thesis
    using attached_servers_linked [OF ex_bed_reach(2), of 0 1 0 "\<lparr>req_endname = Some (StrName ''ab''), req_svcMeth = ''Raft.RequestVote'', req_argsType = Named ''A'', req_args = []\<rparr>"]
    by (simp add: ex_bed_parts)
qed


text \<open>Server 0 is crashed and started again: its first instance is object 0, its second is object 2.\<close>

definition ex_restarted :: "(nat, unit) config" where
  "ex_restarted = projr (start1 (\<lambda>_. None) [''ca'', ''cb''] 0 ex_bed)"

lemma ex_restarted_parts:
  "rafts ex_restarted = [Some 2, Some 1]" "connected ex_restarted = [False, True]" "cfg_n ex_restarted = 2" "length (raft_objs ex_restarted) = 3"
  "map peers (raft_objs ex_restarted) = map (map (\<lambda>e. \<lparr>ce_endname = Some (StrName e)\<rparr>)) [[''aa'', ''ab''], [''ba'', ''bb''], [''ca'', ''cb'']]"
  by code_simp+

lemma ex_restarted_reach: "reach bed_start (bed_step (\<lambda>_. None)) ex_restarted"
proof -
  have "case start1 (\<lambda>_. None) [''ca'', ''cb''] 0 ex_bed of Inl _ \<Rightarrow> False | Inr _ \<Rightarrow> True" by code_simp
  then have "start1 (\<lambda>_. None) [''ca'', ''cb''] 0 ex_bed = Inr ex_restarted"
    by (auto simp: ex_restarted_def split: sum.splits)
  then show ?thesis by (intro reach_step [OF ex_bed_reach(2) step_start]) (simp_all add: ex_bed_parts)
qed

theorem crashed_instance_silent_witness:
  "processReq_begin (net ex_restarted) \<lparr>req_endname = Some (StrName ''ab''), req_svcMeth = ''Raft.RequestVote'', req_argsType = Named ''A'', req_args = []\<rparr> = FailTimer"
proof -
  have p: "peers (raft_objs ex_restarted ! 0) = map (\<lambda>e. \<lparr>ce_endname = Some (StrName e)\<rparr>) [''aa'', ''ab'']"
    using nth_map [of 0 "raft_objs ex_restarted" peers] ex_restarted_parts(4,5) by simp
  show ?thesis
    by (rule crashed_instance_silent [OF ex_restarted_reach, of 0 "\<lparr>ce_endname = Some (StrName ''ab'')\<rparr>"])
      (auto simp: ex_restarted_parts p less_2_cases_iff)
qed


end
