(* ===== verification/Raft_Checks.thy ===== *)
theory Raft_Checks
  imports Raft_Bed
begin

text \<open>
  The checks of the test bed (\<^verbatim>\<open>config.go\<close>): the readers of the apply channels, which compare
  what the servers commit, and the functions that tests call to find leaders, terms and committed
  entries. What a Raft instance answers at some time (its term, whether it leads, the index of
  a command) is an argument; loops that wait take the answers of every round. The theorems: as long as
  no reader ends the process all logs agree and have no gaps, so that the count of commits cannot find
  a disagreement; a leader that is found is the one with the highest term; an agreement that is
  reported is one; and with the empty Raft of \<^verbatim>\<open>raft.go\<close> every such test fails.
\<close>

section \<open>Committed entries\<close>

definition checkLogs :: "nat \<Rightarrow> 'c ApplyMsg \<Rightarrow> ('c, 'v, 'z) config_scheme \<Rightarrow> (string \<times> bool) \<times> ('c, 'v, 'z) config_scheme" where
  "checkLogs i m cfg =
     (let v = Command m;
          err_msg = foldl (\<lambda>err j. case (logs cfg ! j) (CommandIndex m) of
                                     None \<Rightarrow> err
                                   | Some old \<Rightarrow> if old \<noteq> v then ''commit index: values differ'' else err) '''' [0..<length (logs cfg)];
          prevok = (logs cfg ! i) (CommandIndex m - 1) \<noteq> None in
      ((err_msg, prevok),
       cfg\<lparr>logs := (logs cfg)[i := (logs cfg ! i)(CommandIndex m \<mapsto> v)],
           maxIndex := (if CommandIndex m > maxIndex cfg then CommandIndex m else maxIndex cfg)\<rparr>))"

text \<open>One message of the channel of server \<open>i\<close>; \<open>log.Fatalf\<close> ends the process.\<close>

definition applier :: "nat \<Rightarrow> 'c ApplyMsg \<Rightarrow> ('c, 'v, 'z) config_scheme \<Rightarrow> string + ('c, 'v, 'z) config_scheme" where
  "applier i m cfg =
     (if \<not> CommandValid m then Inr cfg
      else
        (case checkLogs i m cfg of
           ((err_msg, prevok), cfg) \<Rightarrow>
             let err_msg = (if CommandIndex m > 1 \<and> \<not> prevok then ''apply out of order'' else err_msg) in
             if err_msg \<noteq> '''' then Inl err_msg else Inr cfg))"

definition SnapShotInterval :: int where
  "SnapShotInterval = 10"

text \<open>
  The reader that makes snapshots; \<open>rf\<close> is the instance for which it was started and \<open>enc\<close> the encoding
  of a snapshot. The result has the snapshot that is passed to Raft, if any.
\<close>

definition applierSnap ::
  "(bytes \<Rightarrow> (int \<times> 'c iface list) option) \<Rightarrow> (int \<times> 'c iface list \<Rightarrow> bytes) \<Rightarrow> nat \<Rightarrow> nat \<Rightarrow> 'c ApplyMsg \<Rightarrow>
     ('c, 'v, 'z) config_scheme \<Rightarrow> string + bytes option \<times> ('c, 'v, 'z) config_scheme" where
  "applierSnap dec enc rf i m cfg =
     (if SnapshotValid m then
        (if CondInstallSnapshot (SnapshotTerm m) (SnapshotIndex m) (Snapshot m) (raft_objs cfg ! rf) then
           (case ingestSnap dec i (Snapshot m) (SnapshotIndex m) cfg of
              Inl e \<Rightarrow> Inl e
            | Inr (err_msg, cfg) \<Rightarrow> if err_msg \<noteq> '''' then Inl err_msg else Inr (None, cfg))
         else Inr (None, cfg))
      else if CommandValid m then
        (let err_msg = (if CommandIndex m \<noteq> lastApplied cfg ! i + 1 then ''apply out of order, expected index'' else '''');
             (err_msg, cfg) =
               (if err_msg = '''' then
                  (case checkLogs i m cfg of
                     ((err_msg, prevok), cfg) \<Rightarrow>
                       (if CommandIndex m > 1 \<and> \<not> prevok then ''apply out of order'' else err_msg, cfg))
                else (err_msg, cfg));
             cfg = cfg\<lparr>lastApplied := (lastApplied cfg)[i := CommandIndex m]\<rparr>;
             snap = (if (CommandIndex m + 1) mod SnapShotInterval = 0
                     then Some (enc (CommandIndex m, map (\<lambda>j. case (logs cfg ! i) (int j) of None \<Rightarrow> None | Some v \<Rightarrow> v) [0..<nat (CommandIndex m + 1)]))
                     else None);
             cfg = (case snap of None \<Rightarrow> cfg
                    | Some b \<Rightarrow> cfg\<lparr>raft_objs := (raft_objs cfg)[rf := Raft_Snapshot (CommandIndex m) b (raft_objs cfg ! rf)]\<rparr>) in
         if err_msg \<noteq> '''' then Inl err_msg else Inr (snap, cfg))
      else Inr (None, cfg))"

text \<open>How many servers committed an entry at an index, and which command.\<close>

fun count_commits :: "('c, 'v, 'z) config_scheme \<Rightarrow> int \<Rightarrow> nat list \<Rightarrow> nat \<times> 'c iface \<Rightarrow> string + nat \<times> 'c iface" where
  "count_commits cfg index [] acc = Inr acc"
| "count_commits cfg index (i # is) (cnt, cmd) =
     (if applyErr cfg ! i \<noteq> '''' then Inl (applyErr cfg ! i)
      else
        (case (logs cfg ! i) index of
           None \<Rightarrow> count_commits cfg index is (cnt, cmd)
         | Some cmd1 \<Rightarrow>
             if cnt > 0 \<and> cmd \<noteq> cmd1 then Inl ''committed values do not match''
             else count_commits cfg index is (cnt + 1, cmd1)))"

definition nCommitted :: "int \<Rightarrow> ('c, 'v, 'z) config_scheme \<Rightarrow> string + nat \<times> 'c iface" where
  "nCommitted index cfg = count_commits cfg index [0..<length (rafts cfg)] (0, None)"

definition LogSize :: "('c, 'v, 'z) config_scheme \<Rightarrow> string + nat" where
  "LogSize cfg =
     foldl (\<lambda>r i. case r of
                    Inl e \<Rightarrow> Inl e
                  | Inr logsize \<Rightarrow>
                      (case saved cfg ! i of
                         None \<Rightarrow> Inl ''nil pointer dereference''
                       | Some p \<Rightarrow> let n = RaftStateSize (persister_objs cfg ! p) (mem cfg) in Inr (if n > logsize then n else logsize)))
       (Inr 0) [0..<cfg_n cfg]"

definition rpcCount :: "nat \<Rightarrow> ('c, 'v, 'z) config_scheme \<Rightarrow> string + int" where
  "rpcCount server cfg = GetCount (Some (IntName server)) (net cfg) (server_objs cfg)"

definition rpcTotal :: "('c, 'v, 'z) config_scheme \<Rightarrow> int" where
  "rpcTotal cfg = GetTotalCount (net cfg)"

definition bytesTotal :: "('c, 'v, 'z) config_scheme \<Rightarrow> int" where
  "bytesTotal cfg = GetTotalBytes (net cfg)"

definition checkFinished :: "('c, 'v, 'z) config_scheme \<Rightarrow> bool" where
  "checkFinished cfg \<longleftrightarrow> finished cfg \<noteq> 0"

text \<open>What \<open>begin\<close> stores and \<open>end\<close> prints, without the time.\<close>

record stats =
  rpcs0 :: int
  bytes0 :: int
  cmds0 :: int
  maxIndex0 :: int

definition cfg_begin :: "('c, 'v, 'z) config_scheme \<Rightarrow> stats" where
  "cfg_begin cfg = \<lparr>rpcs0 = rpcTotal cfg, bytes0 = bytesTotal cfg, cmds0 = 0, maxIndex0 = maxIndex cfg\<rparr>"

definition cfg_end :: "stats \<Rightarrow> ('c, 'v, 'z) config_scheme \<Rightarrow> nat \<times> int \<times> int \<times> int" where
  "cfg_end st cfg = (cfg_n cfg, rpcTotal cfg - rpcs0 st, bytesTotal cfg - bytes0 st, maxIndex cfg - maxIndex0 st)"

section \<open>Leaders and terms\<close>

text \<open>\<open>st i\<close> is the answer of \<open>GetState\<close> of server \<open>i\<close>: its term and whether it leads.\<close>

definition leaders_at :: "nat \<Rightarrow> bool list \<Rightarrow> (nat \<Rightarrow> int \<times> bool) \<Rightarrow> (int \<times> nat list) list" where
  "leaders_at n con st =
     foldl (\<lambda>ls i.
       if con ! i then
         (case st i of (term_i, leader) \<Rightarrow>
            if leader then AList.update term_i ((case map_of ls term_i of None \<Rightarrow> [] | Some xs \<Rightarrow> xs) @ [i]) ls else ls)
       else ls) [] [0..<n]"

definition pick_leader :: "(int \<times> nat list) list \<Rightarrow> string + nat option" where
  "pick_leader leaders =
     (if list_ex (\<lambda>(t, xs). length xs > 1) leaders then Inl ''term has more than one leader''
      else if leaders = [] then Inr None
      else
        let lastTermWithLeader = foldl (\<lambda>l (t, xs). if t > l then t else l) (-1) leaders in
        (case map_of leaders lastTermWithLeader of
           Some (i # _) \<Rightarrow> Inr (Some i)
         | _ \<Rightarrow> Inl ''index out of range''))"

fun leader_rounds :: "nat \<Rightarrow> bool list \<Rightarrow> (nat \<Rightarrow> nat \<Rightarrow> int \<times> bool) \<Rightarrow> nat list \<Rightarrow> string + nat" where
  "leader_rounds n con obs [] = Inl ''expected one leader, got none''"
| "leader_rounds n con obs (k # ks) =
     (case pick_leader (leaders_at n con (obs k)) of
        Inl e \<Rightarrow> Inl e
      | Inr (Some i) \<Rightarrow> Inr i
      | Inr None \<Rightarrow> leader_rounds n con obs ks)"

definition checkOneLeader :: "('c, 'v, 'z) config_scheme \<Rightarrow> (nat \<Rightarrow> nat \<Rightarrow> int \<times> bool) \<Rightarrow> string + nat" where
  "checkOneLeader cfg obs = leader_rounds (cfg_n cfg) (connected cfg) obs [0..<10]"

definition checkTerms :: "('c, 'v, 'z) config_scheme \<Rightarrow> (nat \<Rightarrow> int \<times> bool) \<Rightarrow> string + int" where
  "checkTerms cfg st =
     foldl (\<lambda>r i. case r of
                    Inl e \<Rightarrow> Inl e
                  | Inr t \<Rightarrow>
                      if connected cfg ! i then
                        (let xterm = fst (st i) in
                         if t = -1 then Inr xterm else if t \<noteq> xterm then Inl ''servers disagree on term'' else Inr t)
                      else Inr t) (Inr (-1)) [0..<cfg_n cfg]"

definition checkNoLeader :: "('c, 'v, 'z) config_scheme \<Rightarrow> (nat \<Rightarrow> int \<times> bool) \<Rightarrow> string + unit" where
  "checkNoLeader cfg st =
     (if list_ex (\<lambda>i. connected cfg ! i \<and> snd (st i)) [0..<cfg_n cfg] then Inl ''expected no leader'' else Inr ())"

section \<open>Agreements\<close>

text \<open>
  \<open>rounds\<close> has, for every round, the state when it counts the commits and the answers of the servers after
  its sleep. The result \<open>None\<close> is the value \<open>-1\<close>: a server has a higher term.
\<close>

fun wait_rounds ::
  "int \<Rightarrow> nat \<Rightarrow> int \<Rightarrow> (('c, 'v) config \<times> (nat \<Rightarrow> int \<times> bool)) list \<Rightarrow> string + bool" where
  "wait_rounds index n startTerm [] = Inr False"
| "wait_rounds index n startTerm ((cfg, st) # rounds) =
     (case nCommitted index cfg of
        Inl e \<Rightarrow> Inl e
      | Inr (nd, _) \<Rightarrow>
          if nd \<ge> n then Inr False
          else if startTerm > -1 \<and> list_ex (\<lambda>i. fst (st i) > startTerm) [0..<length (rafts cfg)] then Inr True
          else wait_rounds index n startTerm rounds)"

definition cfg_wait ::
  "int \<Rightarrow> nat \<Rightarrow> int \<Rightarrow> (('c, 'v) config \<times> (nat \<Rightarrow> int \<times> bool)) list \<Rightarrow> ('c, 'v) config \<Rightarrow> string + 'c iface option" where
  "cfg_wait index n startTerm rounds last_cfg =
     (case wait_rounds index n startTerm (take 30 rounds) of
        Inl e \<Rightarrow> Inl e
      | Inr True \<Rightarrow> Inr None
      | Inr False \<Rightarrow>
          (case nCommitted index last_cfg of
             Inl e \<Rightarrow> Inl e
           | Inr (nd, cmd) \<Rightarrow> if nd < n then Inl ''too few servers decided'' else Inr (Some cmd)))"

text \<open>\<open>st i\<close> is what \<open>Start\<close> of server \<open>i\<close> returns; the servers are tried in turn.\<close>

fun try_start :: "('c, 'v) config \<Rightarrow> (nat \<Rightarrow> int \<times> int \<times> bool) \<Rightarrow> nat \<Rightarrow> nat \<Rightarrow> int \<times> nat" where
  "try_start cfg st 0 starts = (-1, starts)"
| "try_start cfg st (Suc k) starts =
     (let starts = (starts + 1) mod cfg_n cfg in
      if connected cfg ! starts \<and> rafts cfg ! starts \<noteq> None then
        (case st starts of (index1, _, ok) \<Rightarrow> if ok then (index1, starts) else try_start cfg st k starts)
      else try_start cfg st k starts)"

fun poll_commits :: "int \<Rightarrow> nat \<Rightarrow> 'c iface \<Rightarrow> ('c, 'v) config list \<Rightarrow> string + bool" where
  "poll_commits index expectedServers cmd [] = Inr False"
| "poll_commits index expectedServers cmd (cfg # polls) =
     (case nCommitted index cfg of
        Inl e \<Rightarrow> Inl e
      | Inr (nd, cmd1) \<Rightarrow>
          if nd > 0 \<and> nd \<ge> expectedServers \<and> cmd1 = cmd then Inr True else poll_commits index expectedServers cmd polls)"

text \<open>
  An attempt: the state and the answers when the servers are tried, and the states that are polled in the two
  seconds after that. \<open>late\<close> is whether the test is finished when the ten seconds are over.
\<close>

record ('c, 'v) attempt =
  at_cfg :: "('c, 'v) config"
  at_start :: "nat \<Rightarrow> int \<times> int \<times> bool"
  at_polls :: "('c, 'v) config list"

fun one_rounds :: "'c iface \<Rightarrow> nat \<Rightarrow> bool \<Rightarrow> bool \<Rightarrow> nat \<Rightarrow> ('c, 'v) attempt list \<Rightarrow> string + int" where
  "one_rounds cmd expectedServers retry late starts [] = (if late then Inr (-1) else Inl ''failed to reach agreement'')"
| "one_rounds cmd expectedServers retry late starts (a # as) =
     (if checkFinished (at_cfg a) then Inr (-1)
      else
        (case try_start (at_cfg a) (at_start a) (cfg_n (at_cfg a)) starts of
           (index, starts) \<Rightarrow>
             if index \<noteq> -1 then
               (case poll_commits index expectedServers cmd (at_polls a) of
                  Inl e \<Rightarrow> Inl e
                | Inr True \<Rightarrow> Inr index
                | Inr False \<Rightarrow> if \<not> retry then Inl ''failed to reach agreement'' else one_rounds cmd expectedServers retry late starts as)
             else one_rounds cmd expectedServers retry late starts as))"

definition cfg_one :: "'c iface \<Rightarrow> nat \<Rightarrow> bool \<Rightarrow> bool \<Rightarrow> ('c, 'v) attempt list \<Rightarrow> string + int" where
  "cfg_one cmd expectedServers retry late attempts = one_rounds cmd expectedServers retry late 0 attempts"

section \<open>Logs agree\<close>

text \<open>
  What the readers maintain as long as they do not end the process: the logs agree where they
  have an entry, have no gap above index 1, and \<open>maxIndex\<close> is the highest index of all.
\<close>

definition logs_ok :: "('c, 'v) config \<Rightarrow> bool" where
  "logs_ok cfg \<longleftrightarrow>
     (\<forall>f \<in> set (logs cfg). \<forall>g \<in> set (logs cfg). \<forall>x a b. f x = Some a \<and> g x = Some b \<longrightarrow> a = b) \<and>
     (\<forall>f \<in> set (logs cfg). \<forall>x. f x \<noteq> None \<longrightarrow> (1 < x \<longrightarrow> f (x - 1) \<noteq> None) \<and> x \<le> maxIndex cfg)"

inductive apply_step :: "('c, 'v) config \<Rightarrow> ('c, 'v) config \<Rightarrow> bool" where
  "i < length (logs cfg) \<Longrightarrow> applier i m cfg = Inr cfg' \<Longrightarrow> apply_step cfg cfg'"

definition apply_start :: "('c, 'v) config \<Rightarrow> bool" where
  "apply_start cfg \<longleftrightarrow> (\<forall>f \<in> set (logs cfg). f = (\<lambda>_. None))"

lemma compare_logs:
  "foldl (\<lambda>err j. case (L ! j) x of None \<Rightarrow> err | Some old \<Rightarrow> if old \<noteq> v then ''commit index: values differ'' else err) e js = '''' \<longleftrightarrow>
     e = '''' \<and> (\<forall>j \<in> set js. \<forall>old. (L ! j) x = Some old \<longrightarrow> old = v)"
  by (induction js arbitrary: e) (auto split: option.splits)

text \<open>When a command is accepted, and what it does then.\<close>

lemma applier_accepts:
  assumes "i < length (logs cfg)" "CommandValid m"
  shows "applier i m cfg = Inr cfg' \<longleftrightarrow>
    (\<forall>f \<in> set (logs cfg). \<forall>old. f (CommandIndex m) = Some old \<longrightarrow> old = Command m) \<and>
    (1 < CommandIndex m \<longrightarrow> (logs cfg ! i) (CommandIndex m - 1) \<noteq> None) \<and>
    cfg' = cfg\<lparr>logs := (logs cfg)[i := (logs cfg ! i)(CommandIndex m \<mapsto> Command m)], maxIndex := max (maxIndex cfg) (CommandIndex m)\<rparr>"
proof -
  have "(\<forall>j \<in> set [0..<length (logs cfg)]. \<forall>old. (logs cfg ! j) (CommandIndex m) = Some old \<longrightarrow> old = Command m) \<longleftrightarrow>
      (\<forall>f \<in> set (logs cfg). \<forall>old. f (CommandIndex m) = Some old \<longrightarrow> old = Command m)"
    by (auto simp: all_set_conv_all_nth)
  then show ?thesis
    using assms(2) compare_logs [where L = "logs cfg" and x = "CommandIndex m" and v = "Command m" and e = "''''" and js = "[0..<length (logs cfg)]"]
    by (auto simp: applier_def checkLogs_def Let_def max_def)
qed

lemma logs_ok_step:
  assumes ok: "logs_ok cfg" and s: "apply_step cfg cfg'"
  shows "logs_ok cfg'"
  using s
proof cases
  case (1 i m)
  show ?thesis
  proof (cases "CommandValid m")
    case False
    with 1 ok show ?thesis by (simp add: applier_def)
  next
    case True
    let ?x = "CommandIndex m" and ?v = "Command m" and ?f = "logs cfg ! i"
    have agree: "\<And>f old. f \<in> set (logs cfg) \<Longrightarrow> f ?x = Some old \<Longrightarrow> old = ?v" and prev: "1 < ?x \<Longrightarrow> ?f (?x - 1) \<noteq> None"
      and cfg': "cfg' = cfg\<lparr>logs := (logs cfg)[i := ?f(?x \<mapsto> ?v)], maxIndex := max (maxIndex cfg) ?x\<rparr>"
      using applier_accepts [OF 1(1) True] 1(2) by blast+
    have f: "?f \<in> set (logs cfg)" using 1(1) by simp
    have old: "g \<in> insert (?f(?x \<mapsto> ?v)) (set (logs cfg))" if "g \<in> set (logs cfg')" for g
      using that set_update_subset_insert [of "logs cfg" i] by (auto simp: cfg')
    have ag: "a = b" if "g \<in> set (logs cfg)" "h \<in> set (logs cfg)" "g x = Some a" "h x = Some b" for g h x a b
      using ok that unfolding logs_ok_def by blast
    have gap: "(1 < x \<longrightarrow> g (x - 1) \<noteq> None) \<and> x \<le> maxIndex cfg" if "g \<in> set (logs cfg)" "g x \<noteq> None" for g x
      using ok that unfolding logs_ok_def by blast
    have "a = b" if "g \<in> set (logs cfg')" "h \<in> set (logs cfg')" "g x = Some a" "h x = Some b" for g h x a b
    proof (cases "x = ?x")
      case True
      have "c = ?v" if "k \<in> set (logs cfg')" "k x = Some c" for k c
        using old [OF that(1)] that(2) agree True by (cases "k \<in> set (logs cfg)") auto
      with that show ?thesis by metis
    next
      case False
      have "\<exists>k' \<in> set (logs cfg). k' x = k x" if "k \<in> set (logs cfg')" for k
        using old [OF that] f False by (cases "k \<in> set (logs cfg)") auto
      with that ag show ?thesis by metis
    qed
    moreover have "(1 < x \<longrightarrow> g (x - 1) \<noteq> None) \<and> x \<le> max (maxIndex cfg) ?x" if "g \<in> set (logs cfg')" "g x \<noteq> None" for g x
    proof (cases "g \<in> set (logs cfg)")
      case True
      with gap that show ?thesis by (meson max.coboundedI1)
    next
      case False
      with old [OF that(1)] have g: "g = ?f(?x \<mapsto> ?v)" by blast
      show ?thesis using gap [OF f, of x] prev that(2) unfolding g by (cases "x = ?x") (auto simp: max.coboundedI1)
    qed
    ultimately show ?thesis unfolding logs_ok_def by (auto simp: cfg')
  qed
qed

interpretation apply_logs: invariant_system apply_start apply_step logs_ok
proof
  show "apply_start s \<Longrightarrow> logs_ok s" for s :: "('a, 'b) config" by (auto simp: apply_start_def logs_ok_def)
qed (rule logs_ok_step)

lemma no_gap:
  assumes "logs_ok cfg" "f \<in> set (logs cfg)" "f x \<noteq> None" "1 \<le> y" "y \<le> x"
  shows "f y \<noteq> None"
  using assms(5,3)
proof (induction x rule: int_ge_induct)
  case (step x)
  have "1 < x + 1" using step assms(4) by simp
  then have "f (x + 1 - 1) \<noteq> None" using assms(1,2) step.prems unfolding logs_ok_def by blast
  with step show ?case by simp
qed simp


section \<open>Counting commits\<close>

lemma count_commits_result:
  "count_commits cfg index is (cnt, cmd) = Inr (n, c) \<Longrightarrow>
     n = cnt + length (filter (\<lambda>i. (logs cfg ! i) index \<noteq> None) is) \<and>
     (\<forall>i \<in> set is. \<forall>x. (logs cfg ! i) index = Some x \<longrightarrow> x = c) \<and> (cnt > 0 \<longrightarrow> c = cmd)"
proof (induction "is" arbitrary: cnt cmd)
  case (Cons i js)
  show ?case
  proof (cases "(logs cfg ! i) index")
    case None
    with Cons show ?thesis by (simp split: if_splits)
  next
    case (Some cmd1)
    with Cons.prems have "count_commits cfg index js (cnt + 1, cmd1) = Inr (n, c)" and ok: "cnt > 0 \<longrightarrow> cmd = cmd1"
      by (auto split: if_splits)
    from Cons.IH [OF this(1)] ok Some show ?thesis by auto
  qed
qed simp

lemma count_commits_succeeds:
  assumes "\<And>i x y j. i \<in> set is \<Longrightarrow> j \<in> set is \<Longrightarrow> (logs cfg ! i) index = Some x \<Longrightarrow> (logs cfg ! j) index = Some y \<Longrightarrow> x = y"
    and "\<And>i. i \<in> set is \<Longrightarrow> applyErr cfg ! i = ''''"
    and "\<And>i x. cnt > 0 \<Longrightarrow> i \<in> set is \<Longrightarrow> (logs cfg ! i) index = Some x \<Longrightarrow> x = cmd"
  shows "\<exists>r. count_commits cfg index is (cnt, cmd) = Inr r"
  using assms
proof (induction "is" arbitrary: cnt cmd)
  case (Cons i js)
  show ?case
  proof (cases "(logs cfg ! i) index")
    case None
    have "\<exists>r. count_commits cfg index js (cnt, cmd) = Inr r"
    proof (rule Cons.IH)
      show "x = y" if "k \<in> set js" "l \<in> set js" "(logs cfg ! k) index = Some x" "(logs cfg ! l) index = Some y" for k x y l
        using Cons.prems(1) [of k l x y] that by simp
      show "x = cmd" if "cnt > 0" "k \<in> set js" "(logs cfg ! k) index = Some x" for k x using Cons.prems(3) [of k x] that by simp
    qed (use Cons.prems(2) in simp)
    with None Cons.prems(2) show ?thesis by simp
  next
    case (Some cmd1)
    have "\<exists>r. count_commits cfg index js (cnt + 1, cmd1) = Inr r"
    proof (rule Cons.IH)
      show "x = y" if "k \<in> set js" "l \<in> set js" "(logs cfg ! k) index = Some x" "(logs cfg ! l) index = Some y" for k x y l
        using Cons.prems(1) [of k l x y] that by simp
      show "x = cmd1" if "k \<in> set js" "(logs cfg ! k) index = Some x" for k x using Cons.prems(1) [of k i x cmd1] that Some by simp
    qed (use Cons.prems(2) in simp)
    with Some Cons.prems(2,3) show ?thesis by auto
  qed
qed simp

lemma length_filter_upt: "length (filter P [0..<n]) = card {i. i < n \<and> P i}"
proof -
  have "card (set (filter P [0..<n])) = length (filter P [0..<n])" by (rule distinct_card) simp
  moreover have "set (filter P [0..<n]) = {i. i < n \<and> P i}" by auto
  ultimately show ?thesis by simp
qed

lemma nCommitted_result:
  assumes "nCommitted index cfg = Inr (n, c)"
  shows "n = card {i. i < length (rafts cfg) \<and> (logs cfg ! i) index \<noteq> None}"
    and "i < length (rafts cfg) \<Longrightarrow> (logs cfg ! i) index = Some x \<Longrightarrow> x = c"
  using count_commits_result [OF assms [unfolded nCommitted_def]] length_filter_upt [of "\<lambda>i. (logs cfg ! i) index \<noteq> None"] by auto

text \<open>
  Counting commits cannot fail, since the readers have compared them before: it returns the number of servers with an
  entry at the index, and the one command that they all have there.
\<close>

theorem nCommitted_never_disagrees:
  assumes "reach apply_start apply_step cfg" and "length (logs cfg) = length (rafts cfg)"
    and "\<forall>i < length (rafts cfg). applyErr cfg ! i = ''''"
  shows "\<exists>c. nCommitted index cfg = Inr (card {i. i < length (rafts cfg) \<and> (logs cfg ! i) index \<noteq> None}, c) \<and>
    (\<forall>i < length (rafts cfg). (logs cfg ! i) index = None \<or> (logs cfg ! i) index = Some c)"
proof -
  have ok: "logs_ok cfg" by (rule apply_logs.reach_inv [OF assms(1)])
  have "\<exists>r. count_commits cfg index [0..<length (rafts cfg)] (0, None) = Inr r"
  proof (rule count_commits_succeeds)
    fix i x y j assume "i \<in> set [0..<length (rafts cfg)]" "j \<in> set [0..<length (rafts cfg)]"
      and xy: "(logs cfg ! i) index = Some x" "(logs cfg ! j) index = Some y"
    then have "logs cfg ! i \<in> set (logs cfg)" "logs cfg ! j \<in> set (logs cfg)" using assms(2) by simp_all
    with ok xy show "x = y" unfolding logs_ok_def by blast
  qed (use assms(3) in auto)
  then obtain n c where nc: "nCommitted index cfg = Inr (n, c)" by (auto simp: nCommitted_def)
  have "(logs cfg ! i) index = None \<or> (logs cfg ! i) index = Some c" if "i < length (rafts cfg)" for i
    using nCommitted_result(2) [OF nc that] by (cases "(logs cfg ! i) index") auto
  with nc nCommitted_result(1) [OF nc] show ?thesis by blast
qed

section \<open>Reported agreements\<close>

lemma poll_commits_result:
  "poll_commits index k cmd polls = Inr True \<Longrightarrow> \<exists>cfg \<in> set polls. \<exists>n. nCommitted index cfg = Inr (n, cmd) \<and> 0 < n \<and> k \<le> n"
  by (induction polls) (fastforce split: sum.splits if_splits)+

lemma one_rounds_result:
  "one_rounds cmd k retry late starts as = Inr index \<Longrightarrow> index \<noteq> -1 \<Longrightarrow>
     \<exists>a \<in> set as. \<exists>cfg \<in> set (at_polls a). \<exists>n. nCommitted index cfg = Inr (n, cmd) \<and> 0 < n \<and> k \<le> n"
proof (induction as arbitrary: starts)
  case (Cons a as)
  obtain ix st where ts: "try_start (at_cfg a) (at_start a) (cfg_n (at_cfg a)) starts = (ix, st)" by fastforce
  show ?case
  proof (cases "ix \<noteq> -1 \<and> poll_commits ix k cmd (at_polls a) = Inr True")
    case True
    with Cons.prems ts have "ix = index" by (auto split: if_splits)
    with True poll_commits_result show ?thesis by fastforce
  next
    case False
    with Cons.prems ts have "one_rounds cmd k retry late st as = Inr index"
      by (auto split: if_splits sum.splits bool.splits)
    from Cons.IH [OF this Cons.prems(2)] show ?thesis by auto
  qed
qed (simp split: if_splits)

text \<open>
  An agreement that \<open>one\<close> reports is one: at some time at least the expected number of servers, and one at least, had
  the command committed at the index that it returns, and no server had another command there.
\<close>

theorem one_reports_agreement:
  assumes "cfg_one cmd expectedServers retry late attempts = Inr index" and "index \<noteq> -1"
  shows "\<exists>a \<in> set attempts. \<exists>cfg \<in> set (at_polls a).
    max 1 expectedServers \<le> card {i. i < length (rafts cfg) \<and> (logs cfg ! i) index = Some cmd} \<and>
    (\<forall>i < length (rafts cfg). (logs cfg ! i) index = None \<or> (logs cfg ! i) index = Some cmd)"
proof -
  from one_rounds_result [OF assms(1) [unfolded cfg_one_def] assms(2)] obtain a cfg n
    where a: "a \<in> set attempts" "cfg \<in> set (at_polls a)" and nc: "nCommitted index cfg = Inr (n, cmd)" "0 < n" "expectedServers \<le> n"
    by blast
  have all: "(logs cfg ! i) index = None \<or> (logs cfg ! i) index = Some cmd" if "i < length (rafts cfg)" for i
    using nCommitted_result(2) [OF nc(1) that] by (cases "(logs cfg ! i) index") auto
  then have "{i. i < length (rafts cfg) \<and> (logs cfg ! i) index \<noteq> None} = {i. i < length (rafts cfg) \<and> (logs cfg ! i) index = Some cmd}" by fastforce
  then have "n = card {i. i < length (rafts cfg) \<and> (logs cfg ! i) index = Some cmd}" using nCommitted_result(1) [OF nc(1)] by simp
  with a nc all show ?thesis by (intro bexI [of _ a] bexI [of _ cfg]) auto
qed

section \<open>Leaders\<close>

text \<open>The attached servers that lead in a term.\<close>

definition leaders_in :: "nat \<Rightarrow> bool list \<Rightarrow> (nat \<Rightarrow> int \<times> bool) \<Rightarrow> int \<Rightarrow> nat list" where
  "leaders_in n con st t = filter (\<lambda>i. con ! i \<and> st i = (t, True)) [0..<n]"

lemma map_of_leaders:
  "map_of (leaders_at n con st) t = (if leaders_in n con st t = [] then None else Some (leaders_in n con st t))"
proof -
  have "map_of (foldl (\<lambda>ls i. if con ! i then (case st i of (term_i, leader) \<Rightarrow>
            if leader then AList.update term_i ((case map_of ls term_i of None \<Rightarrow> [] | Some xs \<Rightarrow> xs) @ [i]) ls else ls) else ls) ls js) t =
      (let old = (case map_of ls t of None \<Rightarrow> [] | Some xs \<Rightarrow> xs); new = filter (\<lambda>i. con ! i \<and> st i = (t, True)) js in
       if new = [] then map_of ls t else Some (old @ new))" for ls js
  proof (induction js arbitrary: ls)
    case (Cons i js)
    obtain ti l where "st i = (ti, l)" by fastforce
    with Cons show ?case by (cases "con ! i"; cases l; cases "ti = t") (auto simp: update_conv' Let_def split: option.split)
  qed simp
  from this [of "[]" "[0..<n]"] show ?thesis by (simp add: leaders_at_def leaders_in_def)
qed

lemma distinct_leaders: "distinct (map fst (leaders_at n con st))"
proof -
  have "distinct (map fst (foldl (\<lambda>ls i. if con ! i then (case st i of (term_i, leader) \<Rightarrow>
            if leader then AList.update term_i ((case map_of ls term_i of None \<Rightarrow> [] | Some xs \<Rightarrow> xs) @ [i]) ls else ls) else ls) ls js))"
    if "distinct (map fst ls)" for ls js
    using that by (induction js arbitrary: ls) (auto simp: distinct_update split: prod.split)
  then show ?thesis by (simp add: leaders_at_def)
qed

lemma fold_max: "foldl (\<lambda>l (t, xs). if t > l then t else l) a ls = Max (insert a (fst ` set ls))" for a :: int
proof (induction ls arbitrary: a)
  case (Cons x ls)
  have "foldl (\<lambda>l (t, xs). if t > l then t else l) a (x # ls) = Max (insert (max a (fst x)) (fst ` set ls))"
    using Cons [of "max a (fst x)"] by (auto simp: max_def split: prod.split)
  also have "\<dots> = Max (insert a (fst ` set (x # ls)))"
    by (cases "ls = []") (auto simp: max.assoc)
  finally show ?case .
qed simp

text \<open>
  No term has two leaders, and the result is the leader of the highest term, if there is a leader at
  all; terms are not negative.
\<close>

definition newest_leader :: "nat \<Rightarrow> bool list \<Rightarrow> (nat \<Rightarrow> int \<times> bool) \<Rightarrow> nat \<Rightarrow> bool" where
  "newest_leader n con st i \<longleftrightarrow> i < n \<and> con ! i \<and> snd (st i) \<and>
     (\<forall>j < n. con ! j \<and> snd (st j) \<and> j \<noteq> i \<longrightarrow> fst (st j) < fst (st i))"

definition one_leader_per_term :: "nat \<Rightarrow> bool list \<Rightarrow> (nat \<Rightarrow> int \<times> bool) \<Rightarrow> bool" where
  "one_leader_per_term n con st \<longleftrightarrow>
     (\<forall>i < n. \<forall>j < n. con ! i \<and> con ! j \<and> snd (st i) \<and> snd (st j) \<and> fst (st i) = fst (st j) \<longrightarrow> i = j)"

lemma leaders_in_short: "(\<forall>t. length (leaders_in n con st t) \<le> 1) \<longleftrightarrow> one_leader_per_term n con st"
proof
  assume short: "\<forall>t. length (leaders_in n con st t) \<le> 1"
  have "i = j" if "i < n" "j < n" "con ! i" "con ! j" "snd (st i)" "snd (st j)" "fst (st i) = fst (st j)" for i j
  proof -
    have "i \<in> set (leaders_in n con st (fst (st i)))" "j \<in> set (leaders_in n con st (fst (st i)))"
      using that by (auto simp: leaders_in_def prod_eq_iff)
    moreover have "length (leaders_in n con st (fst (st i))) \<le> 1" using short by blast
    ultimately show ?thesis by (cases "leaders_in n con st (fst (st i))") auto
  qed
  then show "one_leader_per_term n con st" unfolding one_leader_per_term_def by blast
next
  assume one: "one_leader_per_term n con st"
  show "\<forall>t. length (leaders_in n con st t) \<le> 1"
  proof
    fix t
    have eq: "x = y" if "x \<in> set (leaders_in n con st t)" "y \<in> set (leaders_in n con st t)" for x y
      using one that by (auto simp: leaders_in_def one_leader_per_term_def)
    have "card (set (leaders_in n con st t)) \<le> 1"
      using eq by (simp add: card_le_Suc0_iff_eq)
    moreover have "distinct (leaders_in n con st t)" by (simp add: leaders_in_def)
    ultimately show "length (leaders_in n con st t) \<le> 1" by (simp add: distinct_card)
  qed
qed

lemma pick_leader_result:
  fixes con :: "bool list"
  assumes nonneg: "\<And>i. i < n \<Longrightarrow> 0 \<le> fst (st i)"
  defines "ls \<equiv> leaders_at n con st"
  shows "\<not> one_leader_per_term n con st \<Longrightarrow> pick_leader ls = Inl ''term has more than one leader''"
    and "one_leader_per_term n con st \<Longrightarrow> \<forall>i < n. con ! i \<longrightarrow> \<not> snd (st i) \<Longrightarrow> pick_leader ls = Inr None"
    and "one_leader_per_term n con st \<Longrightarrow> \<exists>i < n. con ! i \<and> snd (st i) \<Longrightarrow> \<exists>i. pick_leader ls = Inr (Some i) \<and> newest_leader n con st i"
proof -
  have mem: "(t, xs) \<in> set ls \<longleftrightarrow> leaders_in n con st t = xs \<and> xs \<noteq> []" for t xs
    using map_of_leaders [of n con st t] map_of_eq_Some_iff [OF distinct_leaders, of n con st t xs] by (auto simp: ls_def split: if_splits)
  have terms: "t \<in> fst ` set ls \<longleftrightarrow> (\<exists>i < n. con ! i \<and> st i = (t, True))" for t
  proof -
    have "t \<in> fst ` set ls \<longleftrightarrow> leaders_in n con st t \<noteq> []" using mem by force
    then show ?thesis by (auto simp: leaders_in_def filter_empty_conv)
  qed
  have ex: "list_ex (\<lambda>(t, xs). length xs > 1) ls \<longleftrightarrow> \<not> one_leader_per_term n con st"
    unfolding leaders_in_short [symmetric] list_ex_iff using mem by (force simp: not_le)
  then show "\<not> one_leader_per_term n con st \<Longrightarrow> pick_leader ls = Inl ''term has more than one leader''" by (simp add: pick_leader_def)
  have empty: "ls = [] \<longleftrightarrow> (\<forall>i < n. con ! i \<longrightarrow> \<not> snd (st i))"
  proof -
    have "ls = [] \<longleftrightarrow> fst ` set ls = {}" by simp
    also have "\<dots> \<longleftrightarrow> (\<forall>i < n. con ! i \<longrightarrow> \<not> snd (st i))" using terms by (auto simp: prod_eq_iff set_eq_iff)
    finally show ?thesis .
  qed
  with ex show "one_leader_per_term n con st \<Longrightarrow> \<forall>i < n. con ! i \<longrightarrow> \<not> snd (st i) \<Longrightarrow> pick_leader ls = Inr None"
    by (simp add: pick_leader_def)
  assume one: "one_leader_per_term n con st" and some: "\<exists>i < n. con ! i \<and> snd (st i)"
  define T where "T = Max (insert (-1) (fst ` set ls))"
  have "T \<in> fst ` set ls"
  proof -
    obtain i where i: "i < n" "con ! i" "snd (st i)" using some by blast
    then have "fst (st i) \<in> fst ` set ls" unfolding terms by (metis prod.collapse)
    then have "fst (st i) \<le> T" unfolding T_def by (intro Max_ge) auto
    then have "T \<noteq> -1" using nonneg [OF i(1)] by linarith
    moreover have "T \<in> insert (-1) (fst ` set ls)" unfolding T_def by (intro Max_in) auto
    ultimately show ?thesis by blast
  qed
  then obtain i where i: "i < n" "con ! i" "st i = (T, True)" unfolding terms by blast
  have "set (leaders_in n con st T) = {i}"
    using one i by (auto simp: leaders_in_def one_leader_per_term_def)
  moreover have "length (leaders_in n con st T) \<le> 1" using one leaders_in_short by blast
  ultimately have "leaders_in n con st T = [i]" by (cases "leaders_in n con st T") auto
  then have "pick_leader ls = Inr (Some i)"
    using ex one empty some map_of_leaders [of n con st T] fold_max [of "-1" ls] by (auto simp: pick_leader_def ls_def T_def Let_def)
  moreover have "newest_leader n con st i" unfolding newest_leader_def
  proof (intro conjI allI impI)
    fix j assume j: "j < n" "con ! j \<and> snd (st j) \<and> j \<noteq> i"
    then have "fst (st j) \<in> fst ` set ls" unfolding terms by (metis prod.collapse)
    then have "fst (st j) \<le> T" unfolding T_def by (intro Max_ge) auto
    moreover have "fst (st j) \<noteq> T" using one i j unfolding one_leader_per_term_def by auto
    ultimately show "fst (st j) < fst (st i)" using i(3) by simp
  qed (use i in simp_all)
  ultimately show "\<exists>i. pick_leader ls = Inr (Some i) \<and> newest_leader n con st i" by blast
qed

lemma newest_unique: "newest_leader n con st i \<Longrightarrow> newest_leader n con st j \<Longrightarrow> i = j"
  unfolding newest_leader_def by (metis less_asym)

lemma leader_rounds_result:
  assumes nonneg: "\<And>k i. 0 \<le> fst (obs k i)"
  shows "leader_rounds n con obs ks = Inr i \<longleftrightarrow>
    (\<exists>pre k post. ks = pre @ k # post \<and> (\<forall>l \<in> set pre. \<forall>j < n. con ! j \<longrightarrow> \<not> snd (obs l j)) \<and>
       one_leader_per_term n con (obs k) \<and> newest_leader n con (obs k) i)"
proof (induction ks)
  case (Cons k ks)
  let ?none = "\<forall>j < n. con ! j \<longrightarrow> \<not> snd (obs k j)" and ?one = "one_leader_per_term n con (obs k)"
  note r = pick_leader_result [of n "obs k" con, OF nonneg]
  have split: "(\<exists>pre l post. k # ks = pre @ l # post \<and> (\<forall>x \<in> set pre. \<forall>j < n. con ! j \<longrightarrow> \<not> snd (obs x j)) \<and>
       one_leader_per_term n con (obs l) \<and> newest_leader n con (obs l) i) \<longleftrightarrow>
     ?one \<and> newest_leader n con (obs k) i \<or> ?none \<and> leader_rounds n con obs ks = Inr i"
    unfolding Cons.IH
  proof
    assume "\<exists>pre l post. k # ks = pre @ l # post \<and> (\<forall>x \<in> set pre. \<forall>j < n. con ! j \<longrightarrow> \<not> snd (obs x j)) \<and>
       one_leader_per_term n con (obs l) \<and> newest_leader n con (obs l) i"
    then obtain pre l post where e: "k # ks = pre @ l # post" "\<forall>x \<in> set pre. \<forall>j < n. con ! j \<longrightarrow> \<not> snd (obs x j)"
      "one_leader_per_term n con (obs l)" "newest_leader n con (obs l) i" by blast
    show "?one \<and> newest_leader n con (obs k) i \<or> ?none \<and> (\<exists>pre l post. ks = pre @ l # post \<and>
        (\<forall>x \<in> set pre. \<forall>j < n. con ! j \<longrightarrow> \<not> snd (obs x j)) \<and> one_leader_per_term n con (obs l) \<and> newest_leader n con (obs l) i)"
    proof (cases pre)
      case Nil
      with e show ?thesis by simp
    next
      case (Cons p ps)
      with e(1) have "p = k" "ks = ps @ l # post" by simp_all
      with Cons e show ?thesis by (intro disjI2 conjI exI [of _ ps] exI [of _ l] exI [of _ post]) simp_all
    qed
  next
    assume "?one \<and> newest_leader n con (obs k) i \<or> ?none \<and> (\<exists>pre l post. ks = pre @ l # post \<and>
        (\<forall>x \<in> set pre. \<forall>j < n. con ! j \<longrightarrow> \<not> snd (obs x j)) \<and> one_leader_per_term n con (obs l) \<and> newest_leader n con (obs l) i)"
    then show "\<exists>pre l post. k # ks = pre @ l # post \<and> (\<forall>x \<in> set pre. \<forall>j < n. con ! j \<longrightarrow> \<not> snd (obs x j)) \<and>
       one_leader_per_term n con (obs l) \<and> newest_leader n con (obs l) i"
    proof (elim disjE conjE exE)
      assume "?one" "newest_leader n con (obs k) i"
      then show ?thesis by (intro exI [of _ "[]"] exI [of _ k] exI [of _ ks]) simp
    next
      fix pre l post assume "?none" "ks = pre @ l # post" "\<forall>x \<in> set pre. \<forall>j < n. con ! j \<longrightarrow> \<not> snd (obs x j)"
        "one_leader_per_term n con (obs l)" "newest_leader n con (obs l) i"
      then show ?thesis by (intro exI [of _ "k # pre"] exI [of _ l] exI [of _ post]) simp
    qed
  qed
  have no: "?none \<Longrightarrow> \<not> newest_leader n con (obs k) i" by (auto simp: newest_leader_def)
  show ?case
  proof (cases ?one)
    case False
    then have "\<not> ?none" by (auto simp: one_leader_per_term_def)
    with False r(1) show ?thesis unfolding split by simp
  next
    case one: True
    show ?thesis
    proof (cases ?none)
      case True
      with r(2) [OF one True] no show ?thesis unfolding split by simp
    next
      case False
      with r(3) [OF one] obtain j where "pick_leader (leaders_at n con (obs k)) = Inr (Some j)" "newest_leader n con (obs k) j" by blast
      with False one newest_unique [of n con "obs k" i j] show ?thesis unfolding split by auto
    qed
  qed
qed simp

lemma upt_split_first: "(\<exists>pre k post. [0..<N] = pre @ k # post \<and> (\<forall>l \<in> set pre. P l) \<and> Q k) \<longleftrightarrow> (\<exists>k < N. (\<forall>l < k. P l) \<and> Q k)"
proof
  assume "\<exists>pre k post. [0..<N] = pre @ k # post \<and> (\<forall>l \<in> set pre. P l) \<and> Q k"
  then obtain pre k post where e: "[0..<N] = pre @ k # post" "\<forall>l \<in> set pre. P l" "Q k" by blast
  have len: "length pre < N" using arg_cong [OF e(1), of length] by simp
  have "k = [0..<N] ! length pre" by (simp add: e(1))
  with len have k: "k = length pre" by simp
  have "pre = take (length pre) [0..<N]" by (simp add: e(1))
  with len have "set pre = {..<length pre}" by (metis add_0 atLeast0LessThan less_imp_le set_upt take_upt)
  then have "\<forall>l < k. P l" using e(2) unfolding k by blast
  moreover have "k < N" using len k by simp
  ultimately show "\<exists>k < N. (\<forall>l < k. P l) \<and> Q k" using e(3) by blast
next
  assume "\<exists>k < N. (\<forall>l < k. P l) \<and> Q k"
  then obtain k where k: "k < N" "\<forall>l < k. P l" "Q k" by blast
  have "[0..<N] = [0..<k] @ k # [Suc k..<N]" using k(1) by (metis le_add_diff_inverse less_imp_le_nat upt_add_eq_append upt_conv_Cons zero_le)
  moreover have "\<forall>l \<in> set [0..<k]. P l" using k(2) by simp
  ultimately show "\<exists>pre k post. [0..<N] = pre @ k # post \<and> (\<forall>l \<in> set pre. P l) \<and> Q k" using k(3) by blast
qed


lemma checkTerms_exact:
  assumes "\<forall>i. 0 \<le> fst (st i)"
  shows "checkTerms cfg st = Inr t \<longleftrightarrow>
    (if \<exists>i < cfg_n cfg. connected cfg ! i then \<forall>i < cfg_n cfg. connected cfg ! i \<longrightarrow> fst (st i) = t else t = -1)"
proof -
  let ?f = "\<lambda>r i. case r of Inl e \<Rightarrow> Inl e | Inr t \<Rightarrow> if connected cfg ! i then (let xterm = fst (st i) in
      if t = -1 then Inr xterm else if t \<noteq> xterm then Inl ''servers disagree on term'' else Inr t) else Inr t"
  have err: "foldl ?f (Inl e) js = Inl e" for e js by (induction js) simp_all
  have fixed: "foldl ?f (Inr u) js = Inr t \<longleftrightarrow> t = u \<and> (\<forall>i \<in> set js. connected cfg ! i \<longrightarrow> fst (st i) = u)" if "0 \<le> u" for u js
    using that by (induction js) (auto simp: err Let_def)
  have "foldl ?f (Inr (-1)) js = Inr t \<longleftrightarrow>
      (if \<exists>i \<in> set js. connected cfg ! i then \<forall>i \<in> set js. connected cfg ! i \<longrightarrow> fst (st i) = t else t = -1)" for js
  proof (induction js)
    case (Cons i js)
    show ?case
    proof (cases "connected cfg ! i")
      case True
      with fixed [of "fst (st i)" js] assms show ?thesis by auto
    qed (use Cons in simp)
  qed auto
  from this [of "[0..<cfg_n cfg]"] show ?thesis by (auto simp: checkTerms_def)
qed

lemma checkNoLeader_exact: "checkNoLeader cfg st = Inr () \<longleftrightarrow> (\<forall>i < cfg_n cfg. connected cfg ! i \<longrightarrow> \<not> snd (st i))"
  by (auto simp: checkNoLeader_def list_ex_iff)

section \<open>Snapshots\<close>

text \<open>
  C37: A snapshot that the reader of one server makes and another server takes over gives that server the log of the
  first up to the index of the snapshot, with nil for missing entries, and nothing beyond it. The encoder and
  the decoder of snapshots are assumed to be inverse.
\<close>

theorem snapshot_transfers_log:
  assumes "\<forall>x. dec (enc x) = Some x" and "SnapshotValid m = False" "CommandValid m" "0 \<le> CommandIndex m"
    and "applierSnap dec enc rf i m cfg = Inr (Some b, cfg1)"
    and "a < length (mem cfg2)" "mem cfg2 ! a = b" and "j < length (logs cfg2)" "j < length (lastApplied cfg2)"
  shows "\<exists>cfg3. ingestSnap dec j (Some a) (CommandIndex m) cfg2 = Inr ('''', cfg3) \<and> lastApplied cfg3 ! j = CommandIndex m \<and>
    (\<forall>x. (logs cfg3 ! j) x = (if 0 \<le> x \<and> x \<le> CommandIndex m
       then Some (case (logs cfg1 ! i) x of None \<Rightarrow> None | Some v \<Rightarrow> v) else None))"
proof -
  let ?ix = "CommandIndex m"
  have b: "b = enc (?ix, map (\<lambda>k. case (logs cfg1 ! i) (int k) of None \<Rightarrow> None | Some v \<Rightarrow> v) [0..<nat (?ix + 1)])"
    using assms(2,3,5) by (auto simp: applierSnap_def Let_def split: if_splits prod.splits)
  define xlog where "xlog = map (\<lambda>k. case (logs cfg1 ! i) (int k) of None \<Rightarrow> None | Some v \<Rightarrow> v) [0..<nat (?ix + 1)]"
  have dec: "dec (content (mem cfg2) (Some a)) = Some (?ix, xlog)"
    using assms(1,7) by (simp add: content_def b xlog_def)
  have x: "(if 0 \<le> x \<and> nat x < length xlog then Some (xlog ! nat x) else None) =
      (if 0 \<le> x \<and> x \<le> ?ix then Some (case (logs cfg1 ! i) x of None \<Rightarrow> None | Some v \<Rightarrow> v) else None)" for x
    using assms(4) by (auto simp: xlog_def)
  show ?thesis using assms(8,9) by (simp add: ingestSnap_def dec x)
qed

section \<open>The empty Raft\<close>

text \<open>
  With the Raft object of \<^verbatim>\<open>raft.go\<close>, which never leads and answers every command with index -1, no leader is
  found and no agreement is reached: every test that asks for one fails.
\<close>

theorem skeleton_fails_tests:
  assumes "\<forall>a \<in> set attempts. \<not> checkFinished (at_cfg a) \<and> (\<forall>i. \<exists>rf. at_start a i = Raft_Start cmd rf)"
  shows "checkOneLeader cfg (\<lambda>k i. GetState (rfs k i)) = Inl ''expected one leader, got none'' \<and>
    cfg_one cmd expectedServers retry False attempts = Inl ''failed to reach agreement''"
proof -
  have "leaders_at n con (\<lambda>i. GetState (g i)) = []" for n con and g :: "nat \<Rightarrow> Raft"
    by (induction n) (auto simp: leaders_at_def GetState_def)
  then have "leader_rounds n con (\<lambda>k i. GetState (rfs k i)) ks = Inl ''expected one leader, got none''" for n con ks
    by (induction ks) (simp_all add: pick_leader_def)
  then have "checkOneLeader cfg (\<lambda>k i. GetState (rfs k i)) = Inl ''expected one leader, got none''" by (simp add: checkOneLeader_def)
  moreover have none: "fst (try_start c st k s) = -1" if "\<forall>i. \<exists>rf. st i = Raft_Start cmd rf" for c st k s
    by (induction k arbitrary: s) (use that in \<open>auto simp: Raft_Start_def Let_def split: prod.split\<close>)
  moreover have "one_rounds cmd expectedServers retry False s as = Inl ''failed to reach agreement''" if "set as \<subseteq> set attempts" for s as
    using that
  proof (induction as arbitrary: s)
    case (Cons a as)
    then have a: "\<not> checkFinished (at_cfg a)" "fst (try_start (at_cfg a) (at_start a) (cfg_n (at_cfg a)) s) = -1"
      using assms none [of "at_start a"] by auto
    obtain ix s' where "try_start (at_cfg a) (at_start a) (cfg_n (at_cfg a)) s = (ix, s')" by fastforce
    with a Cons show ?case by simp
  qed simp
  ultimately show ?thesis by (simp add: cfg_one_def)
qed

section \<open>Examples\<close>

definition ex_msg :: "int \<Rightarrow> nat \<Rightarrow> nat ApplyMsg" where
  "ex_msg x v = \<lparr>CommandValid = True, Command = Some v, CommandIndex = x, SnapshotValid = False, Snapshot = None, SnapshotTerm = 0, SnapshotIndex = 0\<rparr>"

text \<open>Server 0 commits 7 and 8, server 1 commits 7.\<close>

definition ex_committed :: "(nat, unit) config" where
  "ex_committed = (empty_config 2 False)\<lparr>logs := [[1 \<mapsto> Some 7, 2 \<mapsto> Some 8], [1 \<mapsto> Some 7]], maxIndex := 2\<rparr>"

lemma ex_committed_reach: "reach apply_start apply_step ex_committed"
proof -
  let ?e = "\<lambda>_ :: int. None :: nat iface option"
  let ?c0 = "empty_config 2 False :: (nat, unit) config"
  have l: "logs ?c0 = [?e, ?e]" "maxIndex ?c0 = 0" by (simp_all add: empty_config_def numeral_2_eq_2)
  have s0: "reach apply_start apply_step ?c0" by (rule reach_init) (simp add: apply_start_def l)
  let ?c1 = "?c0\<lparr>logs := [?e(1 \<mapsto> Some 7), ?e], maxIndex := 1\<rparr>"
  let ?c2 = "?c0\<lparr>logs := [?e(1 \<mapsto> Some 7, 2 \<mapsto> Some 8), ?e], maxIndex := 2\<rparr>"
  have "applier 0 (ex_msg 1 7) ?c0 = Inr ?c1" by (subst applier_accepts) (simp_all add: l ex_msg_def)
  then have s1: "reach apply_start apply_step ?c1" by (intro reach_step [OF s0] apply_step.intros [of 0]) (simp_all add: l)
  have "applier 0 (ex_msg 2 8) ?c1 = Inr ?c2" by (subst applier_accepts) (simp_all add: l ex_msg_def)
  then have s2: "reach apply_start apply_step ?c2" by (intro reach_step [OF s1] apply_step.intros [of 0]) simp_all
  have "applier 1 (ex_msg 1 7) ?c2 = Inr ex_committed" by (subst applier_accepts) (simp_all add: l ex_msg_def ex_committed_def)
  then show ?thesis by (intro reach_step [OF s2] apply_step.intros [of 1]) simp_all
qed


theorem nCommitted_never_disagrees_witness:
  "\<exists>c. nCommitted 1 ex_committed = Inr (card {i. i < length (rafts ex_committed) \<and> (logs ex_committed ! i) 1 \<noteq> None}, c) \<and>
    (\<forall>i < length (rafts ex_committed). (logs ex_committed ! i) 1 = None \<or> (logs ex_committed ! i) 1 = Some c)"
  by (rule nCommitted_never_disagrees [OF ex_committed_reach]) (simp_all add: ex_committed_def empty_config_def)

definition ex_attempt :: "(nat, unit) attempt" where
  "ex_attempt = \<lparr>at_cfg = ex_bed, at_start = (\<lambda>i. (1, 1, i = 1)), at_polls = [empty_config 2 False, ex_committed]\<rparr>"

theorem one_reports_agreement_witness:
  "cfg_one (Some 7) 2 True False [ex_attempt] = Inr 1 \<and>
   (\<exists>a \<in> set [ex_attempt]. \<exists>cfg \<in> set (at_polls a).
      max 1 2 \<le> card {i. i < length (rafts cfg) \<and> (logs cfg ! i) 1 = Some (Some 7)} \<and>
      (\<forall>i < length (rafts cfg). (logs cfg ! i) 1 = None \<or> (logs cfg ! i) 1 = Some (Some 7)))"
proof -
  have r: "cfg_one (Some 7) 2 True False [ex_attempt] = Inr 1" by code_simp
  show ?thesis using one_reports_agreement [OF r] r by simp
qed

definition ex_leaders :: "nat \<Rightarrow> nat \<Rightarrow> int \<times> bool" where
  "ex_leaders k i = (if k < 2 then (0, False) else (int i + 3, True))"


text \<open>A codec for snapshots of logs whose commands are all the same, in unary numbers.\<close>

definition ex_enc :: "int \<times> unit iface list \<Rightarrow> bytes" where
  "ex_enc x = (if fst x < 0 then CHR ''-'' else CHR ''+'') # replicate (nat \<bar>fst x\<bar>) CHR ''x'' @
     CHR ''y'' # map (\<lambda>c. if c = None then CHR ''n'' else CHR ''s'') (snd x)"

definition ex_dec :: "bytes \<Rightarrow> (int \<times> unit iface list) option" where
  "ex_dec b = (case b of
     [] \<Rightarrow> None
   | c # r \<Rightarrow> Some ((if c = CHR ''-'' then -1 else 1) * int (length (takeWhile (\<lambda>d. d = CHR ''x'') r)),
       map (\<lambda>d. if d = CHR ''n'' then None else Some ()) (tl (dropWhile (\<lambda>d. d = CHR ''x'') r))))"

lemma ex_codec: "ex_dec (ex_enc x) = Some x"
proof -
  have "takeWhile (\<lambda>d. d = CHR ''x'') (replicate n CHR ''x'' @ CHR ''y'' # ys) = replicate n CHR ''x''"
    "dropWhile (\<lambda>d. d = CHR ''x'') (replicate n CHR ''x'' @ CHR ''y'' # ys) = CHR ''y'' # ys" for n ys
    by (induction n) simp_all
  then show ?thesis by (cases x) (auto simp: ex_dec_def ex_enc_def intro!: map_idI)
qed

definition ex_eight :: "(unit, unit) config" where
  "ex_eight = (empty_config 1 False)\<lparr>logs := [\<lambda>x. if 1 \<le> x \<and> x \<le> 8 then Some (Some ()) else None], lastApplied := [8]\<rparr>"

definition ex_ninth :: "unit ApplyMsg" where
  "ex_ninth = \<lparr>CommandValid = True, Command = Some (), CommandIndex = 9, SnapshotValid = False, Snapshot = None, SnapshotTerm = 0, SnapshotIndex = 0\<rparr>"

definition ex_snap :: "bytes option \<times> (unit, unit) config" where
  "ex_snap = projr (applierSnap ex_dec ex_enc 0 0 ex_ninth ex_eight)"

theorem snapshot_transfers_log_witness:
  "\<exists>cfg3. ingestSnap ex_dec 0 (Some 0) 9 ((empty_config 1 False)\<lparr>mem := [the (fst ex_snap)]\<rparr> :: (unit, unit) config) = Inr ('''', cfg3) \<and>
    lastApplied cfg3 ! 0 = 9 \<and>
    (\<forall>x. (logs cfg3 ! 0) x = (if 0 \<le> x \<and> x \<le> 9 then Some (case (logs (snd ex_snap) ! 0) x of None \<Rightarrow> None | Some v \<Rightarrow> v) else None))"
proof -
  have "case applierSnap ex_dec ex_enc 0 0 ex_ninth ex_eight of Inr (Some b, c) \<Rightarrow> True | _ \<Rightarrow> False" by code_simp
  then have run: "applierSnap ex_dec ex_enc 0 0 ex_ninth ex_eight = Inr (Some (the (fst ex_snap)), snd ex_snap)"
    by (auto simp: ex_snap_def split: sum.splits prod.splits option.splits)
  have ix: "CommandIndex ex_ninth = 9" by (simp add: ex_ninth_def)
  show ?thesis
    by (rule snapshot_transfers_log [OF _ _ _ _ run, unfolded ix]) (simp_all add: ex_codec ex_ninth_def empty_config_def)
qed

theorem skeleton_fails_tests_witness:
  "checkOneLeader ex_bed (\<lambda>k i. GetState (raft_objs ex_bed ! i)) = Inl ''expected one leader, got none'' \<and>
   cfg_one (Some 7) 1 True False [ex_attempt\<lparr>at_start := (\<lambda>i. Raft_Start (Some (7 :: nat)) (raft_objs ex_bed ! i))\<rparr>] = Inl ''failed to reach agreement''"
proof (rule skeleton_fails_tests)
  have "\<not> checkFinished ex_bed" by code_simp
  then show "\<forall>a \<in> set [ex_attempt\<lparr>at_start := (\<lambda>i. Raft_Start (Some (7 :: nat)) (raft_objs ex_bed ! i))\<rparr>].
      \<not> checkFinished (at_cfg a) \<and> (\<forall>i. \<exists>rf. at_start a i = Raft_Start (Some (7 :: nat)) rf)" by (auto simp: ex_attempt_def)
qed

end
