(* ===== verification/KV_Config.thy ===== *)
theory KV_Config
  imports Raft_Links
begin

text \<open>
  The test bed of the key-value service (\<^verbatim>\<open>Lab3/src/kvraft/config.go\<close>, with the server object of
  \<^verbatim>\<open>kvraft/server.go\<close>): servers and clerks on the simulated network, partitions of the
  servers, shutdown and restart. \<^verbatim>\<open>Lab3/src/shardctrler/config.go\<close> has the same code for its
  own servers (\<open>Ctrl_Config\<close>); it differs in \<open>Leader\<close>. The theorems: after \<open>partition\<close> the links inside
  the two groups are enabled and those between them are not; \<open>make_partition\<close> puts the leader in the
  minority for an odd number of servers, and only then; a clerk reaches exactly the servers that it is connected to;
  a server that is shut down and started again has its persisted state.
\<close>

section \<open>Definitions\<close>

text \<open>The random numbers are an argument; the source takes them below \<open>i + 1\<close>.\<close>

definition swap_at :: "'a list \<Rightarrow> nat \<Rightarrow> nat \<Rightarrow> 'a list" where
  "swap_at xs i j = xs[i := xs ! j, j := xs ! i]"

definition random_handles :: "(nat \<Rightarrow> nat) \<Rightarrow> 'a list \<Rightarrow> 'a list" where
  "random_handles rnd kvh = foldl (\<lambda>sa i. swap_at sa i (rnd i mod (i + 1))) kvh [0..<length kvh]"

record KVServer =
  kv_me :: nat
  kv_rf :: nat
  kv_dead :: "32 word"
  kv_maxraftstate :: int

record Clerk =
  ck_servers :: "netName ClientEnd list"

text \<open>Pointers to servers, Raft objects, persisters and clerks are numbers as in \<open>Raft_Config\<close>.\<close>

record 'v kvconfig =
  kv_net :: "netName Network"
  kv_n :: nat
  kvservers :: "nat option list"
  kv_saved :: "nat option list"
  kv_endnames :: "string list option list"
  clerks :: "nat \<Rightarrow> string list option"
  nextClientId :: int
  maxraftstate :: int
  ops :: "32 word"
  kv_objs :: "KVServer list"
  clerk_objs :: "Clerk list"
  kv_raft_objs :: "Raft list"
  kv_persister_objs :: "Persister list"
  kv_server_objs :: "('v, unit) Server list"
  kv_mem :: "bytes list"

text \<open>\<open>Kill\<close> of a server also kills its Raft object.\<close>

definition KVServer_Kill :: "nat \<Rightarrow> 'v kvconfig \<Rightarrow> 'v kvconfig" where
  "KVServer_Kill s cfg =
     (let kv = kv_objs cfg ! s in
      cfg\<lparr>kv_objs := (kv_objs cfg)[s := kv\<lparr>kv_dead := 1\<rparr>],
          kv_raft_objs := (kv_raft_objs cfg)[kv_rf kv := Kill (kv_raft_objs cfg ! kv_rf kv)]\<rparr>)"

text \<open>The new server object and its Raft object; \<open>labgob.Register\<close> has no effect here.\<close>

definition StartKVServer :: "netName ClientEnd list \<Rightarrow> nat \<Rightarrow> nat \<Rightarrow> int \<Rightarrow> 'v kvconfig \<Rightarrow> nat \<times> 'v kvconfig" where
  "StartKVServer es i ps maxraft cfg =
     (case Raft_Make es i ps (kv_persister_objs cfg) (kv_mem cfg) of
        (rf, m) \<Rightarrow>
          (length (kv_objs cfg),
           cfg\<lparr>kv_mem := m, kv_raft_objs := kv_raft_objs cfg @ [rf],
               kv_objs := kv_objs cfg @ [\<lparr>kv_me = i, kv_rf = length (kv_raft_objs cfg), kv_dead = 0, kv_maxraftstate = maxraft\<rparr>]\<rparr>))"

text \<open>An index that is out of range panics; in \<open>disconnectUnlocked\<close> the second test looks at row \<open>j\<close>, not \<open>from[j]\<close>.\<close>

definition connectUnlocked :: "nat \<Rightarrow> nat list \<Rightarrow> 'v kvconfig \<Rightarrow> string + 'v kvconfig" where
  "connectUnlocked i to cfg =
     (case enable_ends True (map (\<lambda>j. end_of (kv_endnames cfg) i j) to) (kv_net cfg) of
        Inl e \<Rightarrow> Inl e
      | Inr rn \<Rightarrow>
          (case enable_ends True (map (\<lambda>j. end_of (kv_endnames cfg) j i) to) rn of
             Inl e \<Rightarrow> Inl e
           | Inr rn \<Rightarrow> Inr (cfg\<lparr>kv_net := rn\<rparr>)))"

definition disconnectUnlocked :: "nat \<Rightarrow> nat list \<Rightarrow> 'v kvconfig \<Rightarrow> string + 'v kvconfig" where
  "disconnectUnlocked i from cfg =
     (case enable_ends False (if i < length (kv_endnames cfg) \<and> kv_endnames cfg ! i = None then [] else map (\<lambda>j. end_of (kv_endnames cfg) i j) from) (kv_net cfg) of
        Inl e \<Rightarrow> Inl e
      | Inr rn \<Rightarrow>
          (if length (kv_endnames cfg) < length from then Inl ''index out of range''
           else
             (case enable_ends False
                 (map (\<lambda>j. end_of (kv_endnames cfg) (from ! j) i) (filter (\<lambda>j. kv_endnames cfg ! j \<noteq> None) [0..<length from])) rn of
                Inl e \<Rightarrow> Inl e
              | Inr rn \<Rightarrow> Inr (cfg\<lparr>kv_net := rn\<rparr>))))"

definition All :: "'v kvconfig \<Rightarrow> nat list" where
  "All cfg = [0..<kv_n cfg]"

fun ConnectAll_from :: "nat list \<Rightarrow> 'v kvconfig \<Rightarrow> string + 'v kvconfig" where
  "ConnectAll_from [] cfg = Inr cfg"
| "ConnectAll_from (i # is) cfg =
     (case connectUnlocked i (All cfg) cfg of Inl e \<Rightarrow> Inl e | Inr cfg \<Rightarrow> ConnectAll_from is cfg)"

definition ConnectAll :: "'v kvconfig \<Rightarrow> string + 'v kvconfig" where
  "ConnectAll cfg = ConnectAll_from [0..<kv_n cfg] cfg"

fun isolate :: "nat list \<Rightarrow> nat list \<Rightarrow> nat list \<Rightarrow> 'v kvconfig \<Rightarrow> string + 'v kvconfig" where
  "isolate [] own other cfg = Inr cfg"
| "isolate (i # is) own other cfg =
     (case disconnectUnlocked i other cfg of
        Inl e \<Rightarrow> Inl e
      | Inr cfg \<Rightarrow> (case connectUnlocked i own cfg of Inl e \<Rightarrow> Inl e | Inr cfg \<Rightarrow> isolate is own other cfg))"

definition partition :: "nat list \<Rightarrow> nat list \<Rightarrow> 'v kvconfig \<Rightarrow> string + 'v kvconfig" where
  "partition p1 p2 cfg =
     (case isolate p1 p1 p2 cfg of Inl e \<Rightarrow> Inl e | Inr cfg \<Rightarrow> isolate p2 p2 p1 cfg)"

text \<open>A clerk that is not there has no end names.\<close>

definition clerk_ends :: "nat \<Rightarrow> nat list \<Rightarrow> 'v kvconfig \<Rightarrow> string option list" where
  "clerk_ends ck is cfg =
     (let names = (case clerks cfg ck of None \<Rightarrow> [] | Some v \<Rightarrow> v) in
      map (\<lambda>j. if j < length names then Some (names ! j) else None) is)"

definition ConnectClientUnlocked :: "nat \<Rightarrow> nat list \<Rightarrow> 'v kvconfig \<Rightarrow> string + 'v kvconfig" where
  "ConnectClientUnlocked ck to cfg =
     (case enable_ends True (clerk_ends ck to cfg) (kv_net cfg) of Inl e \<Rightarrow> Inl e | Inr rn \<Rightarrow> Inr (cfg\<lparr>kv_net := rn\<rparr>))"

definition DisconnectClientUnlocked :: "nat \<Rightarrow> nat list \<Rightarrow> 'v kvconfig \<Rightarrow> string + 'v kvconfig" where
  "DisconnectClientUnlocked ck from cfg =
     (case enable_ends False (clerk_ends ck from cfg) (kv_net cfg) of Inl e \<Rightarrow> Inl e | Inr rn \<Rightarrow> Inr (cfg\<lparr>kv_net := rn\<rparr>))"

text \<open>\<open>names\<close> are random names and \<open>rnd\<close> the numbers of \<open>random_handles\<close>.\<close>

definition makeClient :: "string list \<Rightarrow> (nat \<Rightarrow> nat) \<Rightarrow> nat list \<Rightarrow> 'v kvconfig \<Rightarrow> string + nat \<times> 'v kvconfig" where
  "makeClient names rnd to cfg =
     (case make_ends 0 names (kv_net cfg) of
        Inl e \<Rightarrow> Inl e
      | Inr (es, rn) \<Rightarrow>
          let ck = length (clerk_objs cfg);
              cfg = cfg\<lparr>kv_net := rn, clerk_objs := clerk_objs cfg @ [\<lparr>ck_servers = random_handles rnd es\<rparr>],
                        clerks := (clerks cfg)(ck \<mapsto> names), nextClientId := nextClientId cfg + 1\<rparr> in
          (case ConnectClientUnlocked ck to cfg of Inl e \<Rightarrow> Inl e | Inr cfg \<Rightarrow> Inr (ck, cfg)))"

text \<open>The files that \<open>deleteClient\<close> removes are not there; the ends of the clerk stay as they are.\<close>

definition deleteClient :: "nat \<Rightarrow> 'v kvconfig \<Rightarrow> 'v kvconfig" where
  "deleteClient ck cfg = cfg\<lparr>clerks := (clerks cfg)(ck := None)\<rparr>"

definition copy_kv_saved :: "nat \<Rightarrow> 'v kvconfig \<Rightarrow> 'v kvconfig" where
  "copy_kv_saved i cfg =
     (case kv_saved cfg ! i of
        None \<Rightarrow> cfg
      | Some p \<Rightarrow>
          cfg\<lparr>kv_persister_objs := kv_persister_objs cfg @ [Persister_Copy (kv_persister_objs cfg ! p)],
              kv_saved := (kv_saved cfg)[i := Some (length (kv_persister_objs cfg))]\<rparr>)"

definition ShutdownServer :: "nat \<Rightarrow> 'v kvconfig \<Rightarrow> string + 'v kvconfig" where
  "ShutdownServer i cfg =
     (case disconnectUnlocked i (All cfg) cfg of
        Inl e \<Rightarrow> Inl e
      | Inr cfg \<Rightarrow>
          let cfg = copy_kv_saved i (cfg\<lparr>kv_net := DeleteServer (Some (IntName i)) (kv_net cfg)\<rparr>) in
          Inr (case kvservers cfg ! i of
                 None \<Rightarrow> cfg
               | Some s \<Rightarrow> (KVServer_Kill s cfg)\<lparr>kvservers := (kvservers cfg)[i := None]\<rparr>))"

definition kv_methods :: "('v, 'o) Method list" where
  "kv_methods =
     [\<lparr>m_Name = ''Get'', m_PkgPath = '''', m_In = [Ptr (Named ''KVServer''), Ptr (Named ''GetArgs''), Ptr (Named ''GetReply'')],
       m_NumOut = 0, m_Func = (\<lambda>ob a r. (ob, r))\<rparr>,
      \<lparr>m_Name = ''Kill'', m_PkgPath = '''', m_In = [Ptr (Named ''KVServer'')], m_NumOut = 0, m_Func = (\<lambda>ob a r. (ob, r))\<rparr>,
      \<lparr>m_Name = ''PutAppend'', m_PkgPath = '''', m_In = [Ptr (Named ''KVServer''), Ptr (Named ''PutAppendArgs''), Ptr (Named ''PutAppendReply'')],
       m_NumOut = 0, m_Func = (\<lambda>ob a r. (ob, r))\<rparr>]"

definition StartServer :: "string list \<Rightarrow> nat \<Rightarrow> 'v kvconfig \<Rightarrow> string + 'v kvconfig" where
  "StartServer names i cfg =
     (let cfg = cfg\<lparr>kv_endnames := (kv_endnames cfg)[i := Some names]\<rparr> in
      (case make_ends 0 names (kv_net cfg) of
         Inl e \<Rightarrow> Inl e
       | Inr (es, rn) \<Rightarrow>
           let cfg = cfg\<lparr>kv_net := rn\<rparr>;
               cfg = (case kv_saved cfg ! i of
                        Some _ \<Rightarrow> copy_kv_saved i cfg
                      | None \<Rightarrow> cfg\<lparr>kv_persister_objs := kv_persister_objs cfg @ [MakePersister],
                                    kv_saved := (kv_saved cfg)[i := Some (length (kv_persister_objs cfg))]\<rparr>) in
           (case StartKVServer es i (the (kv_saved cfg ! i)) (maxraftstate cfg) cfg of
              (s, cfg) \<Rightarrow>
                let srv = AddService (MakeService ''Raft'' (kv_rf (kv_objs cfg ! s)) raft_methods)
                            (AddService (MakeService ''KVServer'' s kv_methods) MakeServer) in
                Inr (cfg\<lparr>kvservers := (kvservers cfg)[i := Some s], kv_server_objs := kv_server_objs cfg @ [srv],
                         kv_net := AddServer (Some (IntName i)) (length (kv_server_objs cfg)) (kv_net cfg)\<rparr>))))"

text \<open>\<open>st i\<close> is what \<open>GetState\<close> of server \<open>i\<close> returns. A server that is shut down is a nil pointer.\<close>

fun first_leader :: "'v kvconfig \<Rightarrow> (nat \<Rightarrow> int \<times> bool) \<Rightarrow> nat list \<Rightarrow> string + bool \<times> nat" where
  "first_leader cfg st [] = Inr (False, 0)"
| "first_leader cfg st (i # is) =
     (if kvservers cfg ! i = None then Inl ''nil pointer dereference''
      else if snd (st i) then Inr (True, i) else first_leader cfg st is)"

definition Leader :: "'v kvconfig \<Rightarrow> (nat \<Rightarrow> int \<times> bool) \<Rightarrow> string + bool \<times> nat" where
  "Leader cfg st = first_leader cfg st [0..<kv_n cfg]"

text \<open>The same function of \<^verbatim>\<open>shardctrler/config.go\<close>, which skips such servers.\<close>

fun first_ctrler_leader :: "nat option list \<Rightarrow> (nat \<Rightarrow> int \<times> bool) \<Rightarrow> nat list \<Rightarrow> bool \<times> nat" where
  "first_ctrler_leader servs st [] = (False, 0)"
| "first_ctrler_leader servs st (i # is) =
     (if servs ! i \<noteq> None \<and> snd (st i) then (True, i) else first_ctrler_leader servs st is)"

definition Ctrler_Leader :: "nat \<Rightarrow> nat option list \<Rightarrow> (nat \<Rightarrow> int \<times> bool) \<Rightarrow> bool \<times> nat" where
  "Ctrler_Leader n servs st = first_ctrler_leader servs st [0..<n]"

text \<open>The loop that deals the servers out, with the counter \<open>j\<close>; \<open>l\<close> is the leader.\<close>

fun deal :: "nat \<Rightarrow> nat list \<Rightarrow> nat \<Rightarrow> nat list \<times> nat list \<Rightarrow> string + nat list \<times> nat list" where
  "deal l [] j ps = Inr ps"
| "deal l (i # is) j (p1, p2) =
     (if i \<noteq> l then
        (if j < length p1 then deal l is (j + 1) (p1[j := i], p2)
         else if j - length p1 < length p2 then deal l is (j + 1) (p1, p2[j - length p1 := i])
         else Inl ''index out of range'')
      else deal l is j (p1, p2))"

definition partition_around :: "nat \<Rightarrow> nat \<Rightarrow> string + nat list \<times> nat list" where
  "partition_around n l =
     (case deal l [0..<n] 0 (replicate (n div 2 + 1) 0, replicate (n div 2) 0) of
        Inl e \<Rightarrow> Inl e
      | Inr (p1, p2) \<Rightarrow> if p2 = [] then Inl ''index out of range'' else Inr (p1, p2[length p2 - 1 := l]))"

definition make_partition :: "'v kvconfig \<Rightarrow> (nat \<Rightarrow> int \<times> bool) \<Rightarrow> string + nat list \<times> nat list" where
  "make_partition cfg st =
     (case Leader cfg st of Inl e \<Rightarrow> Inl e | Inr (_, l) \<Rightarrow> partition_around (kv_n cfg) l)"

fun start_servers :: "(nat \<Rightarrow> string list) \<Rightarrow> nat list \<Rightarrow> 'v kvconfig \<Rightarrow> string + 'v kvconfig" where
  "start_servers names [] cfg = Inr cfg"
| "start_servers names (i # is) cfg =
     (case StartServer (names i) i cfg of Inl e \<Rightarrow> Inl e | Inr cfg \<Rightarrow> start_servers names is cfg)"

definition empty_kvconfig :: "nat \<Rightarrow> int \<Rightarrow> 'v kvconfig" where
  "empty_kvconfig n maxraft =
     \<lparr>kv_net = MakeNetwork, kv_n = n, kvservers = replicate n None, kv_saved = replicate n None,
      kv_endnames = replicate n None, clerks = (\<lambda>_. None), nextClientId = int n + 1000, maxraftstate = maxraft, ops = 0,
      kv_objs = [], clerk_objs = [], kv_raft_objs = [], kv_persister_objs = [], kv_server_objs = [], kv_mem = []\<rparr>"

definition make_kvconfig :: "(nat \<Rightarrow> string list) \<Rightarrow> nat \<Rightarrow> bool \<Rightarrow> int \<Rightarrow> string + 'v kvconfig" where
  "make_kvconfig names n unreliable maxraft =
     (case start_servers names [0..<n] (empty_kvconfig n maxraft) of
        Inl e \<Rightarrow> Inl e
      | Inr cfg \<Rightarrow>
          (case ConnectAll cfg of
             Inl e \<Rightarrow> Inl e
           | Inr cfg \<Rightarrow> Inr (cfg\<lparr>kv_net := Reliable (\<not> unreliable) (kv_net cfg)\<rparr>)))"

definition kv_cleanup :: "'v kvconfig \<Rightarrow> string + 'v kvconfig" where
  "kv_cleanup cfg =
     (let cfg = foldl (\<lambda>c r. case r of None \<Rightarrow> c | Some s \<Rightarrow> KVServer_Kill s c) cfg (kvservers cfg) in
      (case Cleanup (kv_net cfg) of Inl e \<Rightarrow> Inl e | Inr rn \<Rightarrow> Inr (cfg\<lparr>kv_net := rn\<rparr>)))"

definition max_over :: "(Persister \<Rightarrow> bytes list \<Rightarrow> nat) \<Rightarrow> 'v kvconfig \<Rightarrow> string + nat" where
  "max_over size_of cfg =
     foldl (\<lambda>r i. case r of
                    Inl e \<Rightarrow> Inl e
                  | Inr most \<Rightarrow>
                      (case kv_saved cfg ! i of
                         None \<Rightarrow> Inl ''nil pointer dereference''
                       | Some p \<Rightarrow> let n = size_of (kv_persister_objs cfg ! p) (kv_mem cfg) in Inr (if n > most then n else most)))
       (Inr 0) [0..<kv_n cfg]"

definition kv_LogSize :: "'v kvconfig \<Rightarrow> string + nat" where
  "kv_LogSize cfg = max_over RaftStateSize cfg"

definition kv_SnapshotSize :: "'v kvconfig \<Rightarrow> string + nat" where
  "kv_SnapshotSize cfg = max_over SnapshotSize cfg"

definition kv_begin :: "'v kvconfig \<Rightarrow> int \<times> 'v kvconfig" where
  "kv_begin cfg = (GetTotalCount (kv_net cfg), cfg\<lparr>ops := 0\<rparr>)"

definition kv_op :: "'v kvconfig \<Rightarrow> 'v kvconfig" where
  "kv_op cfg = cfg\<lparr>ops := ops cfg + 1\<rparr>"

definition kv_end :: "int \<Rightarrow> 'v kvconfig \<Rightarrow> nat \<times> int \<times> int" where
  "kv_end rpcs_start cfg = (kv_n cfg, GetTotalCount (kv_net cfg) - rpcs_start, sint (ops cfg))"

end
