(* ===== verification/Shard_Client.thy ===== *)
theory Shard_Client
  imports KV_Config
begin

text \<open>
  The clerks of the shard controller and of the sharded key-value service
  (\<^verbatim>\<open>Lab3/src/shardctrler/client.go\<close>, \<^verbatim>\<open>common.go\<close> and \<^verbatim>\<open>server.go\<close>,
  \<^verbatim>\<open>Lab3/src/shardkv/client.go\<close> and \<^verbatim>\<open>common.go\<close>). A remote call is a parameter: what
  \<open>srv.Call\<close> returns at a given moment, \<open>None\<close> for false. Moments are the numbers of the calls, so that the
  servers may change between any two of them. The loops need not end and are partial functions.
  The theorems: a controller call returns the first accepted reply in round-robin order and returns if and only if there is one;
  a value returned by \<open>Get\<close> comes from a server of the group that owns the shard in a
  configuration of the controller; with the handlers of the repository no \<open>Get\<close> returns.
\<close>

section \<open>The controller\<close>

definition NShards :: nat where
  "NShards = 10"

text \<open>The array of shards is a list of that length.\<close>

record Config =
  Num :: int
  Shards :: "int list"
  Groups :: "int \<Rightarrow> string list option"

definition zero_Config :: Config where
  "zero_Config = \<lparr>Num = 0, Shards = replicate NShards 0, Groups = (\<lambda>_. None)\<rparr>"

datatype ctrlArgs =
    JoinArgs "int \<Rightarrow> string list option"
  | LeaveArgs "int list"
  | MoveArgs int int
  | QueryArgs int

record ctrlReply =
  WrongLeader :: bool
  ctrl_Err :: string
  reply_Config :: Config

text \<open>One pass over the servers, from call number \<open>t\<close> on; then the pass is repeated. \<open>meth\<close> is the name of the handler.\<close>

type_synonym 'e ctrlCall = "nat \<Rightarrow> 'e \<Rightarrow> string \<Rightarrow> ctrlArgs \<Rightarrow> ctrlReply option"

fun try_servers :: "'e ctrlCall \<Rightarrow> string \<Rightarrow> ctrlArgs \<Rightarrow> 'e list \<Rightarrow> nat \<Rightarrow> ctrlReply option \<times> nat" where
  "try_servers call meth args [] t = (None, t)"
| "try_servers call meth args (srv # rest) t =
     (case call t srv meth args of
        Some reply \<Rightarrow> if \<not> WrongLeader reply then (Some reply, t + 1) else try_servers call meth args rest (t + 1)
      | None \<Rightarrow> try_servers call meth args rest (t + 1))"

partial_function (option) ctrl_loop ::
  "'e ctrlCall \<Rightarrow> string \<Rightarrow> ctrlArgs \<Rightarrow> 'e list \<Rightarrow> nat \<Rightarrow> (ctrlReply \<times> nat) option" where
  "ctrl_loop call meth args srvl t =
     (case try_servers call meth args srvl t of
        (Some reply, t) \<Rightarrow> Some (reply, t)
      | (None, t) \<Rightarrow> ctrl_loop call meth args srvl t)"

definition Query :: "'e ctrlCall \<Rightarrow> 'e list \<Rightarrow> int \<Rightarrow> nat \<Rightarrow> (Config \<times> nat) option" where
  "Query call srvl num t =
     map_option (\<lambda>(reply, t). (reply_Config reply, t)) (ctrl_loop call ''ShardCtrler.Query'' (QueryArgs num) srvl t)"

definition Join :: "'e ctrlCall \<Rightarrow> 'e list \<Rightarrow> (int \<Rightarrow> string list option) \<Rightarrow> nat \<Rightarrow> nat option" where
  "Join call srvl m t = map_option snd (ctrl_loop call ''ShardCtrler.Join'' (JoinArgs m) srvl t)"

definition Leave :: "'e ctrlCall \<Rightarrow> 'e list \<Rightarrow> int list \<Rightarrow> nat \<Rightarrow> nat option" where
  "Leave call srvl gids t = map_option snd (ctrl_loop call ''ShardCtrler.Leave'' (LeaveArgs gids) srvl t)"

definition Move :: "'e ctrlCall \<Rightarrow> 'e list \<Rightarrow> int \<Rightarrow> int \<Rightarrow> nat \<Rightarrow> nat option" where
  "Move call srvl shard gid t = map_option snd (ctrl_loop call ''ShardCtrler.Move'' (MoveArgs shard gid) srvl t)"

text \<open>The server of the repository: the handlers leave the reply as it is, which is zero in a new call.\<close>

record ShardCtrler =
  sc_me :: nat
  sc_rf :: nat
  sc_configs :: "Config list"

definition Ctrler_Join :: "ctrlArgs \<Rightarrow> ctrlReply \<Rightarrow> ShardCtrler \<Rightarrow> ctrlReply \<times> ShardCtrler" where
  "Ctrler_Join args reply sc = (reply, sc)"

definition Ctrler_Leave :: "ctrlArgs \<Rightarrow> ctrlReply \<Rightarrow> ShardCtrler \<Rightarrow> ctrlReply \<times> ShardCtrler" where
  "Ctrler_Leave args reply sc = (reply, sc)"

definition Ctrler_Move :: "ctrlArgs \<Rightarrow> ctrlReply \<Rightarrow> ShardCtrler \<Rightarrow> ctrlReply \<times> ShardCtrler" where
  "Ctrler_Move args reply sc = (reply, sc)"

definition Ctrler_Query :: "ctrlArgs \<Rightarrow> ctrlReply \<Rightarrow> ShardCtrler \<Rightarrow> ctrlReply \<times> ShardCtrler" where
  "Ctrler_Query args reply sc = (reply, sc)"

definition Ctrler_StartServer :: "netName ClientEnd list \<Rightarrow> nat \<Rightarrow> nat \<Rightarrow> Persister list \<Rightarrow> bytes list \<Rightarrow> nat \<Rightarrow> ShardCtrler \<times> Raft \<times> bytes list" where
  "Ctrler_StartServer es i ps pers m rf =
     (case Raft_Make es i ps pers m of
        (r, m) \<Rightarrow> (\<lparr>sc_me = i, sc_rf = rf, sc_configs = [zero_Config]\<rparr>, r, m))"

section \<open>The clerk of the sharded service\<close>

definition key2shard :: "string \<Rightarrow> nat" where
  "key2shard key = (case key of [] \<Rightarrow> 0 | c # _ \<Rightarrow> of_char c) mod NShards"

record GetReply =
  get_Err :: string
  get_Value :: string

record PutAppendReply =
  pa_Err :: string

datatype kvArgs =
    GetArgs string
  | PutAppendArgs string string string

record 'e skClerk =
  sm :: "'e list"
  sk_config :: Config

definition SK_MakeClerk :: "'e list \<Rightarrow> 'e skClerk" where
  "SK_MakeClerk ctrlers = \<lparr>sm = ctrlers, sk_config = zero_Config\<rparr>"

text \<open>
  The calls to a server by its name, the end for it being made at once by \<open>make_end\<close>. The loop over the
  servers of a group: it returns, or goes on with the next configuration.
\<close>

type_synonym 'r kvCall = "nat \<Rightarrow> string \<Rightarrow> kvArgs \<Rightarrow> 'r option"

fun get_group :: "GetReply kvCall \<Rightarrow> string \<Rightarrow> string list \<Rightarrow> nat \<Rightarrow> string option \<times> nat" where
  "get_group call key [] t = (None, t)"
| "get_group call key (s # srvl) t =
     (case call t s (GetArgs key) of
        Some reply \<Rightarrow>
          if get_Err reply = ''OK'' \<or> get_Err reply = ''ErrNoKey'' then (Some (get_Value reply), t + 1)
          else if get_Err reply = ''ErrWrongGroup'' then (None, t + 1)
          else get_group call key srvl (t + 1)
      | None \<Rightarrow> get_group call key srvl (t + 1))"

definition group_servers :: "Config \<Rightarrow> string \<Rightarrow> string list option" where
  "group_servers cfg key = Groups cfg (Shards cfg ! key2shard key)"

partial_function (option) SK_Get ::
  "GetReply kvCall \<Rightarrow> 'e ctrlCall \<Rightarrow> string \<Rightarrow> 'e skClerk \<Rightarrow> nat \<Rightarrow> (string \<times> 'e skClerk \<times> nat) option" where
  "SK_Get call ctrl key ck t =
     (case (case group_servers (sk_config ck) key of Some srvl \<Rightarrow> get_group call key srvl t | None \<Rightarrow> (None, t)) of
        (Some v, t) \<Rightarrow> Some (v, ck, t)
      | (None, t) \<Rightarrow>
          (case Query ctrl (sm ck) (-1) t of
             None \<Rightarrow> None
           | Some (cfg, t) \<Rightarrow> SK_Get call ctrl key (ck\<lparr>sk_config := cfg\<rparr>) t))"

fun put_group :: "PutAppendReply kvCall \<Rightarrow> kvArgs \<Rightarrow> string list \<Rightarrow> nat \<Rightarrow> bool \<times> nat" where
  "put_group call args [] t = (False, t)"
| "put_group call args (s # srvl) t =
     (case call t s args of
        Some reply \<Rightarrow>
          if pa_Err reply = ''OK'' then (True, t + 1)
          else if pa_Err reply = ''ErrWrongGroup'' then (False, t + 1)
          else put_group call args srvl (t + 1)
      | None \<Rightarrow> put_group call args srvl (t + 1))"

partial_function (option) SK_PutAppend ::
  "PutAppendReply kvCall \<Rightarrow> 'e ctrlCall \<Rightarrow> string \<Rightarrow> string \<Rightarrow> string \<Rightarrow> 'e skClerk \<Rightarrow> nat \<Rightarrow> ('e skClerk \<times> nat) option" where
  "SK_PutAppend call ctrl key val op ck t =
     (case (case group_servers (sk_config ck) key of
              Some srvl \<Rightarrow> put_group call (PutAppendArgs key val op) srvl t
            | None \<Rightarrow> (False, t)) of
        (returned, t) \<Rightarrow>
          if returned then Some (ck, t)
          else
            (case Query ctrl (sm ck) (-1) t of
               None \<Rightarrow> None
             | Some (cfg, t) \<Rightarrow> SK_PutAppend call ctrl key val op (ck\<lparr>sk_config := cfg\<rparr>) t))"

definition SK_Put :: "PutAppendReply kvCall \<Rightarrow> 'e ctrlCall \<Rightarrow> string \<Rightarrow> string \<Rightarrow> 'e skClerk \<Rightarrow> nat \<Rightarrow> ('e skClerk \<times> nat) option" where
  "SK_Put call ctrl key val ck t = SK_PutAppend call ctrl key val ''Put'' ck t"

definition SK_Append :: "PutAppendReply kvCall \<Rightarrow> 'e ctrlCall \<Rightarrow> string \<Rightarrow> string \<Rightarrow> 'e skClerk \<Rightarrow> nat \<Rightarrow> ('e skClerk \<times> nat) option" where
  "SK_Append call ctrl key val ck t = SK_PutAppend call ctrl key val ''Append'' ck t"

section \<open>Round-robin calls to the controller\<close>

text \<open>The call with number \<open>k\<close> after the start goes to server \<open>k\<close> modulo their number.\<close>

definition accepted :: "'e ctrlCall \<Rightarrow> string \<Rightarrow> ctrlArgs \<Rightarrow> 'e list \<Rightarrow> nat \<Rightarrow> nat \<Rightarrow> ctrlReply option" where
  "accepted call meth args srvl t k =
     (case call (t + k) (srvl ! (k mod length srvl)) meth args of
        Some reply \<Rightarrow> if WrongLeader reply then None else Some reply
      | None \<Rightarrow> None)"

lemma find_map: "find P (map f xs) = map_option f (find (\<lambda>x. P (f x)) xs)"
  by (induction xs) simp_all

lemma try_servers_result:
  "try_servers call meth args srvl t =
     (case find (\<lambda>k. accepted call meth args srvl t k \<noteq> None) [0..<length srvl] of
        Some k \<Rightarrow> (accepted call meth args srvl t k, t + k + 1)
      | None \<Rightarrow> (None, t + length srvl))"
proof -
  define acc where "acc = (\<lambda>k srv. case call k srv meth args of Some reply \<Rightarrow> if WrongLeader reply then None else Some reply | None \<Rightarrow> None)"
  have step: "try_servers call meth args (srv # rest) t =
      (case acc t srv of Some reply \<Rightarrow> (Some reply, t + 1) | None \<Rightarrow> try_servers call meth args rest (t + 1))" for srv rest t
    by (simp add: acc_def split: option.split)
  have gen: "try_servers call meth args ss t =
      (case find (\<lambda>k. acc (t + k) (ss ! k) \<noteq> None) [0..<length ss] of
         Some k \<Rightarrow> (acc (t + k) (ss ! k), t + k + 1) | None \<Rightarrow> (None, t + length ss))" for ss t
  proof (induction ss arbitrary: t)
    case (Cons s ss)
    have upt: "[0..<length (s # ss)] = 0 # map Suc [0..<length ss]" by (simp add: map_Suc_upt upt_conv_Cons del: upt_Suc)
    have "find (\<lambda>k. acc (t + k) ((s # ss) ! k) \<noteq> None) (map Suc [0..<length ss]) =
        map_option Suc (find (\<lambda>k. acc (Suc t + k) (ss ! k) \<noteq> None) [0..<length ss])"
      by (simp add: find_map comp_def)
    then show ?case
      unfolding upt using Cons.IH [of "Suc t"] by (auto simp: step simp del: try_servers.simps split: option.splits)
  qed simp
  have same: "acc (t + k) (srvl ! k) = accepted call meth args srvl t k" if "k < length srvl" for k
    using that by (simp add: acc_def accepted_def)
  have eq: "find (\<lambda>k. acc (t + k) (srvl ! k) \<noteq> None) [0..<length srvl] =
      find (\<lambda>k. accepted call meth args srvl t k \<noteq> None) [0..<length srvl]"
    by (rule find_cong) (simp_all add: same)
  show ?thesis
  proof (cases "find (\<lambda>k. accepted call meth args srvl t k \<noteq> None) [0..<length srvl]")
    case (Some k)
    then have "k < length srvl" by (auto simp: find_Some_iff)
    with Some show ?thesis unfolding gen eq by (simp add: same)
  qed (simp add: gen eq del: not_None_eq)
qed

text \<open>The loop: the first accepted call in this order.\<close>

definition first_accepted :: "'e ctrlCall \<Rightarrow> string \<Rightarrow> ctrlArgs \<Rightarrow> 'e list \<Rightarrow> nat \<Rightarrow> ctrlReply \<Rightarrow> nat \<Rightarrow> bool" where
  "first_accepted call meth args srvl t reply k \<longleftrightarrow> srvl \<noteq> [] \<and> accepted call meth args srvl t k = Some reply \<and>
     (\<forall>j < k. accepted call meth args srvl t j = None)"

lemma accepted_shift: "accepted call meth args srvl (t + length srvl) k = accepted call meth args srvl t (length srvl + k)"
  by (simp add: accepted_def add.assoc)

lemma try_servers_none:
  "try_servers call meth args srvl t = (None, t') \<longleftrightarrow> t' = t + length srvl \<and> (\<forall>k < length srvl. accepted call meth args srvl t k = None)"
  unfolding try_servers_result by (auto simp: find_None_iff find_Some_iff split: option.splits)

lemma try_servers_some:
  "try_servers call meth args srvl t = (Some r, t') \<longleftrightarrow>
     (\<exists>k < length srvl. t' = t + k + 1 \<and> first_accepted call meth args srvl t r k)"
proof
  assume "try_servers call meth args srvl t = (Some r, t')"
  then show "\<exists>k < length srvl. t' = t + k + 1 \<and> first_accepted call meth args srvl t r k"
    unfolding try_servers_result first_accepted_def by (auto simp: find_Some_iff split: option.splits)
next
  assume "\<exists>k < length srvl. t' = t + k + 1 \<and> first_accepted call meth args srvl t r k"
  then obtain k where k: "k < length srvl" "t' = t + k + 1" "first_accepted call meth args srvl t r k" by blast
  then have "find (\<lambda>k. accepted call meth args srvl t k \<noteq> None) [0..<length srvl] = Some k"
    by (auto simp: find_Some_iff first_accepted_def)
  with k show "try_servers call meth args srvl t = (Some r, t')"
    unfolding try_servers_result by (simp add: first_accepted_def del: not_None_eq)
qed

lemma first_accepted_shift:
  assumes "\<forall>k < length srvl. accepted call meth args srvl t k = None"
  shows "first_accepted call meth args srvl (t + length srvl) r k \<longleftrightarrow> first_accepted call meth args srvl t r (length srvl + k)"
proof -
  have "(\<forall>j < length srvl + k. accepted call meth args srvl t j = None) \<longleftrightarrow> (\<forall>j < k. accepted call meth args srvl t (length srvl + j) = None)"
    using assms by (metis add_diff_inverse_nat nat_add_left_cancel_less)
  then show ?thesis by (simp add: first_accepted_def accepted_shift)
qed

lemma ctrl_loop_finds: "first_accepted call meth args srvl t r k \<Longrightarrow> ctrl_loop call meth args srvl t = Some (r, t + k + 1)"
proof (induction k arbitrary: t rule: less_induct)
  case (less k)
  show ?case
  proof (cases "k < length srvl")
    case True
    with less.prems have "try_servers call meth args srvl t = (Some r, t + k + 1)" by (auto simp: try_servers_some)
    then show ?thesis by (subst ctrl_loop.simps) simp
  next
    case False
    with less.prems have none: "\<forall>k < length srvl. accepted call meth args srvl t k = None" by (auto simp: first_accepted_def)
    then have "try_servers call meth args srvl t = (None, t + length srvl)" by (simp add: try_servers_none)
    moreover have "0 < length srvl" using less.prems by (simp add: first_accepted_def)
    with False have "k - length srvl < k" by linarith
    then have "ctrl_loop call meth args srvl (t + length srvl) = Some (r, t + length srvl + (k - length srvl) + 1)"
      using less.IH [of "k - length srvl" "t + length srvl"] less.prems first_accepted_shift [OF none, of r "k - length srvl"] False by simp
    ultimately show ?thesis using False by (subst ctrl_loop.simps) simp
  qed
qed

lemma ctrl_loop_found:
  assumes "ctrl_loop call meth args srvl t = Some (r, t')"
  shows "\<exists>k. t' = t + k + 1 \<and> first_accepted call meth args srvl t r k"
proof -
  have "case y of (r, t') \<Rightarrow> \<exists>k. t' = t + k + 1 \<and> first_accepted call meth args srvl t r k"
    if "ctrl_loop call meth args srvl t = Some y" for y
    using that
  proof (rule ctrl_loop.raw_induct [rotated])
    fix f call meth args srvl t y
    assume IH: "\<And>call meth args srvl t y. f call meth args srvl t = Some y \<Longrightarrow>
        case y of (r, t') \<Rightarrow> \<exists>k. t' = t + k + 1 \<and> first_accepted call meth args srvl t r k"
      and step: "(case try_servers call meth args srvl t of (None, t) \<Rightarrow> f call meth args srvl t | (Some reply, t) \<Rightarrow> Some (reply, t)) = Some y"
    obtain o' t1 where tr: "try_servers call meth args srvl t = (o', t1)" by (cases "try_servers call meth args srvl t")
    show "case y of (r, t') \<Rightarrow> \<exists>k. t' = t + k + 1 \<and> first_accepted call meth args srvl t r k"
    proof (cases o')
      case None
      then have none: "\<forall>k < length srvl. accepted call meth args srvl t k = None" and t1: "t1 = t + length srvl"
        using tr by (simp_all add: try_servers_none)
      obtain r t' where y: "y = (r, t')" by (cases y)
      then obtain k where "t' = t + length srvl + k + 1" "first_accepted call meth args srvl (t + length srvl) r k"
        using step None tr t1 IH [of call meth args srvl t1 y] by auto
      then show ?thesis using first_accepted_shift [OF none] y by (auto intro!: exI [of _ "length srvl + k"])
    next
      case (Some r)
      with step tr have "y = (r, t1)" by simp
      with tr Some show ?thesis by (auto simp: try_servers_some)
    qed
  qed
  from this [OF assms] show ?thesis by simp
qed

lemma ctrl_loop_iff:
  "ctrl_loop call meth args srvl t = Some (r, t') \<longleftrightarrow> (\<exists>k. t' = t + k + 1 \<and> first_accepted call meth args srvl t r k)"
  using ctrl_loop_found ctrl_loop_finds by metis

text \<open>
  C31: a call to the controller returns the reply to the first call, in round-robin order over the servers, that is
  answered by a server that does not say that it is not the leader; it returns if and only if there is such a call.
\<close>

theorem Query_first_accepted:
  "Query call srvl num t = Some (cfg, t') \<longleftrightarrow>
     (\<exists>k reply. t' = t + k + 1 \<and> cfg = reply_Config reply \<and> first_accepted call ''ShardCtrler.Query'' (QueryArgs num) srvl t reply k)"
  by (auto simp: Query_def ctrl_loop_iff)

section \<open>Values come from the owner of the shard\<close>

lemma key2shard_bound: "key2shard key < NShards"
  by (simp add: key2shard_def NShards_def)

text \<open>The first server of a group that answers with a value or that there is none; \<open>ErrWrongGroup\<close> ends the search.\<close>

definition answers :: "GetReply kvCall \<Rightarrow> string \<Rightarrow> string \<Rightarrow> nat \<Rightarrow> string \<Rightarrow> bool" where
  "answers call key s t v \<longleftrightarrow>
     (\<exists>reply. call t s (GetArgs key) = Some reply \<and> get_Err reply \<in> {''OK'', ''ErrNoKey''} \<and> v = get_Value reply)"

lemma get_group_value:
  "get_group call key ss t = (Some v, t') \<Longrightarrow> \<exists>s \<in> set ss. \<exists>t1. t \<le> t1 \<and> t1 < t' \<and> answers call key s t1 v"
proof (induction call key ss t rule: get_group.induct)
  case (2 call key s ss t)
  show ?case
  proof (cases "\<exists>reply. call t s (GetArgs key) = Some reply \<and> (get_Err reply = ''OK'' \<or> get_Err reply = ''ErrNoKey'')")
    case True
    then have "answers call key s t v" "t' = t + 1" using 2(3) by (auto simp: answers_def)
    then show ?thesis by auto
  next
    case False
    then have "get_group call key ss (t + 1) = (Some v, t')" using 2(3) by (auto split: option.splits if_splits)
    moreover from this have "\<exists>s \<in> set ss. \<exists>t1. t + 1 \<le> t1 \<and> t1 < t' \<and> answers call key s t1 v"
      using 2(1,2) False 2(3) by (cases "call t s (GetArgs key)") (auto split: if_splits)
    ultimately show ?thesis by (meson add_leD1 list.set_intros(2))
  qed
qed simp

lemma get_group_time: "get_group call key ss t = (x, t') \<Longrightarrow> t \<le> t'"
  by (induction call key ss t rule: get_group.induct) (fastforce split: option.splits if_splits)+

lemma Query_time: "Query call srvl num t = Some (cfg, t') \<Longrightarrow> t < t'"
  by (auto simp: Query_def ctrl_loop_iff)

text \<open>What a returned value and the configuration of the clerk come from.\<close>

definition fetched :: "GetReply kvCall \<Rightarrow> 'e ctrlCall \<Rightarrow> string \<Rightarrow> 'e skClerk \<Rightarrow> nat \<Rightarrow> string \<times> 'e skClerk \<times> nat \<Rightarrow> bool" where
  "fetched call ctrl key ck t y \<longleftrightarrow>
     (case y of (v, ck', t') \<Rightarrow>
        sm ck' = sm ck \<and>
        (\<exists>ss. group_servers (sk_config ck') key = Some ss \<and> (\<exists>s \<in> set ss. \<exists>t1. t \<le> t1 \<and> t1 < t' \<and> answers call key s t1 v)) \<and>
        (sk_config ck' = sk_config ck \<or> (\<exists>tq tr. Query ctrl (sm ck) (-1) tq = Some (sk_config ck', tr))))"

lemma Get_fetched:
  assumes "SK_Get call ctrl key ck t = Some y"
  shows "fetched call ctrl key ck t y"
  using assms
proof (rule SK_Get.raw_induct [rotated])
  fix f :: "GetReply kvCall \<Rightarrow> 'e ctrlCall \<Rightarrow> string \<Rightarrow> 'e skClerk \<Rightarrow> nat \<Rightarrow> (string \<times> 'e skClerk \<times> nat) option"
    and call ctrl key ck t y
  assume IH: "\<And>call ctrl key ck t y. f call ctrl key ck t = Some y \<Longrightarrow> fetched call ctrl key ck t y"
    and step: "(case (case group_servers (sk_config ck) key of None \<Rightarrow> (None, t) | Some srvl \<Rightarrow> get_group call key srvl t) of
        (None, t) \<Rightarrow> (case Query ctrl (sm ck) (- 1) t of None \<Rightarrow> None | Some (cfg, t) \<Rightarrow> f call ctrl key (ck\<lparr>sk_config := cfg\<rparr>) t)
      | (Some v, t) \<Rightarrow> Some (v, ck, t)) = Some y"
  obtain x t1 where round: "(case group_servers (sk_config ck) key of None \<Rightarrow> (None, t) | Some srvl \<Rightarrow> get_group call key srvl t) = (x, t1)"
    by (cases "case group_servers (sk_config ck) key of None \<Rightarrow> (None, t) | Some srvl \<Rightarrow> get_group call key srvl t")
  show "fetched call ctrl key ck t y"
  proof (cases x)
    case None
    then obtain cfg t2 where q: "Query ctrl (sm ck) (-1) t1 = Some (cfg, t2)" and rec: "f call ctrl key (ck\<lparr>sk_config := cfg\<rparr>) t2 = Some y"
      using step round by (auto split: option.splits)
    have "t \<le> t1" using round get_group_time by (auto split: option.splits)
    then have "t \<le> t2" using Query_time [OF q] by simp
    obtain v ck' t' where y: "y = (v, ck', t')" by (cases y)
    note r = IH [OF rec, unfolded fetched_def y prod.case]
    then obtain ss s t3 where o: "group_servers (sk_config ck') key = Some ss" "s \<in> set ss" "t2 \<le> t3" "t3 < t'" "answers call key s t3 v" by blast
    from \<open>t \<le> t2\<close> o(3) have "t \<le> t3" by simp
    with o r q show ?thesis unfolding fetched_def y prod.case by auto
  next
    case (Some v)
    with step round have y: "y = (v, ck, t1)" by simp
    obtain ss where "group_servers (sk_config ck) key = Some ss" "get_group call key ss t = (Some v, t1)"
      using round Some by (auto split: option.splits)
    with get_group_value [of call key ss t v t1] show ?thesis by (auto simp: fetched_def y)
  qed
qed


text \<open>When a server of the group answers, and none says that the group is wrong, a pass over the group returns.\<close>

lemma get_group_returns:
  assumes "s \<in> set ss" "\<forall>t. \<exists>v. answers call key s t v"
    and "\<forall>s \<in> set ss. \<forall>t reply. call t s (GetArgs key) = Some reply \<longrightarrow> get_Err reply \<noteq> ''ErrWrongGroup''"
  shows "\<exists>v t'. get_group call key ss t = (Some v, t')"
  using assms
proof (induction ss arbitrary: t)
  case (Cons s1 ss)
  show ?case
  proof (cases "s = s1")
    case True
    with Cons.prems(2) obtain v where "answers call key s1 t v" by blast
    then show ?thesis by (auto simp: answers_def)
  next
    case False
    then have "s \<in> set ss" using Cons.prems(1) by simp
    then obtain v t' where "get_group call key ss (t + 1) = (Some v, t')" using Cons.IH [of "t + 1"] Cons.prems(2,3) by auto
    with Cons.prems(3) show ?thesis by (cases "call t s1 (GetArgs key)") auto
  qed
qed simp

text \<open>
  \<open>Get\<close> returns when the controller answers with a configuration in which the group of the key has a server that answers and none
  that refuses the shard, whatever configuration the clerk had before.
\<close>

theorem Get_returns:
  assumes "\<forall>t. \<exists>t'. Query ctrl (sm ck) (-1) t = Some (cfg, t')" and "group_servers cfg key = Some ss"
    and "s \<in> set ss" "\<forall>t. \<exists>v. answers call key s t v"
    and "\<forall>s \<in> set ss. \<forall>t reply. call t s (GetArgs key) = Some reply \<longrightarrow> get_Err reply \<noteq> ''ErrWrongGroup''"
  shows "\<exists>v ck' t'. SK_Get call ctrl key ck t = Some (v, ck', t')"
proof -
  obtain x t1 where round: "(case group_servers (sk_config ck) key of None \<Rightarrow> (None, t) | Some srvl \<Rightarrow> get_group call key srvl t) = (x, t1)"
    by (cases "case group_servers (sk_config ck) key of None \<Rightarrow> (None, t) | Some srvl \<Rightarrow> get_group call key srvl t")
  show ?thesis
  proof (cases x)
    case None
    obtain t2 where q: "Query ctrl (sm ck) (-1) t1 = Some (cfg, t2)" using assms(1) by blast
    obtain v t3 where g: "get_group call key ss t2 = (Some v, t3)" using get_group_returns [OF assms(3-5)] by blast
    have "SK_Get call ctrl key (ck\<lparr>sk_config := cfg\<rparr>) t2 = Some (v, ck\<lparr>sk_config := cfg\<rparr>, t3)"
      by (subst SK_Get.simps) (simp add: assms(2) g)
    then have "SK_Get call ctrl key ck t = Some (v, ck\<lparr>sk_config := cfg\<rparr>, t3)"
      by (subst SK_Get.simps) (simp add: round None q)
    then show ?thesis by blast
  next
    case (Some v)
    then have "SK_Get call ctrl key ck t = Some (v, ck, t1)" by (subst SK_Get.simps) (simp add: round)
    then show ?thesis by blast
  qed
qed

section \<open>The handlers of the repository\<close>

definition zero_ctrlReply :: ctrlReply where
  "zero_ctrlReply = \<lparr>WrongLeader = False, ctrl_Err = '''', reply_Config = zero_Config\<rparr>"

text \<open>Calls to controllers that run these handlers; \<open>up\<close> tells when the network delivers a call.\<close>

definition ctrler_call :: "(nat \<Rightarrow> 'e \<Rightarrow> bool) \<Rightarrow> ShardCtrler \<Rightarrow> 'e ctrlCall" where
  "ctrler_call up sc t srv meth args =
     (if \<not> up t srv then None
      else if meth = ''ShardCtrler.Join'' then Some (fst (Ctrler_Join args zero_ctrlReply sc))
      else if meth = ''ShardCtrler.Leave'' then Some (fst (Ctrler_Leave args zero_ctrlReply sc))
      else if meth = ''ShardCtrler.Move'' then Some (fst (Ctrler_Move args zero_ctrlReply sc))
      else if meth = ''ShardCtrler.Query'' then Some (fst (Ctrler_Query args zero_ctrlReply sc))
      else None)"

lemma skeleton_query: "Query (ctrler_call up sc) srvl num t = Some (cfg, t') \<Longrightarrow> cfg = zero_Config"
  by (auto simp: Query_def ctrl_loop_iff first_accepted_def accepted_def ctrler_call_def Ctrler_Query_def zero_ctrlReply_def
      split: option.splits if_splits)

text \<open>
  With the controller handlers of the repository, which leave the reply empty, every configuration is the
  zero configuration without groups, and no \<open>Get\<close> of a new clerk returns, whatever the servers answer.
\<close>

theorem skeleton_get_hangs: "SK_Get call (ctrler_call up sc) key (SK_MakeClerk ctrlers) t = None"
proof (rule ccontr)
  assume "SK_Get call (ctrler_call up sc) key (SK_MakeClerk ctrlers) t \<noteq> None"
  then obtain y where "SK_Get call (ctrler_call up sc) key (SK_MakeClerk ctrlers) t = Some y" by blast
  from Get_fetched [OF this] obtain v ck' t' where f: "fetched call (ctrler_call up sc) key (SK_MakeClerk ctrlers) t (v, ck', t')"
    by (cases y) auto
  then have "sk_config ck' = zero_Config" using skeleton_query unfolding fetched_def SK_MakeClerk_def by fastforce
  with f show False by (simp add: fetched_def group_servers_def zero_Config_def)
qed

section \<open>Writes\<close>

lemma put_group_ok:
  "put_group call args ss t = (True, t') \<Longrightarrow> \<exists>s \<in> set ss. \<exists>t1 reply. t \<le> t1 \<and> t1 < t' \<and> call t1 s args = Some reply \<and> pa_Err reply = ''OK''"
proof (induction call args ss t rule: put_group.induct)
  case (2 call args s ss t)
  show ?case
  proof (cases "\<exists>reply. call t s args = Some reply \<and> pa_Err reply = ''OK''")
    case True
    then show ?thesis using 2(3) by (intro bexI [of _ s] exI [of _ t]) auto
  next
    case False
    then have "put_group call args ss (t + 1) = (True, t')" using 2(3) by (auto split: option.splits if_splits)
    moreover from this have "\<exists>s \<in> set ss. \<exists>t1 reply. t + 1 \<le> t1 \<and> t1 < t' \<and> call t1 s args = Some reply \<and> pa_Err reply = ''OK''"
      using 2(1,2) False 2(3) by (cases "call t s args") (auto split: if_splits)
    ultimately show ?thesis by (meson add_leD1 list.set_intros(2))
  qed
qed simp

definition stored :: "PutAppendReply kvCall \<Rightarrow> kvArgs \<Rightarrow> string \<Rightarrow> 'e skClerk \<times> nat \<Rightarrow> bool" where
  "stored call args key y \<longleftrightarrow>
     (case y of (ck', t') \<Rightarrow> \<exists>ss s t1 reply. group_servers (sk_config ck') key = Some ss \<and> s \<in> set ss \<and> t1 < t' \<and>
        call t1 s args = Some reply \<and> pa_Err reply = ''OK'')"

lemma PutAppend_stored:
  fixes ctrl :: "'e ctrlCall"
  assumes "SK_PutAppend call ctrl key val op ck t = Some y"
  shows "stored call (PutAppendArgs key val op) key y"
  using assms
proof (rule SK_PutAppend.raw_induct [rotated])
  fix f :: "PutAppendReply kvCall \<Rightarrow> 'e ctrlCall \<Rightarrow> string \<Rightarrow> string \<Rightarrow> string \<Rightarrow> 'e skClerk \<Rightarrow> nat \<Rightarrow> ('e skClerk \<times> nat) option"
    and call and ctrl :: "'e ctrlCall" and key val op and ck :: "'e skClerk" and t y
  let ?args = "PutAppendArgs key val op"
  let ?round = "case group_servers (sk_config ck) key of None \<Rightarrow> (False, t) | Some srvl \<Rightarrow> put_group call ?args srvl t"
  assume IH: "\<And>call ctrl key val op ck t y. f call ctrl key val op ck t = Some y \<Longrightarrow> stored call (PutAppendArgs key val op) key y"
    and step: "(case ?round of (returned, t) \<Rightarrow> if returned then Some (ck, t)
        else (case Query ctrl (sm ck) (- 1) t of None \<Rightarrow> None | Some (cfg, t) \<Rightarrow> f call ctrl key val op (ck\<lparr>sk_config := cfg\<rparr>) t)) = Some y"
  obtain b t1 where round: "?round = (b, t1)" by (cases ?round)
  show "stored call ?args key y"
  proof (cases b)
    case True
    with step round have y: "y = (ck, t1)" by simp
    obtain ss where "group_servers (sk_config ck) key = Some ss" "put_group call ?args ss t = (True, t1)"
      using round True by (auto split: option.splits)
    with put_group_ok [of call ?args ss t t1] show ?thesis unfolding stored_def y prod.case by blast
  next
    case False
    then obtain cfg t2 where "f call ctrl key val op (ck\<lparr>sk_config := cfg\<rparr>) t2 = Some y"
      using step round by (auto split: option.splits)
    then show ?thesis by (rule IH)
  qed
qed

text \<open>
  \<open>Put\<close> and \<open>Append\<close> return only after a server of the group that holds the shard of the key in the clerk's
  configuration has answered OK to this very request.
\<close>

theorem PutAppend_acknowledged:
  assumes "SK_PutAppend call ctrl key val op ck t = Some (ck', t')"
  shows "\<exists>ss s t1 reply. group_servers (sk_config ck') key = Some ss \<and> s \<in> set ss \<and> t1 < t' \<and>
    call t1 s (PutAppendArgs key val op) = Some reply \<and> pa_Err reply = ''OK''"
  using PutAppend_stored [OF assms] by (simp add: stored_def)

section \<open>An example\<close>

text \<open>
  Group 100 holds all shards; its first server is not reachable. The clerk starts with the zero configuration
  and asks the controller.
\<close>

definition ex_config :: Config where
  "ex_config = \<lparr>Num = 1, Shards = replicate NShards 100, Groups = (\<lambda>g. if g = 100 then Some [''s0'', ''s1''] else None)\<rparr>"

definition ex_ctrl :: "nat ctrlCall" where
  "ex_ctrl t srv meth args = (if srv = 0 then None else Some \<lparr>WrongLeader = False, ctrl_Err = ''OK'', reply_Config = ex_config\<rparr>)"

definition ex_get :: "GetReply kvCall" where
  "ex_get t s args = (if s = ''s1'' then Some \<lparr>get_Err = ''OK'', get_Value = ''x''\<rparr> else None)"

definition ex_put :: "PutAppendReply kvCall" where
  "ex_put t s args = (if s = ''s1'' then Some \<lparr>pa_Err = ''OK''\<rparr> else None)"

abbreviation ex_clerk :: "nat skClerk" where
  "ex_clerk \<equiv> SK_MakeClerk [0, Suc 0]"

lemma ex_query: "Query ex_ctrl [0, Suc 0] num t = Some (ex_config, t + 2)"
  by (subst Query_def, subst ctrl_loop.simps) (simp add: ex_ctrl_def)

lemma ex_group: "group_servers ex_config ''k'' = Some [''s0'', ''s1'']" "group_servers zero_Config ''k'' = None"
  using key2shard_bound [of "''k''"] by (simp_all add: group_servers_def ex_config_def zero_Config_def)

lemma ex_runs:
  "SK_Get ex_get ex_ctrl ''k'' ex_clerk 0 = Some (''x'', ex_clerk\<lparr>sk_config := ex_config\<rparr>, 4)"
  "SK_PutAppend ex_put ex_ctrl ''k'' ''x'' ''Put'' ex_clerk 0 = Some (ex_clerk\<lparr>sk_config := ex_config\<rparr>, 4)"
proof -
  let ?ck = "ex_clerk\<lparr>sk_config := ex_config\<rparr>"
  have "SK_Get ex_get ex_ctrl ''k'' ?ck (Suc (Suc 0)) = Some (''x'', ?ck, 4)" by (subst SK_Get.simps) (simp add: ex_group ex_get_def)
  then show "SK_Get ex_get ex_ctrl ''k'' ex_clerk 0 = Some (''x'', ?ck, 4)"
    by (subst SK_Get.simps) (simp add: ex_group ex_query SK_MakeClerk_def)
  have "SK_PutAppend ex_put ex_ctrl ''k'' ''x'' ''Put'' ?ck (Suc (Suc 0)) = Some (?ck, 4)" by (subst SK_PutAppend.simps) (simp add: ex_group ex_put_def)
  then show "SK_PutAppend ex_put ex_ctrl ''k'' ''x'' ''Put'' ex_clerk 0 = Some (?ck, 4)"
    by (subst SK_PutAppend.simps) (simp add: ex_group ex_query SK_MakeClerk_def)
qed


theorem PutAppend_acknowledged_witness:
  "\<exists>ss s t1 reply. group_servers ex_config ''k'' = Some ss \<and> s \<in> set ss \<and> t1 < 4 \<and>
    ex_put t1 s (PutAppendArgs ''k'' ''x'' ''Put'') = Some reply \<and> pa_Err reply = ''OK''"
  using PutAppend_acknowledged [OF ex_runs(2)] by auto

theorem Get_returns_witness: "\<exists>v ck' t'. SK_Get ex_get ex_ctrl ''k'' ex_clerk 0 = Some (v, ck', t')"
  by (rule Get_returns [of ex_ctrl ex_clerk ex_config "''k''" "[''s0'', ''s1'']" "''s1''" ex_get 0])
    (simp_all add: ex_query ex_group SK_MakeClerk_def answers_def ex_get_def)

end
