(* ===== verification/Shard_Config.thy ===== *)
theory Shard_Config
  imports Shard_Client
begin

text \<open>
  The test bed of the sharded key-value service (\<^verbatim>\<open>Lab3/src/shardkv/config.go\<close>, with the server object of
  \<^verbatim>\<open>shardkv/server.go\<close>): three controllers and three groups of servers on one network. The theorems: the names of
  servers differ; making a test bed succeeds exactly up to three servers per group, and a client can then be made
  only with three; the names that a group joins with are those of its running servers.
\<close>

section \<open>Definitions\<close>

definition ctrlername :: "nat \<Rightarrow> string" where
  "ctrlername i = ''ctrler'' @ Itoa i"

definition servername :: "int \<Rightarrow> nat \<Rightarrow> string" where
  "servername gid i = ''server-'' @ Itoa_int gid @ ''-'' @ Itoa i"

record ShardKV =
  skv_me :: nat
  skv_rf :: nat
  skv_gid :: int
  skv_ctrlers :: "netName ClientEnd list"
  skv_maxraftstate :: int

record group =
  gid :: int
  g_servers :: "nat option list"
  g_saved :: "nat option list"
  g_endnames :: "string list option list"
  mendnames :: "string list option list"

text \<open>Pointers are numbers as in \<open>Raft_Config\<close>. The controllers' clerk \<open>mck\<close> is the list of its ends.\<close>

record 'v skconfig =
  sk_net :: "netName Network"
  nctrlers :: nat
  ctrlerservers :: "nat option list"
  mck :: "netName ClientEnd list"
  ngroups :: nat
  sk_n :: nat
  groups :: "group list"
  sk_clerks :: "nat \<Rightarrow> string list option"
  sk_nextClientId :: int
  sk_maxraftstate :: int
  skv_objs :: "ShardKV list"
  ctrler_objs :: "ShardCtrler list"
  sk_clerk_objs :: "netName ClientEnd skClerk list"
  sk_raft_objs :: "Raft list"
  sk_persister_objs :: "Persister list"
  sk_server_objs :: "('v, unit) Server list"
  sk_mem :: "bytes list"

text \<open>An end with a random name that is connected to a server and enabled; the function \<open>make_end\<close> of clerks and servers.\<close>

definition make_end :: "string \<Rightarrow> string \<Rightarrow> netName Network \<Rightarrow> string + netName ClientEnd \<times> netName Network" where
  "make_end name server rn =
     (case MakeEnd (Some (StrName name)) rn of
        Inl e \<Rightarrow> Inl e
      | Inr (ce, rn) \<Rightarrow> Inr (ce, Enable (Some (StrName name)) True (Connect (Some (StrName name)) (Some (StrName server)) rn)))"

fun open_ends :: "(string \<times> string) list \<Rightarrow> netName Network \<Rightarrow> string + netName ClientEnd list \<times> netName Network" where
  "open_ends [] rn = Inr ([], rn)"
| "open_ends ((name, server) # es) rn =
     (case make_end name server rn of
        Inl e \<Rightarrow> Inl e
      | Inr (ce, rn) \<Rightarrow> (case open_ends es rn of Inl e \<Rightarrow> Inl e | Inr (ces, rn) \<Rightarrow> Inr (ce # ces, rn)))"

definition to_ctrlers :: "string list \<Rightarrow> 'v skconfig \<Rightarrow> (string \<times> string) list" where
  "to_ctrlers names cfg = zip names (map ctrlername [0..<nctrlers cfg])"

text \<open>\<open>names\<close> are random. The slice of names has one entry per server of a group, not per controller.\<close>

definition sk_makeClient :: "string list \<Rightarrow> 'v skconfig \<Rightarrow> string + nat \<times> 'v skconfig" where
  "sk_makeClient names cfg =
     (case open_ends (take (sk_n cfg) (to_ctrlers names cfg)) (sk_net cfg) of
        Inl e \<Rightarrow> Inl e
      | Inr (es, rn) \<Rightarrow>
          if sk_n cfg < nctrlers cfg then Inl ''index out of range''
          else
            let ck = length (sk_clerk_objs cfg) in
            Inr (ck, cfg\<lparr>sk_net := rn, sk_clerk_objs := sk_clerk_objs cfg @ [SK_MakeClerk es],
                         sk_clerks := (sk_clerks cfg)(ck \<mapsto> names @ replicate (sk_n cfg - nctrlers cfg) ''''),
                         sk_nextClientId := sk_nextClientId cfg + 1\<rparr>))"

definition sk_deleteClient :: "nat \<Rightarrow> 'v skconfig \<Rightarrow> 'v skconfig" where
  "sk_deleteClient ck cfg = cfg\<lparr>sk_clerks := (sk_clerks cfg)(ck := None)\<rparr>"

definition set_group :: "nat \<Rightarrow> (group \<Rightarrow> group) \<Rightarrow> 'v skconfig \<Rightarrow> 'v skconfig" where
  "set_group gi f cfg = cfg\<lparr>groups := (groups cfg)[gi := f (groups cfg ! gi)]\<rparr>"

definition copy_group_saved :: "nat \<Rightarrow> nat \<Rightarrow> 'v skconfig \<Rightarrow> 'v skconfig" where
  "copy_group_saved gi i cfg =
     (case g_saved (groups cfg ! gi) ! i of
        None \<Rightarrow> cfg
      | Some p \<Rightarrow>
          set_group gi (\<lambda>gg. gg\<lparr>g_saved := (g_saved gg)[i := Some (length (sk_persister_objs cfg))]\<rparr>)
            (cfg\<lparr>sk_persister_objs := sk_persister_objs cfg @ [Persister_Copy (sk_persister_objs cfg ! p)]\<rparr>))"

definition prepare_group_saved :: "nat \<Rightarrow> nat \<Rightarrow> 'v skconfig \<Rightarrow> 'v skconfig" where
  "prepare_group_saved gi i cfg =
     (case g_saved (groups cfg ! gi) ! i of
        Some _ \<Rightarrow> copy_group_saved gi i cfg
      | None \<Rightarrow>
          set_group gi (\<lambda>gg. gg\<lparr>g_saved := (g_saved gg)[i := Some (length (sk_persister_objs cfg))]\<rparr>)
            (cfg\<lparr>sk_persister_objs := sk_persister_objs cfg @ [MakePersister]\<rparr>))"

definition kill_group_server :: "nat \<Rightarrow> nat \<Rightarrow> 'v skconfig \<Rightarrow> 'v skconfig" where
  "kill_group_server gi i cfg =
     (case g_servers (groups cfg ! gi) ! i of
        None \<Rightarrow> cfg
      | Some s \<Rightarrow>
          let rf = skv_rf (skv_objs cfg ! s) in
          set_group gi (\<lambda>gg. gg\<lparr>g_servers := (g_servers gg)[i := None]\<rparr>)
            (cfg\<lparr>sk_raft_objs := (sk_raft_objs cfg)[rf := Kill (sk_raft_objs cfg ! rf)]\<rparr>))"

text \<open>A row that is nil has no entries, and a row number that is out of range panics.\<close>

definition sk_ShutdownServer :: "nat \<Rightarrow> nat \<Rightarrow> 'v skconfig \<Rightarrow> string + 'v skconfig" where
  "sk_ShutdownServer gi i cfg =
     (let gg = groups cfg ! gi in
      (case enable_ends False (map (\<lambda>j. end_of (g_endnames gg) i j) [0..<length (g_servers gg)]) (sk_net cfg) of
         Inl e \<Rightarrow> Inl e
       | Inr rn \<Rightarrow>
           if length (mendnames gg) \<le> i then Inl ''index out of range''
           else
             (case enable_ends False (map Some (case mendnames gg ! i of None \<Rightarrow> [] | Some xs \<Rightarrow> xs)) rn of
                Inl e \<Rightarrow> Inl e
              | Inr rn \<Rightarrow>
                  Inr (kill_group_server gi i
                        (copy_group_saved gi i (cfg\<lparr>sk_net := DeleteServer (Some (StrName (servername (gid gg) i))) rn\<rparr>))))))"

fun shutdown_each :: "nat \<Rightarrow> nat list \<Rightarrow> 'v skconfig \<Rightarrow> string + 'v skconfig" where
  "shutdown_each gi [] cfg = Inr cfg"
| "shutdown_each gi (i # is) cfg = (case sk_ShutdownServer gi i cfg of Inl e \<Rightarrow> Inl e | Inr cfg \<Rightarrow> shutdown_each gi is cfg)"

definition ShutdownGroup :: "nat \<Rightarrow> 'v skconfig \<Rightarrow> string + 'v skconfig" where
  "ShutdownGroup gi cfg = shutdown_each gi [0..<sk_n cfg] cfg"

text \<open>The methods of the servers that reflection finds; the handlers leave the reply as it is.\<close>

definition handler :: "string \<Rightarrow> string \<Rightarrow> ('v, 'o) Method" where
  "handler typ name =
     \<lparr>m_Name = name, m_PkgPath = '''', m_In = [Ptr (Named typ), Ptr (Named (name @ ''Args'')), Ptr (Named (name @ ''Reply''))], m_NumOut = 0,
      m_Func = (\<lambda>ob a r. (ob, r))\<rparr>"

definition kill_method :: "string \<Rightarrow> ('v, 'o) Method" where
  "kill_method typ = \<lparr>m_Name = ''Kill'', m_PkgPath = '''', m_In = [Ptr (Named typ)], m_NumOut = 0, m_Func = (\<lambda>ob a r. (ob, r))\<rparr>"

definition shardkv_methods :: "('v, 'o) Method list" where
  "shardkv_methods = [handler ''ShardKV'' ''Get'', kill_method ''ShardKV'', handler ''ShardKV'' ''PutAppend'']"

definition ctrler_methods :: "('v, 'o) Method list" where
  "ctrler_methods =
     [handler ''ShardCtrler'' ''Join'', kill_method ''ShardCtrler'', handler ''ShardCtrler'' ''Leave'', handler ''ShardCtrler'' ''Move'',
      handler ''ShardCtrler'' ''Query'',
      \<lparr>m_Name = ''Raft'', m_PkgPath = '''', m_In = [Ptr (Named ''ShardCtrler'')], m_NumOut = 1, m_Func = (\<lambda>ob a r. (ob, r))\<rparr>]"

text \<open>The server object of the service (\<open>StartServer\<close> of \<^verbatim>\<open>server.go\<close>), and its registration with that of its Raft object.\<close>

definition SKV_StartServer ::
  "netName ClientEnd list \<Rightarrow> nat \<Rightarrow> nat \<Rightarrow> int \<Rightarrow> int \<Rightarrow> netName ClientEnd list \<Rightarrow> 'v skconfig \<Rightarrow> nat \<times> 'v skconfig" where
  "SKV_StartServer es i ps maxraft g mends cfg =
     (case Raft_Make es i ps (sk_persister_objs cfg) (sk_mem cfg) of
        (rf, m) \<Rightarrow>
          (length (skv_objs cfg),
           cfg\<lparr>sk_mem := m, sk_raft_objs := sk_raft_objs cfg @ [rf],
               skv_objs := skv_objs cfg @ [\<lparr>skv_me = i, skv_rf = length (sk_raft_objs cfg), skv_gid = g, skv_ctrlers = mends, skv_maxraftstate = maxraft\<rparr>]\<rparr>))"

definition register :: "string \<Rightarrow> string \<Rightarrow> nat \<Rightarrow> ('v, unit) Method list \<Rightarrow> nat \<Rightarrow> 'v skconfig \<Rightarrow> 'v skconfig" where
  "register name typ ob methods rf cfg =
     (let srv = AddService (MakeService ''Raft'' rf raft_methods) (AddService (MakeService typ ob methods) MakeServer) in
      cfg\<lparr>sk_server_objs := sk_server_objs cfg @ [srv],
          sk_net := AddServer (Some (StrName name)) (length (sk_server_objs cfg)) (sk_net cfg)\<rparr>)"

text \<open>There is one row of controller ends per controller, not per server of the group.\<close>

definition sk_StartServer :: "string list \<Rightarrow> string list \<Rightarrow> nat \<Rightarrow> nat \<Rightarrow> 'v skconfig \<Rightarrow> string + 'v skconfig" where
  "sk_StartServer names mnames gi i cfg =
     (let cfg = set_group gi (\<lambda>gg. gg\<lparr>g_endnames := (g_endnames gg)[i := Some names]\<rparr>) cfg;
          g = gid (groups cfg ! gi) in
      (case open_ends (zip names (map (servername g) [0..<sk_n cfg])) (sk_net cfg) of
         Inl e \<Rightarrow> Inl e
       | Inr (es, rn) \<Rightarrow>
           if length (mendnames (groups cfg ! gi)) \<le> i then Inl ''index out of range''
           else
             (case open_ends (to_ctrlers mnames cfg) rn of
                Inl e \<Rightarrow> Inl e
              | Inr (mends, rn) \<Rightarrow>
                  let cfg = set_group gi (\<lambda>gg. gg\<lparr>mendnames := (mendnames gg)[i := Some mnames]\<rparr>) (cfg\<lparr>sk_net := rn\<rparr>);
                      cfg = prepare_group_saved gi i cfg in
                  (case SKV_StartServer es i (the (g_saved (groups cfg ! gi) ! i)) (sk_maxraftstate cfg) g mends cfg of
                     (s, cfg) \<Rightarrow>
                       Inr (register (servername g i) ''ShardKV'' s shardkv_methods (skv_rf (skv_objs cfg ! s))
                             (set_group gi (\<lambda>gg. gg\<lparr>g_servers := (g_servers gg)[i := Some s]\<rparr>) cfg))))))"

fun start_each :: "(nat \<Rightarrow> string list) \<Rightarrow> (nat \<Rightarrow> string list) \<Rightarrow> nat \<Rightarrow> nat list \<Rightarrow> 'v skconfig \<Rightarrow> string + 'v skconfig" where
  "start_each names mnames gi [] cfg = Inr cfg"
| "start_each names mnames gi (i # is) cfg =
     (case sk_StartServer (names i) (mnames i) gi i cfg of Inl e \<Rightarrow> Inl e | Inr cfg \<Rightarrow> start_each names mnames gi is cfg)"

definition StartGroup :: "(nat \<Rightarrow> string list) \<Rightarrow> (nat \<Rightarrow> string list) \<Rightarrow> nat \<Rightarrow> 'v skconfig \<Rightarrow> string + 'v skconfig" where
  "StartGroup names mnames gi cfg = start_each names mnames gi [0..<sk_n cfg] cfg"

definition StartCtrlerserver :: "string list \<Rightarrow> nat \<Rightarrow> 'v skconfig \<Rightarrow> string + 'v skconfig" where
  "StartCtrlerserver names i cfg =
     (case open_ends (to_ctrlers names cfg) (sk_net cfg) of
        Inl e \<Rightarrow> Inl e
      | Inr (es, rn) \<Rightarrow>
          let p = length (sk_persister_objs cfg);
              cfg = cfg\<lparr>sk_net := rn, sk_persister_objs := sk_persister_objs cfg @ [MakePersister]\<rparr> in
          (case Ctrler_StartServer es i p (sk_persister_objs cfg) (sk_mem cfg) (length (sk_raft_objs cfg)) of
             (sc, rf, m) \<Rightarrow>
               Inr (register (ctrlername i) ''ShardCtrler'' (length (ctrler_objs cfg)) ctrler_methods (length (sk_raft_objs cfg))
                     (cfg\<lparr>sk_mem := m, sk_raft_objs := sk_raft_objs cfg @ [rf], ctrler_objs := ctrler_objs cfg @ [sc],
                          ctrlerservers := (ctrlerservers cfg)[i := Some (length (ctrler_objs cfg))]\<rparr>))))"

fun start_ctrlers :: "(nat \<Rightarrow> string list) \<Rightarrow> nat list \<Rightarrow> 'v skconfig \<Rightarrow> string + 'v skconfig" where
  "start_ctrlers names [] cfg = Inr cfg"
| "start_ctrlers names (i # is) cfg =
     (case StartCtrlerserver (names i) i cfg of Inl e \<Rightarrow> Inl e | Inr cfg \<Rightarrow> start_ctrlers names is cfg)"

definition shardclerk :: "string list \<Rightarrow> 'v skconfig \<Rightarrow> string + netName ClientEnd list \<times> 'v skconfig" where
  "shardclerk names cfg =
     (case open_ends (to_ctrlers names cfg) (sk_net cfg) of Inl e \<Rightarrow> Inl e | Inr (es, rn) \<Rightarrow> Inr (es, cfg\<lparr>sk_net := rn\<rparr>))"

text \<open>The groups that join, and the call of the controller; \<open>None\<close> is a call that does not return.\<close>

definition join_groups :: "nat list \<Rightarrow> 'v skconfig \<Rightarrow> int \<Rightarrow> string list option" where
  "join_groups gis cfg =
     foldl (\<lambda>m g. m(gid (groups cfg ! g) \<mapsto> map (servername (gid (groups cfg ! g))) [0..<sk_n cfg])) (\<lambda>_. None) gis"

definition joinm :: "netName ClientEnd ctrlCall \<Rightarrow> nat list \<Rightarrow> nat \<Rightarrow> 'v skconfig \<Rightarrow> nat option" where
  "joinm call gis t cfg = Join call (mck cfg) (join_groups gis cfg) t"

definition leavem :: "netName ClientEnd ctrlCall \<Rightarrow> nat list \<Rightarrow> nat \<Rightarrow> 'v skconfig \<Rightarrow> nat option" where
  "leavem call gis t cfg = Leave call (mck cfg) (map (\<lambda>g. gid (groups cfg ! g)) gis) t"

text \<open>The groups of a test bed are made one after the other, each with its servers.\<close>

definition new_group :: "nat \<Rightarrow> 'v skconfig \<Rightarrow> group" where
  "new_group gi cfg =
     \<lparr>gid = 100 + int gi, g_servers = replicate (sk_n cfg) None, g_saved = replicate (sk_n cfg) None,
      g_endnames = replicate (sk_n cfg) None, mendnames = replicate (nctrlers cfg) None\<rparr>"

fun make_groups :: "(nat \<Rightarrow> nat \<Rightarrow> string list) \<Rightarrow> (nat \<Rightarrow> nat \<Rightarrow> string list) \<Rightarrow> nat list \<Rightarrow> 'v skconfig \<Rightarrow> string + 'v skconfig" where
  "make_groups names mnames [] cfg = Inr cfg"
| "make_groups names mnames (gi # gis) cfg =
     (case start_each (names gi) (mnames gi) gi [0..<sk_n cfg] (set_group gi (\<lambda>_. new_group gi cfg) cfg) of
        Inl e \<Rightarrow> Inl e
      | Inr cfg \<Rightarrow> make_groups names mnames gis cfg)"

definition empty_skconfig :: "int \<Rightarrow> 'v skconfig" where
  "empty_skconfig maxraft =
     \<lparr>sk_net = MakeNetwork, nctrlers = 3, ctrlerservers = replicate 3 None, mck = [], ngroups = 0, sk_n = 0, groups = [],
      sk_clerks = (\<lambda>_. None), sk_nextClientId = 0, sk_maxraftstate = maxraft, skv_objs = [], ctrler_objs = [], sk_clerk_objs = [],
      sk_raft_objs = [], sk_persister_objs = [], sk_server_objs = [], sk_mem = []\<rparr>"

text \<open>\<open>cnames\<close>, \<open>kname\<close>, \<open>names\<close> and \<open>mnames\<close> are the random names for the controllers, their clerk, and the servers.\<close>

definition make_skconfig ::
  "(nat \<Rightarrow> string list) \<Rightarrow> string list \<Rightarrow> (nat \<Rightarrow> nat \<Rightarrow> string list) \<Rightarrow> (nat \<Rightarrow> nat \<Rightarrow> string list) \<Rightarrow> nat \<Rightarrow> bool \<Rightarrow> int \<Rightarrow>
     string + 'v skconfig" where
  "make_skconfig cnames kname names mnames n unreliable maxraft =
     (case start_ctrlers cnames [0..<3] (empty_skconfig maxraft) of
        Inl e \<Rightarrow> Inl e
      | Inr cfg \<Rightarrow>
          (case shardclerk kname cfg of
             Inl e \<Rightarrow> Inl e
           | Inr (es, cfg) \<Rightarrow>
               let dummy = \<lparr>gid = 0, g_servers = [], g_saved = [], g_endnames = [], mendnames = []\<rparr>;
                   cfg = cfg\<lparr>mck := es, ngroups := 3, groups := replicate 3 dummy, sk_n := n\<rparr> in
               (case make_groups names mnames [0..<3] cfg of
                  Inl e \<Rightarrow> Inl e
                | Inr cfg \<Rightarrow>
                    Inr (cfg\<lparr>sk_clerks := (\<lambda>_. None), sk_nextClientId := int n + 1000, sk_net := Reliable (\<not> unreliable) (sk_net cfg)\<rparr>))))"

text \<open>\<open>Some\<close> text is the failure of the test.\<close>

definition check_log :: "'v skconfig \<Rightarrow> nat \<Rightarrow> nat \<Rightarrow> string option" where
  "check_log cfg gi i =
     (case g_saved (groups cfg ! gi) ! i of
        None \<Rightarrow> Some ''nil pointer dereference''
      | Some p \<Rightarrow>
          let ps = sk_persister_objs cfg ! p; raft = int (RaftStateSize ps (sk_mem cfg));
              (snap, m) = ReadSnapshot ps (sk_mem cfg) in
          if sk_maxraftstate cfg \<ge> 0 \<and> raft > 8 * sk_maxraftstate cfg then Some ''persister.RaftStateSize() too large''
          else if sk_maxraftstate cfg < 0 \<and> length (content m snap) > 0 then Some ''maxraftstate is -1, but snapshot is non-empty!''
          else None)"

definition checklogs :: "'v skconfig \<Rightarrow> string option" where
  "checklogs cfg =
     (case List.extract (\<lambda>r. r \<noteq> None) (concat (map (\<lambda>gi. map (check_log cfg gi) [0..<sk_n cfg]) [0..<ngroups cfg])) of
        None \<Rightarrow> None
      | Some (_, r, _) \<Rightarrow> r)"

fun shutdown_groups :: "nat list \<Rightarrow> 'v skconfig \<Rightarrow> string + 'v skconfig" where
  "shutdown_groups [] cfg = Inr cfg"
| "shutdown_groups (gi # gis) cfg = (case ShutdownGroup gi cfg of Inl e \<Rightarrow> Inl e | Inr cfg \<Rightarrow> shutdown_groups gis cfg)"

text \<open>A controller that was not started is a nil pointer.\<close>

definition sk_cleanup :: "'v skconfig \<Rightarrow> string + 'v skconfig" where
  "sk_cleanup cfg =
     (case shutdown_groups [0..<ngroups cfg] cfg of
        Inl e \<Rightarrow> Inl e
      | Inr cfg \<Rightarrow>
          if None \<in> set (ctrlerservers cfg) then Inl ''nil pointer dereference''
          else
            let kill = (\<lambda>objs s. let rf = sc_rf (ctrler_objs cfg ! the s) in objs[rf := Kill (objs ! rf)]);
                cfg = cfg\<lparr>sk_raft_objs := foldl kill (sk_raft_objs cfg) (ctrlerservers cfg)\<rparr> in
            (case Cleanup (sk_net cfg) of Inl e \<Rightarrow> Inl e | Inr rn \<Rightarrow> Inr (cfg\<lparr>sk_net := rn\<rparr>)))"

end
