(* ===== verification/Ctrl_Config.thy ===== *)
theory Ctrl_Config
  imports Shard_Config
begin

text \<open>
  The test bed of the shard controller (\<^verbatim>\<open>Lab3/src/shardctrler/config.go\<close>). The code is
  a copy of that for the key-value service with servers of another type, and has a \<open>Leader\<close> that tolerates
  servers that are shut down; it is translated here on its own, and \<open>Ctrl_Bed\<close> proves that it
  behaves as the other does.
\<close>

record 'v ctlconfig =
  ctl_net :: "netName Network"
  ctl_n :: nat
  ctl_servers :: "nat option list"
  ctl_saved :: "nat option list"
  ctl_endnames :: "string list option list"
  ctl_clerks :: "nat \<Rightarrow> string list option"
  ctl_nextClientId :: int
  ctl_objs :: "ShardCtrler list"
  ctl_clerk_objs :: "Clerk list"
  ctl_raft_objs :: "Raft list"
  ctl_persister_objs :: "Persister list"
  ctl_server_objs :: "('v, unit) Server list"
  ctl_mem :: "bytes list"

text \<open>\<open>Kill\<close> of a controller server kills its Raft object.\<close>

definition ShardCtrler_Kill :: "nat \<Rightarrow> 'v ctlconfig \<Rightarrow> 'v ctlconfig" where
  "ShardCtrler_Kill s cfg =
     (let rf = sc_rf (ctl_objs cfg ! s) in
      cfg\<lparr>ctl_raft_objs := (ctl_raft_objs cfg)[rf := Kill (ctl_raft_objs cfg ! rf)]\<rparr>)"

definition ctl_connectUnlocked :: "nat \<Rightarrow> nat list \<Rightarrow> 'v ctlconfig \<Rightarrow> string + 'v ctlconfig" where
  "ctl_connectUnlocked i to cfg =
     (case enable_ends True (map (\<lambda>j. end_of (ctl_endnames cfg) i j) to) (ctl_net cfg) of
        Inl e \<Rightarrow> Inl e
      | Inr rn \<Rightarrow>
          (case enable_ends True (map (\<lambda>j. end_of (ctl_endnames cfg) j i) to) rn of
             Inl e \<Rightarrow> Inl e
           | Inr rn \<Rightarrow> Inr (cfg\<lparr>ctl_net := rn\<rparr>)))"

text \<open>As in the other test bed, the second test looks at row \<open>j\<close>, not \<open>from[j]\<close>.\<close>

definition ctl_disconnectUnlocked :: "nat \<Rightarrow> nat list \<Rightarrow> 'v ctlconfig \<Rightarrow> string + 'v ctlconfig" where
  "ctl_disconnectUnlocked i from cfg =
     (case enable_ends False
         (if i < length (ctl_endnames cfg) \<and> ctl_endnames cfg ! i = None then [] else map (\<lambda>j. end_of (ctl_endnames cfg) i j) from)
         (ctl_net cfg) of
        Inl e \<Rightarrow> Inl e
      | Inr rn \<Rightarrow>
          (if length (ctl_endnames cfg) < length from then Inl ''index out of range''
           else
             (case enable_ends False
                 (map (\<lambda>j. end_of (ctl_endnames cfg) (from ! j) i) (filter (\<lambda>j. ctl_endnames cfg ! j \<noteq> None) [0..<length from])) rn of
                Inl e \<Rightarrow> Inl e
              | Inr rn \<Rightarrow> Inr (cfg\<lparr>ctl_net := rn\<rparr>))))"

definition ctl_All :: "'v ctlconfig \<Rightarrow> nat list" where
  "ctl_All cfg = [0..<ctl_n cfg]"

fun ctl_ConnectAll_from :: "nat list \<Rightarrow> 'v ctlconfig \<Rightarrow> string + 'v ctlconfig" where
  "ctl_ConnectAll_from [] cfg = Inr cfg"
| "ctl_ConnectAll_from (i # is) cfg =
     (case ctl_connectUnlocked i (ctl_All cfg) cfg of Inl e \<Rightarrow> Inl e | Inr cfg \<Rightarrow> ctl_ConnectAll_from is cfg)"

definition ctl_ConnectAll :: "'v ctlconfig \<Rightarrow> string + 'v ctlconfig" where
  "ctl_ConnectAll cfg = ctl_ConnectAll_from [0..<ctl_n cfg] cfg"

fun ctl_isolate :: "nat list \<Rightarrow> nat list \<Rightarrow> nat list \<Rightarrow> 'v ctlconfig \<Rightarrow> string + 'v ctlconfig" where
  "ctl_isolate [] own other cfg = Inr cfg"
| "ctl_isolate (i # is) own other cfg =
     (case ctl_disconnectUnlocked i other cfg of
        Inl e \<Rightarrow> Inl e
      | Inr cfg \<Rightarrow> (case ctl_connectUnlocked i own cfg of Inl e \<Rightarrow> Inl e | Inr cfg \<Rightarrow> ctl_isolate is own other cfg))"

definition ctl_partition :: "nat list \<Rightarrow> nat list \<Rightarrow> 'v ctlconfig \<Rightarrow> string + 'v ctlconfig" where
  "ctl_partition p1 p2 cfg =
     (case ctl_isolate p1 p1 p2 cfg of Inl e \<Rightarrow> Inl e | Inr cfg \<Rightarrow> ctl_isolate p2 p2 p1 cfg)"

definition ctl_clerk_ends :: "nat \<Rightarrow> nat list \<Rightarrow> 'v ctlconfig \<Rightarrow> string option list" where
  "ctl_clerk_ends ck is cfg =
     (let names = (case ctl_clerks cfg ck of None \<Rightarrow> [] | Some v \<Rightarrow> v) in
      map (\<lambda>j. if j < length names then Some (names ! j) else None) is)"

definition ctl_ConnectClientUnlocked :: "nat \<Rightarrow> nat list \<Rightarrow> 'v ctlconfig \<Rightarrow> string + 'v ctlconfig" where
  "ctl_ConnectClientUnlocked ck to cfg =
     (case enable_ends True (ctl_clerk_ends ck to cfg) (ctl_net cfg) of Inl e \<Rightarrow> Inl e | Inr rn \<Rightarrow> Inr (cfg\<lparr>ctl_net := rn\<rparr>))"

definition ctl_DisconnectClientUnlocked :: "nat \<Rightarrow> nat list \<Rightarrow> 'v ctlconfig \<Rightarrow> string + 'v ctlconfig" where
  "ctl_DisconnectClientUnlocked ck from cfg =
     (case enable_ends False (ctl_clerk_ends ck from cfg) (ctl_net cfg) of Inl e \<Rightarrow> Inl e | Inr rn \<Rightarrow> Inr (cfg\<lparr>ctl_net := rn\<rparr>))"

definition ctl_makeClient :: "string list \<Rightarrow> (nat \<Rightarrow> nat) \<Rightarrow> nat list \<Rightarrow> 'v ctlconfig \<Rightarrow> string + nat \<times> 'v ctlconfig" where
  "ctl_makeClient names rnd to cfg =
     (case make_ends 0 names (ctl_net cfg) of
        Inl e \<Rightarrow> Inl e
      | Inr (es, rn) \<Rightarrow>
          let ck = length (ctl_clerk_objs cfg);
              cfg = cfg\<lparr>ctl_net := rn, ctl_clerk_objs := ctl_clerk_objs cfg @ [\<lparr>ck_servers = random_handles rnd es\<rparr>],
                        ctl_clerks := (ctl_clerks cfg)(ck \<mapsto> names), ctl_nextClientId := ctl_nextClientId cfg + 1\<rparr> in
          (case ctl_ConnectClientUnlocked ck to cfg of Inl e \<Rightarrow> Inl e | Inr cfg \<Rightarrow> Inr (ck, cfg)))"

definition ctl_deleteClient :: "nat \<Rightarrow> 'v ctlconfig \<Rightarrow> 'v ctlconfig" where
  "ctl_deleteClient ck cfg = cfg\<lparr>ctl_clerks := (ctl_clerks cfg)(ck := None)\<rparr>"

definition ctl_copy_saved :: "nat \<Rightarrow> 'v ctlconfig \<Rightarrow> 'v ctlconfig" where
  "ctl_copy_saved i cfg =
     (case ctl_saved cfg ! i of
        None \<Rightarrow> cfg
      | Some p \<Rightarrow>
          cfg\<lparr>ctl_persister_objs := ctl_persister_objs cfg @ [Persister_Copy (ctl_persister_objs cfg ! p)],
              ctl_saved := (ctl_saved cfg)[i := Some (length (ctl_persister_objs cfg))]\<rparr>)"

definition ctl_ShutdownServer :: "nat \<Rightarrow> 'v ctlconfig \<Rightarrow> string + 'v ctlconfig" where
  "ctl_ShutdownServer i cfg =
     (case ctl_disconnectUnlocked i (ctl_All cfg) cfg of
        Inl e \<Rightarrow> Inl e
      | Inr cfg \<Rightarrow>
          let cfg = ctl_copy_saved i (cfg\<lparr>ctl_net := DeleteServer (Some (IntName i)) (ctl_net cfg)\<rparr>) in
          Inr (case ctl_servers cfg ! i of
                 None \<Rightarrow> cfg
               | Some s \<Rightarrow> (ShardCtrler_Kill s cfg)\<lparr>ctl_servers := (ctl_servers cfg)[i := None]\<rparr>))"

definition ctl_StartServer :: "string list \<Rightarrow> nat \<Rightarrow> 'v ctlconfig \<Rightarrow> string + 'v ctlconfig" where
  "ctl_StartServer names i cfg =
     (let cfg = cfg\<lparr>ctl_endnames := (ctl_endnames cfg)[i := Some names]\<rparr> in
      (case make_ends 0 names (ctl_net cfg) of
         Inl e \<Rightarrow> Inl e
       | Inr (es, rn) \<Rightarrow>
           let cfg = cfg\<lparr>ctl_net := rn\<rparr>;
               cfg = (case ctl_saved cfg ! i of
                        Some _ \<Rightarrow> ctl_copy_saved i cfg
                      | None \<Rightarrow> cfg\<lparr>ctl_persister_objs := ctl_persister_objs cfg @ [MakePersister],
                                    ctl_saved := (ctl_saved cfg)[i := Some (length (ctl_persister_objs cfg))]\<rparr>) in
           (case Ctrler_StartServer es i (the (ctl_saved cfg ! i)) (ctl_persister_objs cfg) (ctl_mem cfg) (length (ctl_raft_objs cfg)) of
              (sc, rf, m) \<Rightarrow>
                let s = length (ctl_objs cfg);
                    srv = AddService (MakeService ''Raft'' (sc_rf sc) raft_methods)
                            (AddService (MakeService ''ShardCtrler'' s ctrler_methods) MakeServer) in
                Inr (cfg\<lparr>ctl_mem := m, ctl_raft_objs := ctl_raft_objs cfg @ [rf], ctl_objs := ctl_objs cfg @ [sc],
                         ctl_servers := (ctl_servers cfg)[i := Some s], ctl_server_objs := ctl_server_objs cfg @ [srv],
                         ctl_net := AddServer (Some (IntName i)) (length (ctl_server_objs cfg)) (ctl_net cfg)\<rparr>))))"

definition ctl_make_partition :: "'v ctlconfig \<Rightarrow> (nat \<Rightarrow> int \<times> bool) \<Rightarrow> string + nat list \<times> nat list" where
  "ctl_make_partition cfg st = partition_around (ctl_n cfg) (snd (Ctrler_Leader (ctl_n cfg) (ctl_servers cfg) st))"

fun ctl_start_servers :: "(nat \<Rightarrow> string list) \<Rightarrow> nat list \<Rightarrow> 'v ctlconfig \<Rightarrow> string + 'v ctlconfig" where
  "ctl_start_servers names [] cfg = Inr cfg"
| "ctl_start_servers names (i # is) cfg =
     (case ctl_StartServer (names i) i cfg of Inl e \<Rightarrow> Inl e | Inr cfg \<Rightarrow> ctl_start_servers names is cfg)"

definition empty_ctlconfig :: "nat \<Rightarrow> 'v ctlconfig" where
  "empty_ctlconfig n =
     \<lparr>ctl_net = MakeNetwork, ctl_n = n, ctl_servers = replicate n None, ctl_saved = replicate n None,
      ctl_endnames = replicate n None, ctl_clerks = (\<lambda>_. None), ctl_nextClientId = int n + 1000,
      ctl_objs = [], ctl_clerk_objs = [], ctl_raft_objs = [], ctl_persister_objs = [], ctl_server_objs = [], ctl_mem = []\<rparr>"

definition make_ctlconfig :: "(nat \<Rightarrow> string list) \<Rightarrow> nat \<Rightarrow> bool \<Rightarrow> string + 'v ctlconfig" where
  "make_ctlconfig names n unreliable =
     (case ctl_start_servers names [0..<n] (empty_ctlconfig n) of
        Inl e \<Rightarrow> Inl e
      | Inr cfg \<Rightarrow>
          (case ctl_ConnectAll cfg of
             Inl e \<Rightarrow> Inl e
           | Inr cfg \<Rightarrow> Inr (cfg\<lparr>ctl_net := Reliable (\<not> unreliable) (ctl_net cfg)\<rparr>)))"

definition ctl_cleanup :: "'v ctlconfig \<Rightarrow> string + 'v ctlconfig" where
  "ctl_cleanup cfg =
     (let cfg = foldl (\<lambda>c r. case r of None \<Rightarrow> c | Some s \<Rightarrow> ShardCtrler_Kill s c) cfg (ctl_servers cfg) in
      (case Cleanup (ctl_net cfg) of Inl e \<Rightarrow> Inl e | Inr rn \<Rightarrow> Inr (cfg\<lparr>ctl_net := rn\<rparr>)))"

definition ctl_LogSize :: "'v ctlconfig \<Rightarrow> string + nat" where
  "ctl_LogSize cfg =
     foldl (\<lambda>r i. case r of
                    Inl e \<Rightarrow> Inl e
                  | Inr logsize \<Rightarrow>
                      (case ctl_saved cfg ! i of
                         None \<Rightarrow> Inl ''nil pointer dereference''
                       | Some p \<Rightarrow>
                           let n = RaftStateSize (ctl_persister_objs cfg ! p) (ctl_mem cfg) in Inr (if n > logsize then n else logsize)))
       (Inr 0) [0..<ctl_n cfg]"

end
