(* ===== verification/KV_Bed.thy ===== *)
theory KV_Bed
  imports KV_Config Raft_Bed
begin

text \<open>
  The links and the persisted state of the key-value test bed. \<open>partition\<close> is given a closed form on
  the relation between servers that are linked, \<open>make_partition\<close> is analysed as the filling of one array,
  and both are put together: after a partition around the leader, the leader is cut off from a majority.
\<close>

section \<open>Links between servers\<close>

definition linked :: "'v kvconfig \<Rightarrow> nat \<Rightarrow> nat \<Rightarrow> bool" where
  "linked cfg a b = (case end_of (kv_endnames cfg) a b of None \<Rightarrow> False | Some s \<Rightarrow> enabled (kv_net cfg) (Some (StrName s)))"

text \<open>All servers have been started once, and the names of their ends are used once.\<close>

definition kv_ok :: "'v kvconfig \<Rightarrow> bool" where
  "kv_ok cfg \<longleftrightarrow> names_ok (kv_n cfg) (kv_endnames cfg) (kv_net cfg) \<and> (\<forall>i < kv_n cfg. kv_endnames cfg ! i \<noteq> None)"

lemma kv_ok_frame [simp]: "kv_ok (cfg\<lparr>kv_net := (kv_net cfg)\<lparr>enabled := f\<rparr>\<rparr>) = kv_ok cfg"
  by (simp add: kv_ok_def)

lemma kv_row: "kv_ok cfg \<Longrightarrow> i < kv_n cfg \<Longrightarrow> j < kv_n cfg \<Longrightarrow> end_of (kv_endnames cfg) i j \<noteq> None"
proof -
  assume ok: "kv_ok cfg" and i: "i < kv_n cfg" and j: "j < kv_n cfg"
  have len: "length (kv_endnames cfg) = kv_n cfg" using ok by (simp add: kv_ok_def names_ok_def)
  obtain xs where xs: "kv_endnames cfg ! i = Some xs" using ok i unfolding kv_ok_def by blast
  then have "Some xs \<in> set (kv_endnames cfg)" using i len by (metis nth_mem)
  then have "length xs = kv_n cfg" using ok by (simp add: kv_ok_def names_ok_def)
  with xs i j len show ?thesis by (simp add: end_of_def)
qed

lemma kv_inj:
  assumes "kv_ok cfg" "i < kv_n cfg" "k < kv_n cfg" "end_of (kv_endnames cfg) i j = Some s"
  shows "end_of (kv_endnames cfg) k l = Some s \<longleftrightarrow> k = i \<and> l = j"
  using assms unfolding kv_ok_def names_ok_def by blast

lemma kv_named:
  assumes ok: "kv_ok cfg" and "a < kv_n cfg" "b < kv_n cfg" "i < kv_n cfg" "end_of (kv_endnames cfg) a b = Some s" and js: "set js \<subseteq> {..<kv_n cfg}"
  shows "Some (StrName s) \<in> name_set (map (\<lambda>j. end_of (kv_endnames cfg) i j) js) \<longleftrightarrow> a = i \<and> b \<in> set js"
    "Some (StrName s) \<in> name_set (map (\<lambda>j. end_of (kv_endnames cfg) j i) js) \<longleftrightarrow> b = i \<and> a \<in> set js"
proof -
  have "end_of (kv_endnames cfg) k l = Some s \<longleftrightarrow> k = a \<and> l = b" if "k < kv_n cfg" for k l
    using kv_inj [OF ok assms(2) that assms(5)] .
  then show "Some (StrName s) \<in> name_set (map (\<lambda>j. end_of (kv_endnames cfg) i j) js) \<longleftrightarrow> a = i \<and> b \<in> set js"
    "Some (StrName s) \<in> name_set (map (\<lambda>j. end_of (kv_endnames cfg) j i) js) \<longleftrightarrow> b = i \<and> a \<in> set js"
    unfolding name_set_map using assms(4) js by auto
qed

text \<open>The operations only change which ends are enabled.\<close>

definition relinked :: "'v kvconfig \<Rightarrow> (nat \<Rightarrow> nat \<Rightarrow> bool) \<Rightarrow> 'v kvconfig \<Rightarrow> bool" where
  "relinked cfg L cfg' \<longleftrightarrow> (\<exists>f. cfg' = cfg\<lparr>kv_net := (kv_net cfg)\<lparr>enabled := f\<rparr>\<rparr>) \<and>
     (\<forall>a < kv_n cfg. \<forall>b < kv_n cfg. linked cfg' a b \<longleftrightarrow> L a b)"

lemma relinkedI:
  assumes ok: "kv_ok cfg" and cfg': "cfg' = cfg\<lparr>kv_net := (kv_net cfg)\<lparr>enabled := f\<rparr>\<rparr>"
    and L: "\<And>a b s. a < kv_n cfg \<Longrightarrow> b < kv_n cfg \<Longrightarrow> end_of (kv_endnames cfg) a b = Some s \<Longrightarrow>
      f (Some (StrName s)) \<longleftrightarrow> L a b"
  shows "relinked cfg L cfg'"
  unfolding relinked_def
proof (intro conjI allI impI)
  fix a b assume ab: "a < kv_n cfg" "b < kv_n cfg"
  then obtain s where "end_of (kv_endnames cfg) a b = Some s" using kv_row [OF ok] by blast
  with L [OF ab this] show "linked cfg' a b = L a b" by (simp add: linked_def cfg')
qed (use cfg' in blast)

lemma linked_name: "end_of (kv_endnames cfg) a b = Some s \<Longrightarrow> enabled (kv_net cfg) (Some (StrName s)) = linked cfg a b"
  by (simp add: linked_def)

lemma connectUnlocked_links:
  assumes ok: "kv_ok cfg" and i: "i < kv_n cfg" and to: "set to \<subseteq> {..<kv_n cfg}"
  obtains cfg' where "connectUnlocked i to cfg = Inr cfg'"
    "relinked cfg (\<lambda>a b. a = i \<and> b \<in> set to \<or> b = i \<and> a \<in> set to \<or> linked cfg a b) cfg'"
proof -
  let ?xs = "map (\<lambda>j. end_of (kv_endnames cfg) i j) to" and ?ys = "map (\<lambda>j. end_of (kv_endnames cfg) j i) to"
  have rows: "None \<notin> set ?xs" "None \<notin> set ?ys" using kv_row [OF ok] i to by force+
  define f where "f = (\<lambda>e. e \<in> name_set ?ys \<or> e \<in> name_set ?xs \<or> enabled (kv_net cfg) e)"
  have "connectUnlocked i to cfg = Inr (cfg\<lparr>kv_net := (kv_net cfg)\<lparr>enabled := f\<rparr>\<rparr>)"
    unfolding connectUnlocked_def enable_ends_result f_def using rows by (simp add: if_bool_eq_disj cong: disj_cong)
  moreover have "relinked cfg (\<lambda>a b. a = i \<and> b \<in> set to \<or> b = i \<and> a \<in> set to \<or> linked cfg a b)
      (cfg\<lparr>kv_net := (kv_net cfg)\<lparr>enabled := f\<rparr>\<rparr>)"
    by (rule relinkedI [OF ok refl]) (use kv_named [OF ok _ _ i _ to] in \<open>auto simp: f_def linked_name\<close>)
  ultimately show ?thesis using that by blast
qed

lemma disconnectUnlocked_links:
  assumes ok: "kv_ok cfg" and i: "i < kv_n cfg" and from_n: "set from \<subseteq> {..<kv_n cfg}" and len: "length from \<le> kv_n cfg"
  obtains cfg' where "disconnectUnlocked i from cfg = Inr cfg'"
    "relinked cfg (\<lambda>a b. linked cfg a b \<and> \<not> (a = i \<and> b \<in> set from \<or> b = i \<and> a \<in> set from)) cfg'"
proof -
  let ?xs = "map (\<lambda>j. end_of (kv_endnames cfg) i j) from" and ?ys = "map (\<lambda>j. end_of (kv_endnames cfg) j i) from"
  have n: "length (kv_endnames cfg) = kv_n cfg" using ok by (simp add: kv_ok_def names_ok_def)
  have rows: "None \<notin> set ?xs" "None \<notin> set ?ys" using kv_row [OF ok] i from_n by force+
  have started: "\<And>j. j < kv_n cfg \<Longrightarrow> kv_endnames cfg ! j \<noteq> None" using ok by (simp add: kv_ok_def)
  then have all: "filter (\<lambda>j. kv_endnames cfg ! j \<noteq> None) [0..<length from] = [0..<length from]"
    using len by (auto simp: filter_id_conv)
  have ys: "map (\<lambda>j. end_of (kv_endnames cfg) (from ! j) i) [0..<length from] = ?ys" by (rule nth_equalityI) simp_all
  define f where "f = (\<lambda>e. e \<notin> name_set ?ys \<and> e \<notin> name_set ?xs \<and> enabled (kv_net cfg) e)"
  have f: "(\<lambda>e. if e \<in> name_set ?ys then False else if e \<in> name_set ?xs then False else enabled (kv_net cfg) e) = f"
    by (auto simp: f_def)
  have "disconnectUnlocked i from cfg = Inr (cfg\<lparr>kv_net := (kv_net cfg)\<lparr>enabled := f\<rparr>\<rparr>)"
    unfolding disconnectUnlocked_def all ys enable_ends_result f [symmetric] using rows started [OF i] len n
    by (auto simp: if_bool_eq_conj cong: if_cong)
  moreover have "relinked cfg (\<lambda>a b. linked cfg a b \<and> \<not> (a = i \<and> b \<in> set from \<or> b = i \<and> a \<in> set from))
      (cfg\<lparr>kv_net := (kv_net cfg)\<lparr>enabled := f\<rparr>\<rparr>)"
    by (rule relinkedI [OF ok refl]) (use kv_named [OF ok _ _ i _ from_n] in \<open>auto simp: f_def linked_name\<close>)
  ultimately show ?thesis using that by blast
qed

lemma relinked_trans:
  assumes "relinked cfg L cfg1" and "relinked cfg1 M cfg2" and "\<And>a b. a < kv_n cfg \<Longrightarrow> b < kv_n cfg \<Longrightarrow> M a b \<longleftrightarrow> N a b"
  shows "relinked cfg N cfg2"
  using assms unfolding relinked_def by auto

lemma relinked_same: "relinked cfg L cfg' \<Longrightarrow> kv_ok cfg' = kv_ok cfg \<and> kv_n cfg' = kv_n cfg \<and> kvservers cfg' = kvservers cfg"
  by (auto simp: relinked_def)

lemma relinked_linked: "relinked cfg L cfg' \<Longrightarrow> a < kv_n cfg \<Longrightarrow> b < kv_n cfg \<Longrightarrow> linked cfg' a b = L a b"
  by (simp add: relinked_def)

text \<open>One step of the loops of \<open>partition\<close>, and the loops.\<close>

definition split_links :: "nat set \<Rightarrow> nat set \<Rightarrow> nat set \<Rightarrow> (nat \<Rightarrow> nat \<Rightarrow> bool) \<Rightarrow> nat \<Rightarrow> nat \<Rightarrow> bool" where
  "split_links S own other L a b \<longleftrightarrow>
     \<not> (a \<in> S \<and> b \<in> other \<or> b \<in> S \<and> a \<in> other) \<and> (a \<in> S \<and> b \<in> own \<or> b \<in> S \<and> a \<in> own \<or> L a b)"

lemma isolate_links:
  assumes "kv_ok cfg" and "set S \<subseteq> set own" "set own \<subseteq> {..<kv_n cfg}" "set other \<subseteq> {..<kv_n cfg}"
    and "set own \<inter> set other = {}" "length other \<le> kv_n cfg"
  shows "\<exists>cfg'. isolate S own other cfg = Inr cfg' \<and> relinked cfg (split_links (set S) (set own) (set other) (linked cfg)) cfg'"
  using assms
proof (induction S arbitrary: cfg)
  case Nil
  have "cfg = cfg\<lparr>kv_net := (kv_net cfg)\<lparr>enabled := enabled (kv_net cfg)\<rparr>\<rparr>" by simp
  then have "relinked cfg (split_links {} (set own) (set other) (linked cfg)) cfg"
    unfolding relinked_def split_links_def by blast
  then show ?case by simp
next
  case (Cons i S)
  let ?n = "kv_n cfg"
  have i: "i < ?n" and sub: "set S \<subseteq> set own" using Cons.prems(2,3) by auto
  obtain cfg1 where d: "disconnectUnlocked i other cfg = Inr cfg1"
    "relinked cfg (\<lambda>a b. linked cfg a b \<and> \<not> (a = i \<and> b \<in> set other \<or> b = i \<and> a \<in> set other)) cfg1"
    using disconnectUnlocked_links [OF Cons.prems(1) i Cons.prems(4,6)] .
  note same1 = relinked_same [OF d(2)] and link1 = relinked_linked [OF d(2)]
  obtain cfg2 where c: "connectUnlocked i own cfg1 = Inr cfg2"
    "relinked cfg1 (\<lambda>a b. a = i \<and> b \<in> set own \<or> b = i \<and> a \<in> set own \<or> linked cfg1 a b) cfg2"
    by (rule connectUnlocked_links [of cfg1 i own]) (use same1 Cons.prems(1,3) i in simp_all)
  note same2 = relinked_same [OF c(2)] and link2 = relinked_linked [OF c(2)]
  obtain cfg3 where r: "isolate S own other cfg2 = Inr cfg3"
    "relinked cfg2 (split_links (set S) (set own) (set other) (linked cfg2)) cfg3"
    using Cons.IH [OF _ sub, of cfg2] Cons.prems(1,3-6) same1 same2 by auto
  have "relinked cfg (linked cfg2) cfg2"
    using relinked_trans [OF d(2) c(2), of "linked cfg2"] link2 same1 by simp
  then have "relinked cfg (split_links (set (i # S)) (set own) (set other) (linked cfg)) cfg3"
  proof (rule relinked_trans [OF _ r(2)])
    fix a b assume ab: "a < ?n" "b < ?n"
    have "linked cfg2 a b \<longleftrightarrow> a = i \<and> b \<in> set own \<or> b = i \<and> a \<in> set own \<or>
        linked cfg a b \<and> \<not> (a = i \<and> b \<in> set other \<or> b = i \<and> a \<in> set other)"
      using link2 [of a b] link1 [OF ab] ab same1 by simp
    then show "split_links (set S) (set own) (set other) (linked cfg2) a b =
        split_links (set (i # S)) (set own) (set other) (linked cfg) a b"
      using Cons.prems(2,5) unfolding split_links_def by auto
  qed
  moreover have "isolate (i # S) own other cfg = Inr cfg3" using d(1) c(1) r(1) by simp
  ultimately show ?case by blast
qed

lemma partition_links:
  assumes ok: "kv_ok cfg" and p: "distinct (p1 @ p2)" "set (p1 @ p2) \<subseteq> {..<kv_n cfg}"
  obtains cfg' where "partition p1 p2 cfg = Inr cfg'"
    "relinked cfg (\<lambda>a b. if a \<in> set p1 \<and> b \<in> set p1 \<or> a \<in> set p2 \<and> b \<in> set p2 then True
       else if a \<in> set p1 \<and> b \<in> set p2 \<or> a \<in> set p2 \<and> b \<in> set p1 then False else linked cfg a b) cfg'"
proof -
  let ?n = "kv_n cfg"
  have sub: "set p1 \<subseteq> {..<?n}" "set p2 \<subseteq> {..<?n}" "set p1 \<inter> set p2 = {}" "set p2 \<inter> set p1 = {}" using p by auto
  have len: "length p1 \<le> ?n" "length p2 \<le> ?n"
    using card_mono [OF _ sub(1)] card_mono [OF _ sub(2)] p(1) by (simp_all add: distinct_card)
  obtain cfg1 where r1: "isolate p1 p1 p2 cfg = Inr cfg1" "relinked cfg (split_links (set p1) (set p1) (set p2) (linked cfg)) cfg1"
    using isolate_links [OF ok order_refl sub(1,2,3) len(2)] by blast
  note same1 = relinked_same [OF r1(2)] and link1 = relinked_linked [OF r1(2)]
  obtain cfg2 where r2: "isolate p2 p2 p1 cfg1 = Inr cfg2" "relinked cfg1 (split_links (set p2) (set p2) (set p1) (linked cfg1)) cfg2"
    using isolate_links [of cfg1 p2 p2 p1] ok same1 sub len(1) by auto
  have "relinked cfg (\<lambda>a b. if a \<in> set p1 \<and> b \<in> set p1 \<or> a \<in> set p2 \<and> b \<in> set p2 then True
       else if a \<in> set p1 \<and> b \<in> set p2 \<or> a \<in> set p2 \<and> b \<in> set p1 then False else linked cfg a b) cfg2"
    by (rule relinked_trans [OF r1(2) r2(2)]) (use link1 sub(3) in \<open>auto simp: split_links_def\<close>)
  with r1(1) r2(1) that show ?thesis by (simp add: partition_def)
qed

section \<open>Dealing the servers out\<close>

text \<open>The two slices of \<open>make_partition\<close> are filled as if they were one.\<close>

definition fill :: "'a list \<Rightarrow> nat \<Rightarrow> 'a list \<Rightarrow> 'a list" where
  "fill q j xs = take j q @ xs @ drop (j + length xs) q"

lemma fill_step: "j < length q \<Longrightarrow> fill (q[j := x]) (Suc j) xs = fill q j (x # xs)"
  by (simp add: fill_def take_Suc_conv_app_nth)

lemma fill_Nil [simp]: "fill q j [] = q"
  by (simp add: fill_def)

lemma fill_length: "j + length xs \<le> length q \<Longrightarrow> length (fill q j xs) = length q"
  by (simp add: fill_def)

lemma deal_fills:
  "j + length (filter (\<lambda>i. i \<noteq> l) S) \<le> length p1 + length p2 \<Longrightarrow>
   deal l S j (p1, p2) =
     Inr (take (length p1) (fill (p1 @ p2) j (filter (\<lambda>i. i \<noteq> l) S)), drop (length p1) (fill (p1 @ p2) j (filter (\<lambda>i. i \<noteq> l) S)))"
proof (induction S arbitrary: j p1 p2)
  case (Cons i S)
  show ?case
  proof (cases "i = l")
    case False
    with Cons.prems have j: "j < length p1 + length p2" by simp
    have upd: "(p1 @ p2)[j := i] = p1[j := i] @ p2" if "j < length p1"
      using that by (simp add: list_update_append)
    have upd': "(p1 @ p2)[j := i] = p1 @ p2[j - length p1 := i]" if "\<not> j < length p1"
      using that by (simp add: list_update_append)
    show ?thesis
      using Cons.IH [of "Suc j" "p1[j := i]" p2] Cons.IH [of "Suc j" p1 "p2[j - length p1 := i]"] Cons.prems False j
        fill_step [of j "p1 @ p2" i "filter (\<lambda>i. i \<noteq> l) S"] upd upd' by auto
  qed (use Cons in simp)
qed simp

lemma others_length: "l < n \<Longrightarrow> length (filter (\<lambda>i. i \<noteq> l) [0..<n]) = n - 1"
proof -
  assume l: "l < n"
  have "set (filter (\<lambda>i. i \<noteq> l) [0..<n]) = {..<n} - {l}" by auto
  then have "card (set (filter (\<lambda>i. i \<noteq> l) [0..<n])) = n - 1" using l by simp
  then show ?thesis by (subst (asm) distinct_card) simp_all
qed

text \<open>With an odd number of servers, the last place of the second slice is left for the leader.\<close>

lemma partition_around_odd:
  assumes l: "l < 2 * m + 1" and m: "0 < m"
  defines "xs \<equiv> filter (\<lambda>i. i \<noteq> l) [0..<2 * m + 1]"
  shows "partition_around (2 * m + 1) l = Inr (take (m + 1) xs, drop (m + 1) xs @ [l])"
proof -
  have len: "length xs = 2 * m" using others_length [OF l] by (simp add: xs_def)
  let ?q = "replicate (m + 1) 0 @ replicate m (0 :: nat)"
  have "(2 * m + 1) div 2 = m" by simp
  moreover have "?q = replicate (2 * m) 0 @ [0]" by (simp add: mult_2 replicate_append_same flip: replicate_add replicate_Suc)
  then have "fill ?q 0 xs = xs @ [0]" using len by (simp only: fill_def) simp
  moreover have "take (m + 1) (xs @ [0]) = take (m + 1) xs" "drop (m + 1) (xs @ [0]) = drop (m + 1) xs @ [0]" using len m by simp_all
  ultimately have "deal l [0..<2 * m + 1] 0 (replicate (m + 1) 0, replicate m 0) = Inr (take (m + 1) xs, drop (m + 1) xs @ [0])"
    using deal_fills [of 0 l "[0..<2 * m + 1]" "replicate (m + 1) 0" "replicate m 0"] len by (simp add: xs_def)
  moreover have "m - Suc 0 = length (drop (Suc m) xs)" using len m by simp
  then have "(drop (Suc m) xs @ [0])[m - Suc 0 := l] = drop (Suc m) xs @ [l]" by (simp only: list_update_length)
  ultimately show ?thesis using len m by (simp add: partition_around_def)
qed

section \<open>Runs of the test bed\<close>

text \<open>A Raft instance, of the present or an earlier start, saves its state.\<close>

definition kv_save :: "nat \<Rightarrow> bytes \<Rightarrow> 'v kvconfig \<Rightarrow> 'v kvconfig" where
  "kv_save k b cfg =
     (let p = persister (kv_raft_objs cfg ! k) in
      (case SaveRaftState (Some (length (kv_mem cfg))) (kv_persister_objs cfg ! p) (kv_mem cfg @ [b]) of
         (ps, m) \<Rightarrow> cfg\<lparr>kv_mem := m, kv_persister_objs := (kv_persister_objs cfg)[p := ps]\<rparr>))"

inductive kv_step :: "'v kvconfig \<Rightarrow> 'v kvconfig \<Rightarrow> bool" where
  kv_connect: "connectUnlocked i to cfg = Inr cfg' \<Longrightarrow> kv_step cfg cfg'"
| kv_disconnect: "disconnectUnlocked i from cfg = Inr cfg' \<Longrightarrow> kv_step cfg cfg'"
| kv_shutdown: "i < kv_n cfg \<Longrightarrow> ShutdownServer i cfg = Inr cfg' \<Longrightarrow> kv_step cfg cfg'"
| kv_start: "i < kv_n cfg \<Longrightarrow> length names = kv_n cfg \<Longrightarrow> StartServer names i cfg = Inr cfg' \<Longrightarrow> kv_step cfg cfg'"
| kv_client: "length names = kv_n cfg \<Longrightarrow> makeClient names rnd to cfg = Inr (ck, cfg') \<Longrightarrow> kv_step cfg cfg'"
| kv_connect_client: "ConnectClientUnlocked ck to cfg = Inr cfg' \<Longrightarrow> kv_step cfg cfg'"
| kv_disconnect_client: "DisconnectClientUnlocked ck from cfg = Inr cfg' \<Longrightarrow> kv_step cfg cfg'"
| kv_delete_client: "kv_step cfg (deleteClient ck cfg)"
| kv_saves: "k < length (kv_raft_objs cfg) \<Longrightarrow> kv_step cfg (kv_save k b cfg)"
| kv_reliable: "kv_step cfg (cfg\<lparr>kv_net := Reliable yes (kv_net cfg)\<rparr>)"
| kv_begins: "kv_step cfg (snd (kv_begin cfg))"
| kv_ops: "kv_step cfg (kv_op cfg)"

definition kv_init :: "'v kvconfig \<Rightarrow> bool" where
  "kv_init cfg \<longleftrightarrow> (\<exists>n maxraft. cfg = empty_kvconfig n maxraft)"

text \<open>
  A running server has end names, a persister and a Raft object that uses it; pointers to persisters and memory are in range.
\<close>

definition kv_links :: "'v kvconfig \<Rightarrow> bool" where
  "kv_links cfg \<longleftrightarrow> names_ok (kv_n cfg) (kv_endnames cfg) (kv_net cfg) \<and> length (kvservers cfg) = kv_n cfg \<and>
     (\<forall>i < kv_n cfg. kvservers cfg ! i \<noteq> None \<longrightarrow> kv_endnames cfg ! i \<noteq> None)"

definition kv_store :: "'v kvconfig \<Rightarrow> bool" where
  "kv_store cfg \<longleftrightarrow> length (kv_saved cfg) = kv_n cfg \<and>
     (\<forall>i < kv_n cfg. \<forall>p. kv_saved cfg ! i = Some p \<longrightarrow> p < length (kv_persister_objs cfg)) \<and>
     (\<forall>ps \<in> set (kv_persister_objs cfg). held ps \<subseteq> {..<length (kv_mem cfg)}) \<and>
     (\<forall>rf \<in> set (kv_raft_objs cfg). persister rf < length (kv_persister_objs cfg))"

lemma names_ok_more:
  assumes ok: "names_ok n en rn" and mk: "make_ends j names rn = Inr (es, rn')"
  shows "names_ok n en rn'"
proof -
  note r = make_ends_result [OF mk]
  have "ends rn' (Some (StrName s)) \<noteq> None \<and> connections rn' (Some (StrName s)) = Some (IntName j)"
    if "i < n" "end_of en i j = Some s" for i j s
  proof -
    have o: "ends rn (Some (StrName s)) \<noteq> None" "connections rn (Some (StrName s)) = Some (IntName j)"
      using ok that unfolding names_ok_def by blast+
    then have "s \<notin> set names" using r(2) [of s] by auto
    then show ?thesis using o r(4) r(6) [of "Some (StrName s)"] by auto
  qed
  then have "\<forall>i < n. \<forall>j s. end_of en i j = Some s \<longrightarrow>
      ends rn' (Some (StrName s)) \<noteq> None \<and> connections rn' (Some (StrName s)) = Some (IntName j)" by simp
  with ok show ?thesis unfolding names_ok_def by (elim conjE) (intro conjI)
qed

lemma enable_ends_keeps: "enable_ends yes es rn = Inr rn' \<Longrightarrow> \<exists>f. rn' = rn\<lparr>enabled := f\<rparr>"
  by (auto simp: enable_ends_result split: if_splits)

lemma connectUnlocked_keeps: "connectUnlocked i to cfg = Inr cfg' \<Longrightarrow> \<exists>f. cfg' = cfg\<lparr>kv_net := (kv_net cfg)\<lparr>enabled := f\<rparr>\<rparr>"
  by (auto simp: connectUnlocked_def dest!: enable_ends_keeps split: sum.splits)

lemma disconnectUnlocked_keeps: "disconnectUnlocked i from cfg = Inr cfg' \<Longrightarrow> \<exists>f. cfg' = cfg\<lparr>kv_net := (kv_net cfg)\<lparr>enabled := f\<rparr>\<rparr>"
  by (auto simp: disconnectUnlocked_def dest!: enable_ends_keeps split: sum.splits if_splits)

lemma ConnectClient_keeps:
  "ConnectClientUnlocked ck to cfg = Inr cfg' \<Longrightarrow> \<exists>f. cfg' = cfg\<lparr>kv_net := (kv_net cfg)\<lparr>enabled := f\<rparr>\<rparr>"
  "DisconnectClientUnlocked ck to cfg = Inr cfg' \<Longrightarrow> \<exists>f. cfg' = cfg\<lparr>kv_net := (kv_net cfg)\<lparr>enabled := f\<rparr>\<rparr>"
  by (auto simp: ConnectClientUnlocked_def DisconnectClientUnlocked_def dest!: enable_ends_keeps split: sum.splits)

lemma copy_kv_saved_frame [simp]:
  "kv_net (copy_kv_saved i cfg) = kv_net cfg" "kv_n (copy_kv_saved i cfg) = kv_n cfg" "kvservers (copy_kv_saved i cfg) = kvservers cfg"
  "kv_endnames (copy_kv_saved i cfg) = kv_endnames cfg" "kv_raft_objs (copy_kv_saved i cfg) = kv_raft_objs cfg"
  "kv_objs (copy_kv_saved i cfg) = kv_objs cfg" "kv_mem (copy_kv_saved i cfg) = kv_mem cfg" "maxraftstate (copy_kv_saved i cfg) = maxraftstate cfg"
  "kv_server_objs (copy_kv_saved i cfg) = kv_server_objs cfg"
  by (simp_all add: copy_kv_saved_def split: option.split)

lemma KVServer_Kill_frame [simp]:
  "kv_net (KVServer_Kill s cfg) = kv_net cfg" "kv_n (KVServer_Kill s cfg) = kv_n cfg" "kvservers (KVServer_Kill s cfg) = kvservers cfg"
  "kv_endnames (KVServer_Kill s cfg) = kv_endnames cfg" "kv_mem (KVServer_Kill s cfg) = kv_mem cfg"
  "kv_saved (KVServer_Kill s cfg) = kv_saved cfg" "kv_persister_objs (KVServer_Kill s cfg) = kv_persister_objs cfg"
  by (simp_all add: KVServer_Kill_def Let_def)

lemma Kill_persisters: "persister ` set (xs[k := Kill (xs ! k)]) = persister ` set xs"
proof (cases "k < length xs")
  case True
  have "map persister (xs[k := Kill (xs ! k)]) = map persister xs"
    by (rule nth_equalityI) (simp_all add: nth_Kill)
  then show ?thesis by (metis set_map)
qed (simp add: list_update_beyond)

lemma kv_links_frame:
  assumes "kv_links cfg" "kv_net cfg' = (kv_net cfg)\<lparr>enabled := f\<rparr>" "kv_n cfg' = kv_n cfg" "kv_endnames cfg' = kv_endnames cfg"
    "kvservers cfg' = kvservers cfg"
  shows "kv_links cfg'"
  using assms by (simp add: kv_links_def)

lemma kv_store_frame:
  assumes "kv_store cfg" "kv_n cfg' = kv_n cfg" "kv_saved cfg' = kv_saved cfg" "kv_persister_objs cfg' = kv_persister_objs cfg"
    "kv_mem cfg' = kv_mem cfg" "persister ` set (kv_raft_objs cfg') = persister ` set (kv_raft_objs cfg)"
  shows "kv_store cfg'"
proof -
  have "persister rf < length (kv_persister_objs cfg)" if "rf \<in> set (kv_raft_objs cfg')" for rf
    using assms(1,6) that unfolding kv_store_def by (metis (no_types, lifting) image_iff)
  with assms show ?thesis by (simp add: kv_store_def)
qed

text \<open>What a server has saved.\<close>

definition kv_persisted :: "'v kvconfig \<Rightarrow> nat \<Rightarrow> (bytes \<times> bytes) option" where
  "kv_persisted cfg i = map_option (\<lambda>p. value_of (kv_mem cfg) (kv_persister_objs cfg ! p)) (kv_saved cfg ! i)"

lemma kv_store_held: "kv_store cfg \<Longrightarrow> i < kv_n cfg \<Longrightarrow> kv_saved cfg ! i = Some p \<Longrightarrow>
    p < length (kv_persister_objs cfg) \<and> held (kv_persister_objs cfg ! p) \<subseteq> {..<length (kv_mem cfg)}"
  unfolding kv_store_def by (metis nth_mem)

lemma copy_kv_saved_store:
  assumes ok: "kv_store cfg" and i: "i < kv_n cfg"
  shows "kv_store (copy_kv_saved i cfg)" "j < kv_n cfg \<Longrightarrow> kv_persisted (copy_kv_saved i cfg) j = kv_persisted cfg j"
proof -
  have "kv_store (copy_kv_saved i cfg) \<and> (j < kv_n cfg \<longrightarrow> kv_persisted (copy_kv_saved i cfg) j = kv_persisted cfg j)"
  proof (cases "kv_saved cfg ! i")
    case None
    then show ?thesis using ok by (simp add: copy_kv_saved_def)
  next
    case (Some p)
    let ?P = "kv_persister_objs cfg"
    have p: "p < length ?P" "held (?P ! p) \<subseteq> {..<length (kv_mem cfg)}" using kv_store_held [OF ok i Some] by simp_all
    have len: "length (kv_saved cfg) = kv_n cfg" using ok by (simp add: kv_store_def)
    have copy: "held (Persister_Copy q) = held q" "value_of m (Persister_Copy q) = value_of m q" for m q
      by (simp_all add: Persister_Copy_def MakePersister_def held_def value_of_def)
    have c: "copy_kv_saved i cfg = cfg\<lparr>kv_persister_objs := ?P @ [Persister_Copy (?P ! p)], kv_saved := (kv_saved cfg)[i := Some (length ?P)]\<rparr>"
      using Some by (simp add: copy_kv_saved_def)
    have "kv_store (copy_kv_saved i cfg)"
      using ok p len i unfolding c kv_store_def by (auto simp: copy nth_list_update less_Suc_eq split: if_splits)
    moreover have "kv_persisted (copy_kv_saved i cfg) j = kv_persisted cfg j" if j: "j < kv_n cfg"
    proof (cases "kv_saved cfg ! j")
      case (Some q)
      then have "q < length ?P" using kv_store_held [OF ok j] by blast
      then show ?thesis unfolding c kv_persisted_def using j len i Some \<open>kv_saved cfg ! i = Some p\<close> p(1)
        by (cases "j = i") (simp_all add: copy nth_append)
    qed (use j len i Some in \<open>auto simp: c kv_persisted_def nth_list_update\<close>)
    ultimately show ?thesis by blast
  qed
  then show "kv_store (copy_kv_saved i cfg)" "j < kv_n cfg \<Longrightarrow> kv_persisted (copy_kv_saved i cfg) j = kv_persisted cfg j" by blast+
qed

lemma ShutdownServer_split:
  assumes "ShutdownServer i cfg = Inr cfg'"
  obtains f where "let cfg1 = cfg\<lparr>kv_net := DeleteServer (Some (IntName i)) ((kv_net cfg)\<lparr>enabled := f\<rparr>)\<rparr> in
    cfg' = (case kvservers cfg ! i of None \<Rightarrow> copy_kv_saved i cfg1 | Some s \<Rightarrow> (KVServer_Kill s (copy_kv_saved i cfg1))\<lparr>kvservers := (kvservers cfg)[i := None]\<rparr>)"
proof -
  obtain cfg0 where d: "disconnectUnlocked i (All cfg) cfg = Inr cfg0" using assms by (auto simp: ShutdownServer_def split: sum.splits)
  then obtain f where "cfg0 = cfg\<lparr>kv_net := (kv_net cfg)\<lparr>enabled := f\<rparr>\<rparr>" using disconnectUnlocked_keeps by blast
  then have "cfg0\<lparr>kv_net := DeleteServer (Some (IntName i)) (kv_net cfg0)\<rparr> =
      cfg\<lparr>kv_net := DeleteServer (Some (IntName i)) ((kv_net cfg)\<lparr>enabled := f\<rparr>)\<rparr>" by simp
  with assms d show ?thesis by (intro that [of f]) (simp add: ShutdownServer_def Let_def cong: option.case_cong)
qed

lemma ShutdownServer_inv:
  assumes s: "ShutdownServer i cfg = Inr cfg'" and i: "i < kv_n cfg"
  shows "kv_links cfg \<Longrightarrow> kv_links cfg'" "kv_store cfg \<Longrightarrow> kv_store cfg'"
    "kv_store cfg \<Longrightarrow> j < kv_n cfg \<Longrightarrow> kv_persisted cfg' j = kv_persisted cfg j" "kv_n cfg' = kv_n cfg"
    "kv_links cfg \<Longrightarrow> kvservers cfg' = (kvservers cfg)[i := None]" "persister ` set (kv_raft_objs cfg') = persister ` set (kv_raft_objs cfg)"
    "ends (kv_net cfg') = ends (kv_net cfg)" "kv_endnames cfg' = kv_endnames cfg"
proof -
  from s obtain f where "let cfg1 = cfg\<lparr>kv_net := DeleteServer (Some (IntName i)) ((kv_net cfg)\<lparr>enabled := f\<rparr>)\<rparr> in
    cfg' = (case kvservers cfg ! i of None \<Rightarrow> copy_kv_saved i cfg1 | Some s \<Rightarrow> (KVServer_Kill s (copy_kv_saved i cfg1))\<lparr>kvservers := (kvservers cfg)[i := None]\<rparr>)"
    by (rule ShutdownServer_split)
  then obtain cfg1 where cfg1: "cfg1 = cfg\<lparr>kv_net := DeleteServer (Some (IntName i)) ((kv_net cfg)\<lparr>enabled := f\<rparr>)\<rparr>"
    and cfg': "cfg' = (case kvservers cfg ! i of None \<Rightarrow> copy_kv_saved i cfg1
        | Some s \<Rightarrow> (KVServer_Kill s (copy_kv_saved i cfg1))\<lparr>kvservers := (kvservers cfg)[i := None]\<rparr>)" by (simp add: Let_def)
  have same: "kv_n cfg' = kv_n cfg" "kv_endnames cfg' = kv_endnames cfg" "kv_saved cfg' = kv_saved (copy_kv_saved i cfg1)"
    "kv_persister_objs cfg' = kv_persister_objs (copy_kv_saved i cfg1)" "kv_mem cfg' = kv_mem cfg"
    "kv_net cfg' = DeleteServer (Some (IntName i)) ((kv_net cfg)\<lparr>enabled := f\<rparr>)"
    by (simp_all add: cfg' cfg1 split: option.split)
  show "kv_n cfg' = kv_n cfg" "kv_endnames cfg' = kv_endnames cfg" by (fact same)+
  show "ends (kv_net cfg') = ends (kv_net cfg)" by (simp add: same DeleteServer_def)
  have sv: "kvservers cfg' = (kvservers cfg)[i := None]"
    by (cases "kvservers cfg ! i") (simp_all add: cfg' cfg1, metis list_update_id)
  then show "kv_links cfg \<Longrightarrow> kvservers cfg' = (kvservers cfg)[i := None]" .
  show "kv_links cfg \<Longrightarrow> kv_links cfg'" using i by (auto simp: kv_links_def same sv DeleteServer_def nth_list_update)
  show rf: "persister ` set (kv_raft_objs cfg') = persister ` set (kv_raft_objs cfg)"
    by (cases "kvservers cfg ! i") (simp_all add: cfg' cfg1 KVServer_Kill_def Let_def Kill_persisters)
  have c1: "kv_store cfg1 = kv_store cfg" "kv_persisted cfg1 = kv_persisted cfg" "kv_n cfg1 = kv_n cfg" "kv_mem cfg1 = kv_mem cfg"
    "kv_raft_objs cfg1 = kv_raft_objs cfg" by (simp_all add: cfg1 kv_store_def kv_persisted_def fun_eq_iff)
  show "kv_store cfg'" if "kv_store cfg"
    using copy_kv_saved_store(1) [of cfg1 i] that i same rf c1 by (intro kv_store_frame [of "copy_kv_saved i cfg1" cfg']) simp_all
  show "kv_persisted cfg' j = kv_persisted cfg j" if "kv_store cfg" "j < kv_n cfg"
    using copy_kv_saved_store(2) [of cfg1 i j] that i c1 same by (simp add: kv_persisted_def)
qed

text \<open>The persister that a server is started with.\<close>

definition start_saved :: "nat \<Rightarrow> 'v kvconfig \<Rightarrow> 'v kvconfig" where
  "start_saved i cfg =
     (case kv_saved cfg ! i of
        Some _ \<Rightarrow> copy_kv_saved i cfg
      | None \<Rightarrow> cfg\<lparr>kv_persister_objs := kv_persister_objs cfg @ [MakePersister], kv_saved := (kv_saved cfg)[i := Some (length (kv_persister_objs cfg))]\<rparr>)"

lemma start_saved_store:
  assumes ok: "kv_store cfg" and i: "i < kv_n cfg"
  shows "kv_store (start_saved i cfg)" "j < kv_n cfg \<Longrightarrow> kv_saved cfg ! j \<noteq> None \<Longrightarrow> kv_persisted (start_saved i cfg) j = kv_persisted cfg j"
    "kv_saved (start_saved i cfg) = (kv_saved cfg)[i := Some (length (kv_persister_objs cfg))]"
    "length (kv_persister_objs (start_saved i cfg)) = Suc (length (kv_persister_objs cfg))"
proof -
  have len: "length (kv_saved cfg) = kv_n cfg" using ok by (simp add: kv_store_def)
  show sv: "kv_saved (start_saved i cfg) = (kv_saved cfg)[i := Some (length (kv_persister_objs cfg))]"
    "length (kv_persister_objs (start_saved i cfg)) = Suc (length (kv_persister_objs cfg))"
    by (simp_all add: start_saved_def copy_kv_saved_def split: option.split)
  have "kv_store (start_saved i cfg) \<and> (j < kv_n cfg \<longrightarrow> kv_saved cfg ! j \<noteq> None \<longrightarrow> kv_persisted (start_saved i cfg) j = kv_persisted cfg j)"
  proof (cases "kv_saved cfg ! i")
    case None
    have "held MakePersister = {}" by (simp add: held_def MakePersister_def)
    then have "kv_store (start_saved i cfg)"
      using ok len i None unfolding start_saved_def kv_store_def by (auto simp: nth_list_update less_Suc_eq split: if_splits)
    moreover have "kv_persisted (start_saved i cfg) j = kv_persisted cfg j" if j: "j < kv_n cfg" "kv_saved cfg ! j \<noteq> None"
    proof -
      obtain q where q: "kv_saved cfg ! j = Some q" using j(2) by blast
      then have "q < length (kv_persister_objs cfg)" using kv_store_held [OF ok j(1)] by blast
      moreover have "j \<noteq> i" using j(2) None by metis
      ultimately show ?thesis using q None by (simp add: start_saved_def kv_persisted_def nth_append)
    qed
    ultimately show ?thesis by blast
  next
    case (Some p)
    then show ?thesis using copy_kv_saved_store [OF ok i] by (simp add: start_saved_def)
  qed
  then show "kv_store (start_saved i cfg)" "j < kv_n cfg \<Longrightarrow> kv_saved cfg ! j \<noteq> None \<Longrightarrow> kv_persisted (start_saved i cfg) j = kv_persisted cfg j"
    by blast+
qed

lemma start_saved_frame [simp]:
  "kv_net (start_saved i cfg) = kv_net cfg" "kv_n (start_saved i cfg) = kv_n cfg" "kvservers (start_saved i cfg) = kvservers cfg"
  "kv_endnames (start_saved i cfg) = kv_endnames cfg" "kv_raft_objs (start_saved i cfg) = kv_raft_objs cfg"
  "kv_objs (start_saved i cfg) = kv_objs cfg" "kv_mem (start_saved i cfg) = kv_mem cfg" "maxraftstate (start_saved i cfg) = maxraftstate cfg"
  "kv_server_objs (start_saved i cfg) = kv_server_objs cfg"
  by (simp_all add: start_saved_def split: option.split)

lemma StartServer_split:
  assumes "StartServer names i cfg = Inr cfg'"
  obtains es rn cfg1 where "make_ends 0 names (kv_net cfg) = Inr (es, rn)"
    "cfg1 = start_saved i (cfg\<lparr>kv_endnames := (kv_endnames cfg)[i := Some names], kv_net := rn\<rparr>)"
    "kv_n cfg' = kv_n cfg" "kv_endnames cfg' = (kv_endnames cfg)[i := Some names]" "kv_saved cfg' = kv_saved cfg1"
    "kv_persister_objs cfg' = kv_persister_objs cfg1" "kv_mem cfg' = kv_mem cfg @ [content (kv_mem cfg) (raftstate (kv_persister_objs cfg1 ! the (kv_saved cfg1 ! i)))]"
    "kvservers cfg' = (kvservers cfg)[i := Some (length (kv_objs cfg))]"
    "kv_net cfg' = AddServer (Some (IntName i)) (length (kv_server_objs cfg)) rn"
    "kv_raft_objs cfg' = kv_raft_objs cfg @ [\<lparr>peers = es, persister = the (kv_saved cfg1 ! i), me = i, dead = 0\<rparr>]"
    "kv_objs cfg' = kv_objs cfg @ [\<lparr>kv_me = i, kv_rf = length (kv_raft_objs cfg), kv_dead = 0, kv_maxraftstate = maxraftstate cfg\<rparr>]"
proof -
  obtain es rn where mk: "make_ends 0 names (kv_net cfg) = Inr (es, rn)" using assms by (auto simp: StartServer_def Let_def split: sum.splits)
  define cfg1 where "cfg1 = start_saved i (cfg\<lparr>kv_endnames := (kv_endnames cfg)[i := Some names], kv_net := rn\<rparr>)"
  define rf where "rf = \<lparr>peers = es, persister = the (kv_saved cfg1 ! i), me = i, dead = 0\<rparr>"
  have "StartServer names i cfg = (case StartKVServer es i (the (kv_saved cfg1 ! i)) (maxraftstate cfg1) cfg1 of (s, cfg) \<Rightarrow>
      Inr (cfg\<lparr>kvservers := (kvservers cfg)[i := Some s],
        kv_server_objs := kv_server_objs cfg @ [AddService (MakeService ''Raft'' (kv_rf (kv_objs cfg ! s)) raft_methods)
                            (AddService (MakeService ''KVServer'' s kv_methods) MakeServer)],
        kv_net := AddServer (Some (IntName i)) (length (kv_server_objs cfg)) (kv_net cfg)\<rparr>))"
    unfolding StartServer_def cfg1_def start_saved_def by (simp add: mk Let_def)
  moreover have "StartKVServer es i (the (kv_saved cfg1 ! i)) (maxraftstate cfg1) cfg1 = (length (kv_objs cfg),
      cfg1\<lparr>kv_mem := kv_mem cfg @ [content (kv_mem cfg) (raftstate (kv_persister_objs cfg1 ! the (kv_saved cfg1 ! i)))],
        kv_raft_objs := kv_raft_objs cfg @ [rf],
        kv_objs := kv_objs cfg @ [\<lparr>kv_me = i, kv_rf = length (kv_raft_objs cfg), kv_dead = 0, kv_maxraftstate = maxraftstate cfg\<rparr>]\<rparr>)"
    unfolding StartKVServer_def Raft_Make_def by (simp add: cfg1_def rf_def ReadRaftState_def clone_def readPersist_def)
  moreover have "kv_n cfg1 = kv_n cfg" "kv_endnames cfg1 = (kv_endnames cfg)[i := Some names]" "kvservers cfg1 = kvservers cfg"
    "kv_net cfg1 = rn" "kv_server_objs cfg1 = kv_server_objs cfg" by (simp_all add: cfg1_def)
  ultimately show ?thesis using assms by (intro that [OF mk cfg1_def]) (auto simp: rf_def)
qed

lemma StartServer_inv:
  assumes s: "StartServer names i cfg = Inr cfg'" and i: "i < kv_n cfg" and len: "length names = kv_n cfg"
  shows "kv_links cfg \<Longrightarrow> kv_links cfg'" "kv_store cfg \<Longrightarrow> kv_store cfg'"
    "kv_store cfg \<Longrightarrow> j < kv_n cfg \<Longrightarrow> kv_saved cfg ! j \<noteq> None \<Longrightarrow> kv_persisted cfg' j = kv_persisted cfg j"
proof -
  obtain es rn cfg1 where mk: "make_ends 0 names (kv_net cfg) = Inr (es, rn)"
    and cfg1: "cfg1 = start_saved i (cfg\<lparr>kv_endnames := (kv_endnames cfg)[i := Some names], kv_net := rn\<rparr>)"
    and r: "kv_n cfg' = kv_n cfg" "kv_endnames cfg' = (kv_endnames cfg)[i := Some names]" "kv_saved cfg' = kv_saved cfg1"
      "kv_persister_objs cfg' = kv_persister_objs cfg1" "kvservers cfg' = (kvservers cfg)[i := Some (length (kv_objs cfg))]"
      "kv_net cfg' = AddServer (Some (IntName i)) (length (kv_server_objs cfg)) rn"
    and m: "kv_mem cfg' = kv_mem cfg @ [content (kv_mem cfg) (raftstate (kv_persister_objs cfg1 ! the (kv_saved cfg1 ! i)))]"
    and ro: "kv_raft_objs cfg' = kv_raft_objs cfg @ [\<lparr>peers = es, persister = the (kv_saved cfg1 ! i), me = i, dead = 0\<rparr>]"
    using StartServer_split [OF s] .
  show "kv_links cfg'" if "kv_links cfg"
  proof -
    have ok: "names_ok (kv_n cfg) (kv_endnames cfg) (kv_net cfg)" using that by (simp add: kv_links_def)
    from names_ok_start [OF ok i len mk] show ?thesis
      using that i ok unfolding kv_links_def r by (auto simp: AddServer_def nth_list_update names_ok_def)
  qed
  let ?c = "cfg\<lparr>kv_endnames := (kv_endnames cfg)[i := Some names], kv_net := rn\<rparr>"
  assume ok: "kv_store cfg"
  have c: "kv_store ?c" "kv_persisted ?c = kv_persisted cfg" using ok by (simp_all add: kv_store_def kv_persisted_def fun_eq_iff)
  note st = start_saved_store [OF c(1), of i, folded cfg1]
  have st1: "kv_store cfg1" "kv_n cfg1 = kv_n cfg" "kv_mem cfg1 = kv_mem cfg" "kv_raft_objs cfg1 = kv_raft_objs cfg" using st(1) i by (simp_all add: cfg1)
  have n: "length (kv_saved cfg) = kv_n cfg" using ok by (simp add: kv_store_def)
  have new: "the (kv_saved cfg1 ! i) < length (kv_persister_objs cfg1)" using st(3,4) i n by simp
  have "held ps \<subseteq> {..<length (kv_mem cfg')}" if "ps \<in> set (kv_persister_objs cfg1)" for ps
  proof -
    have "held ps \<subseteq> {..<length (kv_mem cfg)}" using st1 that by (simp add: kv_store_def)
    then show ?thesis by (auto simp: m)
  qed
  then show "kv_store cfg'" using st1 new unfolding kv_store_def r ro by simp
  show "kv_persisted cfg' j = kv_persisted cfg j" if j: "j < kv_n cfg" "kv_saved cfg ! j \<noteq> None"
  proof -
    have "kv_persisted cfg1 j = kv_persisted cfg j" using st(2) [of j] j i c(2) by simp
    moreover obtain p where p: "kv_saved cfg1 ! j = Some p" using st(3) j i n by (cases "j = i") auto
    ultimately show ?thesis
      using kv_store_held [OF st1(1), of j p] j st1(2,3) by (simp add: kv_persisted_def r m value_of_append)
  qed
qed

lemma kv_save_inv:
  assumes ok: "kv_store cfg" and k: "k < length (kv_raft_objs cfg)"
  shows "kv_store (kv_save k b cfg)"
    "j < kv_n cfg \<Longrightarrow> kv_saved cfg ! j \<noteq> Some (persister (kv_raft_objs cfg ! k)) \<Longrightarrow> kv_persisted (kv_save k b cfg) j = kv_persisted cfg j"
proof -
  let ?p = "persister (kv_raft_objs cfg ! k)" and ?m = "kv_mem cfg"
  have p: "?p < length (kv_persister_objs cfg)" using ok k by (simp add: kv_store_def)
  let ?ps = "(kv_persister_objs cfg ! ?p)\<lparr>raftstate := Some (Suc (length ?m))\<rparr>"
  have s: "kv_save k b cfg = cfg\<lparr>kv_mem := ?m @ [b, b], kv_persister_objs := (kv_persister_objs cfg)[?p := ?ps]\<rparr>"
    by (simp add: kv_save_def SaveRaftState_def clone_def content_def Let_def)
  have old: "held q \<subseteq> {..<length ?m}" if "q \<in> set (kv_persister_objs cfg)" for q using ok that by (simp add: kv_store_def)
  have "held ?ps \<subseteq> insert (Suc (length ?m)) (held (kv_persister_objs cfg ! ?p))" by (auto simp: held_def)
  then have "held ?ps \<subseteq> {..<length (?m @ [b, b])}" using old [OF nth_mem [OF p]] by auto
  moreover have "held q \<subseteq> {..<length (?m @ [b, b])}" if "q \<in> set (kv_persister_objs cfg)" for q using old [OF that] by auto
  ultimately have "held q \<subseteq> {..<length (?m @ [b, b])}" if "q \<in> set ((kv_persister_objs cfg)[?p := ?ps])" for q
    using that set_update_subset_insert [of "kv_persister_objs cfg" ?p ?ps] by blast
  then show "kv_store (kv_save k b cfg)" using ok unfolding s kv_store_def by simp
  assume j: "j < kv_n cfg" "kv_saved cfg ! j \<noteq> Some ?p"
  then show "kv_persisted (kv_save k b cfg) j = kv_persisted cfg j"
    using kv_store_held [OF ok j(1)] by (cases "kv_saved cfg ! j") (auto simp: s kv_persisted_def value_of_append)
qed

lemma makeClient_split:
  assumes "makeClient names rnd to cfg = Inr (ck, cfg')"
  obtains es rn f where "make_ends 0 names (kv_net cfg) = Inr (es, rn)" "ck = length (clerk_objs cfg)"
    "cfg' = cfg\<lparr>kv_net := rn\<lparr>enabled := f\<rparr>, clerk_objs := clerk_objs cfg @ [\<lparr>ck_servers = random_handles rnd es\<rparr>],
              clerks := (clerks cfg)(ck \<mapsto> names), nextClientId := nextClientId cfg + 1\<rparr>"
    "f = (\<lambda>e. e \<in> name_set (map (\<lambda>j. if j < length names then Some (names ! j) else None) to) \<or> enabled rn e)"
    "set to \<subseteq> {..<length names}"
proof -
  obtain es rn where mk: "make_ends 0 names (kv_net cfg) = Inr (es, rn)" using assms by (auto simp: makeClient_def split: sum.splits)
  let ?k = "length (clerk_objs cfg)"
  let ?es = "map (\<lambda>j. if j < length names then Some (names ! j) else None) to"
  let ?c = "cfg\<lparr>kv_net := rn, clerk_objs := clerk_objs cfg @ [\<lparr>ck_servers = random_handles rnd es\<rparr>],
                        clerks := (clerks cfg)(?k \<mapsto> names), nextClientId := nextClientId cfg + 1\<rparr>"
  have "clerk_ends ?k to ?c = ?es" by (simp add: clerk_ends_def)
  then have c: "ConnectClientUnlocked ?k to ?c =
      (if None \<in> set ?es then Inl ''index out of range''
       else Inr (?c\<lparr>kv_net := rn\<lparr>enabled := (\<lambda>e. e \<in> name_set ?es \<or> enabled rn e)\<rparr>\<rparr>))"
    by (simp add: ConnectClientUnlocked_def enable_ends_result if_bool_eq_disj cong: disj_cong)
  have "None \<notin> set ?es" and cfg': "ck = ?k" "cfg' = ?c\<lparr>kv_net := rn\<lparr>enabled := (\<lambda>e. e \<in> name_set ?es \<or> enabled rn e)\<rparr>\<rparr>"
    using assms unfolding makeClient_def by (auto simp: mk Let_def c split: if_splits)
  then have "set to \<subseteq> {..<length names}" by (auto split: if_splits)
  with cfg' show ?thesis by (intro that [OF mk]) simp_all
qed

lemma random_handles_mset: "mset (random_handles rnd xs) = mset xs"
proof -
  have "mset (foldl (\<lambda>sa i. swap_at sa i (rnd i mod (i + 1))) xs js) = mset xs" if "\<forall>i \<in> set js. i < length xs" for js
    using that
  proof (induction js rule: rev_induct)
    case (snoc i js)
    let ?ys = "foldl (\<lambda>sa i. swap_at sa i (rnd i mod (i + 1))) xs js"
    have "mset ?ys = mset xs" using snoc by simp
    moreover from this have "length ?ys = length xs" by (rule mset_eq_length)
    moreover have "i < length xs" using snoc.prems by simp
    moreover have "rnd i mod (i + 1) < length xs" using mod_less_divisor [of "i + 1" "rnd i"] calculation(3) by linarith
    ultimately have "mset (swap_at ?ys i (rnd i mod (i + 1))) = mset xs"
      using mset_swap [of "rnd i mod (i + 1)" ?ys i] by (simp only: swap_at_def)
    then show ?case by simp
  qed simp
  then show ?thesis by (simp add: random_handles_def)
qed

end
