(* ===== verification/KV_Runs.thy ===== *)
theory KV_Runs
  imports KV_Bed
begin

text \<open>
  The theorems on the key-value test bed: every run keeps the links and the persisted state well formed,
  making a test bed links all servers, a partition around the leader leaves it in a minority, a
  restart keeps the persisted state, and a clerk reaches exactly the servers it was given.
\<close>

definition kv_inv :: "'v kvconfig \<Rightarrow> bool" where
  "kv_inv cfg \<longleftrightarrow> kv_links cfg \<and> kv_store cfg"

lemma kv_inv_enabled: "kv_inv cfg \<Longrightarrow> kv_inv (cfg\<lparr>kv_net := (kv_net cfg)\<lparr>enabled := f\<rparr>\<rparr>)"
  by (simp add: kv_inv_def kv_links_def kv_store_def)

lemma kv_inv_client:
  assumes ok: "kv_inv cfg" and m: "makeClient names rnd to cfg = Inr (ck, cfg')"
  shows "kv_inv cfg'"
proof -
  obtain es rn f where mk: "make_ends 0 names (kv_net cfg) = Inr (es, rn)"
    and cfg': "cfg' = cfg\<lparr>kv_net := rn\<lparr>enabled := f\<rparr>, clerk_objs := clerk_objs cfg @ [\<lparr>ck_servers = random_handles rnd es\<rparr>],
              clerks := (clerks cfg)(ck \<mapsto> names), nextClientId := nextClientId cfg + 1\<rparr>"
    by (rule makeClient_split [OF m])
  have "names_ok (kv_n cfg) (kv_endnames cfg) (kv_net cfg)" using ok by (simp add: kv_inv_def kv_links_def)
  from names_ok_more [OF this mk] show ?thesis using ok by (simp add: cfg' kv_inv_def kv_links_def kv_store_def)
qed

lemma kv_inv_step: "kv_step cfg cfg' \<Longrightarrow> kv_inv cfg \<Longrightarrow> kv_inv cfg'"
proof (induction rule: kv_step.induct)
  case (kv_connect i to cfg cfg')
  then show ?case using connectUnlocked_keeps kv_inv_enabled by blast
next
  case (kv_disconnect i "from" cfg cfg')
  then show ?case using disconnectUnlocked_keeps kv_inv_enabled by blast
next
  case (kv_shutdown i cfg cfg')
  then show ?case using ShutdownServer_inv(1,2) unfolding kv_inv_def by blast
next
  case (kv_start i cfg names cfg')
  then show ?case using StartServer_inv(1,2) unfolding kv_inv_def by blast
next
  case (kv_client names cfg rnd to ck cfg')
  then show ?case using kv_inv_client by blast
next
  case (kv_connect_client ck to cfg cfg')
  then show ?case using ConnectClient_keeps(1) kv_inv_enabled by blast
next
  case (kv_disconnect_client ck "from" cfg cfg')
  then show ?case using ConnectClient_keeps(2) kv_inv_enabled by blast
next
  case (kv_saves k cfg b)
  have "kv_links (kv_save k b cfg) = kv_links cfg"
    by (simp add: kv_save_def SaveRaftState_def clone_def Let_def kv_links_def)
  with kv_saves kv_save_inv(1) show ?case unfolding kv_inv_def by blast
qed (simp_all add: kv_inv_def kv_links_def kv_store_def deleteClient_def Reliable_def kv_begin_def kv_op_def names_ok_def)

lemma kv_inv_init: "kv_inv (empty_kvconfig n maxraft)"
  by (simp add: empty_kvconfig_def kv_inv_def kv_links_def kv_store_def names_ok_def end_of_def)

interpretation kv: invariant_system kv_init kv_step kv_inv
proof unfold_locales
  show "kv_inv s" if "kv_init s" for s :: "'v kvconfig" using that kv_inv_init by (auto simp: kv_init_def)
  show "kv_inv t" if "kv_inv s" "kv_step s t" for s t :: "'v kvconfig" using that kv_inv_step by blast
qed

section \<open>Making a test bed\<close>

lemma StartServer_succeeds:
  assumes names: "distinct names" "\<And>e. e \<in> set names \<Longrightarrow> ends (kv_net cfg) (Some (StrName e)) = None"
  shows "\<exists>cfg'. StartServer names i cfg = Inr cfg'"
proof -
  obtain es rn where mk: "make_ends 0 names (kv_net cfg) = Inr (es, rn)"
    using make_ends_succeeds [OF names(1), of "kv_net cfg" 0] names(2) by blast
  show ?thesis unfolding StartServer_def StartKVServer_def by (simp add: mk Let_def split: prod.split)
qed

lemma start_servers_succeeds:
  assumes "reach kv_init kv_step cfg" "\<And>i. i < kv_n cfg \<Longrightarrow> length (names i) = kv_n cfg"
    and "distinct (concat (map names S))" "set S \<subseteq> {..<kv_n cfg}"
    and "\<And>e. e \<in> set (concat (map names S)) \<Longrightarrow> ends (kv_net cfg) (Some (StrName e)) = None"
  shows "\<exists>cfg'. start_servers names S cfg = Inr cfg' \<and> reach kv_init kv_step cfg' \<and> kv_n cfg' = kv_n cfg \<and>
    (\<forall>i < kv_n cfg. i \<in> set S \<or> kvservers cfg ! i \<noteq> None \<longrightarrow> kvservers cfg' ! i \<noteq> None)"
  using assms
proof (induction S arbitrary: cfg)
  case (Cons i S)
  have i: "i < kv_n cfg" using Cons.prems by simp
  have n: "length (kvservers cfg) = kv_n cfg" using kv.reach_inv [OF Cons.prems(1)] by (simp add: kv_inv_def kv_links_def)
  obtain cfg1 where s: "StartServer (names i) i cfg = Inr cfg1"
    using StartServer_succeeds [of "names i" cfg i] Cons.prems(3,5) by auto
  obtain es rn where mk: "make_ends 0 (names i) (kv_net cfg) = Inr (es, rn)" and r: "kv_n cfg1 = kv_n cfg"
      "kvservers cfg1 = (kvservers cfg)[i := Some (length (kv_objs cfg))]"
      "kv_net cfg1 = AddServer (Some (IntName i)) (length (kv_server_objs cfg)) rn"
    by (rule StartServer_split [OF s])
  have "reach kv_init kv_step cfg1" by (rule reach_step [OF Cons.prems(1) kv_start [OF i _ s]]) (use Cons.prems(2) i in simp)
  moreover have "ends (kv_net cfg1) (Some (StrName e)) = None" if "e \<in> set (concat (map names S))" for e
    using make_ends_result(4) [OF mk, of "Some (StrName e)"] Cons.prems(3,5) that by (auto simp: r AddServer_def)
  ultimately obtain cfg' where c: "start_servers names S cfg1 = Inr cfg'" "reach kv_init kv_step cfg'" "kv_n cfg' = kv_n cfg"
    "\<forall>j < kv_n cfg. j \<in> set S \<or> kvservers cfg1 ! j \<noteq> None \<longrightarrow> kvservers cfg' ! j \<noteq> None"
    using Cons.IH [of cfg1] Cons.prems(2-4) r(1) by auto
  moreover have "kvservers cfg1 ! j \<noteq> None" if "j = i \<or> kvservers cfg ! j \<noteq> None" "j < kv_n cfg" for j
    using that n by (cases "j = i") (simp_all add: r)
  ultimately show ?case using s by auto
qed auto

text \<open>When all servers run, all have end names.\<close>

lemma running_ok: "reach kv_init kv_step cfg \<Longrightarrow> \<forall>i < kv_n cfg. kvservers cfg ! i \<noteq> None \<Longrightarrow> kv_ok cfg"
  using kv.reach_inv unfolding kv_inv_def kv_links_def kv_ok_def by blast

lemma ConnectAll_from_links:
  assumes "kv_ok cfg" "set S \<subseteq> {..<kv_n cfg}"
  shows "\<exists>cfg'. ConnectAll_from S cfg = Inr cfg' \<and> kv_step\<^sup>*\<^sup>* cfg cfg' \<and> relinked cfg (\<lambda>a b. a \<in> set S \<or> b \<in> set S \<or> linked cfg a b) cfg'"
  using assms
proof (induction S arbitrary: cfg)
  case Nil
  have "cfg = cfg\<lparr>kv_net := (kv_net cfg)\<lparr>enabled := enabled (kv_net cfg)\<rparr>\<rparr>" by simp
  then have "relinked cfg (linked cfg) cfg" unfolding relinked_def by blast
  then show ?case by simp
next
  case (Cons i S)
  have i: "i < kv_n cfg" using Cons.prems by simp
  obtain cfg1 where c: "connectUnlocked i (All cfg) cfg = Inr cfg1"
    "relinked cfg (\<lambda>a b. a = i \<and> b \<in> set (All cfg) \<or> b = i \<and> a \<in> set (All cfg) \<or> linked cfg a b) cfg1"
    by (rule connectUnlocked_links [OF Cons.prems(1) i, of "All cfg"]) (auto simp: All_def)
  note same = relinked_same [OF c(2)] and link = relinked_linked [OF c(2)]
  obtain cfg' where r: "ConnectAll_from S cfg1 = Inr cfg'" "kv_step\<^sup>*\<^sup>* cfg1 cfg'"
    "relinked cfg1 (\<lambda>a b. a \<in> set S \<or> b \<in> set S \<or> linked cfg1 a b) cfg'"
    using Cons.IH [of cfg1] Cons.prems same by auto
  have "relinked cfg (\<lambda>a b. a \<in> set (i # S) \<or> b \<in> set (i # S) \<or> linked cfg a b) cfg'"
    by (rule relinked_trans [OF c(2) r(3)]) (use link in \<open>auto simp: All_def\<close>)
  moreover have "kv_step\<^sup>*\<^sup>* cfg cfg'" using kv_connect [OF c(1)] r(2) by (rule converse_rtranclp_into_rtranclp)
  ultimately show ?case using c(1) r(1) by auto
qed

lemma linked_reliable [simp]: "linked (cfg\<lparr>kv_net := Reliable yes (kv_net cfg)\<rparr>) = linked cfg"
  by (simp add: linked_def Reliable_def fun_eq_iff split: option.split)

lemma make_kvconfig_ok:
  assumes names: "\<forall>i < n. length (names i) = n" "distinct (concat (map names [0..<n]))"
  shows "\<exists>cfg :: 'v kvconfig. make_kvconfig names n unreliable maxraft = Inr cfg \<and> reach kv_init kv_step cfg \<and> kv_n cfg = n \<and>
    (\<forall>i < n. kvservers cfg ! i \<noteq> None) \<and> (\<forall>a < n. \<forall>b < n. linked cfg a b)"
proof -
  let ?c = "empty_kvconfig n maxraft :: 'v kvconfig"
  have n: "kv_n ?c = n" and none: "ends (kv_net ?c) e = None" for e by (simp_all add: empty_kvconfig_def MakeNetwork_def)
  have "reach kv_init kv_step ?c" by (rule reach_init) (auto simp: kv_init_def)
  then obtain cfg1 :: "'v kvconfig" where s: "start_servers names [0..<n] ?c = Inr cfg1" "reach kv_init kv_step cfg1" "kv_n cfg1 = n"
    "\<forall>i < n. kvservers cfg1 ! i \<noteq> None"
    using start_servers_succeeds [of ?c names "[0..<n]"] names n none by (auto simp: atLeast0LessThan)
  then have ok: "kv_ok cfg1" using running_ok by blast
  obtain cfg2 where c: "ConnectAll cfg1 = Inr cfg2" "kv_step\<^sup>*\<^sup>* cfg1 cfg2"
    "relinked cfg1 (\<lambda>a b. a \<in> set [0..<n] \<or> b \<in> set [0..<n] \<or> linked cfg1 a b) cfg2"
    using ConnectAll_from_links [OF ok, of "[0..<n]"] s(3) by (auto simp: ConnectAll_def atLeast0LessThan)
  note same = relinked_same [OF c(3)] and link = relinked_linked [OF c(3)]
  let ?cfg = "cfg2\<lparr>kv_net := Reliable (\<not> unreliable) (kv_net cfg2)\<rparr>"
  have "reach kv_init kv_step ?cfg" using kv.reach_steps [OF c(2) s(2)] kv_reliable by (rule reach_step)
  moreover have "make_kvconfig names n unreliable maxraft = Inr ?cfg" by (simp add: make_kvconfig_def s(1) c(1))
  ultimately show ?thesis using same link s(3,4) by auto
qed

text \<open>
  Making a test bed of the key-value service succeeds for every number of servers when the random names
  of the ends differ; all servers run and each is linked to each.
\<close>

theorem make_kvconfig_linked:
  assumes "\<forall>i < n. length (names i) = n" and "distinct (concat (map names [0..<n]))"
  shows "\<exists>cfg :: 'v kvconfig. make_kvconfig names n unreliable maxraft = Inr cfg \<and> reach kv_init kv_step cfg \<and> kv_n cfg = n \<and>
    (\<forall>i < n. kvservers cfg ! i \<noteq> None) \<and> (\<forall>a < n. \<forall>b < n. linked cfg a b)"
  by (rule make_kvconfig_ok [OF assms])

section \<open>Partitions\<close>

lemma first_leader_found:
  assumes "\<forall>i \<in> set S. kvservers cfg ! i \<noteq> None"
  shows "first_leader cfg st S = Inr (case find (\<lambda>i. snd (st i)) S of None \<Rightarrow> (False, 0) | Some l \<Rightarrow> (True, l))"
  using assms by (induction S) auto

lemma partition_cuts_off:
  assumes ok: "kv_ok cfg" and n: "kv_n cfg = 2 * m + 1" "0 < m" and ln: "l < 2 * m + 1"
  shows "\<exists>p1 p2 cfg'. partition_around (kv_n cfg) l = Inr (p1, p2) \<and> partition p1 p2 cfg = Inr cfg' \<and> kv_n cfg' = kv_n cfg \<and>
    length p1 = m + 1 \<and> length p2 = m \<and> l \<in> set p2 \<and> set p1 \<union> set p2 = {..<kv_n cfg} \<and>
    (\<forall>a < kv_n cfg. \<forall>b < kv_n cfg. linked cfg' a b \<longleftrightarrow> (a \<in> set p1 \<longleftrightarrow> b \<in> set p1)) \<and>
    card {b. b < kv_n cfg \<and> linked cfg' l b} = m"
proof -
  define xs where "xs = filter (\<lambda>i. i \<noteq> l) [0..<2 * m + 1]"
  define p1 where "p1 = take (m + 1) xs"
  define p2 where "p2 = drop (m + 1) xs @ [l]"
  have len: "length xs = 2 * m" using others_length [OF ln] by (simp add: xs_def)
  have xs: "distinct xs" "set xs = {..<2 * m + 1} - {l}" by (auto simp: xs_def)
  have sets: "set p1 \<union> set p2 = {..<2 * m + 1}"
  proof -
    have "set p1 \<union> set p2 = set (take (m + 1) xs @ drop (m + 1) xs) \<union> {l}" by (auto simp: p1_def p2_def simp del: append_take_drop_id)
    also have "\<dots> = insert l (set xs)" by simp
    finally show ?thesis using xs(2) ln by auto
  qed
  have lens: "length p1 = m + 1" "length p2 = m" using len n(2) by (simp_all add: p1_def p2_def)
  have "card (set (p1 @ p2)) = length (p1 @ p2)" using sets lens by simp
  then have dist: "distinct (p1 @ p2)" by (rule card_distinct)
  have mp: "partition_around (kv_n cfg) l = Inr (p1, p2)"
    using partition_around_odd [OF ln n(2)] by (simp add: n(1) p1_def p2_def xs_def)
  obtain cfg' where c: "partition p1 p2 cfg = Inr cfg'"
    "relinked cfg (\<lambda>a b. if a \<in> set p1 \<and> b \<in> set p1 \<or> a \<in> set p2 \<and> b \<in> set p2 then True
       else if a \<in> set p1 \<and> b \<in> set p2 \<or> a \<in> set p2 \<and> b \<in> set p1 then False else linked cfg a b) cfg'"
    by (rule partition_links [OF ok dist]) (use sets n(1) in auto)
  have part: "x \<in> set p2 \<longleftrightarrow> x \<notin> set p1" if "x < kv_n cfg" for x using sets dist that n(1) by auto
  have link: "linked cfg' a b \<longleftrightarrow> (a \<in> set p1 \<longleftrightarrow> b \<in> set p1)" if "a < kv_n cfg" "b < kv_n cfg" for a b
    using relinked_linked [OF c(2) that] part that by auto
  have l2: "l \<in> set p2" "l < kv_n cfg" using ln n(1) by (simp_all add: p2_def)
  then have "{b. b < kv_n cfg \<and> linked cfg' l b} = set p2" using link [OF l2(2)] part sets n(1) by auto
  moreover have "card (set p2) = m" using dist lens(2) by (simp add: distinct_card)
  moreover have "kv_n cfg' = kv_n cfg" using relinked_same [OF c(2)] by simp
  ultimately show ?thesis using mp c(1) lens l2(1) sets n(1) link by auto
qed

text \<open>
  C20: the network is partitioned around the leader. With an odd number of servers, three at least, all of
  them running, \<open>make_partition\<close> returns a majority without the leader and a minority with it; \<open>partition\<close> then links
  exactly the servers of the same part, so that the leader reaches less than half of the servers.
\<close>

theorem partition_around_leader:
  assumes "reach kv_init kv_step cfg" and run: "\<forall>i < kv_n cfg. kvservers cfg ! i \<noteq> None" and n: "kv_n cfg = 2 * m + 1" "0 < m"
    and l: "find (\<lambda>i. snd (st i)) [0..<kv_n cfg] = Some l"
  shows "\<exists>p1 p2 cfg'. make_partition cfg st = Inr (p1, p2) \<and> partition p1 p2 cfg = Inr cfg' \<and>
    length p1 = m + 1 \<and> length p2 = m \<and> l \<in> set p2 \<and> set p1 \<union> set p2 = {..<kv_n cfg} \<and>
    (\<forall>a < kv_n cfg. \<forall>b < kv_n cfg. linked cfg' a b \<longleftrightarrow> (a \<in> set p1 \<longleftrightarrow> b \<in> set p1)) \<and>
    card {b. b < kv_n cfg \<and> linked cfg' l b} = m"
proof -
  have "l \<in> set [0..<kv_n cfg]" using l by (auto simp: find_Some_iff)
  then have ln: "l < 2 * m + 1" using n(1) by (simp only: set_upt atLeastLessThan_iff)
  have mp: "make_partition cfg st = partition_around (kv_n cfg) l"
    using first_leader_found [of "[0..<kv_n cfg]" cfg st] run l by (simp add: make_partition_def Leader_def)
  show ?thesis unfolding mp using partition_cuts_off [OF running_ok [OF assms(1) run] n ln] by blast
qed

text \<open>With an even number, server 0 is in both parts or a part is padded with it; with one server it panics.\<close>

lemma even_partition_overlaps: "partition_around 4 3 = Inr ([0, 1, 2], [0, 3])" "partition_around 1 0 = Inl ''index out of range''"
  by code_simp+

text \<open>The second test of \<open>disconnectUnlocked\<close> looks at the wrong row: an end of a started server stays enabled, or the call panics.\<close>

definition half_started :: "string list option list \<Rightarrow> unit kvconfig" where
  "half_started rows = (empty_kvconfig 2 0)\<lparr>kv_endnames := rows, kv_net := MakeNetwork\<lparr>enabled := (\<lambda>_. True)\<rparr>\<rparr>"

lemma disconnect_wrong_row:
  "disconnectUnlocked 0 [1] (half_started [None, Some [''ba'', ''bb'']]) = Inr (half_started [None, Some [''ba'', ''bb'']])"
  "disconnectUnlocked 0 [1] (half_started [Some [''aa'', ''ab''], None]) = Inl ''index out of range''"
  by (simp_all add: half_started_def disconnectUnlocked_def empty_kvconfig_def end_of_def)

section \<open>Restarts\<close>

text \<open>
  A server that is shut down and started again has the state that it persisted before, and so has every
  other server; what an earlier instance saves afterwards does not reach it.
\<close>

theorem restart_keeps_state:
  assumes "reach kv_init kv_step cfg" and i: "i < kv_n cfg" and down: "ShutdownServer i cfg = Inr cfg1"
    and up: "StartServer names i cfg1 = Inr cfg2" and len: "length names = kv_n cfg"
  shows "(\<forall>j < kv_n cfg. kv_persisted cfg j \<noteq> None \<longrightarrow> kv_persisted cfg2 j = kv_persisted cfg j) \<and>
    (\<forall>k < length (kv_raft_objs cfg1). kv_persisted (kv_save k b cfg2) i = kv_persisted cfg2 i)"
proof (rule conjI)
  have ok: "kv_links cfg" "kv_store cfg" using kv.reach_inv [OF assms(1)] by (simp_all add: kv_inv_def)
  note d = ShutdownServer_inv [OF down i]
  have ok1: "kv_store cfg1" "kv_n cfg1 = kv_n cfg" using d(2,4) ok by simp_all
  have i1: "i < kv_n cfg1" "length names = kv_n cfg1" using i len ok1 by simp_all
  show "\<forall>j < kv_n cfg. kv_persisted cfg j \<noteq> None \<longrightarrow> kv_persisted cfg2 j = kv_persisted cfg j"
  proof (intro allI impI)
    fix j assume j: "j < kv_n cfg" "kv_persisted cfg j \<noteq> None"
    have same: "kv_persisted cfg1 j = kv_persisted cfg j" using d(3) [OF ok(2) j(1)] .
    then have "kv_saved cfg1 ! j \<noteq> None" using j(2) by (auto simp: kv_persisted_def)
    then show "kv_persisted cfg2 j = kv_persisted cfg j" using StartServer_inv(3) [OF up i1 ok1(1)] j(1) ok1(2) same by simp
  qed
  show "\<forall>k < length (kv_raft_objs cfg1). kv_persisted (kv_save k b cfg2) i = kv_persisted cfg2 i"
  proof (intro allI impI)
    fix k assume k: "k < length (kv_raft_objs cfg1)"
    obtain es rn c where c: "c = start_saved i (cfg1\<lparr>kv_endnames := (kv_endnames cfg1)[i := Some names], kv_net := rn\<rparr>)"
      and r: "kv_n cfg2 = kv_n cfg1" "kv_saved cfg2 = kv_saved c"
        "kv_raft_objs cfg2 = kv_raft_objs cfg1 @ [\<lparr>peers = es, persister = the (kv_saved c ! i), me = i, dead = 0\<rparr>]"
      by (rule StartServer_split [OF up])
    have "persister (kv_raft_objs cfg1 ! k) < length (kv_persister_objs cfg1)" using ok1(1) k by (simp add: kv_store_def)
    then have old: "persister (kv_raft_objs cfg2 ! k) \<noteq> length (kv_persister_objs cfg1)" using k by (simp add: r nth_append)
    have "kv_store (cfg1\<lparr>kv_endnames := (kv_endnames cfg1)[i := Some names], kv_net := rn\<rparr>)" using ok1(1) by (simp add: kv_store_def)
    from start_saved_store(3) [OF this, of i] have "kv_saved c = (kv_saved cfg1)[i := Some (length (kv_persister_objs cfg1))]"
      using i1(1) by (simp add: c)
    then have "kv_saved cfg2 ! i = Some (length (kv_persister_objs cfg1))" using ok1(1) i1(1) by (simp add: r kv_store_def)
    with old have "kv_saved cfg2 ! i \<noteq> Some (persister (kv_raft_objs cfg2 ! k))" by simp
    then show "kv_persisted (kv_save k b cfg2) i = kv_persisted cfg2 i"
      using kv_save_inv(2) [of cfg2 k i b] StartServer_inv(2) [OF up i1 ok1(1)] k i1(1) by (simp add: r)
  qed
qed

section \<open>Clerks\<close>

text \<open>
  A new clerk reaches exactly the servers it is connected to. Its handles are the ends with the given names in some
  order, each is connected to its server, those to the servers listed are enabled and no others, and the links
  between the servers stay as they are.
\<close>

theorem clerk_reaches_exactly:
  assumes "reach kv_init kv_step cfg" and m: "makeClient names rnd to cfg = Inr (ck, cfg')" and len: "length names = kv_n cfg"
  shows "mset (map ce_endname (ck_servers (clerk_objs cfg' ! ck))) = mset (map (\<lambda>e. Some (StrName e)) names) \<and>
    (\<forall>j < kv_n cfg. connections (kv_net cfg') (Some (StrName (names ! j))) = Some (IntName j) \<and>
      (enabled (kv_net cfg') (Some (StrName (names ! j))) \<longleftrightarrow> j \<in> set to)) \<and>
    (\<forall>a < kv_n cfg. \<forall>b < kv_n cfg. linked cfg' a b \<longleftrightarrow> linked cfg a b)"
proof (intro conjI)
  obtain es rn f where mk: "make_ends 0 names (kv_net cfg) = Inr (es, rn)" and ck: "ck = length (clerk_objs cfg)"
    and cfg': "cfg' = cfg\<lparr>kv_net := rn\<lparr>enabled := f\<rparr>, clerk_objs := clerk_objs cfg @ [\<lparr>ck_servers = random_handles rnd es\<rparr>],
              clerks := (clerks cfg)(ck \<mapsto> names), nextClientId := nextClientId cfg + 1\<rparr>"
    and f: "f = (\<lambda>e. e \<in> name_set (map (\<lambda>j. if j < length names then Some (names ! j) else None) to) \<or> enabled rn e)"
    and to: "set to \<subseteq> {..<length names}"
    by (rule makeClient_split [OF m])
  note r = make_ends_result [OF mk]
  have "mset (map ce_endname (random_handles rnd es)) = mset (map ce_endname es)" by (simp add: random_handles_mset)
  then show "mset (map ce_endname (ck_servers (clerk_objs cfg' ! ck))) = mset (map (\<lambda>e. Some (StrName e)) names)"
    by (simp add: cfg' ck r(3) comp_def)
  have named: "Some (StrName s) \<in> name_set (map (\<lambda>j. if j < length names then Some (names ! j) else None) to) \<longleftrightarrow>
      (\<exists>j \<in> set to. s = names ! j)" for s
    unfolding name_set_map using to by (auto split: if_splits)
  show "\<forall>j < kv_n cfg. connections (kv_net cfg') (Some (StrName (names ! j))) = Some (IntName j) \<and>
      (enabled (kv_net cfg') (Some (StrName (names ! j))) \<longleftrightarrow> j \<in> set to)"
  proof (intro allI impI conjI)
    fix j assume j: "j < kv_n cfg"
    show "connections (kv_net cfg') (Some (StrName (names ! j))) = Some (IntName j)" using r(5) [of j] j len by (simp add: cfg')
    have "\<not> enabled rn (Some (StrName (names ! j)))" using r(7) j len by simp
    moreover have "(\<exists>i \<in> set to. names ! j = names ! i) \<longleftrightarrow> j \<in> set to"
      using nth_eq_iff_index_eq [OF r(1)] j len to by (metis lessThan_iff subsetD)
    ultimately show "enabled (kv_net cfg') (Some (StrName (names ! j))) \<longleftrightarrow> j \<in> set to" by (simp add: cfg' f named)
  qed
  show "\<forall>a < kv_n cfg. \<forall>b < kv_n cfg. linked cfg' a b \<longleftrightarrow> linked cfg a b"
  proof (intro allI impI)
    fix a b assume a: "a < kv_n cfg"
    have "s \<notin> set names" if "end_of (kv_endnames cfg) a b = Some s" for s
      using kv.reach_inv [OF assms(1)] that a r(2) [of s] unfolding kv_inv_def kv_links_def names_ok_def by blast
    moreover have "names ! j \<in> set names" if "j \<in> set to" for j using that to by auto
    ultimately show "linked cfg' a b \<longleftrightarrow> linked cfg a b"
      unfolding linked_def by (cases "end_of (kv_endnames cfg) a b") (auto simp: cfg' f named r(7))
  qed
qed

section \<open>An example\<close>

text \<open>Three servers; server 1 is the leader.\<close>

definition ex_kv_names :: "nat \<Rightarrow> string list" where
  "ex_kv_names i = (if i = 0 then [''aa'', ''ab'', ''ac''] else if i = 1 then [''ba'', ''bb'', ''bc''] else [''ca'', ''cb'', ''cc''])"

definition ex_kv :: "unit kvconfig" where
  "ex_kv = projr (make_kvconfig ex_kv_names 3 False 1000)"

lemma ex_kv_names_ok: "\<forall>i < 3. length (ex_kv_names i) = 3" "distinct (concat (map ex_kv_names [0..<3]))"
  by (simp add: ex_kv_names_def) code_simp

theorem make_kvconfig_linked_witness:
  "\<exists>cfg :: unit kvconfig. make_kvconfig ex_kv_names 3 False 1000 = Inr cfg \<and> reach kv_init kv_step cfg \<and> kv_n cfg = 3 \<and>
    (\<forall>i < 3. kvservers cfg ! i \<noteq> None) \<and> (\<forall>a < 3. \<forall>b < 3. linked cfg a b)"
  by (rule make_kvconfig_linked) (rule ex_kv_names_ok)+

lemma ex_kv_reach: "reach kv_init kv_step ex_kv" "kv_n ex_kv = 3" "\<forall>i < 3. kvservers ex_kv ! i \<noteq> None"
proof -
  obtain cfg :: "unit kvconfig" where "make_kvconfig ex_kv_names 3 False 1000 = Inr cfg" "reach kv_init kv_step cfg" "kv_n cfg = 3"
    "\<forall>i < 3. kvservers cfg ! i \<noteq> None"
    using make_kvconfig_ok [OF ex_kv_names_ok, of False 1000] by blast
  then show "reach kv_init kv_step ex_kv" "kv_n ex_kv = 3" "\<forall>i < 3. kvservers ex_kv ! i \<noteq> None"
    by (simp_all add: ex_kv_def)
qed

theorem partition_around_leader_witness:
  "\<exists>p1 p2 cfg'. make_partition ex_kv (\<lambda>i. (2, i = 1)) = Inr (p1, p2) \<and> partition p1 p2 ex_kv = Inr cfg' \<and>
    length p1 = 1 + 1 \<and> length p2 = 1 \<and> 1 \<in> set p2 \<and> set p1 \<union> set p2 = {..<kv_n ex_kv} \<and>
    (linked cfg' 0 2 \<longleftrightarrow> (0 \<in> set p1 \<longleftrightarrow> 2 \<in> set p1)) \<and>
    card {b. b < kv_n ex_kv \<and> linked cfg' 1 b} = 1"
proof -
  have "find (\<lambda>i. snd (2 :: int, i = (1 :: nat))) [0..<kv_n ex_kv] = Some 1" unfolding ex_kv_reach(2) by (simp add: upt_rec)
  from partition_around_leader [OF ex_kv_reach(1) _ _ _ this, of 1] ex_kv_reach(2,3)
  obtain p1 p2 cfg' where "make_partition ex_kv (\<lambda>i. (2, i = 1)) = Inr (p1, p2)" "partition p1 p2 ex_kv = Inr cfg'"
    "length p1 = 1 + 1" "length p2 = 1" "1 \<in> set p2" "set p1 \<union> set p2 = {..<kv_n ex_kv}"
    "\<forall>a < kv_n ex_kv. \<forall>b < kv_n ex_kv. linked cfg' a b \<longleftrightarrow> (a \<in> set p1 \<longleftrightarrow> b \<in> set p1)"
    "card {b. b < kv_n ex_kv \<and> linked cfg' 1 b} = 1" by auto
  moreover from this(7) have "linked cfg' 0 2 \<longleftrightarrow> (0 \<in> set p1 \<longleftrightarrow> 2 \<in> set p1)" using ex_kv_reach(2) by simp
  ultimately show ?thesis by blast
qed

text \<open>Two servers; server 0 saves its state and is restarted.\<close>

definition ex_pair :: "unit kvconfig" where
  "ex_pair = projr (make_kvconfig ex_names 2 False 1000)"

lemma ex_pair_reach: "reach kv_init kv_step ex_pair" "kv_n ex_pair = 2"
proof -
  obtain cfg :: "unit kvconfig" where "make_kvconfig ex_names 2 False 1000 = Inr cfg" "reach kv_init kv_step cfg" "kv_n cfg = 2"
    using make_kvconfig_ok [OF ex_names_ok, of False 1000] by blast
  then show "reach kv_init kv_step ex_pair" "kv_n ex_pair = 2" by (simp_all add: ex_pair_def)
qed

definition ex_pair_down :: "unit kvconfig" where
  "ex_pair_down = projr (ShutdownServer 0 (kv_save 0 ''term 1'' ex_pair))"

definition ex_pair_up :: "unit kvconfig" where
  "ex_pair_up = projr (StartServer [''da'', ''db''] 0 ex_pair_down)"

lemma ex_pair_restarts:
  "ShutdownServer 0 (kv_save 0 ''term 1'' ex_pair) = Inr ex_pair_down" "StartServer [''da'', ''db''] 0 ex_pair_down = Inr ex_pair_up"
proof -
  have "case ShutdownServer 0 (kv_save 0 ''term 1'' ex_pair) of Inl _ \<Rightarrow> False | Inr _ \<Rightarrow> True" by code_simp
  then show "ShutdownServer 0 (kv_save 0 ''term 1'' ex_pair) = Inr ex_pair_down" by (auto simp: ex_pair_down_def split: sum.splits)
  have "case StartServer [''da'', ''db''] 0 ex_pair_down of Inl _ \<Rightarrow> False | Inr _ \<Rightarrow> True" by code_simp
  then show "StartServer [''da'', ''db''] 0 ex_pair_down = Inr ex_pair_up" by (auto simp: ex_pair_up_def split: sum.splits)
qed

lemma ex_pair_parts:
  "kv_n (kv_save 0 ''term 1'' ex_pair) = 2" "length (kv_raft_objs ex_pair) = 2" "length (kv_raft_objs ex_pair_down) = 2"
  "kv_persisted (kv_save 0 ''term 1'' ex_pair) 0 = Some (''term 1'', '''')"
  by code_simp+

theorem restart_keeps_state_witness:
  "kv_persisted ex_pair_up 0 = Some (''term 1'', '''') \<and> kv_persisted (kv_save 0 ''late'' ex_pair_up) 0 = kv_persisted ex_pair_up 0"
proof -
  have "reach kv_init kv_step (kv_save 0 ''term 1'' ex_pair)"
    by (rule reach_step [OF ex_pair_reach(1) kv_saves]) (simp add: ex_pair_parts)
  from restart_keeps_state [OF this _ ex_pair_restarts, of "''late''"] show ?thesis by (simp add: ex_pair_parts)
qed

definition ex_pair_clerk :: "nat \<times> unit kvconfig" where
  "ex_pair_clerk = projr (makeClient [''ka'', ''kb''] (\<lambda>i. 1) [0] ex_pair)"

theorem clerk_reaches_exactly_witness:
  "enabled (kv_net (snd ex_pair_clerk)) (Some (StrName ''ka'')) \<and> \<not> enabled (kv_net (snd ex_pair_clerk)) (Some (StrName ''kb''))"
proof -
  have "case makeClient [''ka'', ''kb''] (\<lambda>i. 1) [0] ex_pair of Inl _ \<Rightarrow> False | Inr _ \<Rightarrow> True" by code_simp
  then have "makeClient [''ka'', ''kb''] (\<lambda>i. 1) [0] ex_pair = Inr (fst ex_pair_clerk, snd ex_pair_clerk)"
    by (auto simp: ex_pair_clerk_def split: sum.splits)
  from clerk_reaches_exactly [OF ex_pair_reach(1) this]
  have "\<forall>j < 2. enabled (kv_net (snd ex_pair_clerk)) (Some (StrName ([''ka'', ''kb''] ! j))) \<longleftrightarrow> j \<in> set [0]"
    using ex_pair_reach(2) by simp
  from this [rule_format, of 0] this [rule_format, of 1] show ?thesis by simp
qed

end
