(* ===== verification/Ctrl_Bed.thy ===== *)
theory Ctrl_Bed
  imports Ctrl_Config KV_Runs
begin

text \<open>
  The test bed of the shard controller behaves as that of the key-value service. Both states
  are related when they agree in all but the server objects; every operation of one is matched by the same
  operation of the other, with the same errors, and so every run. The theorems on links, partitions and
  restarts then hold for the controller as well.
\<close>

section \<open>Runs\<close>

definition ctl_save :: "nat \<Rightarrow> bytes \<Rightarrow> 'v ctlconfig \<Rightarrow> 'v ctlconfig" where
  "ctl_save k b cfg =
     (let p = persister (ctl_raft_objs cfg ! k) in
      (case SaveRaftState (Some (length (ctl_mem cfg))) (ctl_persister_objs cfg ! p) (ctl_mem cfg @ [b]) of
         (ps, m) \<Rightarrow> cfg\<lparr>ctl_mem := m, ctl_persister_objs := (ctl_persister_objs cfg)[p := ps]\<rparr>))"

inductive ctl_step :: "'v ctlconfig \<Rightarrow> 'v ctlconfig \<Rightarrow> bool" where
  ctl_connects: "ctl_connectUnlocked i to cfg = Inr cfg' \<Longrightarrow> ctl_step cfg cfg'"
| ctl_disconnects: "ctl_disconnectUnlocked i from cfg = Inr cfg' \<Longrightarrow> ctl_step cfg cfg'"
| ctl_shutdown: "i < ctl_n cfg \<Longrightarrow> ctl_ShutdownServer i cfg = Inr cfg' \<Longrightarrow> ctl_step cfg cfg'"
| ctl_start: "i < ctl_n cfg \<Longrightarrow> length names = ctl_n cfg \<Longrightarrow> ctl_StartServer names i cfg = Inr cfg' \<Longrightarrow> ctl_step cfg cfg'"
| ctl_client: "length names = ctl_n cfg \<Longrightarrow> ctl_makeClient names rnd to cfg = Inr (ck, cfg') \<Longrightarrow> ctl_step cfg cfg'"
| ctl_connect_client: "ctl_ConnectClientUnlocked ck to cfg = Inr cfg' \<Longrightarrow> ctl_step cfg cfg'"
| ctl_disconnect_client: "ctl_DisconnectClientUnlocked ck from cfg = Inr cfg' \<Longrightarrow> ctl_step cfg cfg'"
| ctl_delete_client: "ctl_step cfg (ctl_deleteClient ck cfg)"
| ctl_saves: "k < length (ctl_raft_objs cfg) \<Longrightarrow> ctl_step cfg (ctl_save k b cfg)"
| ctl_reliable: "ctl_step cfg (cfg\<lparr>ctl_net := Reliable yes (ctl_net cfg)\<rparr>)"

definition ctl_init :: "'v ctlconfig \<Rightarrow> bool" where
  "ctl_init cfg \<longleftrightarrow> (\<exists>n. cfg = empty_ctlconfig n)"

section \<open>The relation\<close>

definition same_bed :: "'v ctlconfig \<Rightarrow> 'w kvconfig \<Rightarrow> bool" where
  "same_bed c k \<longleftrightarrow> ctl_net c = kv_net k \<and> ctl_n c = kv_n k \<and> ctl_servers c = kvservers k \<and> ctl_saved c = kv_saved k \<and>
     ctl_endnames c = kv_endnames k \<and> ctl_clerks c = clerks k \<and> ctl_nextClientId c = nextClientId k \<and>
     ctl_clerk_objs c = clerk_objs k \<and> ctl_raft_objs c = kv_raft_objs k \<and> ctl_persister_objs c = kv_persister_objs k \<and>
     ctl_mem c = kv_mem k \<and> map sc_rf (ctl_objs c) = map kv_rf (kv_objs k) \<and>
     length (ctl_server_objs c) = length (kv_server_objs k) \<and> (\<forall>s. Some s \<in> set (kvservers k) \<longrightarrow> s < length (kv_objs k))"

abbreviation same_result :: "string + 'v ctlconfig \<Rightarrow> string + 'w kvconfig \<Rightarrow> bool" where
  "same_result \<equiv> rel_sum (=) same_bed"

lemma same_result_Inr: "same_result (Inr c) r \<Longrightarrow> (\<And>k. r = Inr k \<Longrightarrow> same_bed c k \<Longrightarrow> P) \<Longrightarrow> P"
  by (cases r) auto

lemma same_bed_enable:
  assumes "same_bed c k" "es = es'"
  shows "same_result (case enable_ends yes es (ctl_net c) of Inl e \<Rightarrow> Inl e | Inr rn \<Rightarrow> Inr (c\<lparr>ctl_net := rn\<rparr>))
    (case enable_ends yes es' (kv_net k) of Inl e \<Rightarrow> Inl e | Inr rn \<Rightarrow> Inr (k\<lparr>kv_net := rn\<rparr>))"
  using assms by (auto simp: same_bed_def split: sum.split)

lemma same_connect: "same_bed c k \<Longrightarrow> same_result (ctl_connectUnlocked i to c) (connectUnlocked i to k)"
  by (auto simp: ctl_connectUnlocked_def connectUnlocked_def same_bed_def split: sum.split)

lemma same_disconnect: "same_bed c k \<Longrightarrow> same_result (ctl_disconnectUnlocked i from c) (disconnectUnlocked i from k)"
  by (auto simp: ctl_disconnectUnlocked_def disconnectUnlocked_def same_bed_def split: sum.split)

lemma same_clients:
  assumes "same_bed c k"
  shows "same_result (ctl_ConnectClientUnlocked ck to c) (ConnectClientUnlocked ck to k)"
    "same_result (ctl_DisconnectClientUnlocked ck from c) (DisconnectClientUnlocked ck from k)"
    "same_bed (ctl_deleteClient ck c) (deleteClient ck k)"
proof -
  have ends: "ctl_clerk_ends ck is c = clerk_ends ck is k" for "is"
    using assms by (simp add: ctl_clerk_ends_def clerk_ends_def same_bed_def)
  show "same_result (ctl_ConnectClientUnlocked ck to c) (ConnectClientUnlocked ck to k)"
    "same_result (ctl_DisconnectClientUnlocked ck from c) (DisconnectClientUnlocked ck from k)"
    unfolding ctl_ConnectClientUnlocked_def ConnectClientUnlocked_def ctl_DisconnectClientUnlocked_def DisconnectClientUnlocked_def
    by (rule same_bed_enable [OF assms ends])+
  show "same_bed (ctl_deleteClient ck c) (deleteClient ck k)"
    using assms by (simp add: ctl_deleteClient_def deleteClient_def same_bed_def)
qed

lemma same_copy: "same_bed c k \<Longrightarrow> same_bed (ctl_copy_saved i c) (copy_kv_saved i k)"
  by (auto simp: ctl_copy_saved_def copy_kv_saved_def same_bed_def split: option.split)

lemma same_Kill:
  assumes "same_bed c k" "s < length (kv_objs k)"
  shows "same_bed (ShardCtrler_Kill s c) (KVServer_Kill s k)"
proof -
  have m: "map sc_rf (ctl_objs c) = map kv_rf (kv_objs k)" using assms(1) by (simp add: same_bed_def)
  then have len: "length (ctl_objs c) = length (kv_objs k)" by (metis length_map)
  have "sc_rf (ctl_objs c ! s) = kv_rf (kv_objs k ! s)" using arg_cong [OF m, of "\<lambda>xs. xs ! s"] assms(2) len by simp
  moreover have "map kv_rf ((kv_objs k)[s := (kv_objs k ! s)\<lparr>kv_dead := 1\<rparr>]) = map kv_rf (kv_objs k)"
    using assms(2) by (simp add: map_update) (metis length_map list_update_id nth_map)
  ultimately show ?thesis using assms(1) by (simp add: ShardCtrler_Kill_def KVServer_Kill_def same_bed_def Let_def)
qed

lemma same_bed_net:
  "same_bed c k \<Longrightarrow> same_bed (c\<lparr>ctl_net := f (ctl_net c)\<rparr>) (k\<lparr>kv_net := f (kv_net k)\<rparr>)"
  by (simp add: same_bed_def)

lemma same_shutdown:
  assumes "same_bed c k" "i < kv_n k" "length (kvservers k) = kv_n k"
  shows "same_result (ctl_ShutdownServer i c) (ShutdownServer i k)"
proof -
  have all: "ctl_All c = All k" using assms(1) by (simp add: ctl_All_def All_def same_bed_def)
  have r: "same_result (ctl_disconnectUnlocked i (ctl_All c) c) (disconnectUnlocked i (All k) k)"
    unfolding all by (rule same_disconnect [OF assms(1)])
  show ?thesis
  proof (cases "disconnectUnlocked i (All k) k")
    case (Inl e)
    with r show ?thesis by (cases "ctl_disconnectUnlocked i (ctl_All c) c") (simp_all add: ctl_ShutdownServer_def ShutdownServer_def)
  next
    case (Inr k1)
    with r obtain c1 where c1: "ctl_disconnectUnlocked i (ctl_All c) c = Inr c1" "same_bed c1 k1"
      by (cases "ctl_disconnectUnlocked i (ctl_All c) c") auto
    define k2 where "k2 = copy_kv_saved i (k1\<lparr>kv_net := DeleteServer (Some (IntName i)) (kv_net k1)\<rparr>)"
    define c2 where "c2 = ctl_copy_saved i (c1\<lparr>ctl_net := DeleteServer (Some (IntName i)) (ctl_net c1)\<rparr>)"
    have s2: "same_bed c2 k2" unfolding c2_def k2_def by (rule same_copy [OF same_bed_net [OF c1(2)]])
    obtain f where "k1 = k\<lparr>kv_net := (kv_net k)\<lparr>enabled := f\<rparr>\<rparr>" using disconnectUnlocked_keeps [OF Inr] by blast
    then have len: "i < length (kvservers k2)" using assms(2,3) by (simp add: k2_def)
    have srv: "ctl_servers c2 = kvservers k2" using s2 by (simp add: same_bed_def)
    have "same_bed ((ShardCtrler_Kill s c2)\<lparr>ctl_servers := (ctl_servers c2)[i := None]\<rparr>) ((KVServer_Kill s k2)\<lparr>kvservers := (kvservers k2)[i := None]\<rparr>)"
      if "kvservers k2 ! i = Some s" for s
    proof -
      have "Some s \<in> set (kvservers k2)" using that len by (metis nth_mem)
      then have "s < length (kv_objs k2)" using s2 by (simp add: same_bed_def)
      from same_Kill [OF s2 this] show ?thesis
        using srv by (auto simp: same_bed_def KVServer_Kill_def Let_def dest: set_update_subset_insert [THEN subsetD])
    qed
    then show ?thesis
      using s2 srv unfolding ctl_ShutdownServer_def ShutdownServer_def
      by (simp add: c1(1) Inr c2_def [symmetric] k2_def [symmetric] Let_def split: option.split)
  qed
qed

definition ctl_start_saved :: "nat \<Rightarrow> 'v ctlconfig \<Rightarrow> 'v ctlconfig" where
  "ctl_start_saved i cfg =
     (case ctl_saved cfg ! i of
        Some _ \<Rightarrow> ctl_copy_saved i cfg
      | None \<Rightarrow> cfg\<lparr>ctl_persister_objs := ctl_persister_objs cfg @ [MakePersister], ctl_saved := (ctl_saved cfg)[i := Some (length (ctl_persister_objs cfg))]\<rparr>)"

lemma same_start_saved:
  assumes "same_bed c k"
  shows "same_bed (ctl_start_saved i c) (start_saved i k)"
proof -
  have saved: "ctl_saved c = kv_saved k" using assms by (simp add: same_bed_def)
  show ?thesis
  proof (cases "kv_saved k ! i")
    case None
    then show ?thesis using assms saved by (simp add: same_bed_def ctl_start_saved_def start_saved_def)
  next
    case (Some p)
    then show ?thesis using same_copy [OF assms] saved by (simp add: ctl_start_saved_def start_saved_def)
  qed
qed

lemma same_start:
  assumes "same_bed c k"
  shows "same_result (ctl_StartServer names i c) (StartServer names i k)"
proof -
  have net: "ctl_net c = kv_net k" using assms by (simp add: same_bed_def)
  show ?thesis
  proof (cases "make_ends 0 names (kv_net k)")
    case (Inl e)
    then show ?thesis by (simp add: ctl_StartServer_def StartServer_def net)
  next
    case (Inr p)
    obtain es rn where mk: "make_ends 0 names (kv_net k) = Inr (es, rn)" using Inr by (cases p) simp
    define k2 where "k2 = start_saved i (k\<lparr>kv_endnames := (kv_endnames k)[i := Some names], kv_net := rn\<rparr>)"
    define c2 where "c2 = ctl_start_saved i (c\<lparr>ctl_endnames := (ctl_endnames c)[i := Some names], ctl_net := rn\<rparr>)"
    have s2: "same_bed c2 k2" unfolding c2_def k2_def by (rule same_start_saved) (use assms in \<open>simp add: same_bed_def\<close>)
    then have len: "length (ctl_objs c2) = length (kv_objs k2)" unfolding same_bed_def by (metis length_map)
    obtain rf m where rf: "Raft_Make es i (the (kv_saved k2 ! i)) (kv_persister_objs k2) (kv_mem k2) = (rf, m)" by fastforce
    have "StartServer names i k = (case StartKVServer es i (the (kv_saved k2 ! i)) (maxraftstate k2) k2 of (s, cfg) \<Rightarrow>
        Inr (cfg\<lparr>kvservers := (kvservers cfg)[i := Some s],
          kv_server_objs := kv_server_objs cfg @ [AddService (MakeService ''Raft'' (kv_rf (kv_objs cfg ! s)) raft_methods)
                              (AddService (MakeService ''KVServer'' s kv_methods) MakeServer)],
          kv_net := AddServer (Some (IntName i)) (length (kv_server_objs cfg)) (kv_net cfg)\<rparr>))"
      unfolding StartServer_def k2_def start_saved_def by (simp add: mk Let_def)
    moreover have "ctl_StartServer names i c =
        (case Ctrler_StartServer es i (the (ctl_saved c2 ! i)) (ctl_persister_objs c2) (ctl_mem c2) (length (ctl_raft_objs c2)) of
          (sc, rf, m) \<Rightarrow>
            Inr (c2\<lparr>ctl_mem := m, ctl_raft_objs := ctl_raft_objs c2 @ [rf], ctl_objs := ctl_objs c2 @ [sc],
                   ctl_servers := (ctl_servers c2)[i := Some (length (ctl_objs c2))],
                   ctl_server_objs := ctl_server_objs c2 @ [AddService (MakeService ''Raft'' (sc_rf sc) raft_methods)
                            (AddService (MakeService ''ShardCtrler'' (length (ctl_objs c2)) ctrler_methods) MakeServer)],
                   ctl_net := AddServer (Some (IntName i)) (length (ctl_server_objs c2)) (ctl_net c2)\<rparr>))"
      unfolding ctl_StartServer_def c2_def ctl_start_saved_def by (simp add: net mk Let_def)
    moreover have "s < Suc (length (kv_objs k2))" if "Some s \<in> set ((kvservers k2)[i := Some (length (kv_objs k2))])" for s
      using that set_update_subset_insert [of "kvservers k2" i "Some (length (kv_objs k2))"] s2 by (auto simp: same_bed_def less_Suc_eq)
    ultimately show ?thesis using s2 len rf by (simp add: same_bed_def Ctrler_StartServer_def StartKVServer_def)
  qed
qed

lemma same_makeClient:
  assumes "same_bed c k" "ctl_makeClient names rnd to c = Inr (ck, c')"
  shows "\<exists>k'. makeClient names rnd to k = Inr (ck, k') \<and> same_bed c' k'"
proof -
  have net: "ctl_net c = kv_net k" "ctl_clerk_objs c = clerk_objs k" using assms(1) by (simp_all add: same_bed_def)
  obtain es rn where mk: "make_ends 0 names (kv_net k) = Inr (es, rn)"
    using assms(2) by (auto simp: ctl_makeClient_def net split: sum.splits)
  let ?ck = "length (clerk_objs k)"
  let ?k = "k\<lparr>kv_net := rn, clerk_objs := clerk_objs k @ [\<lparr>ck_servers = random_handles rnd es\<rparr>],
      clerks := (clerks k)(?ck \<mapsto> names), nextClientId := nextClientId k + 1\<rparr>"
  let ?c = "c\<lparr>ctl_net := rn, ctl_clerk_objs := ctl_clerk_objs c @ [\<lparr>ck_servers = random_handles rnd es\<rparr>],
      ctl_clerks := (ctl_clerks c)(?ck \<mapsto> names), ctl_nextClientId := ctl_nextClientId c + 1\<rparr>"
  have "same_bed ?c ?k" using assms(1) by (simp add: same_bed_def)
  from same_clients(1) [OF this, of ?ck to] assms(2) show ?thesis
    by (cases "ctl_ConnectClientUnlocked ?ck to ?c"; cases "ConnectClientUnlocked ?ck to ?k")
      (auto simp: ctl_makeClient_def makeClient_def net mk Let_def)
qed

lemma same_save: "same_bed c k \<Longrightarrow> same_bed (ctl_save j b c) (kv_save j b k)"
  by (auto simp: ctl_save_def kv_save_def same_bed_def Let_def split: prod.split)

lemma same_step:
  assumes "ctl_step c c'" "same_bed c k" "kv_inv k"
  shows "\<exists>k'. kv_step k k' \<and> same_bed c' k'"
proof -
  have n: "ctl_n c = kv_n k" "ctl_raft_objs c = kv_raft_objs k" using assms(2) by (simp_all add: same_bed_def)
  have len: "length (kvservers k) = kv_n k" using assms(3) by (simp add: kv_inv_def kv_links_def)
  from assms(1) show ?thesis
  proof (cases rule: ctl_step.cases)
    case (ctl_connects i to)
    from same_connect [OF assms(2), of i to] show ?thesis unfolding ctl_connects by (rule same_result_Inr) (auto intro: kv_connect)
  next
    case (ctl_disconnects i "from")
    from same_disconnect [OF assms(2), of i "from"] show ?thesis
      unfolding ctl_disconnects by (rule same_result_Inr) (auto intro: kv_disconnect)
  next
    case (ctl_shutdown i)
    then have i: "i < kv_n k" using n by simp
    from same_shutdown [OF assms(2) i len] show ?thesis
      unfolding ctl_shutdown by (rule same_result_Inr) (use i in \<open>auto intro: kv_shutdown\<close>)
  next
    case (ctl_start i names)
    then have i: "i < kv_n k" "length names = kv_n k" using n by simp_all
    from same_start [OF assms(2), of names i] show ?thesis
      unfolding ctl_start by (rule same_result_Inr) (use i in \<open>auto intro: kv_start\<close>)
  next
    case (ctl_client names rnd to ck)
    then show ?thesis using same_makeClient [OF assms(2)] kv_client n by metis
  next
    case (ctl_connect_client ck to)
    from same_clients(1) [OF assms(2), of ck to] show ?thesis
      unfolding ctl_connect_client by (rule same_result_Inr) (auto intro: kv_connect_client)
  next
    case (ctl_disconnect_client ck "from")
    from same_clients(2) [OF assms(2), of ck "from"] show ?thesis
      unfolding ctl_disconnect_client by (rule same_result_Inr) (auto intro: kv_disconnect_client)
  next
    case (ctl_delete_client ck)
    then show ?thesis using same_clients(3) [OF assms(2), of ck] kv_delete_client by blast
  next
    case (ctl_saves j b)
    then show ?thesis using same_save [OF assms(2), of j b] kv_saves [of j k b] n by auto
  next
    case (ctl_reliable yes)
    then show ?thesis using same_bed_net [OF assms(2), of "Reliable yes"] kv_reliable by blast
  qed
qed

lemma same_empty: "same_bed (empty_ctlconfig n) (empty_kvconfig n 0)"
  by (simp add: same_bed_def empty_ctlconfig_def empty_kvconfig_def)

lemma ctl_reach_kv:
  assumes "reach ctl_init ctl_step c"
  shows "\<exists>k :: 'w kvconfig. reach kv_init kv_step k \<and> same_bed c k"
  using assms
proof (induction rule: reach.induct)
  case (reach_init c)
  then obtain n where n: "c = empty_ctlconfig n" by (auto simp: ctl_init_def)
  have "reach kv_init kv_step (empty_kvconfig n 0 :: 'w kvconfig)" by (rule reach.reach_init) (auto simp: kv_init_def)
  then show ?case using same_empty n by blast
next
  case (reach_step c c')
  then obtain k :: "'w kvconfig" where k: "reach kv_init kv_step k" "same_bed c k" by blast
  obtain k' where "kv_step k k'" "same_bed c' k'" using same_step [OF reach_step.hyps(2) k(2) kv.reach_inv [OF k(1)]] by blast
  then show ?case using reach.reach_step [OF k(1)] by blast
qed

section \<open>What holds for the controller\<close>

definition ctl_linked :: "'v ctlconfig \<Rightarrow> nat \<Rightarrow> nat \<Rightarrow> bool" where
  "ctl_linked cfg a b = (case end_of (ctl_endnames cfg) a b of None \<Rightarrow> False | Some s \<Rightarrow> enabled (ctl_net cfg) (Some (StrName s)))"

definition ctl_persisted :: "'v ctlconfig \<Rightarrow> nat \<Rightarrow> (bytes \<times> bytes) option" where
  "ctl_persisted cfg i = map_option (\<lambda>p. value_of (ctl_mem cfg) (ctl_persister_objs cfg ! p)) (ctl_saved cfg ! i)"

lemma same_views:
  assumes "same_bed c k"
  shows "ctl_linked c = linked k" "ctl_persisted c = kv_persisted k"
proof -
  have "ctl_net c = kv_net k" "ctl_endnames c = kv_endnames k" "ctl_mem c = kv_mem k" "ctl_persister_objs c = kv_persister_objs k"
    "ctl_saved c = kv_saved k" using assms unfolding same_bed_def by blast+
  then show "ctl_linked c = linked k" "ctl_persisted c = kv_persisted k"
    by (auto simp: ctl_linked_def linked_def ctl_persisted_def kv_persisted_def fun_eq_iff split: option.split)
qed

lemma same_isolate: "same_bed c k \<Longrightarrow> same_result (ctl_isolate is own other c) (isolate is own other k)"
proof (induction "is" arbitrary: c k)
  case (Cons i js)
  show ?case
  proof (cases "ctl_disconnectUnlocked i other c")
    case (Inl e)
    then show ?thesis using same_disconnect [OF Cons.prems, of i other] by (cases "disconnectUnlocked i other k") simp_all
  next
    case (Inr c1)
    with same_disconnect [OF Cons.prems, of i other] obtain k1 where k1: "disconnectUnlocked i other k = Inr k1" "same_bed c1 k1"
      by (cases "disconnectUnlocked i other k") auto
    from same_connect [OF k1(2), of i own] Cons.IH show ?thesis
      by (cases "ctl_connectUnlocked i own c1"; cases "connectUnlocked i own k1") (simp_all add: Inr k1(1))
  qed
qed simp

lemma same_partition:
  assumes "same_bed c k"
  shows "same_result (ctl_partition p1 p2 c) (partition p1 p2 k)"
  using same_isolate [OF assms, of p1 p1 p2] same_isolate [of _ _ p2 p2 p1]
  by (cases "ctl_isolate p1 p1 p2 c"; cases "isolate p1 p1 p2 k") (simp_all add: ctl_partition_def partition_def)

lemma Ctrler_Leader_found:
  "first_ctrler_leader servs st S = (case find (\<lambda>i. servs ! i \<noteq> None \<and> snd (st i)) S of None \<Rightarrow> (False, 0) | Some l \<Rightarrow> (True, l))"
  by (induction S) auto

text \<open>
  C29: every run of the test bed of the shard controller is one of the test bed of the key-value service, in that the network,
  the end names, the running servers, the clerks, the Raft objects, the persisters and the memory are the same at the end.
\<close>

theorem ctrler_bed_refines_kv:
  assumes "reach ctl_init ctl_step c"
  shows "\<exists>k :: unit kvconfig. reach kv_init kv_step k \<and> ctl_net c = kv_net k \<and> ctl_endnames c = kv_endnames k \<and>
    ctl_servers c = kvservers k \<and> ctl_clerks c = clerks k \<and> ctl_raft_objs c = kv_raft_objs k \<and>
    (\<forall>i. ctl_persisted c i = kv_persisted k i)"
proof -
  obtain k :: "unit kvconfig" where k: "reach kv_init kv_step k" "same_bed c k" using ctl_reach_kv [OF assms] by blast
  then show ?thesis using same_views(2) [OF k(2)] by (auto simp: same_bed_def)
qed

text \<open>
  A partition of an odd number of controllers cuts their leader off from a majority, also when some controllers
  are shut down, as long as each was started once.
\<close>

theorem ctrler_partition_around_leader:
  assumes "reach ctl_init ctl_step c" and "\<forall>i < ctl_n c. ctl_endnames c ! i \<noteq> None" and n: "ctl_n c = 2 * m + 1" "0 < m"
    and l: "find (\<lambda>i. ctl_servers c ! i \<noteq> None \<and> snd (st i)) [0..<ctl_n c] = Some l"
  shows "\<exists>p1 p2 c'. ctl_make_partition c st = Inr (p1, p2) \<and> ctl_partition p1 p2 c = Inr c' \<and>
    length p1 = m + 1 \<and> length p2 = m \<and> l \<in> set p2 \<and> set p1 \<union> set p2 = {..<ctl_n c} \<and>
    (\<forall>a < ctl_n c. \<forall>b < ctl_n c. ctl_linked c' a b \<longleftrightarrow> (a \<in> set p1 \<longleftrightarrow> b \<in> set p1)) \<and>
    card {b. b < ctl_n c \<and> ctl_linked c' l b} = m"
proof -
  obtain k :: "unit kvconfig" where k: "reach kv_init kv_step k" "same_bed c k" using ctl_reach_kv [OF assms(1)] by blast
  have nk: "ctl_n c = kv_n k" "ctl_endnames c = kv_endnames k" using k(2) by (simp_all add: same_bed_def)
  have ok: "kv_ok k" using kv.reach_inv [OF k(1)] assms(2) unfolding kv_inv_def kv_links_def kv_ok_def nk by blast
  have "l \<in> set [0..<ctl_n c]" using l by (auto simp: find_Some_iff)
  then have ln: "l < 2 * m + 1" using n(1) by (simp only: set_upt atLeastLessThan_iff)
  have mp: "ctl_make_partition c st = partition_around (kv_n k) l"
    unfolding ctl_make_partition_def Ctrler_Leader_def Ctrler_Leader_found l nk(1) [symmetric] by simp
  obtain p1 p2 k' where p: "partition_around (kv_n k) l = Inr (p1, p2)" "partition p1 p2 k = Inr k'" and rest: "length p1 = m + 1" "length p2 = m"
    "l \<in> set p2" "set p1 \<union> set p2 = {..<kv_n k}" "\<forall>a < kv_n k. \<forall>b < kv_n k. linked k' a b \<longleftrightarrow> (a \<in> set p1 \<longleftrightarrow> b \<in> set p1)"
    "card {b. b < kv_n k \<and> linked k' l b} = m"
    using partition_cuts_off [OF ok n [unfolded nk(1)] ln] by blast
  obtain c' where c': "ctl_partition p1 p2 c = Inr c'" "same_bed c' k'"
    using same_partition [OF k(2), of p1 p2] p(2) by (cases "ctl_partition p1 p2 c") auto
  show ?thesis unfolding mp nk(1) using p(1) c'(1) rest same_views(1) [OF c'(2)] by auto
qed

text \<open>
  A controller that is shut down and started again has the state that it persisted before, and so has every other.
\<close>

theorem ctrler_restart_keeps_state:
  assumes "reach ctl_init ctl_step c" and "i < ctl_n c" and down: "ctl_ShutdownServer i c = Inr c1"
    and up: "ctl_StartServer names i c1 = Inr c2" and "length names = ctl_n c" and "j < ctl_n c" and "ctl_persisted c j \<noteq> None"
  shows "ctl_persisted c2 j = ctl_persisted c j"
proof -
  obtain k :: "unit kvconfig" where k: "reach kv_init kv_step k" "same_bed c k" using ctl_reach_kv [OF assms(1)] by blast
  have nk: "ctl_n c = kv_n k" using k(2) by (simp add: same_bed_def)
  have "length (kvservers k) = kv_n k" using kv.reach_inv [OF k(1)] by (simp add: kv_inv_def kv_links_def)
  from same_shutdown [OF k(2) assms(2) [unfolded nk] this] obtain k1 where k1: "ShutdownServer i k = Inr k1" "same_bed c1 k1"
    unfolding down by (rule same_result_Inr)
  from same_start [OF k1(2), of names i] obtain k2 where k2: "StartServer names i k1 = Inr k2" "same_bed c2 k2"
    unfolding up by (rule same_result_Inr)
  show ?thesis
    using restart_keeps_state [OF k(1) _ k1(1) k2(1)] assms(2,5-7) same_views(2) [OF k(2)] same_views(2) [OF k2(2)] by (simp add: nk)
qed

section \<open>Making a test bed\<close>

lemma same_start_servers: "same_bed c k \<Longrightarrow> same_result (ctl_start_servers names S c) (start_servers names S k)"
proof (induction S arbitrary: c k)
  case (Cons i S)
  from same_start [OF Cons.prems, of "names i" i] Cons.IH show ?case
    by (cases "ctl_StartServer (names i) i c"; cases "StartServer (names i) i k") simp_all
qed simp

lemma same_ConnectAll_from: "same_bed c k \<Longrightarrow> same_result (ctl_ConnectAll_from S c) (ConnectAll_from S k)"
proof (induction S arbitrary: c k)
  case (Cons i S)
  have "ctl_All c = All k" using Cons.prems by (simp add: ctl_All_def All_def same_bed_def)
  with same_connect [OF Cons.prems, of i "All k"] Cons.IH show ?case
    by (cases "ctl_connectUnlocked i (All k) c"; cases "connectUnlocked i (All k) k") simp_all
qed simp

lemma same_make:
  "same_result (make_ctlconfig names n unreliable :: string + 'v ctlconfig) (make_kvconfig names n unreliable 0 :: string + 'w kvconfig)"
proof -
  let ?C = "ctl_start_servers names [0..<n] (empty_ctlconfig n) :: string + 'v ctlconfig"
  let ?K = "start_servers names [0..<n] (empty_kvconfig n 0) :: string + 'w kvconfig"
  have r: "same_result ?C ?K" by (rule same_start_servers [OF same_empty])
  show ?thesis
  proof (cases ?K)
    case (Inl e)
    with r show ?thesis by (cases ?C) (simp_all add: make_ctlconfig_def make_kvconfig_def)
  next
    case (Inr k)
    with r obtain c where c: "?C = Inr c" "same_bed c k" by (cases ?C) auto
    have "ctl_n c = kv_n k" using c(2) by (simp add: same_bed_def)
    then have "same_result (ctl_ConnectAll c) (ConnectAll k)"
      using same_ConnectAll_from [OF c(2)] by (simp add: ctl_ConnectAll_def ConnectAll_def)
    then show ?thesis
      by (cases "ctl_ConnectAll c"; cases "ConnectAll k") (simp_all add: make_ctlconfig_def make_kvconfig_def Inr c(1) same_bed_net)
  qed
qed

lemma ctl_step_n:
  "ctl_connectUnlocked i to c = Inr c' \<Longrightarrow> ctl_n c' = ctl_n c"
  "ctl_StartServer names i c = Inr c' \<Longrightarrow> ctl_n c' = ctl_n c"
  by (auto simp: ctl_connectUnlocked_def ctl_StartServer_def Ctrler_StartServer_def ctl_copy_saved_def Let_def
      split: sum.splits prod.splits option.splits)

lemma ctl_start_servers_reach:
  "reach ctl_init ctl_step c \<Longrightarrow> \<forall>i \<in> set S. i < ctl_n c \<and> length (names i) = ctl_n c \<Longrightarrow>
     ctl_start_servers names S c = Inr c' \<Longrightarrow> reach ctl_init ctl_step c' \<and> ctl_n c' = ctl_n c"
proof (induction S arbitrary: c)
  case (Cons i S)
  obtain c1 where c1: "ctl_StartServer (names i) i c = Inr c1" "ctl_start_servers names S c1 = Inr c'"
    using Cons.prems(3) by (auto split: sum.splits)
  have "reach ctl_init ctl_step c1" by (rule reach_step [OF Cons.prems(1) ctl_start [OF _ _ c1(1)]]) (use Cons.prems(2) in simp_all)
  then show ?case using Cons.IH [OF _ _ c1(2)] Cons.prems(2) ctl_step_n(2) [OF c1(1)] by simp
qed simp

lemma ctl_ConnectAll_from_reach:
  "reach ctl_init ctl_step c \<Longrightarrow> ctl_ConnectAll_from S c = Inr c' \<Longrightarrow> reach ctl_init ctl_step c'"
proof (induction S arbitrary: c)
  case (Cons i S)
  obtain c1 where c1: "ctl_connectUnlocked i (ctl_All c) c = Inr c1" "ctl_ConnectAll_from S c1 = Inr c'"
    using Cons.prems(2) by (auto split: sum.splits)
  show ?case by (rule Cons.IH [OF reach_step [OF Cons.prems(1) ctl_connects [OF c1(1)]] c1(2)])
qed simp

lemma make_ctlconfig_reach:
  assumes "make_ctlconfig names n unreliable = Inr (c :: 'v ctlconfig)" "\<forall>i < n. length (names i) = n"
  shows "reach ctl_init ctl_step c"
proof -
  obtain c1 c2 where c: "ctl_start_servers names [0..<n] (empty_ctlconfig n) = Inr c1" "ctl_ConnectAll c1 = Inr c2"
    "c = c2\<lparr>ctl_net := Reliable (\<not> unreliable) (ctl_net c2)\<rparr>" using assms(1) by (auto simp: make_ctlconfig_def split: sum.splits)
  have e: "reach ctl_init ctl_step (empty_ctlconfig n :: 'v ctlconfig)" by (rule reach_init) (auto simp: ctl_init_def)
  have "ctl_n (empty_ctlconfig n :: 'v ctlconfig) = n" by (simp add: empty_ctlconfig_def)
  then have "reach ctl_init ctl_step c1" using ctl_start_servers_reach [OF e _ c(1)] assms(2) by simp
  then have "reach ctl_init ctl_step c2" using ctl_ConnectAll_from_reach c(2) unfolding ctl_ConnectAll_def by blast
  then show ?thesis unfolding c(3) using ctl_reliable by (rule reach_step)
qed

text \<open>
  Making a test bed of the shard controller succeeds when the random names of the ends differ; then all controllers run and
  each is linked to each.
\<close>

theorem make_ctlconfig_linked:
  assumes "\<forall>i < n. length (names i) = n" and "distinct (concat (map names [0..<n]))"
  shows "\<exists>c :: 'v ctlconfig. make_ctlconfig names n unreliable = Inr c \<and> reach ctl_init ctl_step c \<and> ctl_n c = n \<and>
    (\<forall>i < n. ctl_servers c ! i \<noteq> None) \<and> (\<forall>i < n. ctl_endnames c ! i \<noteq> None) \<and> (\<forall>a < n. \<forall>b < n. ctl_linked c a b)"
proof -
  obtain k :: "unit kvconfig" where k: "make_kvconfig names n unreliable 0 = Inr k" "reach kv_init kv_step k" "kv_n k = n"
    "\<forall>i < n. kvservers k ! i \<noteq> None" "\<forall>a < n. \<forall>b < n. linked k a b" using make_kvconfig_ok [OF assms] by blast
  have "same_result (make_ctlconfig names n unreliable :: string + 'v ctlconfig) (make_kvconfig names n unreliable 0 :: string + unit kvconfig)"
    by (rule same_make)
  then obtain c :: "'v ctlconfig" where c: "make_ctlconfig names n unreliable = Inr c" "same_bed c k"
    using k(1) by (cases "make_ctlconfig names n unreliable :: string + 'v ctlconfig") auto
  have "kv_ok k" using running_ok [OF k(2)] k(3,4) by simp
  then have "\<forall>i < n. ctl_endnames c ! i \<noteq> None" using c(2) k(3) by (simp add: kv_ok_def same_bed_def)
  then show ?thesis using c make_ctlconfig_reach [OF c(1) assms(1)] k same_views(1) [OF c(2)] by (auto simp: same_bed_def)
qed

section \<open>An example\<close>

definition ex_ctl :: "unit ctlconfig" where
  "ex_ctl = projr (make_ctlconfig ex_kv_names 3 False)"

lemma ex_ctl_reach:
  "reach ctl_init ctl_step ex_ctl" "ctl_n ex_ctl = 3" "\<forall>i < 3. ctl_servers ex_ctl ! i \<noteq> None" "\<forall>i < 3. ctl_endnames ex_ctl ! i \<noteq> None"
proof -
  obtain c :: "unit ctlconfig" where "make_ctlconfig ex_kv_names 3 False = Inr c" "reach ctl_init ctl_step c" "ctl_n c = 3"
    "\<forall>i < 3. ctl_servers c ! i \<noteq> None" "\<forall>i < 3. ctl_endnames c ! i \<noteq> None"
    using make_ctlconfig_linked [OF ex_kv_names_ok, of False] by blast
  then show "reach ctl_init ctl_step ex_ctl" "ctl_n ex_ctl = 3" "\<forall>i < 3. ctl_servers ex_ctl ! i \<noteq> None" "\<forall>i < 3. ctl_endnames ex_ctl ! i \<noteq> None"
    by (simp_all add: ex_ctl_def)
qed

theorem ctrler_bed_refines_kv_witness:
  "\<exists>k :: unit kvconfig. reach kv_init kv_step k \<and> ctl_net ex_ctl = kv_net k \<and> ctl_servers ex_ctl = kvservers k"
  using ctrler_bed_refines_kv [OF ex_ctl_reach(1)] by blast

theorem ctrler_partition_around_leader_witness:
  "\<exists>p1 p2 c'. ctl_make_partition ex_ctl (\<lambda>i. (2, i = 1)) = Inr (p1, p2) \<and> ctl_partition p1 p2 ex_ctl = Inr c' \<and> 1 \<in> set p2 \<and>
    card {b. b < 3 \<and> ctl_linked c' 1 b} = 1"
proof -
  have "find (\<lambda>i. ctl_servers ex_ctl ! i \<noteq> None \<and> snd (2 :: int, i = (1 :: nat))) [0..<ctl_n ex_ctl] = Some 1"
    using ex_ctl_reach(3) unfolding ex_ctl_reach(2) by (simp add: upt_rec)
  from ctrler_partition_around_leader [OF ex_ctl_reach(1) _ _ _ this, of 1] ex_ctl_reach(2,4) show ?thesis by auto
qed

end
