(* ===== verification/Shard_Bed.thy ===== *)
theory Shard_Bed
  imports Shard_Config
begin

text \<open>
  The theorems on the test bed of the sharded service: names of servers, and which sizes of groups work.
\<close>

section \<open>Names of servers\<close>

lemma dash_not_digit: "CHR ''-'' \<notin> set (Itoa k)"
  by (rule Itoa_no_sep) simp

text \<open>
  Servers of the groups and controllers all have different names.
\<close>

theorem server_names_differ:
  assumes "0 \<le> g" and "0 \<le> h"
  shows "(servername g i = servername h j \<longleftrightarrow> g = h \<and> i = j) \<and> (ctrlername i = ctrlername j \<longleftrightarrow> i = j) \<and> servername g i \<noteq> ctrlername j"
proof (intro conjI)
  have split: "split_on CHR ''-'' (servername k l) = [''server'', Itoa (nat k), Itoa l]" if "0 \<le> k" for k l
  proof -
    have "servername k l = ''server'' @ CHR ''-'' # (Itoa (nat k) @ CHR ''-'' # Itoa l)" using that by (simp add: servername_def Itoa_int_def)
    moreover have "CHR ''-'' \<notin> set ''server''" by simp
    from split_on_append_sep [OF this, of "Itoa (nat k) @ CHR ''-'' # Itoa l"]
    have "split_on CHR ''-'' (''server'' @ CHR ''-'' # (Itoa (nat k) @ CHR ''-'' # Itoa l)) = ''server'' # split_on CHR ''-'' (Itoa (nat k) @ CHR ''-'' # Itoa l)" .
    ultimately show ?thesis
      using split_on_append_sep [OF dash_not_digit, of "nat k" "Itoa l"]
        split_on_no_sep [OF dash_not_digit, of l] by (simp only:)
  qed
  have "servername g i = servername h j \<Longrightarrow> [''server'', Itoa (nat g), Itoa i] = [''server'', Itoa (nat h), Itoa j]"
    using split [OF assms(1), of i] split [OF assms(2), of j] by simp
  then show "servername g i = servername h j \<longleftrightarrow> g = h \<and> i = j" using assms by (auto simp: Itoa_inj)
qed (simp_all add: ctrlername_def servername_def Itoa_inj)

section \<open>Opening ends\<close>

definition end_names :: "string list \<Rightarrow> netName iface set" where
  "end_names xs = (\<lambda>e. Some (StrName e)) ` set xs"

lemma end_names_append: "end_names (xs @ ys) = end_names xs \<union> end_names ys"
  by (auto simp: end_names_def)

lemma end_names_in [simp]: "Some (StrName e) \<in> end_names xs \<longleftrightarrow> e \<in> set xs"
  by (auto simp: end_names_def)

lemma make_end_result:
  "make_end name srv rn = Inr (ce, rn') \<Longrightarrow> servers rn' = servers rn \<and> (\<forall>x. ends rn' x \<noteq> None \<longleftrightarrow> ends rn x \<noteq> None \<or> x = Some (StrName name))"
  by (auto simp: make_end_def MakeEnd_def Enable_def Connect_def Let_def split: if_splits)

lemma make_end_fresh: "ends rn (Some (StrName name)) = None \<Longrightarrow> \<exists>ce rn'. make_end name srv rn = Inr (ce, rn')"
  by (auto simp: make_end_def MakeEnd_def Let_def)

lemma open_ends_result:
  "open_ends es rn = Inr (ces, rn') \<Longrightarrow> servers rn' = servers rn \<and> (\<forall>x. ends rn' x \<noteq> None \<longleftrightarrow> ends rn x \<noteq> None \<or> x \<in> end_names (map fst es))"
proof (induction es rn arbitrary: ces rn' rule: open_ends.induct)
  case (2 name srv es rn)
  then obtain ce rn1 ces1 where m: "make_end name srv rn = Inr (ce, rn1)" and o: "open_ends es rn1 = Inr (ces1, rn')"
    by (auto split: sum.splits)
  have "servers rn' = servers rn1 \<and> (\<forall>x. ends rn' x \<noteq> None \<longleftrightarrow> ends rn1 x \<noteq> None \<or> x \<in> end_names (map fst es))"
    using 2(1) [OF m refl o] .
  with make_end_result [OF m] show ?case by (auto simp: end_names_def)
qed (simp add: end_names_def)

lemma open_ends_succeeds:
  "distinct (map fst es) \<Longrightarrow> \<forall>e \<in> set (map fst es). ends rn (Some (StrName e)) = None \<Longrightarrow> \<exists>ces rn'. open_ends es rn = Inr (ces, rn')"
proof (induction es arbitrary: rn)
  case (Cons p es)
  obtain name srv where p: "p = (name, srv)" by (cases p)
  obtain ce rn1 where m: "make_end name srv rn = Inr (ce, rn1)" using make_end_fresh [of rn name srv] Cons.prems(2) p by auto
  have "\<forall>e \<in> set (map fst es). ends rn1 (Some (StrName e)) = None"
    using make_end_result [OF m] Cons.prems p by (auto; metis fst_conv image_eqI option.distinct(1) option.inject netName.inject(1))
  with Cons.IH [of rn1] Cons.prems(1) obtain ces rn' where "open_ends es rn1 = Inr (ces, rn')" by auto
  with m p show ?case by simp
qed simp

section \<open>Starting servers\<close>

lemma set_group_same [simp]:
  "sk_net (set_group gi f cfg) = sk_net cfg" "nctrlers (set_group gi f cfg) = nctrlers cfg" "sk_n (set_group gi f cfg) = sk_n cfg"
  "groups (set_group gi f cfg) = (groups cfg)[gi := f (groups cfg ! gi)]" "sk_raft_objs (set_group gi f cfg) = sk_raft_objs cfg"
  "sk_persister_objs (set_group gi f cfg) = sk_persister_objs cfg" "sk_mem (set_group gi f cfg) = sk_mem cfg"
  "skv_objs (set_group gi f cfg) = skv_objs cfg" "sk_server_objs (set_group gi f cfg) = sk_server_objs cfg"
  "ctrlerservers (set_group gi f cfg) = ctrlerservers cfg"
  by (simp_all add: set_group_def)

lemma copy_group_saved_same [simp]:
  "sk_net (copy_group_saved gi i cfg) = sk_net cfg" "nctrlers (copy_group_saved gi i cfg) = nctrlers cfg" "sk_n (copy_group_saved gi i cfg) = sk_n cfg"
  "sk_server_objs (copy_group_saved gi i cfg) = sk_server_objs cfg" "skv_objs (copy_group_saved gi i cfg) = skv_objs cfg"
  by (simp_all add: copy_group_saved_def split: option.split)

text \<open>What a start keeps of the groups: the identifiers and the numbers of rows.\<close>

definition shape :: "'v skconfig \<Rightarrow> (int \<times> nat \<times> nat) list" where
  "shape cfg = map (\<lambda>gg. (gid gg, length (g_servers gg), length (mendnames gg))) (groups cfg)"

lemma shape_update:
  "(gid (f (groups cfg ! gi)), length (g_servers (f (groups cfg ! gi))), length (mendnames (f (groups cfg ! gi)))) =
     (gid (groups cfg ! gi), length (g_servers (groups cfg ! gi)), length (mendnames (groups cfg ! gi))) \<Longrightarrow>
   shape (set_group gi f cfg) = shape cfg"
  by (cases "gi < length (groups cfg)") (simp_all add: shape_def map_update list_update_beyond list_update_same_conv)

lemma shape_frame [simp]:
  "shape (cfg\<lparr>sk_persister_objs := ps\<rparr>) = shape cfg" "shape (cfg\<lparr>sk_net := rn\<rparr>) = shape cfg" "shape (cfg\<lparr>sk_server_objs := ss\<rparr>) = shape cfg"
  "shape (cfg\<lparr>sk_mem := m\<rparr>) = shape cfg" "shape (cfg\<lparr>sk_raft_objs := rs\<rparr>) = shape cfg" "shape (cfg\<lparr>skv_objs := os\<rparr>) = shape cfg"
  by (simp_all add: shape_def)

lemma prepare_group_saved_same [simp]:
  "sk_net (prepare_group_saved gi i cfg) = sk_net cfg" "nctrlers (prepare_group_saved gi i cfg) = nctrlers cfg" "sk_n (prepare_group_saved gi i cfg) = sk_n cfg"
  "sk_server_objs (prepare_group_saved gi i cfg) = sk_server_objs cfg" "skv_objs (prepare_group_saved gi i cfg) = skv_objs cfg"
  by (simp_all add: prepare_group_saved_def split: option.split)

lemma prepare_group_saved_shape [simp]: "shape (prepare_group_saved gi i cfg) = shape cfg"
  by (auto simp: prepare_group_saved_def copy_group_saved_def shape_update split: option.split)

lemma register_same [simp]:
  "sk_n (register nm typ ob ms rf cfg) = sk_n cfg" "nctrlers (register nm typ ob ms rf cfg) = nctrlers cfg"
  "shape (register nm typ ob ms rf cfg) = shape cfg" "ends (sk_net (register nm typ ob ms rf cfg)) = ends (sk_net cfg)"
  "servers (sk_net (register nm typ ob ms rf cfg)) = (servers (sk_net cfg))(Some (StrName nm) \<mapsto> length (sk_server_objs cfg))"
  "ctrlerservers (register nm typ ob ms rf cfg) = ctrlerservers cfg" "groups (register nm typ ob ms rf cfg) = groups cfg"
  by (simp_all add: register_def Let_def AddServer_def)

lemma SKV_StartServer_same:
  assumes "SKV_StartServer es i ps mr g mends cfg = (s, cfg')"
  shows "sk_n cfg' = sk_n cfg" "nctrlers cfg' = nctrlers cfg" "shape cfg' = shape cfg" "sk_net cfg' = sk_net cfg" "groups cfg' = groups cfg"
  using assms by (auto simp: SKV_StartServer_def shape_def split: prod.splits)

lemma zip_names: "length nm = k \<Longrightarrow> map fst (zip nm (map f [0..<k])) = nm"
  by simp

lemma gid_same [simp]: "gid ((gs[gi := (gs ! gi)\<lparr>g_endnames := e\<rparr>]) ! gi) = gid (gs ! gi)"
  "mendnames ((gs[gi := (gs ! gi)\<lparr>g_endnames := e\<rparr>]) ! gi) = mendnames (gs ! gi)"
  by (cases "gi < length gs"; simp add: list_update_beyond)+

lemma sk_StartServer_result:
  assumes run: "sk_StartServer nm mn gi i cfg = Inr cfg'" and nm: "length nm = sk_n cfg" "length mn = nctrlers cfg"
  shows "i < length (mendnames (groups cfg ! gi))" "shape cfg' = shape cfg" "sk_n cfg' = sk_n cfg" "nctrlers cfg' = nctrlers cfg"
    "\<And>x. ends (sk_net cfg') x \<noteq> None \<longleftrightarrow> ends (sk_net cfg) x \<noteq> None \<or> x \<in> end_names (nm @ mn)"
    "\<And>x. servers (sk_net cfg') x \<noteq> None \<longleftrightarrow> servers (sk_net cfg) x \<noteq> None \<or> x = Some (StrName (servername (gid (groups cfg ! gi)) i))"
proof -
  let ?g = "gid (groups cfg ! gi)"
  define cfg0 where "cfg0 = set_group gi (\<lambda>gg. gg\<lparr>g_endnames := (g_endnames gg)[i := Some nm]\<rparr>) cfg"
  have c0: "sk_n cfg0 = sk_n cfg" "nctrlers cfg0 = nctrlers cfg" "shape cfg0 = shape cfg" "sk_net cfg0 = sk_net cfg"
    "gid (groups cfg0 ! gi) = ?g" "mendnames (groups cfg0 ! gi) = mendnames (groups cfg ! gi)"
    by (simp_all add: cfg0_def shape_update)
  note run0 = run [unfolded sk_StartServer_def, folded cfg0_def, unfolded Let_def c0]
  obtain es rn1 where o1: "open_ends (zip nm (map (servername ?g) [0..<sk_n cfg])) (sk_net cfg) = Inr (es, rn1)"
    and i: "i < length (mendnames (groups cfg ! gi))" using run0 by (auto split: sum.splits if_splits)
  note run1 = run0 [unfolded o1 sum.case prod.case if_not_P [OF i [folded not_le]]]
  obtain mends rn2 where o2: "open_ends (to_ctrlers mn cfg0) rn1 = Inr (mends, rn2)" using run1 by (auto split: sum.splits)
  define cfg1 where "cfg1 = prepare_group_saved gi i (set_group gi (\<lambda>gg. gg\<lparr>mendnames := (mendnames gg)[i := Some mn]\<rparr>) (cfg0\<lparr>sk_net := rn2\<rparr>))"
  have c1: "sk_n cfg1 = sk_n cfg" "nctrlers cfg1 = nctrlers cfg" "shape cfg1 = shape cfg" "sk_net cfg1 = rn2"
    by (simp_all add: cfg1_def c0 shape_update)
  note run2 = run1 [unfolded o2 sum.case prod.case, folded cfg1_def]
  obtain s cfg2 where st: "SKV_StartServer es i (the (g_saved (groups cfg1 ! gi) ! i)) (sk_maxraftstate cfg1) ?g mends cfg1 = (s, cfg2)"
    by (cases "SKV_StartServer es i (the (g_saved (groups cfg1 ! gi) ! i)) (sk_maxraftstate cfg1) ?g mends cfg1")
  note c2 = SKV_StartServer_same [OF st]
  have cfg': "cfg' = register (servername ?g i) ''ShardKV'' s shardkv_methods (skv_rf (skv_objs cfg2 ! s))
      (set_group gi (\<lambda>gg. gg\<lparr>g_servers := (g_servers gg)[i := Some s]\<rparr>) cfg2)"
    using run2 [unfolded st prod.case] by simp
  have rn: "servers rn2 = servers (sk_net cfg)" "\<And>x. ends rn2 x \<noteq> None \<longleftrightarrow> ends (sk_net cfg) x \<noteq> None \<or> x \<in> end_names (nm @ mn)"
    using open_ends_result [OF o1] open_ends_result [OF o2] nm c0(2) by (auto simp: to_ctrlers_def end_names_append)
  show "i < length (mendnames (groups cfg ! gi))" by (rule i)
  show "shape cfg' = shape cfg" "sk_n cfg' = sk_n cfg" "nctrlers cfg' = nctrlers cfg" by (simp_all add: cfg' c1 c2 shape_update)
  show "ends (sk_net cfg') x \<noteq> None \<longleftrightarrow> ends (sk_net cfg) x \<noteq> None \<or> x \<in> end_names (nm @ mn)" for x using rn(2) by (simp add: cfg' c1 c2)
  show "servers (sk_net cfg') x \<noteq> None \<longleftrightarrow> servers (sk_net cfg) x \<noteq> None \<or> x = Some (StrName (servername ?g i))" for x
    using rn(1) by (simp add: cfg' c1 c2)
qed

lemma sk_StartServer_succeeds:
  assumes nm: "length nm = sk_n cfg" "length mn = nctrlers cfg" and i: "i < length (mendnames (groups cfg ! gi))"
    and fresh: "distinct (nm @ mn)" "\<And>e. e \<in> set (nm @ mn) \<Longrightarrow> ends (sk_net cfg) (Some (StrName e)) = None"
  shows "\<exists>cfg'. sk_StartServer nm mn gi i cfg = Inr cfg'"
proof -
  let ?g = "gid (groups cfg ! gi)"
  obtain es rn1 where o1: "open_ends (zip nm (map (servername ?g) [0..<sk_n cfg])) (sk_net cfg) = Inr (es, rn1)"
    using open_ends_succeeds [of "zip nm (map (servername ?g) [0..<sk_n cfg])" "sk_net cfg"] nm fresh by auto
  have "ends rn1 (Some (StrName e)) = None" if "e \<in> set mn" for e
  proof -
    have "e \<notin> set nm" using that fresh(1) by auto
    moreover have "ends rn1 x \<noteq> None \<longleftrightarrow> ends (sk_net cfg) x \<noteq> None \<or> x \<in> end_names nm" for x
      using open_ends_result [OF o1] nm by simp
    ultimately show ?thesis using fresh(2) [of e] that by (metis end_names_in Un_iff set_append)
  qed
  then obtain mends rn2 where "open_ends (zip mn (map ctrlername [0..<nctrlers cfg])) rn1 = Inr (mends, rn2)"
    using open_ends_succeeds [of "zip mn (map ctrlername [0..<nctrlers cfg])" rn1] nm fresh by auto
  with o1 i show ?thesis unfolding sk_StartServer_def Let_def by (simp add: to_ctrlers_def split: prod.split)
qed

lemma sk_StartServer_no_row: "length (mendnames (groups cfg ! gi)) \<le> i \<Longrightarrow> \<exists>e. sk_StartServer nm mn gi i cfg = Inl e"
  unfolding sk_StartServer_def Let_def by (auto split: sum.split)

lemma shape_rows:
  assumes gi: "gi < length (groups cfg)" and same: "shape cfg' = shape cfg"
  shows "length (groups cfg') = length (groups cfg) \<and> gid (groups cfg' ! gi) = gid (groups cfg ! gi) \<and>
    length (mendnames (groups cfg' ! gi)) = length (mendnames (groups cfg ! gi))"
proof -
  have len: "length (groups cfg') = length (groups cfg)" using arg_cong [OF same, of length] by (simp add: shape_def)
  have "shape cfg' ! gi = shape cfg ! gi" by (simp add: same)
  with gi len show ?thesis by (simp add: shape_def)
qed

text \<open>What is kept and added when servers are started: \<open>xs\<close> are the names of the new ends, \<open>S\<close> those of the servers.\<close>

definition extends :: "'v skconfig \<Rightarrow> string list \<Rightarrow> string set \<Rightarrow> 'v skconfig \<Rightarrow> bool" where
  "extends cfg xs S cfg' \<longleftrightarrow> sk_n cfg' = sk_n cfg \<and> nctrlers cfg' = nctrlers cfg \<and>
     (\<forall>x. ends (sk_net cfg') x \<noteq> None \<longleftrightarrow> ends (sk_net cfg) x \<noteq> None \<or> x \<in> end_names xs) \<and>
     (\<forall>x. servers (sk_net cfg') x \<noteq> None \<longleftrightarrow> servers (sk_net cfg) x \<noteq> None \<or> x \<in> (\<lambda>s. Some (StrName s)) ` S)"

lemma extends_trans: "extends cfg xs S cfg1 \<Longrightarrow> extends cfg1 ys T cfg2 \<Longrightarrow> extends cfg (xs @ ys) (S \<union> T) cfg2"
  by (simp add: extends_def end_names_append image_Un)

lemma extends_fresh:
  "extends cfg xs S cfg' \<Longrightarrow> e \<notin> set xs \<Longrightarrow> ends (sk_net cfg) (Some (StrName e)) = None \<Longrightarrow> ends (sk_net cfg') (Some (StrName e)) = None"
proof -
  assume "extends cfg xs S cfg'" "e \<notin> set xs" "ends (sk_net cfg) (Some (StrName e)) = None"
  then have "\<not> ends (sk_net cfg') (Some (StrName e)) \<noteq> None" unfolding extends_def by (metis end_names_in)
  then show ?thesis by simp
qed

lemma start_each_succeeds:
  assumes "\<And>i. i \<in> set S \<Longrightarrow> length (nm i) = sk_n cfg \<and> length (mn i) = nctrlers cfg" and "gi < length (groups cfg)"
    and "\<And>i. i \<in> set S \<Longrightarrow> i < length (mendnames (groups cfg ! gi))"
    and "distinct (concat (map (\<lambda>i. nm i @ mn i) S))"
    and "\<And>e. e \<in> set (concat (map (\<lambda>i. nm i @ mn i) S)) \<Longrightarrow> ends (sk_net cfg) (Some (StrName e)) = None"
  shows "\<exists>cfg'. start_each nm mn gi S cfg = Inr cfg' \<and> shape cfg' = shape cfg \<and>
    extends cfg (concat (map (\<lambda>i. nm i @ mn i) S)) (servername (gid (groups cfg ! gi)) ` set S) cfg'"
  using assms
proof (induction S arbitrary: cfg)
  case Nil
  then show ?case by (simp add: extends_def end_names_def)
next
  case (Cons i S)
  let ?g = "gid (groups cfg ! gi)"
  have nm: "length (nm i) = sk_n cfg" "length (mn i) = nctrlers cfg" using Cons.prems(1) [of i] by simp_all
  have "\<exists>cfg1. sk_StartServer (nm i) (mn i) gi i cfg = Inr cfg1"
    by (rule sk_StartServer_succeeds [OF nm]) (use Cons.prems(3,4,5) in auto)
  then obtain cfg1 where s: "sk_StartServer (nm i) (mn i) gi i cfg = Inr cfg1" by blast
  note r = sk_StartServer_result [OF s nm]
  have x1: "extends cfg (nm i @ mn i) {servername ?g i} cfg1" unfolding extends_def using r(3-6) by simp
  note rows = shape_rows [OF Cons.prems(2) r(2)]
  have "\<exists>cfg'. start_each nm mn gi S cfg1 = Inr cfg' \<and> shape cfg' = shape cfg1 \<and>
      extends cfg1 (concat (map (\<lambda>i. nm i @ mn i) S)) (servername (gid (groups cfg1 ! gi)) ` set S) cfg'"
  proof (rule Cons.IH)
    show "ends (sk_net cfg1) (Some (StrName e)) = None" if "e \<in> set (concat (map (\<lambda>i. nm i @ mn i) S))" for e
      by (rule extends_fresh [OF x1]) (use Cons.prems(4,5) that in auto)
  qed (use Cons.prems(1-4) r(3,4) rows in auto)
  then obtain cfg' where c: "start_each nm mn gi S cfg1 = Inr cfg'" "shape cfg' = shape cfg1"
    "extends cfg1 (concat (map (\<lambda>i. nm i @ mn i) S)) (servername ?g ` set S) cfg'" using rows by auto
  have "extends cfg (concat (map (\<lambda>i. nm i @ mn i) (i # S))) (servername ?g ` set (i # S)) cfg'"
    using extends_trans [OF x1 c(3)] by (simp add: insert_is_Un [symmetric])
  with s c r(2) show ?case by auto
qed

lemma start_each_fails:
  assumes "\<And>i. length (nm i) = sk_n cfg \<and> length (mn i) = nctrlers cfg" and "gi < length (groups cfg)"
    and "k \<in> set S" "length (mendnames (groups cfg ! gi)) \<le> k"
  shows "\<exists>e. start_each nm mn gi S cfg = Inl e"
  using assms
proof (induction S arbitrary: cfg)
  case (Cons i S)
  show ?case
  proof (cases "sk_StartServer (nm i) (mn i) gi i cfg")
    case (Inr cfg1)
    have nm: "length (nm i) = sk_n cfg" "length (mn i) = nctrlers cfg" using Cons.prems(1) by simp_all
    note r = sk_StartServer_result [OF Inr nm]
    have "k \<in> set S" using Cons.prems(3,4) r(1) by auto
    then show ?thesis using Cons.IH [of cfg1] Cons.prems r(3,4) shape_rows [OF Cons.prems(2) r(2)] Inr by simp
  qed simp
qed simp

section \<open>Making a test bed\<close>

lemma StartCtrlerserver_extends:
  assumes nm: "length nm = nctrlers cfg" "distinct nm" "\<And>e. e \<in> set nm \<Longrightarrow> ends (sk_net cfg) (Some (StrName e)) = None"
  shows "\<exists>cfg'. StartCtrlerserver nm i cfg = Inr cfg' \<and> extends cfg nm {ctrlername i} cfg'"
proof -
  obtain es rn where o: "open_ends (to_ctrlers nm cfg) (sk_net cfg) = Inr (es, rn)"
    using open_ends_succeeds [of "to_ctrlers nm cfg" "sk_net cfg"] nm by (auto simp: to_ctrlers_def)
  have r: "servers rn = servers (sk_net cfg)" "\<And>x. ends rn x \<noteq> None \<longleftrightarrow> ends (sk_net cfg) x \<noteq> None \<or> x \<in> end_names nm"
    using open_ends_result [OF o] nm by (simp_all add: to_ctrlers_def)
  show ?thesis unfolding StartCtrlerserver_def o Let_def extends_def using r by (auto simp: Ctrler_StartServer_def split: prod.split)
qed

lemma start_ctrlers_extends:
  assumes "\<And>i. length (nm i) = nctrlers cfg" "distinct (concat (map nm S))"
    "\<And>e. e \<in> set (concat (map nm S)) \<Longrightarrow> ends (sk_net cfg) (Some (StrName e)) = None"
  shows "\<exists>cfg'. start_ctrlers nm S cfg = Inr cfg' \<and> extends cfg (concat (map nm S)) (ctrlername ` set S) cfg'"
  using assms
proof (induction S arbitrary: cfg)
  case Nil
  then show ?case by (simp add: extends_def end_names_def)
next
  case (Cons i S)
  have "\<exists>cfg1. StartCtrlerserver (nm i) i cfg = Inr cfg1 \<and> extends cfg (nm i) {ctrlername i} cfg1"
    by (rule StartCtrlerserver_extends) (use Cons.prems in auto)
  then obtain cfg1 where s: "StartCtrlerserver (nm i) i cfg = Inr cfg1" and x: "extends cfg (nm i) {ctrlername i} cfg1" by blast
  have "\<exists>cfg'. start_ctrlers nm S cfg1 = Inr cfg' \<and> extends cfg1 (concat (map nm S)) (ctrlername ` set S) cfg'"
  proof (rule Cons.IH)
    show "length (nm j) = nctrlers cfg1" for j using Cons.prems(1) x by (simp add: extends_def)
    show "ends (sk_net cfg1) (Some (StrName e)) = None" if "e \<in> set (concat (map nm S))" for e
      by (rule extends_fresh [OF x]) (use Cons.prems(2,3) that in auto)
  qed (use Cons.prems(2) in simp)
  then obtain cfg' where c: "start_ctrlers nm S cfg1 = Inr cfg'" "extends cfg1 (concat (map nm S)) (ctrlername ` set S) cfg'" by blast
  from extends_trans [OF x c(2)] s c(1) show ?case by (simp add: insert_is_Un [symmetric])
qed

text \<open>The shape of a group that has been made.\<close>

definition made :: "nat \<Rightarrow> nat \<Rightarrow> int \<times> nat \<times> nat" where
  "made n gi = (100 + int gi, n, 3)"

lemma make_groups_succeeds:
  assumes "length (groups cfg) = 3" "nctrlers cfg = 3" "sk_n cfg \<le> 3" "set gis \<subseteq> {..<3}" "distinct gis"
    and "\<And>gi i. length (nm gi i) = sk_n cfg \<and> length (mn gi i) = 3"
    and "distinct (concat (map (\<lambda>gi. concat (map (\<lambda>i. nm gi i @ mn gi i) [0..<sk_n cfg])) gis))"
    and "\<And>e. e \<in> set (concat (map (\<lambda>gi. concat (map (\<lambda>i. nm gi i @ mn gi i) [0..<sk_n cfg])) gis)) \<Longrightarrow>
      ends (sk_net cfg) (Some (StrName e)) = None"
  shows "\<exists>cfg'. make_groups nm mn gis cfg = Inr cfg' \<and>
    extends cfg (concat (map (\<lambda>gi. concat (map (\<lambda>i. nm gi i @ mn gi i) [0..<sk_n cfg])) gis))
      (\<Union>gi \<in> set gis. servername (100 + int gi) ` {..<sk_n cfg}) cfg' \<and>
    length (shape cfg') = 3 \<and> (\<forall>gi < 3. shape cfg' ! gi = (if gi \<in> set gis then made (sk_n cfg) gi else shape cfg ! gi))"
  using assms
proof (induction gis arbitrary: cfg)
  case Nil
  then show ?case by (simp add: extends_def end_names_def shape_def)
next
  case (Cons gi gis)
  let ?c = "set_group gi (\<lambda>_. new_group gi cfg) cfg" and ?n = "sk_n cfg"
  let ?xs = "concat (map (\<lambda>i. nm gi i @ mn gi i) [0..<?n])"
  have gi: "gi < length (groups cfg)" using Cons.prems(1,4) by simp
  have gg: "groups ?c ! gi = new_group gi cfg" "gid (new_group gi cfg) = 100 + int gi" "set [0..<?n] = {..<?n}"
    using gi by (auto simp: new_group_def)
  have "\<exists>cfg1. start_each (nm gi) (mn gi) gi [0..<?n] ?c = Inr cfg1 \<and> shape cfg1 = shape ?c \<and>
      extends ?c ?xs (servername (gid (groups ?c ! gi)) ` set [0..<?n]) cfg1"
  proof (rule start_each_succeeds)
    show "distinct ?xs" using Cons.prems(7) by simp
    show "ends (sk_net ?c) (Some (StrName e)) = None" if "e \<in> set ?xs" for e
      using Cons.prems(8) [of e] that by auto
  qed (use Cons.prems(2,3,6) gi in \<open>auto simp: new_group_def\<close>)
  then obtain cfg1 where s: "start_each (nm gi) (mn gi) gi [0..<?n] ?c = Inr cfg1" and sh: "shape cfg1 = shape ?c"
    and x: "extends ?c ?xs (servername (100 + int gi) ` {..<?n}) cfg1"
    unfolding gg by blast
  have x1: "extends cfg ?xs (servername (100 + int gi) ` {..<?n}) cfg1" using x by (simp add: extends_def)
  have n1: "sk_n cfg1 = ?n" "nctrlers cfg1 = 3" using x Cons.prems(2) by (simp_all add: extends_def)
  have sh1: "shape cfg1 = (shape cfg)[gi := made ?n gi]"
    unfolding sh using Cons.prems(2) by (simp add: shape_def map_update new_group_def made_def)
  have "length (groups cfg1) = 3" using arg_cong [OF sh1, of length] Cons.prems(1) unfolding shape_def length_list_update length_map by simp
  moreover have "ends (sk_net cfg1) (Some (StrName e)) = None"
    if "e \<in> set (concat (map (\<lambda>gi. concat (map (\<lambda>i. nm gi i @ mn gi i) [0..<?n])) gis))" for e
    by (rule extends_fresh [OF x1]) (use Cons.prems(7,8) that in auto)
  ultimately obtain cfg' where c: "make_groups nm mn gis cfg1 = Inr cfg'"
    "extends cfg1 (concat (map (\<lambda>gi. concat (map (\<lambda>i. nm gi i @ mn gi i) [0..<?n])) gis))
       (\<Union>gi \<in> set gis. servername (100 + int gi) ` {..<?n}) cfg'"
    "length (shape cfg') = 3" "\<forall>gi < 3. shape cfg' ! gi = (if gi \<in> set gis then made ?n gi else shape cfg1 ! gi)"
    using Cons.IH [of cfg1] n1 Cons.prems(3-7) by auto
  have "length (shape cfg) = 3" using Cons.prems(1) by (simp add: shape_def)
  then have "\<forall>k < 3. shape cfg' ! k = (if k \<in> set (gi # gis) then made ?n k else shape cfg ! k)"
    using c(4) sh1 by (auto simp: nth_list_update)
  with extends_trans [OF x1 c(2)] s c(1,3) show ?case by simp
qed

lemma make_groups_fails:
  assumes "length (groups cfg) = 3" "nctrlers cfg = 3" "3 < sk_n cfg" "gi < 3"
    and "\<And>gi i. length (nm gi i) = sk_n cfg \<and> length (mn gi i) = 3"
  shows "\<exists>e. make_groups nm mn (gi # gis) cfg = Inl e"
proof -
  let ?c = "set_group gi (\<lambda>_. new_group gi cfg) cfg"
  have "\<exists>e. start_each (nm gi) (mn gi) gi [0..<sk_n cfg] ?c = Inl e"
    by (rule start_each_fails [where k = 3]) (use assms in \<open>simp_all add: new_group_def\<close>)
  then show ?thesis by auto
qed

text \<open>Names of the ends as the program draws them: one per controller or server, and all different.\<close>

definition all_names :: "(nat \<Rightarrow> string list) \<Rightarrow> string list \<Rightarrow> (nat \<Rightarrow> nat \<Rightarrow> string list) \<Rightarrow> (nat \<Rightarrow> nat \<Rightarrow> string list) \<Rightarrow> nat \<Rightarrow> string list" where
  "all_names cn kn nm mn n =
     concat (map cn [0..<3]) @ kn @ concat (map (\<lambda>gi. concat (map (\<lambda>i. nm gi i @ mn gi i) [0..<n])) [0..<3])"

definition drawn :: "(nat \<Rightarrow> string list) \<Rightarrow> string list \<Rightarrow> (nat \<Rightarrow> nat \<Rightarrow> string list) \<Rightarrow> (nat \<Rightarrow> nat \<Rightarrow> string list) \<Rightarrow> nat \<Rightarrow> bool" where
  "drawn cn kn nm mn n \<longleftrightarrow> (\<forall>i. length (cn i) = 3) \<and> length kn = 3 \<and> (\<forall>gi i. length (nm gi i) = n \<and> length (mn gi i) = 3) \<and>
     distinct (all_names cn kn nm mn n)"

text \<open>The controllers and their clerk, before the groups are made.\<close>

definition ready :: "nat \<Rightarrow> netName ClientEnd list \<Rightarrow> 'v skconfig \<Rightarrow> 'v skconfig" where
  "ready n es cfg = cfg\<lparr>mck := es, ngroups := 3,
     groups := replicate 3 \<lparr>gid = 0, g_servers = [], g_saved = [], g_endnames = [], mendnames = []\<rparr>, sk_n := n\<rparr>"

lemma ready_same [simp]:
  "sk_net (ready n es cfg) = sk_net cfg" "nctrlers (ready n es cfg) = nctrlers cfg" "sk_n (ready n es cfg) = n" "length (groups (ready n es cfg)) = 3"
  by (simp_all add: ready_def)

lemma make_start:
  assumes "drawn cn kn nm mn n"
  obtains es and cfg :: "'v skconfig" where
    "make_skconfig cn kn nm mn n unreliable maxraft =
       (case make_groups nm mn [0..<3] (ready n es cfg) of
          Inl e \<Rightarrow> Inl e
        | Inr cfg \<Rightarrow> Inr (cfg\<lparr>sk_clerks := (\<lambda>_. None), sk_nextClientId := int n + 1000, sk_net := Reliable (\<not> unreliable) (sk_net cfg)\<rparr>))"
    "nctrlers cfg = 3" "\<forall>x. ends (sk_net cfg) x \<noteq> None \<longleftrightarrow> x \<in> end_names (concat (map cn [0..<3]) @ kn)"
    "\<forall>i < 3. servers (sk_net cfg) (Some (StrName (ctrlername i))) \<noteq> None"
proof -
  have dist: "distinct (concat (map cn [0..<3]) @ kn)" and len: "\<And>i. length (cn i) = 3" "length kn = 3"
    using assms by (auto simp: drawn_def all_names_def)
  let ?e = "empty_skconfig maxraft :: 'v skconfig"
  have e: "nctrlers ?e = 3" "ends (sk_net ?e) x = None" "servers (sk_net ?e) x = None" for x by (simp_all add: empty_skconfig_def MakeNetwork_def)
  obtain cfg1 where c: "start_ctrlers cn [0..<3] ?e = Inr cfg1" "extends ?e (concat (map cn [0..<3])) (ctrlername ` set [0..<3]) cfg1"
    using start_ctrlers_extends [of cn ?e "[0..<3]"] dist len e by fastforce
  have n1: "nctrlers cfg1 = 3" using c(2) e by (simp add: extends_def)
  have fresh: "ends (sk_net cfg1) (Some (StrName x)) = None" if "x \<in> set kn" for x
    by (rule extends_fresh [OF c(2)]) (use that dist e in auto)
  obtain es rn where o: "open_ends (to_ctrlers kn cfg1) (sk_net cfg1) = Inr (es, rn)"
    using open_ends_succeeds [of "to_ctrlers kn cfg1" "sk_net cfg1"] fresh dist len n1 by (auto simp: to_ctrlers_def)
  have r: "servers rn = servers (sk_net cfg1)" "\<And>x. ends rn x \<noteq> None \<longleftrightarrow> ends (sk_net cfg1) x \<noteq> None \<or> x \<in> end_names kn"
    using open_ends_result [OF o] len n1 by (simp_all add: to_ctrlers_def)
  let ?c = "cfg1\<lparr>sk_net := rn\<rparr>"
  have m: "make_skconfig cn kn nm mn n unreliable maxraft =
       (case make_groups nm mn [0..<3] (ready n es ?c) of
          Inl e \<Rightarrow> Inl e
        | Inr cfg \<Rightarrow> Inr (cfg\<lparr>sk_clerks := (\<lambda>_. None), sk_nextClientId := int n + 1000, sk_net := Reliable (\<not> unreliable) (sk_net cfg)\<rparr>))"
    unfolding make_skconfig_def shardclerk_def c(1) sum.case o prod.case Let_def ready_def by (rule refl)
  show ?thesis
  proof (rule that [OF m])
    show "\<forall>x. ends (sk_net ?c) x \<noteq> None \<longleftrightarrow> x \<in> end_names (concat (map cn [0..<3]) @ kn)"
      using r(2) c(2) e by (simp add: extends_def end_names_append)
    show "\<forall>i < 3. servers (sk_net ?c) (Some (StrName (ctrlername i))) \<noteq> None"
      using r(1) c(2) by (simp add: extends_def)
  qed (simp add: n1)
qed

lemma make_result:
  assumes d: "drawn cn kn nm mn n" and n: "n \<le> 3"
  shows "\<exists>cfg :: 'v skconfig. make_skconfig cn kn nm mn n unreliable maxraft = Inr cfg \<and> sk_n cfg = n \<and> nctrlers cfg = 3 \<and>
    length (groups cfg) = 3 \<and> (\<forall>gi < 3. gid (groups cfg ! gi) = 100 + int gi) \<and>
    (\<forall>x. ends (sk_net cfg) x \<noteq> None \<longleftrightarrow> x \<in> end_names (all_names cn kn nm mn n)) \<and>
    (\<forall>gi < 3. \<forall>i < n. servers (sk_net cfg) (Some (StrName (servername (100 + int gi) i))) \<noteq> None)"
proof -
  obtain es and cfg0 :: "'v skconfig" where m: "make_skconfig cn kn nm mn n unreliable maxraft =
       (case make_groups nm mn [0..<3] (ready n es cfg0) of
          Inl e \<Rightarrow> Inl e
        | Inr cfg \<Rightarrow> Inr (cfg\<lparr>sk_clerks := (\<lambda>_. None), sk_nextClientId := int n + 1000, sk_net := Reliable (\<not> unreliable) (sk_net cfg)\<rparr>))"
    and c0: "nctrlers cfg0 = 3" "\<forall>x. ends (sk_net cfg0) x \<noteq> None \<longleftrightarrow> x \<in> end_names (concat (map cn [0..<3]) @ kn)"
    by (rule make_start [OF d, of unreliable maxraft])
  let ?xs = "concat (map (\<lambda>gi. concat (map (\<lambda>i. nm gi i @ mn gi i) [0..<n])) [0..<3])"
  have "distinct ((concat (map cn [0..<3]) @ kn) @ ?xs)" using d by (simp only: drawn_def all_names_def append_assoc)
  then have dist: "distinct ?xs" "\<And>e. e \<in> set ?xs \<Longrightarrow> e \<notin> set (concat (map cn [0..<3]) @ kn)"
    unfolding distinct_append [of "concat (map cn [0..<3]) @ kn"] by blast+
  have fresh: "ends (sk_net (ready n es cfg0)) (Some (StrName e)) = None" if "e \<in> set ?xs" for e
    using c0(2) [rule_format, of "Some (StrName e)"] dist(2) [OF that] by (simp only: end_names_in ready_same) blast
  have "\<exists>cfg'. make_groups nm mn [0..<3] (ready n es cfg0) = Inr cfg' \<and>
    extends (ready n es cfg0) (concat (map (\<lambda>gi. concat (map (\<lambda>i. nm gi i @ mn gi i) [0..<sk_n (ready n es cfg0)])) [0..<3]))
      (\<Union>gi \<in> set [0..<3]. servername (100 + int gi) ` {..<sk_n (ready n es cfg0)}) cfg' \<and>
    length (shape cfg') = 3 \<and> (\<forall>gi < 3. shape cfg' ! gi = (if gi \<in> set [0..<3] then made (sk_n (ready n es cfg0)) gi else shape (ready n es cfg0) ! gi))"
    by (rule make_groups_succeeds) (use d n c0(1) dist(1) fresh in \<open>simp_all add: drawn_def atLeast0LessThan\<close>)
  then obtain cfg1 where g: "make_groups nm mn [0..<3] (ready n es cfg0) = Inr cfg1"
    and x: "extends (ready n es cfg0) ?xs (\<Union>gi \<in> set [0..<3]. servername (100 + int gi) ` {..<n}) cfg1"
    and sh: "length (shape cfg1) = 3" "\<And>gi. gi < 3 \<Longrightarrow> shape cfg1 ! gi = made n gi" by auto
  let ?c = "cfg1\<lparr>sk_clerks := (\<lambda>_. None), sk_nextClientId := int n + 1000, sk_net := Reliable (\<not> unreliable) (sk_net cfg1)\<rparr>"
  have "gid (groups cfg1 ! gi) = 100 + int gi" if "gi < 3" for gi
    using sh that by (simp add: shape_def made_def)
  moreover have "ends (sk_net cfg1) x \<noteq> None \<longleftrightarrow> x \<in> end_names (all_names cn kn nm mn n)" for x
    using x c0(2) [rule_format, of x] by (simp add: extends_def all_names_def end_names_append)
  moreover have "servers (sk_net cfg1) (Some (StrName (servername (100 + int gi) i))) \<noteq> None" if "gi < 3" "i < n" for gi i
  proof -
    have "servername (100 + int gi) i \<in> (\<Union>gi \<in> set [0..<3]. servername (100 + int gi) ` {..<n})" using that by auto
    then show ?thesis using x unfolding extends_def by blast
  qed
  moreover have "make_skconfig cn kn nm mn n unreliable maxraft = Inr ?c" using m g by simp
  ultimately show ?thesis using x c0(1) sh(1) by (intro exI [of _ ?c]) (simp add: extends_def Reliable_def shape_def)
qed

lemma make_too_many:
  assumes d: "drawn cn kn nm mn n" and n: "3 < n"
  shows "\<exists>e. make_skconfig cn kn nm mn n unreliable maxraft = (Inl e :: string + 'v skconfig)"
proof -
  obtain es and cfg0 :: "'v skconfig" where m: "make_skconfig cn kn nm mn n unreliable maxraft =
       (case make_groups nm mn [0..<3] (ready n es cfg0) of
          Inl e \<Rightarrow> Inl e
        | Inr cfg \<Rightarrow> Inr (cfg\<lparr>sk_clerks := (\<lambda>_. None), sk_nextClientId := int n + 1000, sk_net := Reliable (\<not> unreliable) (sk_net cfg)\<rparr>))"
    and c0: "nctrlers cfg0 = 3"
    by (rule make_start [OF d, of unreliable maxraft])
  have "[0..<3] = 0 # [Suc 0..<3]" by (simp add: upt_rec)
  then have "\<exists>e. make_groups nm mn [0..<3] (ready n es cfg0) = Inl e"
    using make_groups_fails [of "ready n es cfg0" 0 nm mn "[Suc 0..<3]"] n c0 d by (simp add: drawn_def)
  with m show ?thesis by auto
qed

text \<open>
  C39: the test bed of the sharded service works for groups of three servers only. With more, making it panics at
  the fourth server, for which there is no row of controller ends; with fewer it is made, but the first client panics, whose
  list of names has one entry per server instead of one per controller.
\<close>

theorem sharded_bed_needs_three:
  assumes d: "drawn cn kn nm mn n" and names: "length xs = 3" "distinct xs" "set xs \<inter> set (all_names cn kn nm mn n) = {}"
  shows "case make_skconfig cn kn nm mn n unreliable maxraft of
      Inl _ \<Rightarrow> 3 < n
    | Inr (cfg :: 'v skconfig) \<Rightarrow> n \<le> 3 \<and> ((\<exists>ck cfg'. sk_makeClient xs cfg = Inr (ck, cfg')) \<longleftrightarrow> n = 3)"
proof (cases "n \<le> 3")
  case True
  obtain cfg :: "'v skconfig" where m: "make_skconfig cn kn nm mn n unreliable maxraft = Inr cfg" "sk_n cfg = n" "nctrlers cfg = 3"
    and e: "\<And>x. ends (sk_net cfg) x \<noteq> None \<longleftrightarrow> x \<in> end_names (all_names cn kn nm mn n)"
    using make_result [OF d True, of unreliable maxraft] by blast
  have fresh: "ends (sk_net cfg) (Some (StrName x)) = None" if "x \<in> set xs" for x
    using e [of "Some (StrName x)"] names(3) that by (simp only: end_names_in) blast
  have "\<exists>ck cfg'. sk_makeClient xs cfg = Inr (ck, cfg')" if "n = 3"
  proof -
    have "\<exists>es rn. open_ends (to_ctrlers xs cfg) (sk_net cfg) = Inr (es, rn)"
      by (rule open_ends_succeeds) (use fresh names m in \<open>simp_all add: to_ctrlers_def\<close>)
    moreover have "take (sk_n cfg) (to_ctrlers xs cfg) = to_ctrlers xs cfg" using that m names by (simp add: to_ctrlers_def)
    ultimately show ?thesis using m that by (auto simp: sk_makeClient_def Let_def)
  qed
  moreover have "n = 3" if "sk_makeClient xs cfg = Inr (ck, cfg')" for ck cfg'
    using that True m by (auto simp: sk_makeClient_def split: sum.splits if_splits)
  ultimately show ?thesis using m True by auto
next
  case False
  then show ?thesis using make_too_many [OF d, where ?'v = 'v, of unreliable maxraft] by auto
qed

text \<open>
  A group joins under the names of its running servers: every name that \<open>joinm\<close> sends to the controller is that of a
  registered server of a group that is joining.
\<close>

theorem joined_servers_running:
  assumes d: "drawn cn kn nm mn n" and m: "make_skconfig cn kn nm mn n unreliable maxraft = Inr (cfg :: 'v skconfig)"
    and gis: "set gis \<subseteq> {..<3}" and j: "join_groups gis cfg g = Some ss"
  shows "(\<exists>gi \<in> set gis. g = 100 + int gi) \<and> length ss = n \<and> (\<forall>s \<in> set ss. servers (sk_net cfg) (Some (StrName s)) \<noteq> None)"
proof -
  have n: "n \<le> 3"
  proof (rule ccontr)
    assume "\<not> n \<le> 3"
    with make_too_many [OF d, where ?'v = 'v, of unreliable maxraft] m show False by auto
  qed
  have c: "sk_n cfg = n" "\<And>gi. gi < 3 \<Longrightarrow> gid (groups cfg ! gi) = 100 + int gi"
    "\<And>gi i. gi < 3 \<Longrightarrow> i < n \<Longrightarrow> servers (sk_net cfg) (Some (StrName (servername (100 + int gi) i))) \<noteq> None"
    using make_result [OF d n, where ?'v = 'v, of unreliable maxraft] m by (auto simp del: not_None_eq)
  have "join_groups gis cfg g = Some ss \<Longrightarrow> \<exists>gi \<in> set gis. g = 100 + int gi \<and> ss = map (servername g) [0..<n]"
    using gis unfolding join_groups_def
    by (induction gis rule: rev_induct) (auto simp: c split: if_splits)
  then obtain gi where gi: "gi \<in> set gis" "g = 100 + int gi" "ss = map (servername g) [0..<n]" using j by blast
  have "servers (sk_net cfg) (Some (StrName s)) \<noteq> None" if "s \<in> set ss" for s
    using that gi gis c(3) [of gi] by auto
  with gi show ?thesis by auto
qed

section \<open>An example\<close>

theorem server_names_differ_witness:
  "servername 100 1 \<noteq> servername 101 1 \<and> servername 100 1 \<noteq> servername 100 2 \<and> servername 100 1 \<noteq> ctrlername 2"
  using server_names_differ [of 100 101 1 1] server_names_differ [of 100 100 1 2] by auto

text \<open>Names with a letter for their use and the numbers of group, server and end.\<close>

definition ex_name :: "char \<Rightarrow> nat \<Rightarrow> nat \<Rightarrow> nat \<Rightarrow> string" where
  "ex_name c gi i j = [c, char_of gi, char_of i, char_of j]"

definition ex_cnames :: "nat \<Rightarrow> string list" where
  "ex_cnames i = map (ex_name CHR ''c'' 0 i) [0..<3]"

definition ex_knames :: "string list" where
  "ex_knames = map (ex_name CHR ''k'' 0 0) [0..<3]"

definition ex_snames :: "nat \<Rightarrow> nat \<Rightarrow> nat \<Rightarrow> string list" where
  "ex_snames n gi i = map (ex_name CHR ''s'' gi i) [0..<n]"

definition ex_mnames :: "nat \<Rightarrow> nat \<Rightarrow> string list" where
  "ex_mnames gi i = map (ex_name CHR ''m'' gi i) [0..<3]"

lemma ex_drawn: "drawn ex_cnames ex_knames (ex_snames 3) ex_mnames 3"
proof -
  have "distinct (all_names ex_cnames ex_knames (ex_snames 3) ex_mnames 3)" by code_simp
  then show ?thesis by (simp add: drawn_def ex_cnames_def ex_knames_def ex_snames_def ex_mnames_def)
qed

theorem sharded_bed_needs_three_witness:
  "case make_skconfig ex_cnames ex_knames (ex_snames 3) ex_mnames 3 False (-1) of
      Inl _ \<Rightarrow> False
    | Inr (cfg :: unit skconfig) \<Rightarrow> \<exists>ck cfg'. sk_makeClient [''x'', ''y'', ''z''] cfg = Inr (ck, cfg')"
proof -
  have "set [''x'', ''y'', ''z''] \<inter> set (all_names ex_cnames ex_knames (ex_snames 3) ex_mnames 3) = {}" by code_simp
  with sharded_bed_needs_three [OF ex_drawn, of "[''x'', ''y'', ''z'']" False "-1", where ?'v = unit]
  show ?thesis by (simp split: sum.splits)
qed

definition ex_sharded :: "unit skconfig" where
  "ex_sharded = projr (make_skconfig ex_cnames ex_knames (ex_snames 3) ex_mnames 3 False (-1))"

theorem joined_servers_running_witness:
  "\<forall>s \<in> set (map (servername 101) [0..<3]). servers (sk_net ex_sharded) (Some (StrName s)) \<noteq> None"
proof -
  obtain cfg :: "unit skconfig" where c: "make_skconfig ex_cnames ex_knames (ex_snames 3) ex_mnames 3 False (-1) = Inr cfg"
    "sk_n cfg = 3" "\<forall>gi < 3. gid (groups cfg ! gi) = 100 + int gi"
    using make_result [OF ex_drawn, where ?'v = unit, of False "-1"] by auto
  then have "cfg = ex_sharded" "join_groups [1] cfg 101 = Some (map (servername 101) [0..<3])"
    by (simp_all add: ex_sharded_def join_groups_def)
  with joined_servers_running [OF ex_drawn c(1), of "[1]" 101] show ?thesis by simp
qed

end
