(* ===== verification/Spec2Isabelle.thy ===== *)
theory Spec2Isabelle
  imports Chord_Example MR_Example MR_Cloud Porcupine_Visualize HTTP_Example Labrpc_Example Labgob Raft_Checks Ctrl_Bed Shard_Bed
begin

text \<open>
  A verification of the distributed systems in this repository: an HTTP server, proxy and client
  (\<^verbatim>\<open>Lab1\<close>), a Chord ring that stores files (\<^verbatim>\<open>Lab2\<close>), and of \<^verbatim>\<open>Lab3/src\<close>
  the MapReduce system with its file server, the linearizability checker Porcupine with its key-value
  model and the data of its visualisation, the simulated network, the checks around the encoder, the
  persister, the test beds of Raft, of the key-value service, of the shard controller and of the sharded
  service, and the
  clerks of the shard controller and of the sharded service.

  \<^bold>\<open>Conventions.\<close> A struct is a record, an enumeration or a tagged value a datatype with the
  names of the source; a name that would clash carries a prefix. A Go map is a function to
  options, or an association list where the source ranges over it. Errors are values:
  \<open>None\<close> or \<open>Inl\<close> for an error return or the end of the process. State is passed
  explicitly; concurrent parts are inductive step relations in which a critical section, an
  RPC handler or a run of a periodic task is one step. Pointers and slices are addresses
  in an explicit memory where aliasing matters (the entry list of the checker, the persister). Code
  outside the repository enters by parameters: RSA encryption and decryption, address
  resolution, the user functions of MapReduce, the encoder, sorting. Random end names, and what a server
  answers at some time, are arguments, so that the theorems hold for all of them.

  \<^bold>\<open>Shared theories.\<close> \<open>Go_Prelude\<close>: strings, numbers as text, lists, reachability and
  the locale \<open>invariant_system\<close> that every state machine below interprets. \<open>Go_Crypto\<close>: SHA-1,
  the FNV hash and big integers. \<open>Go_Disk\<close>: files and directories, with the locale \<open>file_store\<close>.

  \<^bold>\<open>Chord\<close> (\<^verbatim>\<open>Lab2/Node\<close>). \<open>Chord_Ring\<close>: the interval test and the hash space of
  \<^verbatim>\<open>tools.go\<close>. \<open>Chord_Node\<close> and \<open>Chord_Store\<close>: node, bucket, backup and file handlers of
  \<^verbatim>\<open>node.go\<close>, with the locale \<open>put_store\<close> for both stores. \<open>Chord_Routing\<close>:
  \<^verbatim>\<open>routing.go\<close> over a network of nodes; a lookup forwards from node to node, which is bounded
  by fuel, and 64 hops are proved enough since the ring has 64 identifiers.
  \<open>Chord_Stabilize\<close>: the periodic tasks of \<^verbatim>\<open>stabilizing.go\<close>. \<open>Chord_Stable\<close>: the
  invariant of a ring with correct first successors, its preservation by every interleaving of the
  tasks and stores, and that no task panics on it. \<open>Chord_Fingers\<close>: the finger table is right after six
  rounds. \<open>Chord_Files\<close>: moving files to a new predecessor, backups and crashes.
  \<open>Chord_Client\<close>: the commands of \<^verbatim>\<open>tools.go\<close> and \<^verbatim>\<open>main.go\<close>, with the round
  trip of an encrypted file. \<open>Chord_Example\<close>: a concrete ring.

  \<^bold>\<open>MapReduce\<close> (\<^verbatim>\<open>Lab3/src/mr\<close>). \<open>MR_Coordinator\<close>: tables, handlers and timers of
  \<^verbatim>\<open>coordinator.go\<close> as a step relation; order of the phases, counters, single
  assignment, and that the job can always be finished. \<open>MR_Worker\<close>: \<^verbatim>\<open>worker.go\<close> on the
  shared directory, \<^verbatim>\<open>mrsequential.go\<close>, the applications (locale \<open>mr_app\<close>), and the
  equality of the distributed and the sequential result. \<open>MR_Job\<close>: one worker against a fresh
  coordinator; its loop gets as many rounds as there are tasks and is proved to return within them.
  \<open>MR_Example\<close>: a concrete job. \<open>Go_JSON\<close>: the JSON of the intermediate files, with its round
  trip. \<open>MR_Cloud\<close>: the file server of \<^verbatim>\<open>Lab3/FileServer\<close> and the cloud mode of worker and
  coordinator; the same equality for jobs on several machines, and what breaks it.

  \<^bold>\<open>Porcupine\<close> (\<^verbatim>\<open>Lab3/src/porcupine\<close>, \<^verbatim>\<open>Lab3/src/models\<close>).
  \<open>Porcupine_Bitset\<close>: \<^verbatim>\<open>bitset.go\<close> on 64-bit words, a refinement of finite sets (locale
  \<open>index_set\<close>). \<open>Porcupine_Model\<close>: histories, entries and the definition of
  linearizability. \<open>Porcupine_List\<close>: the doubly linked list of entries on a heap.
  \<open>Porcupine_Checker\<close>: the search of \<^verbatim>\<open>checker.go\<close>, a loop that is not known to end
  (\<open>partial_function (option)\<close>). \<open>Porcupine_Search\<close>: it ends, it does not panic, and it answers
  whether the history is linearizable. \<open>Porcupine_Parallel\<close>: the parallel check under
  every order of results and timeouts. \<open>Porcupine_Kv\<close>: \<^verbatim>\<open>kv.go\<close>; checking key by key decides
  linearizability of the whole store. \<open>Porcupine_Example\<close>: concrete histories.
  \<open>Porcupine_Visualize\<close>: the partial linearizations that a check keeps and the data that
  \<^verbatim>\<open>visualization.go\<close> makes of them; each is legal, so that its panic is never reached, and the
  sequence marked for an operation is a longest one.

  \<^bold>\<open>Simulated network\<close> (\<^verbatim>\<open>Lab3/src/labrpc\<close>). \<open>Labrpc_Network\<close>: the operations, and every
  call with the program points of its client, of \<open>processReq\<close> and of the handler.
  \<open>Labrpc_Proof\<close>: the invariant; a handler runs at most once per call; the counter.
  \<open>Labrpc_Delivery\<close>: deleted servers, return of every call in eleven steps of its own, success on a
  reliable connection. \<open>Labrpc_Example\<close>: a concrete run.
  \<open>Labgob\<close>: the traversal of types in \<^verbatim>\<open>Lab3/src/labgob\<close>; its recursion is bounded by the
  number of types plus one, which is proved enough, and the check of variables.
  \<open>Raft_Persister\<close>: \<^verbatim>\<open>Lab3/src/raft/persister.go\<close> refines a store of values.

  \<^bold>\<open>Raft test bed\<close> (\<^verbatim>\<open>Lab3/src/raft\<close>). \<open>Raft_Config\<close>: the skeleton of
  \<^verbatim>\<open>raft.go\<close> and the operations of \<^verbatim>\<open>config.go\<close> on the simulated network: start, crash, attach,
  detach. \<open>Raft_Links\<close> and \<open>Raft_Bed\<close>: the state machine of all runs of these operations, saves and
  applied messages; its invariant gives which links are enabled, that crashed instances are silent, that
  persisted state survives and that all tables are well-formed. \<open>Raft_Checks\<close>: the readers
  of the apply channels, snapshots, and the checks of leaders, terms, commits and agreements; the loops have
  the bounds of the source, and what they observe in each round is an argument.

  \<^bold>\<open>Key-value test bed\<close> (\<^verbatim>\<open>Lab3/src/kvraft\<close>). \<open>KV_Config\<close>: the operations of
  \<^verbatim>\<open>config.go\<close> and the objects of the skeleton. \<open>KV_Bed\<close> and \<open>KV_Runs\<close>: the links after
  partitions, restarts and new clerks, over all runs.

  \<^bold>\<open>Sharded service\<close> (\<^verbatim>\<open>Lab3/src/shardctrler\<close>, \<^verbatim>\<open>Lab3/src/shardkv\<close>).
  \<open>Shard_Client\<close>: both clerks, whose loops need not end (\<open>partial_function (option)\<close>); when they return and
  what. \<open>Ctrl_Config\<close> and \<open>Ctrl_Bed\<close>: the test bed of the controller, whose runs are those of the key-value
  test bed, so that what holds for links and restarts there holds here. \<open>Shard_Config\<close> and
  \<open>Shard_Bed\<close>: the test bed with controllers and groups, for which group sizes it works, and the
  names under which groups join.

  \<^bold>\<open>HTTP\<close> (\<^verbatim>\<open>Lab1\<close>). \<open>HTTP_Common\<close>: addresses and file types. \<open>HTTP_Server\<close>: the
  handlers and the loop over a connection. \<open>HTTP_Client\<close>: client and proxy; round trip of a
  file, and that the proxy is transparent. \<open>HTTP_Example\<close>: concrete requests.

  \<^bold>\<open>Not modelled.\<close> The HTML page of the visualisation and the JSON in it. The handlers of Raft, of the
  key-value service and of the shard services are empty skeletons in this repository; they are modelled as
  that, so there is no consensus to verify. Random strings, seeds and time limits of the test beds. The other
  main programs, which read command lines, and the test applications that measure the scheduler by sleeping.
  The read loop of the terminal, accept loops, tickers and locks: what runs under one lock is a
  step. Bytes on the wire: HTTP messages are typed values, the encoding of the simulated network is a
  parameter. Text functions are those of ASCII text. In the proxy, \<open>FirstRequestHandler\<close> and the
  two functions that are not called.
\<close>

end
